(* ===== verification/Prelude.thy ===== *)
theory Prelude
  imports Main "HOL-Library.Word" "HOL-Library.Multiset"
begin

text \<open>
  What the components of the pg\_rest model share: the return codes of
  \<^verbatim>\<open>include/pg_rest_core.h\<close>, the undefined behaviours of C that the sources can run
  into (as values of a datatype, so that a path that leaves the language's guarantees
  is a branch of the model and not a silent default), unsigned 64-bit arithmetic
  written out on \<open>nat\<close>, bytes as \<open>char\<close>, and the generic lemmas on lists and
  arithmetic that the component proofs use.
\<close>

section \<open>Collections of facts\<close>

named_theorems model_defs \<open>unfolding rules of the small accessor definitions\<close>
named_theorems wf_intros \<open>preservation rules of the well-formedness invariants\<close>
named_theorems size_simps \<open>lengths and sizes of the containers\<close>

section \<open>Bytes, words and undefined behaviour\<close>

type_synonym byte = char

datatype ub =
    NullDeref        \<comment> \<open>a null pointer is dereferenced\<close>
  | OutOfBounds      \<comment> \<open>a read or write outside the object\<close>
  | IntOverflow      \<comment> \<open>a signed value the type does not hold\<close>
  | NoReturn         \<comment> \<open>a loop of the source that does not end\<close>
  | Freed            \<comment> \<open>an access to memory that has been freed\<close>

type_synonym 'a run = "ub + 'a"

definition PGREST_OK :: int where "PGREST_OK = 0"
definition PGREST_ERROR :: int where "PGREST_ERROR = -1"
definition PGREST_AGAIN :: int where "PGREST_AGAIN = -2"
definition PGREST_DECLINED :: int where "PGREST_DECLINED = -5"

lemmas return_codes [model_defs] =
  PGREST_OK_def PGREST_ERROR_def PGREST_AGAIN_def PGREST_DECLINED_def

text \<open>\<open>size_t\<close> and \<open>uintptr_t\<close> of a 64-bit build.\<close>

definition WORD_MOD :: nat where "WORD_MOD = 2 ^ 64"

definition umul :: "nat \<Rightarrow> nat \<Rightarrow> nat" where "umul a b = (a * b) mod WORD_MOD"
definition uadd :: "nat \<Rightarrow> nat \<Rightarrow> nat" where "uadd a b = (a + b) mod WORD_MOD"
definition usub :: "nat \<Rightarrow> nat \<Rightarrow> nat" where
  "usub a b = (a + (WORD_MOD - b mod WORD_MOD)) mod WORD_MOD"

lemma umul_exact: "a * b < WORD_MOD \<Longrightarrow> umul a b = a * b"
  by (simp add: umul_def)

lemma uadd_exact: "a + b < WORD_MOD \<Longrightarrow> uadd a b = a + b"
  by (simp add: uadd_def)

lemma usub_exact: "b \<le> a \<Longrightarrow> a < WORD_MOD \<Longrightarrow> usub a b = a - b"
proof -
  assume "b \<le> a" "a < WORD_MOD"
  then have "a + (WORD_MOD - b mod WORD_MOD) = WORD_MOD + (a - b)" by simp
  with \<open>a < WORD_MOD\<close> show ?thesis by (simp add: usub_def)
qed

lemma usub_wraps: "a < b \<Longrightarrow> b < WORD_MOD \<Longrightarrow> usub a b = WORD_MOD + a - b"
  by (simp add: usub_def)

text \<open>The numeric value of a byte (an \<open>unsigned char\<close>).\<close>

abbreviation code :: "char \<Rightarrow> nat" where "code c \<equiv> of_char c"

abbreviation is_digit :: "char \<Rightarrow> bool" where
  "is_digit c \<equiv> 48 \<le> code c \<and> code c \<le> 57"

section \<open>Runs\<close>

text \<open>Sequencing of steps that may run into undefined behaviour, and the access through a pointer.\<close>

fun bind_ub :: "'a run \<Rightarrow> ('a \<Rightarrow> 'b run) \<Rightarrow> 'b run" where
  "bind_ub (Inl e) k = Inl e"
| "bind_ub (Inr a) k = k a"

definition deref :: "'a option \<Rightarrow> 'a run" where
  "deref p = (case p of None \<Rightarrow> Inl NullDeref | Some x \<Rightarrow> Inr x)"

lemma bind_ub_cong [fundef_cong]:
  "x = y \<Longrightarrow> (\<And>a. y = Inr a \<Longrightarrow> f a = g a) \<Longrightarrow> bind_ub x f = bind_ub y g"
  by (cases y) auto

lemma bind_ub_Inr: "bind_ub x f = Inr z \<longleftrightarrow> (\<exists>a. x = Inr a \<and> f a = Inr z)"
  by (cases x) auto

lemma map_sum_Inr: "map_sum id f x = Inr z \<longleftrightarrow> (\<exists>a. x = Inr a \<and> f a = z)"
  by (cases x) auto

lemma deref_Inr [simp]: "deref x = Inr a \<longleftrightarrow> x = Some a"
  by (simp add: deref_def split: option.split)

section \<open>Lists\<close>

lemma take_Suc_snoc: "n < length xs \<Longrightarrow> take (Suc n) xs = take n xs @ [xs ! n]"
  by (rule take_Suc_conv_app_nth)

lemma take_update_last: "n < length xs \<Longrightarrow> take (Suc n) (xs[n := x]) = take n xs @ [x]"
  by (simp add: take_Suc_conv_app_nth)

lemma rotate_index: "i < n \<Longrightarrow> (i + 1) mod n = (if Suc i = n then 0 else Suc i)"
  for i n :: nat
  by (auto simp: mod_Suc)

section \<open>Hexadecimal text\<close>

text \<open>The lower-case hexadecimal text of a number, the reference for the parsers of such text.\<close>

definition hex_digit :: "nat \<Rightarrow> byte" where
  "hex_digit v = (if v < 10 then char_of (48 + v) else char_of (87 + v))"

fun hex_of :: "nat \<Rightarrow> byte list" where
  "hex_of n = (if n < 16 then [hex_digit n] else hex_of (n div 16) @ [hex_digit (n mod 16)])"

declare hex_of.simps [simp del]

lemma length_hex_of: "n < 16 ^ k \<Longrightarrow> 0 < k \<Longrightarrow> length (hex_of n) \<le> k"
proof (induction n arbitrary: k rule: hex_of.induct)
  case (1 n)
  show ?case
  proof (cases "n < 16")
    case True
    with 1 show ?thesis by (simp add: hex_of.simps)
  next
    case False
    then have "k \<noteq> 1" using 1 by auto
    then obtain j where k: "k = Suc j" "0 < j" using 1 by (cases k) auto
    have "n div 16 < 16 ^ j" using 1 k by (simp add: less_mult_imp_div_less mult.commute)
    with 1(1) False k have "length (hex_of (n div 16)) \<le> j" by simp
    with False k show ?thesis by (simp add: hex_of.simps)
  qed
qed

end
