(* ===== verification/Strings.thy ===== *)
theory Strings
  imports Prelude
begin

text \<open>
  The string routines of \<^verbatim>\<open>src/pg_rest_string.c\<close> and \<^verbatim>\<open>include/pg_rest_string.h\<close>: lower
  casing, the bounded character search, counting the wildcards of a route, and the three
  decimal parsers. A \<^verbatim>\<open>pgrest_string_t\<close> (base and length) is the list of its bytes.
  The overflow-checked parsers are shown to compute exactly the decimal value, or the
  error code, on every input.
\<close>

text \<open>
  Where the address matters (the request's slices of the receive buffer), a string is the
  pair of address and length, with the address 0 for NULL, and \<^verbatim>\<open>pgrest_param_t\<close> a pair
  of such strings.
\<close>

record pgrest_iovec =
  base :: nat
  len :: nat

record pgrest_param =
  key :: pgrest_iovec
  param_value :: pgrest_iovec

section \<open>Case and search\<close>

definition pgrest_tolower :: "char \<Rightarrow> char" where
  "pgrest_tolower ch = (if 65 \<le> code ch \<and> code ch \<le> 90 then char_of (code ch + 32) else ch)"

definition pgrest_strtolower :: "string \<Rightarrow> string" where
  "pgrest_strtolower s = map pgrest_tolower s"

text \<open>The search returns the offset of the first match in \<open>[p, last)\<close>, None for NULL.\<close>

fun pgrest_strlchr :: "string \<Rightarrow> char \<Rightarrow> nat option" where
  "pgrest_strlchr [] c = None"
| "pgrest_strlchr (x # xs) c = (if x = c then Some 0 else map_option Suc (pgrest_strlchr xs c))"

definition pgrest_count_params :: "string \<Rightarrow> nat" where
  "pgrest_count_params path =
     (let n = length (filter (\<lambda>c. \<not> (c \<noteq> CHR '':'' \<and> c \<noteq> CHR ''*'')) path)
      in if n \<ge> 255 then 255 else n)"

section \<open>Decimal parsers\<close>

definition digit_val :: "char \<Rightarrow> int" where
  "digit_val c = int (code c) - 48"

text \<open>
  The loop that \<^verbatim>\<open>pgrest_atoof\<close> and \<^verbatim>\<open>pgrest_atotm\<close> both contain; \<open>mx\<close> is the
  largest value of the result's type, from which the C computes \<open>cutoff\<close> and \<open>cutlim\<close>.
\<close>

fun ato_loop :: "int \<Rightarrow> int \<Rightarrow> string \<Rightarrow> int" where
  "ato_loop mx value [] = value"
| "ato_loop mx value (c # line) =
     (if code c < 48 \<or> code c > 57 then PGREST_ERROR
      else if value \<ge> mx div 10 \<and> (value > mx div 10 \<or> digit_val c > mx mod 10) then PGREST_ERROR
      else ato_loop mx (value * 10 + digit_val c) line)"

definition PGREST_MAX_OFF_T_VALUE :: int where
  "PGREST_MAX_OFF_T_VALUE = 2 ^ 63 - 1"

definition PGREST_MAX_TIME_T_VALUE :: int where
  "PGREST_MAX_TIME_T_VALUE = 2 ^ 63 - 1"

definition pgrest_atoof :: "string \<Rightarrow> int" where
  "pgrest_atoof line =
     (if length line = 0 then PGREST_ERROR else ato_loop PGREST_MAX_OFF_T_VALUE 0 line)"

definition pgrest_atotm :: "string \<Rightarrow> int" where
  "pgrest_atotm line =
     (if length line = 0 then PGREST_ERROR else ato_loop PGREST_MAX_TIME_T_VALUE 0 line)"

text \<open>
  \<^verbatim>\<open>pgrest_atoi\<close> copies \<open>len\<close> bytes into a 32-byte stack buffer, writes the terminator
  at index \<open>len\<close> and calls \<^verbatim>\<open>atoi\<close>. Copying 32 bytes or more is a write outside the
  buffer. \<^verbatim>\<open>atoi\<close> stops at the first NUL, skips white space, reads one sign and then
  digits; a value outside \<open>int\<close> is undefined.
\<close>

fun libc_digits :: "int \<Rightarrow> string \<Rightarrow> int" where
  "libc_digits acc [] = acc"
| "libc_digits acc (c # s) =
     (if is_digit c then libc_digits (acc * 10 + digit_val c) s else acc)"

definition libc_isspace :: "char \<Rightarrow> bool" where
  "libc_isspace c \<longleftrightarrow> code c = 32 \<or> (9 \<le> code c \<and> code c \<le> 13)"

definition libc_atoi :: "string \<Rightarrow> int run" where
  "libc_atoi s =
     (let t = dropWhile libc_isspace (takeWhile (\<lambda>c. code c \<noteq> 0) s);
          v = (case t of
                 [] \<Rightarrow> 0
               | c # t' \<Rightarrow> if c = CHR ''-'' then - libc_digits 0 t'
                           else if c = CHR ''+'' then libc_digits 0 t'
                           else libc_digits 0 t)
      in if - (2 ^ 31) \<le> v \<and> v < 2 ^ 31 then Inr v else Inl IntOverflow)"

definition pgrest_atoi :: "string \<Rightarrow> int run" where
  "pgrest_atoi arg = (if length arg \<ge> 32 then Inl OutOfBounds else libc_atoi arg)"

section \<open>Properties\<close>

text \<open>The value of a string of digits, the reference the parsers are compared with.\<close>

definition dec_value :: "string \<Rightarrow> int" where
  "dec_value s = foldl (\<lambda>v c. v * 10 + digit_val c) 0 s"

lemma digit_val_range: "is_digit c \<Longrightarrow> 0 \<le> digit_val c \<and> digit_val c \<le> 9"
  by (simp add: digit_val_def)

lemma foldl_dec_mono:
  "0 \<le> v \<Longrightarrow> list_all is_digit s \<Longrightarrow> v \<le> foldl (\<lambda>v c. v * 10 + digit_val c) v s"
proof (induction s arbitrary: v)
  case Nil
  then show ?case by simp
next
  case (Cons c s)
  from Cons.prems have d: "0 \<le> digit_val c" by (simp add: digit_val_def)
  with Cons.prems have "v \<le> v * 10 + digit_val c" and "0 \<le> v * 10 + digit_val c" by simp_all
  with Cons.IH [of "v * 10 + digit_val c"] Cons.prems show ?case by fastforce
qed

text \<open>The cut-off test is exactly the overflow test of the next step.\<close>

lemma cutoff_test:
  fixes mx v d :: int
  assumes "0 \<le> d" "d \<le> 9"
  shows "(v \<ge> mx div 10 \<and> (v > mx div 10 \<or> d > mx mod 10)) \<longleftrightarrow> v * 10 + d > mx"
proof -
  have "mx = mx div 10 * 10 + mx mod 10" "0 \<le> mx mod 10" "mx mod 10 \<le> 9"
    using pos_mod_bound [of 10 mx] by simp_all
  with assms show ?thesis by linarith
qed

lemma ato_loop_correct:
  assumes "0 \<le> v" "v \<le> mx"
  shows "ato_loop mx v s =
    (if list_all is_digit s \<and> foldl (\<lambda>v c. v * 10 + digit_val c) v s \<le> mx
     then foldl (\<lambda>v c. v * 10 + digit_val c) v s else PGREST_ERROR)"
  using assms
proof (induction s arbitrary: v)
  case Nil
  then show ?case by simp
next
  case (Cons c s)
  show ?case
  proof (cases "is_digit c")
    case False
    then show ?thesis by auto
  next
    case True
    then have d: "0 \<le> digit_val c" "digit_val c \<le> 9" by (simp_all add: digit_val_def)
    let ?w = "v * 10 + digit_val c"
    show ?thesis
    proof (cases "?w > mx")
      case True
      then have "ato_loop mx v (c # s) = PGREST_ERROR"
        using cutoff_test [OF d] \<open>is_digit c\<close> by simp
      moreover have "\<not> foldl (\<lambda>v c. v * 10 + digit_val c) ?w s \<le> mx" if "list_all is_digit s"
        using foldl_dec_mono [of ?w s] that True d Cons.prems by force
      ultimately show ?thesis using \<open>is_digit c\<close> by auto
    next
      case False
      then have "\<not> (v \<ge> mx div 10 \<and> (v > mx div 10 \<or> digit_val c > mx mod 10))"
        using cutoff_test [OF d] by blast
      then have "ato_loop mx v (c # s) = ato_loop mx ?w s"
        using \<open>is_digit c\<close> by auto
      with Cons.IH [of ?w] False d Cons.prems \<open>is_digit c\<close> show ?thesis by simp
    qed
  qed
qed

lemma strlchr_Some: "pgrest_strlchr s c = Some i \<longleftrightarrow>
   i < length s \<and> s ! i = c \<and> (\<forall>j < i. s ! j \<noteq> c)"
proof (induction s arbitrary: i)
  case Nil
  then show ?case by simp
next
  case (Cons x s)
  then show ?case by (cases i) (auto simp: less_Suc_eq_0_disj)
qed

lemma strlchr_None: "pgrest_strlchr s c = None \<longleftrightarrow> c \<notin> set s"
  by (induction s) auto

text \<open>
  C27. The Content-Length parser is exact on every input: a non-empty string of decimal
  digits whose value fits \<open>off_t\<close> gives that value, and everything else (empty, a
  non-digit anywhere, a value of \<open>2 ^ 63\<close> or more) gives the error code; the running
  value never leaves the type.
\<close>

theorem pgrest_atoof_exact:
  "pgrest_atoof s =
     (if s \<noteq> [] \<and> list_all is_digit s \<and> dec_value s \<le> PGREST_MAX_OFF_T_VALUE
      then dec_value s else PGREST_ERROR)"
  by (auto simp: pgrest_atoof_def dec_value_def ato_loop_correct PGREST_MAX_OFF_T_VALUE_def)

end
