(* ===== verification/Alloc.thy ===== *)
theory Alloc
  imports Prelude
begin

text \<open>
  The allocation wrappers of \<^verbatim>\<open>src/pg_rest_util.c\<close>. PostgreSQL's memory manager is not part
  of the repository, so it is a parameter: a record \<open>pg_mem\<close> of its size check
  (\<^verbatim>\<open>AllocSizeIsValid\<close>) and of the context's own allocator, of which the wrappers only see
  whether a chunk of the given size was handed out. The one documented fact the proofs rely on
  is \<open>alloc_limit\<close>: a valid request is at most \<^verbatim>\<open>MaxAllocSize\<close>, 1 GB - 1.
\<close>

record pg_mem =
  AllocSizeIsValid :: "nat \<Rightarrow> bool"
  mctx_alloc :: "nat \<Rightarrow> bool"

definition MaxAllocSize :: nat where "MaxAllocSize = 0x3fffffff"

definition alloc_limit :: "pg_mem \<Rightarrow> bool" where
  "alloc_limit pg \<longleftrightarrow> (\<forall>n. AllocSizeIsValid pg n \<longrightarrow> n \<le> MaxAllocSize)"

text \<open>True stands for a non-null result of the requested size, False for NULL.\<close>

definition pgrest_util_alloc :: "pg_mem \<Rightarrow> nat \<Rightarrow> bool" where
  "pgrest_util_alloc pg sz = (if \<not> AllocSizeIsValid pg sz then False else mctx_alloc pg sz)"

text \<open>
  \<^verbatim>\<open>pgrest_util_calloc_\<close> multiplies without a check; the result is the number of zeroed
  bytes, None for NULL.
\<close>

definition pgrest_util_calloc :: "pg_mem \<Rightarrow> nat \<Rightarrow> nat \<Rightarrow> nat option" where
  "pgrest_util_calloc pg n sz =
     (let total = umul n sz in if pgrest_util_alloc pg total then Some total else None)"

text \<open>\<^verbatim>\<open>pgrest_util_realloc_\<close> has the same size check in front of the context's realloc.\<close>

definition pgrest_util_realloc :: "pg_mem \<Rightarrow> nat \<Rightarrow> bool" where
  "pgrest_util_realloc pg sz = (if \<not> AllocSizeIsValid pg sz then False else mctx_alloc pg sz)"

lemma util_alloc_bound: "alloc_limit pg \<Longrightarrow> pgrest_util_alloc pg n \<Longrightarrow> n \<le> MaxAllocSize"
  by (auto simp: pgrest_util_alloc_def alloc_limit_def split: if_splits)

lemma MaxAllocSize_small [simp]: "4 * MaxAllocSize < WORD_MOD"
  by (simp add: MaxAllocSize_def WORD_MOD_def)

lemma MaxAllocSize_Suc: "n \<le> MaxAllocSize \<Longrightarrow> uadd n 1 = n + 1"
  by (simp add: MaxAllocSize_def WORD_MOD_def uadd_def)

lemma MaxAllocSize_pred:
  "n \<le> Suc MaxAllocSize \<Longrightarrow> 0 < n \<Longrightarrow> usub n (Suc 0) = n - 1"
  using usub_exact [of "Suc 0" n] by (simp add: MaxAllocSize_def WORD_MOD_def)

text \<open>A memory manager that serves every valid request, for concrete runs.\<close>

definition pg_mem_ok :: pg_mem where
  "pg_mem_ok = \<lparr>AllocSizeIsValid = (\<lambda>n. n \<le> MaxAllocSize), mctx_alloc = (\<lambda>n. True)\<rparr>"

lemma alloc_limit_ok [simp]: "alloc_limit pg_mem_ok"
  by (simp add: alloc_limit_def pg_mem_ok_def)

end
