(* ===== verification/Arrays.thy ===== *)
theory Arrays
  imports Alloc
begin

text \<open>
  The growable array of \<^verbatim>\<open>src/pg_rest_array.c\<close> and \<^verbatim>\<open>include/pg_rest_array.h\<close>. The element
  memory is a list of slots (None for an uninitialised slot), NULL is None; the push
  operations return the index of the slot the caller then writes, as the C returns its
  address. \<open>contents\<close> is the list the array stands for.
\<close>

record 'a pgrest_array =
  elts :: "'a option list option"
  elt_size :: nat
  asize :: nat
  capacity :: nat

text \<open>The slots that a chunk of \<open>bytes\<close> bytes holds.\<close>

definition slots_of :: "nat \<Rightarrow> nat \<Rightarrow> nat \<Rightarrow> nat" where
  "slots_of es n bytes = (if es = 0 then n else bytes div es)"

definition pgrest_array_init ::
  "pg_mem \<Rightarrow> 'a pgrest_array \<Rightarrow> nat \<Rightarrow> nat \<Rightarrow> bool \<times> 'a pgrest_array" where
  "pgrest_array_init pg array cap es =
     (let a = array\<lparr>asize := 0, capacity := cap, elt_size := es\<rparr>;
          bytes = umul cap es
      in if pgrest_util_alloc pg bytes
         then (True, a\<lparr>elts := Some (replicate (slots_of es cap bytes) None)\<rparr>)
         else (False, a\<lparr>elts := None\<rparr>))"

definition sizeof_pgrest_array_t :: nat where "sizeof_pgrest_array_t = 40"

definition pgrest_array_create :: "pg_mem \<Rightarrow> nat \<Rightarrow> nat \<Rightarrow> 'a pgrest_array option" where
  "pgrest_array_create pg cap es =
     (if \<not> pgrest_util_alloc pg sizeof_pgrest_array_t then None
      else case pgrest_array_init pg \<lparr>elts = None, elt_size = 0, asize = 0, capacity = 0\<rparr> cap es of
             (ok, a) \<Rightarrow> if ok then Some a else None)"

definition pgrest_array_push :: "pg_mem \<Rightarrow> 'a pgrest_array \<Rightarrow> nat option \<times> 'a pgrest_array" where
  "pgrest_array_push pg array =
     (let grown =
        (if asize array = capacity array then
           let sz = umul (elt_size array) (capacity array);
               bytes = umul 2 sz
           in if pgrest_util_alloc pg bytes
              then Some (array\<lparr>elts := Some
                           (take (slots_of (elt_size array) (capacity array) sz)
                              (case elts array of Some xs \<Rightarrow> xs | None \<Rightarrow> [])
                            @ replicate (slots_of (elt_size array) (2 * capacity array) bytes
                                         - slots_of (elt_size array) (capacity array) sz) None),
                           capacity := umul (capacity array) 2\<rparr>)
              else None
         else Some array)
      in case grown of
           None \<Rightarrow> (None, array)
         | Some a \<Rightarrow> (Some (asize a), a\<lparr>asize := uadd (asize a) 1\<rparr>))"

text \<open>The assignment through the returned pointer.\<close>

definition array_store :: "'a pgrest_array \<Rightarrow> nat \<Rightarrow> 'a \<Rightarrow> 'a pgrest_array" where
  "array_store a i v = a\<lparr>elts := map_option (\<lambda>xs. xs[i := Some v]) (elts a)\<rparr>"

text \<open>
  \<^verbatim>\<open>pgrest_array_push_head\<close> moves the first \<open>size - 1\<close> elements up by one and returns the
  address of the first slot. It does not look at what \<^verbatim>\<open>pgrest_array_push\<close> returned, so the
  move also happens after a failed push.
\<close>

definition shift_up :: "nat \<Rightarrow> 'b list \<Rightarrow> 'b list" where
  "shift_up n xs = take 1 xs @ take n xs @ drop (n + 1) xs"

definition pgrest_array_push_head ::
  "pg_mem \<Rightarrow> 'a pgrest_array \<Rightarrow> nat option \<times> 'a pgrest_array" where
  "pgrest_array_push_head pg array =
     (case pgrest_array_push pg array of
        (elt, a) \<Rightarrow>
          if asize a = 1 then (elt, a)
          else (Some 0, a\<lparr>elts := map_option (shift_up (usub (asize a) 1)) (elts a)\<rparr>))"

definition pgrest_array_copy ::
  "pg_mem \<Rightarrow> 'a pgrest_array \<Rightarrow> 'a pgrest_array \<Rightarrow> bool \<times> 'a pgrest_array" where
  "pgrest_array_copy pg array_dst array_src =
     (let bytes = umul (capacity array_src) (elt_size array_src)
      in if pgrest_util_alloc pg bytes
         then (True, array_dst\<lparr>elts := Some
                 (take (asize array_src) (case elts array_src of Some xs \<Rightarrow> xs | None \<Rightarrow> [])
                  @ replicate (slots_of (elt_size array_src) (capacity array_src) bytes
                               - asize array_src) None),
                 elt_size := elt_size array_src, asize := asize array_src,
                 capacity := capacity array_src\<rparr>)
         else (False, array_dst\<lparr>elts := None\<rparr>))"

section \<open>The list an array stands for\<close>

definition array_wf :: "'a pgrest_array \<Rightarrow> bool" where
  "array_wf a \<longleftrightarrow> (case elts a of None \<Rightarrow> False | Some xs \<Rightarrow>
     length xs = capacity a \<and> asize a \<le> capacity a \<and> 0 < capacity a \<and> 0 < elt_size a
     \<and> elt_size a * capacity a \<le> MaxAllocSize
     \<and> list_all (\<lambda>x. x \<noteq> None) (take (asize a) xs))"

definition contents :: "'a pgrest_array \<Rightarrow> 'a list" where
  "contents a = (case elts a of None \<Rightarrow> [] | Some xs \<Rightarrow> map the (take (asize a) xs))"

definition array_append :: "pg_mem \<Rightarrow> 'a \<Rightarrow> 'a pgrest_array \<Rightarrow> 'a pgrest_array option" where
  "array_append pg x a = (case pgrest_array_push pg a of
     (None, _) \<Rightarrow> None | (Some i, a') \<Rightarrow> Some (array_store a' i x))"

definition array_prepend :: "pg_mem \<Rightarrow> 'a \<Rightarrow> 'a pgrest_array \<Rightarrow> 'a pgrest_array option" where
  "array_prepend pg x a = (case pgrest_array_push_head pg a of
     (None, _) \<Rightarrow> None | (Some i, a') \<Rightarrow> Some (array_store a' i x))"

subsection \<open>Sizes do not wrap in a well-formed array\<close>

lemma array_wf_elts:
  assumes "array_wf a"
  obtains xs where "elts a = Some xs" "length xs = capacity a" "asize a \<le> capacity a"
    "0 < capacity a" "0 < elt_size a" "elt_size a * capacity a \<le> MaxAllocSize"
    "list_all (\<lambda>x. x \<noteq> None) (take (asize a) xs)"
  using assms by (auto simp: array_wf_def split: option.splits)

lemma alloc_words:
  assumes "es * n \<le> MaxAllocSize"
  shows "umul es n = es * n" "umul 2 (es * n) = 2 * (es * n)"
proof -
  have "4 * (es * n) < WORD_MOD"
    using assms MaxAllocSize_small by linarith
  then show "umul es n = es * n" "umul 2 (es * n) = 2 * (es * n)"
    by (simp_all add: umul_exact)
qed

lemma capacity_words:
  assumes "es * n \<le> MaxAllocSize" "0 < es"
  shows "n \<le> MaxAllocSize" "umul n 2 = 2 * n" "uadd n 1 = n + 1"
proof -
  from assms show "n \<le> MaxAllocSize"
    by (metis le_trans mult_le_mono1 nat_mult_1 Suc_leI One_nat_def)
  then show "uadd n 1 = n + 1" by (rule MaxAllocSize_Suc)
  from \<open>n \<le> MaxAllocSize\<close> have "4 * n < WORD_MOD" using MaxAllocSize_small by linarith
  then show "umul n 2 = 2 * n" by (simp add: umul_def)
qed

lemma slots_exact: "0 < es \<Longrightarrow> slots_of es m (es * n) = n"
  by (simp add: slots_of_def)

text \<open>The growth step of a full array: twice the slots, the old ones kept in front.\<close>

lemma push_cases:
  assumes wf: "array_wf a" and lim: "alloc_limit pg"
  shows "pgrest_array_push pg a =
    (if asize a < capacity a then (Some (asize a), a\<lparr>asize := asize a + 1\<rparr>)
     else if pgrest_util_alloc pg (2 * (elt_size a * capacity a))
     then (Some (asize a), a\<lparr>elts := Some (the (elts a) @ replicate (capacity a) None),
             capacity := 2 * capacity a, asize := asize a + 1\<rparr>)
     else (None, a))"
proof -
  obtain xs where xs: "elts a = Some xs" "length xs = capacity a" "asize a \<le> capacity a"
    "0 < capacity a" "0 < elt_size a" "elt_size a * capacity a \<le> MaxAllocSize"
    using wf by (rule array_wf_elts)
  note w = alloc_words [OF xs(6)] capacity_words [OF xs(6,5)]
  have "asize a \<le> MaxAllocSize" using w(3) xs(3) by simp
  then have s: "uadd (asize a) (Suc 0) = Suc (asize a)"
    using MaxAllocSize_Suc by simp
  show ?thesis
  proof (cases "asize a < capacity a")
    case True
    then show ?thesis by (simp add: pgrest_array_push_def s)
  next
    case False
    with xs(3) have full: "asize a = capacity a" by simp
    have two: "slots_of (elt_size a) (2 * capacity a) (2 * (elt_size a * capacity a)) = 2 * capacity a"
      using slots_exact [OF xs(5), of "2 * capacity a" "2 * capacity a"] by (simp add: mult.left_commute)
    show ?thesis
      using full xs s w by (simp add: pgrest_array_push_def two slots_exact Let_def)
  qed
qed

lemma push_wf_store:
  assumes wf: "array_wf a" and lim: "alloc_limit pg"
    and push: "pgrest_array_push pg a = (Some i, a')"
  shows "i = asize a \<and> array_wf (array_store a' i x) \<and>
    contents (array_store a' i x) = contents a @ [x]"
proof -
  obtain xs where xs: "elts a = Some xs" "length xs = capacity a" "asize a \<le> capacity a"
    "0 < capacity a" "0 < elt_size a" "elt_size a * capacity a \<le> MaxAllocSize"
    "list_all (\<lambda>x. x \<noteq> None) (take (asize a) xs)"
    using wf by (rule array_wf_elts)
  show ?thesis
  proof (cases "asize a < capacity a")
    case True
    then have "i = asize a" "a' = a\<lparr>asize := asize a + 1\<rparr>"
      using push push_cases [OF wf lim] by auto
    with True xs show ?thesis
      by (simp add: array_store_def array_wf_def contents_def take_update_last)
  next
    case False
    with xs(3) have full: "asize a = capacity a" by simp
    then have ok: "pgrest_util_alloc pg (2 * (elt_size a * capacity a))" and "i = asize a"
      and "a' = a\<lparr>elts := Some (xs @ replicate (capacity a) None),
             capacity := 2 * capacity a, asize := asize a + 1\<rparr>"
      using push push_cases [OF wf lim] xs(1) by (auto split: if_splits)
    moreover have "elt_size a * (2 * capacity a) \<le> MaxAllocSize"
      using util_alloc_bound [OF lim ok] by (simp add: mult.left_commute)
    moreover have "take (Suc (length xs)) ((xs @ replicate (capacity a) None)[length xs := Some x])
        = xs @ [Some x]"
      using xs(4) by (cases "capacity a") (simp_all add: list_update_append)
    ultimately show ?thesis
      using xs full by (simp add: array_store_def array_wf_def contents_def)
  qed
qed

lemma array_append_spec:
  assumes "array_wf a" "alloc_limit pg" "array_append pg x a = Some a'"
  shows "array_wf a' \<and> contents a' = contents a @ [x]"
  using assms push_wf_store [OF assms(1,2)]
  by (auto simp: array_append_def split: prod.splits option.splits)

lemma array_init_spec:
  assumes "alloc_limit pg" "pgrest_array_init pg a0 cap es = (True, a)" "0 < cap" "0 < es"
    "cap * es < WORD_MOD"
  shows "array_wf a \<and> contents a = []"
proof -
  have b: "umul cap es = es * cap" using assms(5) by (simp add: umul_exact mult.commute)
  from assms(2) have ok: "pgrest_util_alloc pg (umul cap es)"
    and a: "a = a0\<lparr>asize := 0, capacity := cap, elt_size := es,
            elts := Some (replicate (slots_of es cap (umul cap es)) None)\<rparr>"
    by (auto simp: pgrest_array_init_def Let_def split: if_splits)
  from util_alloc_bound [OF assms(1) ok] b have "es * cap \<le> MaxAllocSize" by simp
  with a b assms(3,4) show ?thesis
    by (simp add: array_wf_def contents_def slots_exact)
qed

section \<open>The interface: an appendable sequence\<close>

locale appendable =
  fixes add_elem :: "'a \<Rightarrow> 'v \<Rightarrow> 'v option"
    and seq :: "'v \<Rightarrow> 'a list"
    and inv :: "'v \<Rightarrow> bool"
  assumes add_inv: "inv v \<Longrightarrow> add_elem x v = Some v' \<Longrightarrow> inv v'"
    and add_seq: "inv v \<Longrightarrow> add_elem x v = Some v' \<Longrightarrow> seq v' = seq v @ [x]"
begin

primrec add_all :: "'a list \<Rightarrow> 'v \<Rightarrow> 'v option" where
  "add_all [] v = Some v"
| "add_all (x # xs) v = (case add_elem x v of None \<Rightarrow> None | Some v' \<Rightarrow> add_all xs v')"

lemma add_all_spec:
  assumes "inv v" "add_all xs v = Some v'"
  shows "inv v' \<and> seq v' = seq v @ xs"
  using assms
proof (induction xs arbitrary: v)
  case Nil
  then show ?case by simp
next
  case (Cons x xs)
  then obtain w where w: "add_elem x v = Some w" "add_all xs w = Some v'"
    by (auto split: option.splits)
  from Cons.IH [OF add_inv [OF Cons.prems(1) w(1)] w(2)] add_seq [OF Cons.prems(1) w(1)]
  show ?case by simp
qed

lemma add_keeps_index:
  "inv v \<Longrightarrow> add_elem x v = Some v' \<Longrightarrow> i < length (seq v) \<Longrightarrow> seq v' ! i = seq v ! i"
  by (simp add: add_seq nth_append)

end

interpretation arr: appendable "array_append pg" contents "\<lambda>a. array_wf a \<and> alloc_limit pg" for pg
  by unfold_locales (auto dest: array_append_spec)

section \<open>Insertion at the head\<close>

lemma shift_up_store:
  assumes "n < length xs" "0 < n"
  shows "(shift_up n xs)[0 := y] = y # take n xs @ drop (n + 1) xs"
  using assms by (cases xs) (simp_all add: shift_up_def)

lemma array_prepend_spec:
  assumes wf: "array_wf a" and lim: "alloc_limit pg"
    and push: "pgrest_array_push pg a = (Some i, a')"
  shows "\<exists>b. array_prepend pg x a = Some b \<and> array_wf b \<and> contents b = x # contents a"
proof -
  let ?c = "array_store a' i x"
  have c: "i = asize a" "array_wf ?c" "contents ?c = contents a @ [x]"
    using push_wf_store [OF wf lim push] by auto
  obtain ys where ys: "elts a' = Some ys" and sz: "asize a' = Suc (asize a)"
    and len: "length ys = capacity a'" "asize a < length ys"
    and pre: "take (asize a) ys = take (asize a) (the (elts a))"
    using wf push push_cases [OF wf lim]
    by (auto elim!: array_wf_elts split: if_splits)
  obtain xs where xs: "elts a = Some xs" "asize a \<le> length xs" "asize a \<le> MaxAllocSize"
    "list_all (\<lambda>x. x \<noteq> None) (take (asize a) xs)"
    using wf by (auto elim!: array_wf_elts dest: capacity_words)
  show ?thesis
  proof (cases "asize a = 0")
    case True
    then have "array_prepend pg x a = Some ?c"
      using push sz by (simp add: array_prepend_def pgrest_array_push_head_def)
    with c True xs show ?thesis by (auto simp: contents_def)
  next
    case False
    have u: "usub (Suc (asize a)) (Suc 0) = asize a"
      using xs(3) MaxAllocSize_pred [of "Suc (asize a)"] by simp
    have ap: "array_prepend pg x a = Some (a'\<lparr>elts := Some (Some x # take (asize a) ys @ drop (asize a + 1) ys)\<rparr>)"
      using push sz ys False len(2) u
      by (simp add: array_prepend_def pgrest_array_push_head_def array_store_def
          shift_up_store [of "asize a" ys "Some x", simplified])
    have "asize a' \<le> capacity a'" "0 < capacity a'" "0 < elt_size a'"
      "elt_size a' * capacity a' \<le> MaxAllocSize"
      using c(2) ys by (auto simp: array_wf_def array_store_def)
    with ap show ?thesis
      using ys len pre xs sz by (simp add: array_wf_def contents_def)
  qed
qed

text \<open>
  After a failed push the move still runs: the element at the end is overwritten by its
  predecessor and the head slot is handed out.
\<close>

lemma push_head_after_failure:
  assumes wf: "array_wf a" and lim: "alloc_limit pg"
    and fail: "pgrest_array_push pg a = (None, a')" and two: "2 \<le> asize a"
  shows "\<exists>b. array_prepend pg x a = Some b \<and> contents b = x # butlast (contents a)"
proof -
  obtain xs where xs: "elts a = Some xs" "length xs = capacity a" "asize a \<le> MaxAllocSize"
    using wf by (auto elim!: array_wf_elts dest: capacity_words)
  have full: "asize a = capacity a" and a': "a' = a"
    using fail push_cases [OF wf lim] wf by (auto elim!: array_wf_elts split: if_splits)
  have u: "usub (asize a) (Suc 0) = asize a - 1"
    using xs(3) two MaxAllocSize_pred [of "asize a"] by simp
  have s: "(shift_up (asize a - 1) xs)[0 := Some x] = Some x # take (asize a - 1) xs @ drop (asize a) xs"
    using shift_up_store [of "asize a - 1" xs "Some x"] two xs(2) full by simp
  have "array_prepend pg x a = Some (a\<lparr>elts := Some (Some x # take (asize a - 1) xs @ drop (asize a) xs)\<rparr>)"
    using fail a' xs(1) two u s
    by (simp add: array_prepend_def pgrest_array_push_head_def array_store_def)
  moreover have "take (asize a - 1) xs = butlast (take (asize a) xs)"
    using xs(2) full by (simp add: butlast_conv_take)
  moreover have "asize a = Suc (asize a - 1)" using two by simp
  ultimately show ?thesis
    using xs full by (auto simp: contents_def take_map butlast_conv_take)
qed

lemma array_copy_spec:
  assumes wf: "array_wf src" and lim: "alloc_limit pg"
  shows "fst (pgrest_array_copy pg dst src) \<Longrightarrow>
      array_wf (snd (pgrest_array_copy pg dst src)) \<and>
      contents (snd (pgrest_array_copy pg dst src)) = contents src"
proof -
  obtain xs where xs: "elts src = Some xs" "length xs = capacity src" "asize src \<le> capacity src"
    "0 < capacity src" "0 < elt_size src" "elt_size src * capacity src \<le> MaxAllocSize"
    "list_all (\<lambda>x. x \<noteq> None) (take (asize src) xs)"
    using wf by (rule array_wf_elts)
  have b: "umul (capacity src) (elt_size src) = elt_size src * capacity src"
    using alloc_words(1) [OF xs(6)] by (simp add: umul_def mult.commute)
  assume "fst (pgrest_array_copy pg dst src)"
  then show ?thesis
    using xs b by (simp add: pgrest_array_copy_def array_wf_def contents_def slots_exact Let_def
        split: if_splits)
qed

section \<open>Properties\<close>

text \<open>
  A sequence of successful pushes, each followed by the caller's store, from a freshly
  initialised array yields exactly the stored elements in order, across every growth step.
\<close>

theorem array_pushes_in_order:
  assumes "alloc_limit pg" "0 < cap" "0 < es" "cap * es < WORD_MOD"
    "pgrest_array_init pg a0 cap es = (True, a)" "arr.add_all pg xs a = Some a'"
  shows "contents a' = xs \<and> array_wf a'"
  using array_init_spec [OF assms(1,5,2-4)] arr.add_all_spec [OF _ assms(6)] assms(1) by simp

theorem array_pushes_in_order_witness:
  "\<exists>a a'. pgrest_array_init pg_mem_ok \<lparr>elts = None, elt_size = 0, asize = 0, capacity = 0\<rparr> 1 8 = (True, a) \<and>
     arr.add_all pg_mem_ok [10, 20, 30 :: nat] a = Some a' \<and> contents a' = [10, 20, 30]"
proof -
  let ?a = "\<lparr>elts = Some [None], elt_size = 8, asize = 0, capacity = 1\<rparr> :: nat pgrest_array"
  have i: "pgrest_array_init pg_mem_ok \<lparr>elts = None, elt_size = 0, asize = 0, capacity = 0\<rparr> 1 8 = (True, ?a)"
    by (simp add: pgrest_array_init_def pgrest_util_alloc_def pg_mem_ok_def MaxAllocSize_def
        umul_def WORD_MOD_def slots_of_def)
  have "\<exists>a'. arr.add_all pg_mem_ok [10, 20, 30 :: nat] ?a = Some a'"
    by (simp add: array_append_def pgrest_array_push_def pgrest_util_alloc_def pg_mem_ok_def
        MaxAllocSize_def umul_def uadd_def WORD_MOD_def slots_of_def array_store_def)
  then obtain a' where a': "arr.add_all pg_mem_ok [10, 20, 30 :: nat] ?a = Some a'" ..
  from array_pushes_in_order [OF alloc_limit_ok _ _ _ i a'] have "contents a' = [10, 20, 30]"
    by (simp add: WORD_MOD_def)
  with i a' show ?thesis by blast
qed

text \<open>
  Inserting at the head after a failed growth loses data: \<^verbatim>\<open>pgrest_array_push_head\<close>
  does not test the result of \<^verbatim>\<open>pgrest_array_push\<close>, so with two or more elements it still
  reports success, and the caller's store leaves the new element in front of all the old ones but
  the last, which is gone.
\<close>

theorem push_head_loses_last_on_failure:
  assumes "array_wf a" "alloc_limit pg" "pgrest_array_push pg a = (None, a')" "2 \<le> asize a"
  shows "\<exists>b. array_prepend pg x a = Some b \<and> contents b = x # butlast (contents a)"
  using push_head_after_failure [OF assms] .

theorem push_head_loses_last_on_failure_witness:
  "\<exists>b. array_prepend (pg_mem_ok\<lparr>mctx_alloc := \<lambda>_. False\<rparr>) (5 :: nat)
       \<lparr>elts = Some [Some 1, Some 2], elt_size = 8, asize = 2, capacity = 2\<rparr> = Some b \<and>
     contents b = [5, 1]"
proof -
  let ?pg = "pg_mem_ok\<lparr>mctx_alloc := \<lambda>_. False\<rparr>"
  let ?a = "\<lparr>elts = Some [Some 1, Some 2], elt_size = 8, asize = 2, capacity = 2\<rparr> :: nat pgrest_array"
  have wf: "array_wf ?a" by (simp add: array_wf_def MaxAllocSize_def)
  have lim: "alloc_limit ?pg" by (simp add: alloc_limit_def pg_mem_ok_def)
  have f: "pgrest_array_push ?pg ?a = (None, ?a)"
    by (simp add: pgrest_array_push_def pgrest_util_alloc_def pg_mem_ok_def Let_def)
  from push_head_loses_last_on_failure [OF wf lim f, of 5] show ?thesis
    by (simp add: contents_def)
qed

end
