(* ===== verification/Cqueue.thy ===== *)
theory Cqueue
  imports Prelude
begin

text \<open>
  The circular queue of \<^verbatim>\<open>src/pg_rest_cqueue.c\<close>. As for the array, push and pop return the
  index of the slot the caller then writes or reads; a full push and an empty pop return
  NULL (None). \<open>cq_list\<close> reads the ring as the list of queued elements, oldest first.
\<close>

record 'a pgrest_cqueue =
  cq_elts :: "'a option list"
  cq_size :: nat
  cq_capacity :: nat
  cq_head :: nat
  cq_tail :: nat

definition pgrest_cqueue_create :: "nat \<Rightarrow> 'a pgrest_cqueue" where
  "pgrest_cqueue_create cap =
     \<lparr>cq_elts = replicate cap None, cq_size = 0, cq_capacity = cap, cq_head = 0, cq_tail = 0\<rparr>"

definition pgrest_cqueue_push :: "'a pgrest_cqueue \<Rightarrow> nat option \<times> 'a pgrest_cqueue" where
  "pgrest_cqueue_push cq =
     (if cq_size cq = cq_capacity cq then (None, cq)
      else (Some (cq_tail cq),
            cq\<lparr>cq_tail := (cq_tail cq + 1) mod cq_capacity cq, cq_size := cq_size cq + 1\<rparr>))"

definition pgrest_cqueue_pop :: "'a pgrest_cqueue \<Rightarrow> nat option \<times> 'a pgrest_cqueue" where
  "pgrest_cqueue_pop cq =
     (if cq_size cq = 0 then (None, cq)
      else (Some (cq_head cq),
            cq\<lparr>cq_head := (cq_head cq + 1) mod cq_capacity cq, cq_size := cq_size cq - 1\<rparr>))"

text \<open>The caller's accesses through the returned pointer.\<close>

definition cq_enqueue :: "'a \<Rightarrow> 'a pgrest_cqueue \<Rightarrow> 'a pgrest_cqueue option" where
  "cq_enqueue x cq = (case pgrest_cqueue_push cq of
     (None, _) \<Rightarrow> None | (Some i, q) \<Rightarrow> Some (q\<lparr>cq_elts := (cq_elts q)[i := Some x]\<rparr>))"

definition cq_dequeue :: "'a pgrest_cqueue \<Rightarrow> ('a option \<times> 'a pgrest_cqueue) option" where
  "cq_dequeue cq = (case pgrest_cqueue_pop cq of
     (None, _) \<Rightarrow> None | (Some i, q) \<Rightarrow> Some (cq_elts q ! i, q))"

section \<open>The ring as a list\<close>

definition cq_list :: "'a pgrest_cqueue \<Rightarrow> 'a option list" where
  "cq_list cq = map (\<lambda>k. cq_elts cq ! ((cq_head cq + k) mod cq_capacity cq)) [0..<cq_size cq]"

definition cq_wf :: "'a pgrest_cqueue \<Rightarrow> bool" where
  "cq_wf cq \<longleftrightarrow> length (cq_elts cq) = cq_capacity cq \<and> cq_size cq \<le> cq_capacity cq
     \<and> (0 < cq_capacity cq \<longrightarrow> cq_head cq < cq_capacity cq \<and>
          cq_tail cq = (cq_head cq + cq_size cq) mod cq_capacity cq)"

lemma length_cq_list [size_simps]: "length (cq_list cq) = cq_size cq"
  by (simp add: cq_list_def)

lemma mod_add_inj:
  fixes h j k n :: nat
  assumes "(h + j) mod n = (h + k) mod n" "j < n" "k < n"
  shows "j = k"
proof (rule ccontr)
  assume "j \<noteq> k"
  have no: "\<not> (a < b \<and> b < n \<and> (h + a) mod n = (h + b) mod n)" for a b :: nat
  proof (rule notI, elim conjE)
    assume ab: "a < b" "b < n" and eq: "(h + a) mod n = (h + b) mod n"
    then have "n dvd (h + b) - (h + a)"
      by (metis less_imp_le mod_eq_dvd_iff_nat nat_add_left_cancel_le)
    then have "n dvd b - a" by simp
    with ab show False by (auto dest: dvd_imp_le)
  qed
  from no [of j k] no [of k j] assms \<open>j \<noteq> k\<close> show False by (metis nat_neq_iff)
qed

lemma enqueue_spec:
  assumes wf: "cq_wf cq" and enq: "cq_enqueue x cq = Some q"
  shows "cq_wf q \<and> cq_list q = cq_list cq @ [Some x]"
proof -
  let ?n = "cq_capacity cq" and ?h = "cq_head cq" and ?s = "cq_size cq"
  from enq have ne: "?s \<noteq> ?n"
    and q: "q = cq\<lparr>cq_tail := (cq_tail cq + 1) mod ?n, cq_size := ?s + 1,
                  cq_elts := (cq_elts cq)[cq_tail cq := Some x]\<rparr>"
    by (auto simp: cq_enqueue_def pgrest_cqueue_push_def split: if_splits)
  from ne wf have lt: "?s < ?n" by (simp add: cq_wf_def)
  have t: "cq_tail cq = (?h + ?s) mod ?n" using wf lt by (simp add: cq_wf_def)
  have keep: "(cq_elts cq)[cq_tail cq := Some x] ! ((?h + k) mod ?n) = cq_elts cq ! ((?h + k) mod ?n)"
    if "k < ?s" for k
    using mod_add_inj [of ?h ?s ?n k] that lt t by (intro nth_list_update_neq) auto
  have last: "(cq_elts cq)[cq_tail cq := Some x] ! ((?h + ?s) mod ?n) = Some x"
    using wf lt t by (simp add: cq_wf_def)
  have "cq_list q = cq_list cq @ [Some x]"
    using q keep last by (simp add: cq_list_def)
  moreover have "cq_wf q"
    using wf lt t q by (simp add: cq_wf_def mod_simps)
  ultimately show ?thesis by simp
qed

lemma dequeue_spec:
  assumes wf: "cq_wf cq" and deq: "cq_dequeue cq = Some (y, q)"
  shows "cq_wf q \<and> cq_list cq = y # cq_list q"
proof -
  let ?n = "cq_capacity cq" and ?h = "cq_head cq" and ?s = "cq_size cq"
  from deq have pos: "0 < ?s" and y: "y = cq_elts cq ! ?h"
    and q: "q = cq\<lparr>cq_head := (?h + 1) mod ?n, cq_size := ?s - 1\<rparr>"
    by (auto simp: cq_dequeue_def pgrest_cqueue_pop_def split: if_splits)
  from wf pos have n: "0 < ?n" "?h < ?n" "?s \<le> ?n" by (auto simp: cq_wf_def)
  have "[0..<?s] = 0 # map Suc [0..<?s - 1]"
    using pos by (metis One_nat_def Suc_pred map_Suc_upt upt_conv_Cons)
  then have "cq_list cq = y # cq_list q"
    using q y n by (simp add: cq_list_def mod_simps comp_def)
  moreover have "(Suc ?h mod ?n + (?s - 1)) mod ?n = (?h + ?s) mod ?n"
    using pos by (cases ?s) (simp_all add: mod_simps)
  then have "cq_wf q"
    using wf n q by (simp add: cq_wf_def)
  ultimately show ?thesis by simp
qed

lemma enqueue_full: "cq_wf cq \<Longrightarrow> cq_enqueue x cq = None \<longleftrightarrow> length (cq_list cq) = cq_capacity cq"
  by (simp add: cq_enqueue_def pgrest_cqueue_push_def size_simps)

lemma dequeue_empty: "cq_dequeue cq = None \<longleftrightarrow> cq_list cq = []"
  by (auto simp: cq_dequeue_def pgrest_cqueue_pop_def cq_list_def)

lemma enqueue_capacity: "cq_enqueue x cq = Some q \<Longrightarrow> cq_capacity q = cq_capacity cq"
  by (auto simp: cq_enqueue_def pgrest_cqueue_push_def split: if_splits)

section \<open>The interface: a bounded first-in first-out queue\<close>

locale bounded_fifo =
  fixes enq :: "'a \<Rightarrow> 'q \<Rightarrow> 'q option"
    and deq :: "'q \<Rightarrow> ('b \<times> 'q) option"
    and wrap :: "'a \<Rightarrow> 'b"
    and lst :: "'q \<Rightarrow> 'b list"
    and cap :: "'q \<Rightarrow> nat"
    and inv :: "'q \<Rightarrow> bool"
  assumes enq_inv: "inv q \<Longrightarrow> enq x q = Some q' \<Longrightarrow> inv q'"
    and enq_lst: "inv q \<Longrightarrow> enq x q = Some q' \<Longrightarrow> lst q' = lst q @ [wrap x]"
    and enq_cap: "inv q \<Longrightarrow> enq x q = Some q' \<Longrightarrow> cap q' = cap q"
    and enq_full: "inv q \<Longrightarrow> enq x q = None \<longleftrightarrow> length (lst q) = cap q"
    and len_cap: "inv q \<Longrightarrow> length (lst q) \<le> cap q"
    and deq_inv: "inv q \<Longrightarrow> deq q = Some (y, q') \<Longrightarrow> inv q'"
    and deq_lst: "inv q \<Longrightarrow> deq q = Some (y, q') \<Longrightarrow> lst q = y # lst q'"
    and deq_empty: "inv q \<Longrightarrow> deq q = None \<longleftrightarrow> lst q = []"
begin

primrec enq_all :: "'a list \<Rightarrow> 'q \<Rightarrow> 'q option" where
  "enq_all [] q = Some q"
| "enq_all (x # xs) q = (case enq x q of None \<Rightarrow> None | Some q' \<Rightarrow> enq_all xs q')"

primrec deq_n :: "nat \<Rightarrow> 'q \<Rightarrow> ('b list \<times> 'q) option" where
  "deq_n 0 q = Some ([], q)"
| "deq_n (Suc n) q = (case deq q of None \<Rightarrow> None
     | Some (y, q') \<Rightarrow> (case deq_n n q' of None \<Rightarrow> None | Some (ys, q'') \<Rightarrow> Some (y # ys, q'')))"

lemma enq_all_room:
  assumes "inv q" "length (lst q) + length xs \<le> cap q"
  shows "\<exists>q'. enq_all xs q = Some q' \<and> inv q' \<and> lst q' = lst q @ map wrap xs"
  using assms
proof (induction xs arbitrary: q)
  case Nil
  then show ?case by simp
next
  case (Cons x xs)
  then obtain r where r: "enq x q = Some r"
    using enq_full [of q x] by (cases "enq x q") auto
  have "length (lst r) + length xs \<le> cap r"
    using Cons.prems r enq_lst enq_cap by simp
  then obtain q' where "enq_all xs r = Some q'" "inv q'" "lst q' = lst r @ map wrap xs"
    using Cons.IH [of r] enq_inv [OF Cons.prems(1) r] by blast
  then show ?case using r enq_lst [OF Cons.prems(1) r] by simp
qed

lemma deq_n_prefix:
  assumes "inv q" "n \<le> length (lst q)"
  shows "\<exists>q'. deq_n n q = Some (take n (lst q), q') \<and> inv q' \<and> lst q' = drop n (lst q)"
  using assms
proof (induction n arbitrary: q)
  case 0
  then show ?case by simp
next
  case (Suc n)
  then obtain y r where r: "deq q = Some (y, r)"
    using deq_empty [of q] by (cases "deq q") auto
  note l = deq_lst [OF Suc.prems(1) r]
  then obtain q' where "deq_n n r = Some (take n (lst r), q')" "inv q'" "lst q' = drop n (lst r)"
    using Suc.IH [of r] Suc.prems deq_inv [OF Suc.prems(1) r] by auto
  then show ?case using r l by simp
qed

lemma fifo_order:
  assumes "inv q" "lst q = []" "length xs \<le> cap q"
  shows "\<exists>q' q''. enq_all xs q = Some q' \<and> deq_n (length xs) q' = Some (map wrap xs, q'') \<and> lst q'' = []"
proof -
  obtain q' where q': "enq_all xs q = Some q'" "inv q'" "lst q' = map wrap xs"
    using enq_all_room [of q xs] assms by auto
  then show ?thesis using deq_n_prefix [of q' "length xs"] by auto
qed

end

interpretation ring: bounded_fifo cq_enqueue cq_dequeue Some cq_list cq_capacity cq_wf
  by unfold_locales
    (auto dest: enqueue_spec dequeue_spec enqueue_capacity simp: enqueue_full dequeue_empty size_simps,
     auto simp: cq_wf_def)

lemma create_wf: "cq_wf (pgrest_cqueue_create n)" and create_list: "cq_list (pgrest_cqueue_create n) = []"
  and create_cap: "cq_capacity (pgrest_cqueue_create n) = n"
  by (simp_all add: cq_wf_def cq_list_def pgrest_cqueue_create_def)



text \<open>
  The ring refines a bounded list through any position of head and tail: a push is an
  append and fails exactly when the queue is full, a pop takes the oldest element and fails
  exactly when it is empty.
\<close>

theorem cqueue_refines_list:
  assumes "cq_wf cq"
  shows "(case cq_enqueue x cq of
            None \<Rightarrow> length (cq_list cq) = cq_capacity cq
          | Some q \<Rightarrow> cq_wf q \<and> cq_list q = cq_list cq @ [Some x] \<and> length (cq_list cq) < cq_capacity cq)
       \<and> (case cq_dequeue cq of
            None \<Rightarrow> cq_list cq = []
          | Some (y, q) \<Rightarrow> cq_wf q \<and> cq_list cq = y # cq_list q)"
proof
  show "case cq_enqueue x cq of
            None \<Rightarrow> length (cq_list cq) = cq_capacity cq
          | Some q \<Rightarrow> cq_wf q \<and> cq_list q = cq_list cq @ [Some x] \<and> length (cq_list cq) < cq_capacity cq"
  proof (cases "cq_enqueue x cq")
    case None
    with enqueue_full [OF assms, of x] show ?thesis by simp
  next
    case (Some q)
    then have "length (cq_list cq) < cq_capacity cq"
      using enqueue_full [OF assms, of x] ring.len_cap [OF assms] by simp
    with Some enqueue_spec [OF assms Some] show ?thesis by simp
  qed
  show "case cq_dequeue cq of
            None \<Rightarrow> cq_list cq = []
          | Some (y, q) \<Rightarrow> cq_wf q \<and> cq_list cq = y # cq_list q"
    using dequeue_empty [of cq] dequeue_spec [OF assms] by (auto split: option.splits)
qed

theorem cqueue_refines_list_witness:
  "cq_wf \<lparr>cq_elts = [Some 7, None, Some (6 :: nat)], cq_size = 2, cq_capacity = 3, cq_head = 2, cq_tail = 1\<rparr> \<and>
   (\<exists>q. cq_enqueue 8 \<lparr>cq_elts = [Some 7, None, Some (6 :: nat)], cq_size = 2, cq_capacity = 3, cq_head = 2, cq_tail = 1\<rparr> = Some q \<and>
        cq_list q = [Some 6, Some 7, Some 8])"
proof -
  let ?q = "\<lparr>cq_elts = [Some 7, None, Some (6 :: nat)], cq_size = 2, cq_capacity = 3, cq_head = 2, cq_tail = 1\<rparr>"
  have wf: "cq_wf ?q" by (simp add: cq_wf_def)
  have l: "cq_list ?q = [Some 6, Some 7]" by (simp add: cq_list_def upt_rec numeral_2_eq_2)
  have "cq_enqueue 8 ?q \<noteq> None" by (simp add: cq_enqueue_def pgrest_cqueue_push_def)
  with cqueue_refines_list [OF wf, of 8] wf l show ?thesis by (auto split: option.splits)
qed

end
