(* ===== verification/HeaderTokens.thy ===== *)
theory HeaderTokens
  imports Arrays Strings
begin

text \<open>
  The header-name table of \<^verbatim>\<open>src/pg_rest_http_header.c\<close> and its lookup, a decision tree on
  the length and the last character of the name. A token is named by its index in the
  table, as \<^verbatim>\<open>include/pg_rest_http_header.h\<close> does; the handler field of every row of
  the table is NULL in this version of the code (the one handler the sources define,
  \<^verbatim>\<open>pgrest_http_process_host\<close>, is not entered). The lookup is shown to be the
  inverse of the table on every string. The theory also holds the two list operations of
  the file, \<^verbatim>\<open>pgrest_http_header_add\<close> and \<^verbatim>\<open>pgrest_http_header_align\<close>.
\<close>

section \<open>The table\<close>

datatype header_handler = Process_host

record header_token =
  elem :: string
  handler :: "header_handler option"
  offset :: nat
  index :: nat
  drop_tok :: bool
  reject :: bool
  copy :: bool

definition token_row :: "string \<Rightarrow> nat \<Rightarrow> bool \<Rightarrow> bool \<Rightarrow> bool \<Rightarrow> header_token" where
  "token_row s i d r c =
     \<lparr>elem = s, handler = None, offset = 0, index = i, drop_tok = d, reject = r, copy = c\<rparr>"

definition pgrest_header_tokens :: "header_token list" where
  "pgrest_header_tokens = [
     token_row '':authority'' 1 False False False,
     token_row '':method'' 2 False False False,
     token_row '':path'' 4 False False False,
     token_row '':scheme'' 6 False False False,
     token_row '':status'' 8 False False False,
     token_row ''accept'' 19 False False True,
     token_row ''accept-charset'' 15 False False True,
     token_row ''accept-encoding'' 16 False False True,
     token_row ''accept-language'' 17 False False True,
     token_row ''accept-ranges'' 18 False False False,
     token_row ''access-control-allow-origin'' 20 False False False,
     token_row ''age'' 21 False False False,
     token_row ''allow'' 22 False False False,
     token_row ''authorization'' 23 False False False,
     token_row ''cache-control'' 24 False False False,
     token_row ''cache-digest'' 0 False False False,
     token_row ''connection'' 0 True True False,
     token_row ''content-disposition'' 25 False False False,
     token_row ''content-encoding'' 26 False False False,
     token_row ''content-language'' 27 False False False,
     token_row ''content-length'' 28 False False False,
     token_row ''content-location'' 29 False False False,
     token_row ''content-range'' 30 False False False,
     token_row ''content-type'' 31 False False False,
     token_row ''cookie'' 32 False False False,
     token_row ''date'' 33 True False False,
     token_row ''etag'' 34 False False False,
     token_row ''expect'' 35 False False False,
     token_row ''expires'' 36 False False False,
     token_row ''from'' 37 False False False,
     token_row ''host'' 38 False True False,
     token_row ''http2-settings'' 0 True True False,
     token_row ''if-match'' 39 False False False,
     token_row ''if-modified-since'' 40 False False False,
     token_row ''if-none-match'' 41 False False False,
     token_row ''if-range'' 42 False False False,
     token_row ''if-unmodified-since'' 43 False False False,
     token_row ''keep-alive'' 0 True False False,
     token_row ''last-modified'' 44 False False False,
     token_row ''link'' 45 False False False,
     token_row ''location'' 46 False False False,
     token_row ''max-forwards'' 47 False False False,
     token_row ''proxy-authenticate'' 48 True False False,
     token_row ''proxy-authorization'' 49 True False False,
     token_row ''range'' 50 False False False,
     token_row ''referer'' 51 False False False,
     token_row ''refresh'' 52 False False False,
     token_row ''retry-after'' 53 False False False,
     token_row ''server'' 54 True False False,
     token_row ''set-cookie'' 55 False False False,
     token_row ''strict-transport-security'' 56 False False False,
     token_row ''te'' 0 True True False,
     token_row ''transfer-encoding'' 57 True True False,
     token_row ''upgrade'' 0 True True False,
     token_row ''user-agent'' 58 False False True,
     token_row ''vary'' 59 False False False,
     token_row ''via'' 60 False False False,
     token_row ''www-authenticate'' 61 False False False,
     token_row ''x-compress-hint'' 0 False False False,
     token_row ''x-forwarded-for'' 0 False False False,
     token_row ''x-reproxy-url'' 0 False False False,
     token_row ''x-traffic'' 0 False False False]"

section \<open>The decision tree\<close>

text \<open>\<open>memcmp_eq\<close> is \<^verbatim>\<open>memcmp(name, s, n) == 0\<close> for a literal of that length.\<close>

definition memcmp_eq :: "string \<Rightarrow> string \<Rightarrow> bool" where
  "memcmp_eq name s \<longleftrightarrow> take (length s) name = s"

definition header_case_2 :: "string \<Rightarrow> nat option" where
  "header_case_2 name =
     (if name ! 1 = CHR ''e'' then
       (if memcmp_eq name ''t'' then Some 51
        else None)
      else None)"

definition header_case_3 :: "string \<Rightarrow> nat option" where
  "header_case_3 name =
     (if name ! 2 = CHR ''a'' then
       (if memcmp_eq name ''vi'' then Some 56
        else None)
     else if name ! 2 = CHR ''e'' then
       (if memcmp_eq name ''ag'' then Some 11
        else None)
      else None)"

definition header_case_4 :: "string \<Rightarrow> nat option" where
  "header_case_4 name =
     (if name ! 3 = CHR ''e'' then
       (if memcmp_eq name ''dat'' then Some 25
        else None)
     else if name ! 3 = CHR ''g'' then
       (if memcmp_eq name ''eta'' then Some 26
        else None)
     else if name ! 3 = CHR ''k'' then
       (if memcmp_eq name ''lin'' then Some 39
        else None)
     else if name ! 3 = CHR ''m'' then
       (if memcmp_eq name ''fro'' then Some 29
        else None)
     else if name ! 3 = CHR ''t'' then
       (if memcmp_eq name ''hos'' then Some 30
        else None)
     else if name ! 3 = CHR ''y'' then
       (if memcmp_eq name ''var'' then Some 55
        else None)
      else None)"

definition header_case_5 :: "string \<Rightarrow> nat option" where
  "header_case_5 name =
     (if name ! 4 = CHR ''e'' then
       (if memcmp_eq name ''rang'' then Some 44
        else None)
     else if name ! 4 = CHR ''h'' then
       (if memcmp_eq name '':pat'' then Some 2
        else None)
     else if name ! 4 = CHR ''w'' then
       (if memcmp_eq name ''allo'' then Some 12
        else None)
      else None)"

definition header_case_6 :: "string \<Rightarrow> nat option" where
  "header_case_6 name =
     (if name ! 5 = CHR ''e'' then
       (if memcmp_eq name ''cooki'' then Some 24
        else None)
     else if name ! 5 = CHR ''r'' then
       (if memcmp_eq name ''serve'' then Some 48
        else None)
     else if name ! 5 = CHR ''t'' then
       (if memcmp_eq name ''accep'' then Some 5
        else if memcmp_eq name ''expec'' then Some 27
        else None)
      else None)"

definition header_case_7 :: "string \<Rightarrow> nat option" where
  "header_case_7 name =
     (if name ! 6 = CHR ''d'' then
       (if memcmp_eq name '':metho'' then Some 1
        else None)
     else if name ! 6 = CHR ''e'' then
       (if memcmp_eq name '':schem'' then Some 3
        else if memcmp_eq name ''upgrad'' then Some 53
        else None)
     else if name ! 6 = CHR ''h'' then
       (if memcmp_eq name ''refres'' then Some 46
        else None)
     else if name ! 6 = CHR ''r'' then
       (if memcmp_eq name ''refere'' then Some 45
        else None)
     else if name ! 6 = CHR ''s'' then
       (if memcmp_eq name '':statu'' then Some 4
        else if memcmp_eq name ''expire'' then Some 28
        else None)
      else None)"

definition header_case_8 :: "string \<Rightarrow> nat option" where
  "header_case_8 name =
     (if name ! 7 = CHR ''e'' then
       (if memcmp_eq name ''if-rang'' then Some 35
        else None)
     else if name ! 7 = CHR ''h'' then
       (if memcmp_eq name ''if-matc'' then Some 32
        else None)
     else if name ! 7 = CHR ''n'' then
       (if memcmp_eq name ''locatio'' then Some 40
        else None)
      else None)"

definition header_case_9 :: "string \<Rightarrow> nat option" where
  "header_case_9 name =
     (if name ! 8 = CHR ''c'' then
       (if memcmp_eq name ''x-traffi'' then Some 61
        else None)
      else None)"

definition header_case_10 :: "string \<Rightarrow> nat option" where
  "header_case_10 name =
     (if name ! 9 = CHR ''e'' then
       (if memcmp_eq name ''keep-aliv'' then Some 37
        else if memcmp_eq name ''set-cooki'' then Some 49
        else None)
     else if name ! 9 = CHR ''n'' then
       (if memcmp_eq name ''connectio'' then Some 16
        else None)
     else if name ! 9 = CHR ''t'' then
       (if memcmp_eq name ''user-agen'' then Some 54
        else None)
     else if name ! 9 = CHR ''y'' then
       (if memcmp_eq name '':authorit'' then Some 0
        else None)
      else None)"

definition header_case_11 :: "string \<Rightarrow> nat option" where
  "header_case_11 name =
     (if name ! 10 = CHR ''r'' then
       (if memcmp_eq name ''retry-afte'' then Some 47
        else None)
      else None)"

definition header_case_12 :: "string \<Rightarrow> nat option" where
  "header_case_12 name =
     (if name ! 11 = CHR ''e'' then
       (if memcmp_eq name ''content-typ'' then Some 23
        else None)
     else if name ! 11 = CHR ''s'' then
       (if memcmp_eq name ''max-forward'' then Some 41
        else None)
     else if name ! 11 = CHR ''t'' then
       (if memcmp_eq name ''cache-diges'' then Some 15
        else None)
      else None)"

definition header_case_13 :: "string \<Rightarrow> nat option" where
  "header_case_13 name =
     (if name ! 12 = CHR ''d'' then
       (if memcmp_eq name ''last-modifie'' then Some 38
        else None)
     else if name ! 12 = CHR ''e'' then
       (if memcmp_eq name ''content-rang'' then Some 22
        else None)
     else if name ! 12 = CHR ''h'' then
       (if memcmp_eq name ''if-none-matc'' then Some 34
        else None)
     else if name ! 12 = CHR ''l'' then
       (if memcmp_eq name ''cache-contro'' then Some 14
        else if memcmp_eq name ''x-reproxy-ur'' then Some 60
        else None)
     else if name ! 12 = CHR ''n'' then
       (if memcmp_eq name ''authorizatio'' then Some 13
        else None)
     else if name ! 12 = CHR ''s'' then
       (if memcmp_eq name ''accept-range'' then Some 9
        else None)
      else None)"

definition header_case_14 :: "string \<Rightarrow> nat option" where
  "header_case_14 name =
     (if name ! 13 = CHR ''h'' then
       (if memcmp_eq name ''content-lengt'' then Some 20
        else None)
     else if name ! 13 = CHR ''s'' then
       (if memcmp_eq name ''http2-setting'' then Some 31
        else None)
     else if name ! 13 = CHR ''t'' then
       (if memcmp_eq name ''accept-charse'' then Some 6
        else None)
      else None)"

definition header_case_15 :: "string \<Rightarrow> nat option" where
  "header_case_15 name =
     (if name ! 14 = CHR ''e'' then
       (if memcmp_eq name ''accept-languag'' then Some 8
        else None)
     else if name ! 14 = CHR ''g'' then
       (if memcmp_eq name ''accept-encodin'' then Some 7
        else None)
     else if name ! 14 = CHR ''r'' then
       (if memcmp_eq name ''x-forwarded-fo'' then Some 59
        else None)
     else if name ! 14 = CHR ''t'' then
       (if memcmp_eq name ''x-compress-hin'' then Some 58
        else None)
      else None)"

definition header_case_16 :: "string \<Rightarrow> nat option" where
  "header_case_16 name =
     (if name ! 15 = CHR ''e'' then
       (if memcmp_eq name ''content-languag'' then Some 19
        else if memcmp_eq name ''www-authenticat'' then Some 57
        else None)
     else if name ! 15 = CHR ''g'' then
       (if memcmp_eq name ''content-encodin'' then Some 18
        else None)
     else if name ! 15 = CHR ''n'' then
       (if memcmp_eq name ''content-locatio'' then Some 21
        else None)
      else None)"

definition header_case_17 :: "string \<Rightarrow> nat option" where
  "header_case_17 name =
     (if name ! 16 = CHR ''e'' then
       (if memcmp_eq name ''if-modified-sinc'' then Some 33
        else None)
     else if name ! 16 = CHR ''g'' then
       (if memcmp_eq name ''transfer-encodin'' then Some 52
        else None)
      else None)"

definition header_case_18 :: "string \<Rightarrow> nat option" where
  "header_case_18 name =
     (if name ! 17 = CHR ''e'' then
       (if memcmp_eq name ''proxy-authenticat'' then Some 42
        else None)
      else None)"

definition header_case_19 :: "string \<Rightarrow> nat option" where
  "header_case_19 name =
     (if name ! 18 = CHR ''e'' then
       (if memcmp_eq name ''if-unmodified-sinc'' then Some 36
        else None)
     else if name ! 18 = CHR ''n'' then
       (if memcmp_eq name ''content-dispositio'' then Some 17
        else if memcmp_eq name ''proxy-authorizatio'' then Some 43
        else None)
      else None)"

definition header_case_25 :: "string \<Rightarrow> nat option" where
  "header_case_25 name =
     (if name ! 24 = CHR ''y'' then
       (if memcmp_eq name ''strict-transport-securit'' then Some 50
        else None)
      else None)"

definition header_case_27 :: "string \<Rightarrow> nat option" where
  "header_case_27 name =
     (if name ! 26 = CHR ''n'' then
       (if memcmp_eq name ''access-control-allow-origi'' then Some 10
        else None)
      else None)"

definition pgrest_http_header_find_token :: "string \<Rightarrow> nat option" where
  "pgrest_http_header_find_token name =
     (let len = length name in
      if len = 2 then header_case_2 name
      else if len = 3 then header_case_3 name
      else if len = 4 then header_case_4 name
      else if len = 5 then header_case_5 name
      else if len = 6 then header_case_6 name
      else if len = 7 then header_case_7 name
      else if len = 8 then header_case_8 name
      else if len = 9 then header_case_9 name
      else if len = 10 then header_case_10 name
      else if len = 11 then header_case_11 name
      else if len = 12 then header_case_12 name
      else if len = 13 then header_case_13 name
      else if len = 14 then header_case_14 name
      else if len = 15 then header_case_15 name
      else if len = 16 then header_case_16 name
      else if len = 17 then header_case_17 name
      else if len = 18 then header_case_18 name
      else if len = 19 then header_case_19 name
      else if len = 25 then header_case_25 name
      else if len = 27 then header_case_27 name
      else None)"

section \<open>Lemmas\<close>

lemmas header_case_defs =
  header_case_2_def header_case_3_def header_case_4_def header_case_5_def
  header_case_6_def header_case_7_def header_case_8_def header_case_9_def
  header_case_10_def header_case_11_def header_case_12_def header_case_13_def
  header_case_14_def header_case_15_def header_case_16_def header_case_17_def
  header_case_18_def header_case_19_def header_case_25_def header_case_27_def


text \<open>Row \<open>i\<close> of the table carries the name \<open>s\<close>.\<close>

definition names_row :: "nat \<Rightarrow> string \<Rightarrow> bool" where
  "names_row i s \<longleftrightarrow> i < length pgrest_header_tokens \<and> elem (pgrest_header_tokens ! i) = s"

lemma find_token_rows:
  "map (\<lambda>t. pgrest_http_header_find_token (elem t)) pgrest_header_tokens = map Some [0..<62]"
  by code_simp

lemma row_eval:
  "names_row i s \<longleftrightarrow> i < 62 \<and> map elem pgrest_header_tokens ! i = s"
proof -
  have "length pgrest_header_tokens = 62" by code_simp
  then show ?thesis by (auto simp: names_row_def)
qed

lemma token_names: "map elem pgrest_header_tokens = [
    '':authority'', '':method'', '':path'', '':scheme'',
    '':status'', ''accept'', ''accept-charset'', ''accept-encoding'',
    ''accept-language'', ''accept-ranges'', ''access-control-allow-origin'', ''age'',
    ''allow'', ''authorization'', ''cache-control'', ''cache-digest'',
    ''connection'', ''content-disposition'', ''content-encoding'', ''content-language'',
    ''content-length'', ''content-location'', ''content-range'', ''content-type'',
    ''cookie'', ''date'', ''etag'', ''expect'',
    ''expires'', ''from'', ''host'', ''http2-settings'',
    ''if-match'', ''if-modified-since'', ''if-none-match'', ''if-range'',
    ''if-unmodified-since'', ''keep-alive'', ''last-modified'', ''link'',
    ''location'', ''max-forwards'', ''proxy-authenticate'', ''proxy-authorization'',
    ''range'', ''referer'', ''refresh'', ''retry-after'',
    ''server'', ''set-cookie'', ''strict-transport-security'', ''te'',
    ''transfer-encoding'', ''upgrade'', ''user-agent'', ''vary'',
    ''via'', ''www-authenticate'', ''x-compress-hint'', ''x-forwarded-for'',
    ''x-reproxy-url'', ''x-traffic'']"
  by (simp add: pgrest_header_tokens_def token_row_def)

lemma row_hit:
  assumes "memcmp_eq name s" "name ! k = c" "length name = n" "k = length s" "n = Suc k"
    "names_row i (s @ [c])"
  shows "names_row i name"
proof -
  have "take k name = s" "drop k name = [name ! k]"
    using assms by (simp_all add: memcmp_eq_def flip: Cons_nth_drop_Suc)
  then have "name = s @ [c]" using assms(2) by (metis append_take_drop_id)
  with assms(6) show ?thesis by simp
qed

lemma case_2_sound:
  "header_case_2 name = Some i \<Longrightarrow> length name = 2 \<Longrightarrow> names_row i name"
  by (simp add: header_case_2_def split: if_splits; erule (1) row_hit; simp add: row_eval token_names)

lemma case_3_sound:
  "header_case_3 name = Some i \<Longrightarrow> length name = 3 \<Longrightarrow> names_row i name"
  by (simp add: header_case_3_def split: if_splits; erule (1) row_hit; simp add: row_eval token_names)

lemma case_4_sound:
  "header_case_4 name = Some i \<Longrightarrow> length name = 4 \<Longrightarrow> names_row i name"
  by (simp add: header_case_4_def split: if_splits; erule (1) row_hit; simp add: row_eval token_names)

lemma case_5_sound:
  "header_case_5 name = Some i \<Longrightarrow> length name = 5 \<Longrightarrow> names_row i name"
  by (simp add: header_case_5_def split: if_splits; erule (1) row_hit; simp add: row_eval token_names)

lemma case_6_sound:
  "header_case_6 name = Some i \<Longrightarrow> length name = 6 \<Longrightarrow> names_row i name"
  by (simp add: header_case_6_def split: if_splits; erule (1) row_hit; simp add: row_eval token_names)

lemma case_7_sound:
  "header_case_7 name = Some i \<Longrightarrow> length name = 7 \<Longrightarrow> names_row i name"
  by (simp add: header_case_7_def split: if_splits; erule (1) row_hit; simp add: row_eval token_names)

lemma case_8_sound:
  "header_case_8 name = Some i \<Longrightarrow> length name = 8 \<Longrightarrow> names_row i name"
  by (simp add: header_case_8_def split: if_splits; erule (1) row_hit; simp add: row_eval token_names)

lemma case_9_sound:
  "header_case_9 name = Some i \<Longrightarrow> length name = 9 \<Longrightarrow> names_row i name"
  by (simp add: header_case_9_def split: if_splits; erule (1) row_hit; simp add: row_eval token_names)

lemma case_10_sound:
  "header_case_10 name = Some i \<Longrightarrow> length name = 10 \<Longrightarrow> names_row i name"
  by (simp add: header_case_10_def split: if_splits; erule (1) row_hit; simp add: row_eval token_names)

lemma case_11_sound:
  "header_case_11 name = Some i \<Longrightarrow> length name = 11 \<Longrightarrow> names_row i name"
  by (simp add: header_case_11_def split: if_splits; erule (1) row_hit; simp add: row_eval token_names)

lemma case_12_sound:
  "header_case_12 name = Some i \<Longrightarrow> length name = 12 \<Longrightarrow> names_row i name"
  by (simp add: header_case_12_def split: if_splits; erule (1) row_hit; simp add: row_eval token_names)

lemma case_13_sound:
  "header_case_13 name = Some i \<Longrightarrow> length name = 13 \<Longrightarrow> names_row i name"
  by (simp add: header_case_13_def split: if_splits; erule (1) row_hit; simp add: row_eval token_names)

lemma case_14_sound:
  "header_case_14 name = Some i \<Longrightarrow> length name = 14 \<Longrightarrow> names_row i name"
  by (simp add: header_case_14_def split: if_splits; erule (1) row_hit; simp add: row_eval token_names)

lemma case_15_sound:
  "header_case_15 name = Some i \<Longrightarrow> length name = 15 \<Longrightarrow> names_row i name"
  by (simp add: header_case_15_def split: if_splits; erule (1) row_hit; simp add: row_eval token_names)

lemma case_16_sound:
  "header_case_16 name = Some i \<Longrightarrow> length name = 16 \<Longrightarrow> names_row i name"
  by (simp add: header_case_16_def split: if_splits; erule (1) row_hit; simp add: row_eval token_names)

lemma case_17_sound:
  "header_case_17 name = Some i \<Longrightarrow> length name = 17 \<Longrightarrow> names_row i name"
  by (simp add: header_case_17_def split: if_splits; erule (1) row_hit; simp add: row_eval token_names)

lemma case_18_sound:
  "header_case_18 name = Some i \<Longrightarrow> length name = 18 \<Longrightarrow> names_row i name"
  by (simp add: header_case_18_def split: if_splits; erule (1) row_hit; simp add: row_eval token_names)

lemma case_19_sound:
  "header_case_19 name = Some i \<Longrightarrow> length name = 19 \<Longrightarrow> names_row i name"
  by (simp add: header_case_19_def split: if_splits; erule (1) row_hit; simp add: row_eval token_names)

lemma case_25_sound:
  "header_case_25 name = Some i \<Longrightarrow> length name = 25 \<Longrightarrow> names_row i name"
  by (simp add: header_case_25_def split: if_splits; erule (1) row_hit; simp add: row_eval token_names)

lemma case_27_sound:
  "header_case_27 name = Some i \<Longrightarrow> length name = 27 \<Longrightarrow> names_row i name"
  by (simp add: header_case_27_def split: if_splits; erule (1) row_hit; simp add: row_eval token_names)

lemmas case_sound =
  case_2_sound case_3_sound case_4_sound case_5_sound
  case_6_sound case_7_sound case_8_sound case_9_sound
  case_10_sound case_11_sound case_12_sound case_13_sound
  case_14_sound case_15_sound case_16_sound case_17_sound
  case_18_sound case_19_sound case_25_sound case_27_sound

lemma find_token_sound: "pgrest_http_header_find_token name = Some i \<Longrightarrow> names_row i name"
  by (simp add: pgrest_http_header_find_token_def Let_def case_sound split: if_split_asm)

lemma find_token_complete: "names_row i name \<Longrightarrow> pgrest_http_header_find_token name = Some i"
proof -
  assume "names_row i name"
  then have i: "i < 62" "map elem pgrest_header_tokens ! i = name" by (auto simp: row_eval)
  have len: "length pgrest_header_tokens = 62"
    using arg_cong [OF find_token_rows, of length] by simp
  have "map (\<lambda>t. pgrest_http_header_find_token (elem t)) pgrest_header_tokens ! i = Some i"
    using i(1) by (simp add: find_token_rows)
  with i len show ?thesis by simp
qed

section \<open>Adding a header to the list\<close>

text \<open>
  The header is copied into the pushed slot; the index stands for the pointer the caller's
  \<open>header\<close> is set to, None for the failure.
\<close>

definition pgrest_http_header_add ::
  "pg_mem \<Rightarrow> pgrest_param pgrest_array \<Rightarrow> pgrest_param \<Rightarrow> nat option \<times> pgrest_param pgrest_array" where
  "pgrest_http_header_add pg headers header =
     (case pgrest_array_push pg headers of
        (None, a) \<Rightarrow> (None, a)
      | (Some i, a) \<Rightarrow> (Some i, array_store a i header))"

lemma header_add_append:
  "pgrest_http_header_add pg hs h = (Some i, hs') \<Longrightarrow> array_append pg h hs = Some hs'"
  by (auto simp: pgrest_http_header_add_def array_append_def split: prod.splits option.splits)

section \<open>Properties\<close>

text \<open>
  C25. The decision tree is exact: for every string, the lookup returns row \<open>i\<close> if and
  only if \<open>i\<close> is a row of the table that carries exactly this name; so no name outside the
  table is recognised and every one of the 62 rows is found.
\<close>

theorem header_find_token_exact:
  "pgrest_http_header_find_token name = Some i \<longleftrightarrow>
     i < length pgrest_header_tokens \<and> elem (pgrest_header_tokens ! i) = name"
  using find_token_sound find_token_complete by (auto simp: names_row_def)

text \<open>
  No header of a request has a handler: whatever name the lookup recognises, the
  handler field of its row is NULL, so \<^verbatim>\<open>Host\<close>, \<^verbatim>\<open>Content-Length\<close>, \<^verbatim>\<open>Transfer-Encoding\<close>,
  \<^verbatim>\<open>Expect\<close> and the others never set the fields of \<^verbatim>\<open>headers_in\<close> that the request code tests.
\<close>

theorem header_table_has_no_handler:
  "pgrest_http_header_find_token name = Some i \<Longrightarrow> handler (pgrest_header_tokens ! i) = None"
proof -
  assume "pgrest_http_header_find_token name = Some i"
  then have "i < length pgrest_header_tokens" using find_token_sound by (auto simp: names_row_def)
  moreover have "list_all (\<lambda>t. handler t = None) pgrest_header_tokens"
    by (simp add: pgrest_header_tokens_def token_row_def)
  ultimately show ?thesis by (simp add: list_all_length)
qed

theorem header_table_has_no_handler_witness:
  "handler (pgrest_header_tokens ! 30) = None \<and> elem (pgrest_header_tokens ! 30) = ''host''"
proof -
  have "pgrest_http_header_find_token ''host'' = Some 30" by code_simp
  from header_table_has_no_handler [OF this] show ?thesis
    by (simp add: pgrest_header_tokens_def token_row_def)
qed

end
