(* ===== verification/Memory.thy ===== *)
theory Memory
  imports Alloc Strings
begin

text \<open>
  The buffers and buffer chains of \<^verbatim>\<open>src/pg_rest_memory.c\<close> and \<^verbatim>\<open>include/pg_rest_memory.h\<close>.
  A buffer is its bytes from \<open>start\<close> (a list of \<open>capacity\<close> bytes), the offset of \<open>pos\<close>
  from \<open>start\<close>, the number of valid bytes and the descriptor of its backing file (None
  for -1). The memory context, \<^verbatim>\<open>mkstemp\<close>, \<^verbatim>\<open>posix_fallocate\<close> and \<^verbatim>\<open>mmap\<close> are parameters
  (record \<open>buf_env\<close>): whether each call succeeds, the byte that fresh heap memory holds, and
  the descriptor a new temporary file gets. A fresh file mapping reads as zero bytes, and a
  mapping of the same file reads the same bytes.
\<close>

section \<open>Buffers\<close>

record pgrest_buffer =
  b_capacity :: nat
  b_size :: nat
  b_pos :: nat
  b_fd :: "nat option"
  b_start :: "byte list"

record buf_env =
  be_mem :: pg_mem
  be_junk :: byte
  be_mkstemp :: "nat option"
  be_fallocate :: "nat \<Rightarrow> bool"
  be_mmap :: "nat \<Rightarrow> bool"
  be_pagesize :: nat

definition PGREST_BUFFER_LIMIT_SIZE :: nat where "PGREST_BUFFER_LIMIT_SIZE = 1048576"

text \<open>\<^verbatim>\<open>offsetof(pgrest_buffer_t, start)\<close> on a 64-bit build.\<close>

definition buffer_header :: nat where "buffer_header = 28"

definition pgrest_buffer_free_size :: "pgrest_buffer \<Rightarrow> nat" where
  "pgrest_buffer_free_size buf = usub (usub (b_capacity buf) (b_size buf)) (b_pos buf)"

definition pgrest_buffer_reset :: "pgrest_buffer \<Rightarrow> pgrest_buffer" where
  "pgrest_buffer_reset buf = buf\<lparr>b_size := 0, b_pos := 0\<rparr>"

definition pgrest_buffer_consume :: "pgrest_buffer \<Rightarrow> nat \<Rightarrow> pgrest_buffer" where
  "pgrest_buffer_consume buf n =
     (if b_size buf = n then pgrest_buffer_reset buf
      else buf\<lparr>b_size := usub (b_size buf) n, b_pos := uadd (b_pos buf) n\<rparr>)"

definition pgrest_buffer_create :: "buf_env \<Rightarrow> nat \<Rightarrow> pgrest_buffer option" where
  "pgrest_buffer_create env n =
     (if pgrest_util_alloc (be_mem env) (uadd buffer_header n)
      then Some \<lparr>b_capacity = n, b_size = 0, b_pos = 0, b_fd = None,
                 b_start = replicate n (be_junk env)\<rparr>
      else None)"

definition topagesize :: "buf_env \<Rightarrow> nat \<Rightarrow> nat" where
  "topagesize env cap =
     (buffer_header + cap + be_pagesize env - 1) div be_pagesize env * be_pagesize env"

text \<open>
  The doubling loop of \<^verbatim>\<open>pgrest_buffer_reserve\<close>, with fuel: after 64 doublings the 64-bit
  capacity is 0 and stays 0, so 65 rounds decide whether the loop ends.
\<close>

fun grow_capacity :: "nat \<Rightarrow> nat \<Rightarrow> nat \<Rightarrow> nat \<Rightarrow> nat option" where
  "grow_capacity 0 cap used req = None"
| "grow_capacity (Suc fuel) cap used req =
     (let c = umul cap 2 in
      if usub c used < req then grow_capacity fuel c used req else Some c)"

text \<open>The label \<open>done\<close>: offset and length of the free area behind the data.\<close>

definition buffer_tail :: "pgrest_buffer \<Rightarrow> nat \<times> nat" where
  "buffer_tail buf = (uadd (b_pos buf) (b_size buf),
                      usub (b_capacity buf) (uadd (b_pos buf) (b_size buf)))"

text \<open>The bytes between \<open>pos\<close> and \<open>pos + size\<close>.\<close>

definition buf_data :: "pgrest_buffer \<Rightarrow> byte list" where
  "buf_data buf = take (b_size buf) (drop (b_pos buf) (b_start buf))"

text \<open>The label \<open>copy\<close>: the data moves to the start of a new buffer.\<close>

definition buffer_copy_to :: "pgrest_buffer \<Rightarrow> nat \<Rightarrow> nat option \<Rightarrow> byte \<Rightarrow> pgrest_buffer" where
  "buffer_copy_to buf cap fd fill =
     \<lparr>b_capacity = cap, b_size = b_size buf, b_pos = 0, b_fd = fd,
      b_start = buf_data buf @ replicate (cap - length (buf_data buf)) fill\<rparr>"

text \<open>
  \<^verbatim>\<open>pgrest_buffer_reserve\<close>: the buffer afterwards and the free area (None for the NULL
  result). A heap allocation that fails is copied into without a test.
\<close>

definition pgrest_buffer_reserve ::
  "buf_env \<Rightarrow> pgrest_buffer \<Rightarrow> nat \<Rightarrow> ((nat \<times> nat) option \<times> pgrest_buffer) run" where
  "pgrest_buffer_reserve env buf n =
     (if pgrest_buffer_free_size buf \<ge> n then Inr (Some (buffer_tail buf), buf)
      else if umul (uadd (b_size buf) n) 2 \<le> b_capacity buf then
        let b = buf\<lparr>b_pos := 0,
                    b_start := buf_data buf @ drop (length (buf_data buf)) (b_start buf)\<rparr>
        in Inr (Some (buffer_tail b), b)
      else
        case grow_capacity 65 (b_capacity buf) (b_size buf) n of
          None \<Rightarrow> Inl NoReturn
        | Some cap \<Rightarrow>
            if cap \<le> PGREST_BUFFER_LIMIT_SIZE then
              if pgrest_util_alloc (be_mem env) (buffer_header + cap) then
                let b = buffer_copy_to buf cap None (be_junk env)
                in Inr (Some (buffer_tail b), b)
              else Inl NullDeref
            else
              let fd = (case b_fd buf of Some f \<Rightarrow> Some f | None \<Rightarrow> be_mkstemp env) in
              if fd = None then Inr (None, buf)
              else if \<not> be_fallocate env (topagesize env cap) then Inr (None, buf)
              else if \<not> be_mmap env (topagesize env cap) then Inr (None, buf)
              else if b_fd buf \<noteq> None then
                let b = buf\<lparr>b_capacity := cap,
                            b_start := b_start buf @ replicate (cap - length (b_start buf)) (CHR 0x00)\<rparr>
                in Inr (Some (buffer_tail b), b)
              else
                let b = buffer_copy_to buf cap fd (CHR 0x00)
                in Inr (Some (buffer_tail b), b))"

text \<open>
  \<^verbatim>\<open>pgrest_buffer_extend\<close> reallocates to twice the capacity in bytes, header included.
  The bytes of the new area that lie inside the reallocated chunk are the model's
  \<open>b_start\<close>; the recorded capacity is larger than that by the header.
\<close>

definition pgrest_buffer_extend :: "buf_env \<Rightarrow> pgrest_buffer \<Rightarrow> pgrest_buffer option" where
  "pgrest_buffer_extend env buf =
     (if pgrest_util_realloc (be_mem env) (umul (b_capacity buf) 2)
      then Some (buf\<lparr>b_capacity := umul (b_capacity buf) 2,
                     b_start := take (umul (b_capacity buf) 2 - buffer_header)
                       (b_start buf @ replicate (b_capacity buf) (be_junk env))\<rparr>)
      else None)"

section \<open>Chains\<close>

text \<open>
  A chain is the list of its buffers. \<^verbatim>\<open>pgrest_chain_append\<close> takes its links from the pool's
  free list (\<open>free\<close> links) and then from the allocator, one answer of \<open>allocs\<close> per call.
  The boolean \<open>terminated\<close> says whether the last \<open>next\<close> pointer was set: the error return
  leaves it as the allocator delivered it.
\<close>

fun pgrest_chain_link_alloc :: "nat \<Rightarrow> bool list \<Rightarrow> bool \<times> bool \<times> nat \<times> bool list" where
  "pgrest_chain_link_alloc (Suc free) allocs = (True, True, free, allocs)"
| "pgrest_chain_link_alloc 0 [] = (False, False, 0, [])"
| "pgrest_chain_link_alloc 0 (ok # allocs) = (ok, False, 0, allocs)"

fun chain_append_loop ::
  "'b list \<Rightarrow> 'b list \<Rightarrow> bool \<Rightarrow> nat \<Rightarrow> bool list \<Rightarrow> bool \<times> 'b list \<times> bool \<times> nat" where
  "chain_append_loop chain [] terminated free allocs = (True, chain, True, free)"
| "chain_append_loop chain (b # inp) terminated free allocs =
     (case pgrest_chain_link_alloc free allocs of
        (ok, from_pool, free', allocs') \<Rightarrow>
          if \<not> ok then (False, chain, terminated, free')
          else chain_append_loop (chain @ [b]) inp (from_pool \<and> free' = 0) free' allocs')"

definition pgrest_chain_append :: "'b list \<Rightarrow> 'b list \<Rightarrow> nat \<Rightarrow> bool list \<Rightarrow> bool \<times> 'b list \<times> bool \<times> nat" where
  "pgrest_chain_append chain inp free allocs = chain_append_loop chain inp True free allocs"

text \<open>The buffers after the update, and how many links the returned pointer lies behind.\<close>

fun pgrest_chain_update_sent :: "pgrest_buffer list \<Rightarrow> nat \<Rightarrow> pgrest_buffer list \<times> nat" where
  "pgrest_chain_update_sent [] sent = ([], 0)"
| "pgrest_chain_update_sent (b # inp) sent =
     (if sent = 0 then (b # inp, 0)
      else if sent \<ge> b_size b then
        (case pgrest_chain_update_sent inp (sent - b_size b) of
           (bs, k) \<Rightarrow> (b\<lparr>b_pos := 0, b_size := 0\<rparr> # bs, Suc k))
      else (b\<lparr>b_pos := b_pos b + sent, b_size := b_size b - sent\<rparr> # inp, 0))"

section \<open>Well-formed buffers\<close>

definition buffer_wf :: "pgrest_buffer \<Rightarrow> bool" where
  "buffer_wf b \<longleftrightarrow> length (b_start b) = b_capacity b \<and> b_pos b + b_size b \<le> b_capacity b
     \<and> b_capacity b < 2 ^ 63"

lemma word_half: "n < 2 ^ 63 \<Longrightarrow> n < WORD_MOD" "n < 2 ^ 63 \<Longrightarrow> 2 * n < WORD_MOD"
  for n :: nat
  by (simp_all add: WORD_MOD_def)

lemma free_size_exact:
  assumes "buffer_wf b"
  shows "pgrest_buffer_free_size b = b_capacity b - b_size b - b_pos b"
proof -
  have "b_capacity b < WORD_MOD" using assms by (simp add: buffer_wf_def word_half)
  moreover have "b_size b \<le> b_capacity b" "b_pos b \<le> b_capacity b - b_size b"
    using assms by (auto simp: buffer_wf_def)
  ultimately show ?thesis by (simp add: pgrest_buffer_free_size_def usub_exact)
qed

lemma buffer_tail_exact:
  assumes "buffer_wf b"
  shows "buffer_tail b = (b_pos b + b_size b, b_capacity b - (b_pos b + b_size b))"
proof -
  have "b_capacity b < WORD_MOD" using assms by (simp add: buffer_wf_def word_half)
  then show ?thesis
    using assms by (simp add: buffer_tail_def usub_exact uadd_exact buffer_wf_def)
qed

lemma length_buf_data [size_simps]: "buffer_wf b \<Longrightarrow> length (buf_data b) = b_size b"
  by (auto simp: buf_data_def buffer_wf_def)

lemma reset_wf [wf_intros]: "buffer_wf b \<Longrightarrow> buffer_wf (pgrest_buffer_reset b)"
  by (simp add: buffer_wf_def pgrest_buffer_reset_def)

lemma consume_spec:
  assumes "buffer_wf b" "n \<le> b_size b"
  shows "buffer_wf (pgrest_buffer_consume b n) \<and>
    buf_data (pgrest_buffer_consume b n) = drop n (buf_data b)"
proof (cases "b_size b = n")
  case True
  with assms show ?thesis
    by (simp add: pgrest_buffer_consume_def reset_wf [unfolded pgrest_buffer_reset_def]
        buf_data_def pgrest_buffer_reset_def)
next
  case False
  have "b_capacity b < WORD_MOD" using assms by (simp add: buffer_wf_def word_half)
  with assms have "usub (b_size b) n = b_size b - n" "uadd (b_pos b) n = b_pos b + n"
    by (simp_all add: usub_exact uadd_exact buffer_wf_def)
  with False assms show ?thesis
    by (simp add: pgrest_buffer_consume_def buffer_wf_def buf_data_def drop_take add.commute)
qed

lemma create_spec:
  assumes "pgrest_buffer_create env n = Some b" "alloc_limit (be_mem env)" "n < 2 ^ 63"
  shows "buffer_wf b \<and> buf_data b = [] \<and> b_capacity b = n"
  using assms by (auto simp: pgrest_buffer_create_def buffer_wf_def buf_data_def split: if_splits)

subsection \<open>The doubling loop\<close>

lemma grow_capacity_Some:
  assumes "grow_capacity fuel cap used req = Some c" "used \<le> cap" "cap * 2 ^ fuel < WORD_MOD"
  shows "used + req \<le> c \<and> 2 * cap \<le> c \<and> c \<le> cap * 2 ^ fuel"
  using assms
proof (induction fuel arbitrary: cap)
  case 0
  then show ?case by simp
next
  case (Suc fuel)
  have "cap * 2 \<le> cap * 2 ^ Suc fuel" by simp
  with Suc.prems(3) have small: "cap * 2 < WORD_MOD" by linarith
  then have d: "umul cap 2 = cap * 2" by (rule umul_exact)
  have s: "usub (cap * 2) used = cap * 2 - used"
    using small Suc.prems(2) by (intro usub_exact) simp_all
  show ?case
  proof (cases "cap * 2 - used < req")
    case True
    with Suc.prems d s have "grow_capacity fuel (cap * 2) used req = Some c" by simp
    with Suc.IH [of "cap * 2"] Suc.prems show ?thesis by (simp add: mult.assoc)
  next
    case False
    with Suc.prems d s have "c = cap * 2" by simp
    with False Suc.prems(2) show ?thesis by simp
  qed
qed

lemma grow_capacity_reaches:
  assumes "used \<le> cap" "used + req \<le> cap * 2 ^ fuel" "cap * 2 ^ fuel < WORD_MOD" "0 < fuel"
  shows "\<exists>c. grow_capacity fuel cap used req = Some c"
  using assms
proof (induction fuel arbitrary: cap)
  case 0
  then show ?case by simp
next
  case (Suc fuel)
  have "cap * 2 \<le> cap * 2 ^ Suc fuel" by simp
  with Suc.prems(3) have small: "cap * 2 < WORD_MOD" by linarith
  then have d: "umul cap 2 = cap * 2" by (rule umul_exact)
  have s: "usub (cap * 2) used = cap * 2 - used"
    using small Suc.prems(1) by (intro usub_exact) simp_all
  show ?case
  proof (cases "cap * 2 - used < req")
    case True
    with Suc.prems(2) have "0 < fuel" by (cases fuel) simp_all
    with Suc.IH [of "cap * 2"] Suc.prems True d s show ?thesis by (simp add: mult.assoc)
  next
    case False
    with d s show ?thesis by simp
  qed
qed

lemma grow_capacity_more:
  "grow_capacity fuel cap used req = Some c \<Longrightarrow> grow_capacity (fuel + k) cap used req = Some c"
  by (induction fuel arbitrary: cap) (auto simp: Let_def split: if_splits)

lemma pow_bracket:
  fixes cap need :: nat
  assumes "0 < cap" "2 * cap \<le> need"
  shows "\<exists>k. 0 < k \<and> need \<le> cap * 2 ^ k \<and> cap * 2 ^ k < 2 * need"
proof -
  define k where "k = (LEAST k. need \<le> cap * 2 ^ k)"
  have ex: "need \<le> cap * 2 ^ need"
    using assms less_exp [of need] by (metis less_imp_le mult_le_mono mult_1 Suc_leI One_nat_def)
  then have k: "need \<le> cap * 2 ^ k" unfolding k_def by (rule LeastI)
  with assms have pos: "0 < k" by (cases k) auto
  then obtain j where j: "k = Suc j" by (cases k) auto
  have "\<not> need \<le> cap * 2 ^ j"
    using not_less_Least [of j "\<lambda>k. need \<le> cap * 2 ^ k"] j unfolding k_def by simp
  with j k pos show ?thesis by (intro exI [of _ k]) simp
qed

text \<open>
  The loop always ends on a non-empty buffer, within the fuel, when the request and the
  capacity are below \<open>2 ^ 62\<close>.
\<close>

lemma grow_capacity_total:
  assumes "0 < cap" "used \<le> cap" "cap < 2 ^ 62" "used + req < 2 ^ 62"
  shows "\<exists>c. grow_capacity 65 cap used req = Some c \<and> used + req \<le> c \<and> 2 * cap \<le> c \<and> c < 2 ^ 63 \<and>
    c < 2 * max (used + req) (2 * cap)"
proof -
  obtain k where k: "0 < k" "max (used + req) (2 * cap) \<le> cap * 2 ^ k"
    "cap * 2 ^ k < 2 * max (used + req) (2 * cap)"
    using pow_bracket [OF assms(1), of "max (used + req) (2 * cap)"] by auto
  show ?thesis
  proof (cases "used + req \<le> 2 * cap")
    case True
    have "cap * 2 ^ 1 < WORD_MOD" using assms(3) by (simp add: WORD_MOD_def)
    then obtain c where c: "grow_capacity 1 cap used req = Some c"
      using grow_capacity_reaches [of used cap req 1] assms(2) True by auto
    have "c \<le> cap * 2 ^ 1 \<and> used + req \<le> c \<and> 2 * cap \<le> c"
      using grow_capacity_Some [OF c assms(2)] assms(3) by (simp add: WORD_MOD_def)
    then show ?thesis
      using grow_capacity_more [OF c, of 64] assms(1,3) by auto
  next
    case False
    then have b: "cap * 2 ^ k < 2 ^ 63" using k(3) assms(4) by simp
    then have w: "cap * 2 ^ k < WORD_MOD" by (rule word_half)
    obtain c where c: "grow_capacity k cap used req = Some c"
      using grow_capacity_reaches [OF assms(2) _ w k(1)] k(2) by auto
    have "(2::nat) ^ k \<le> cap * 2 ^ k" using assms(1) by simp
    with b have "(2::nat) ^ k < 2 ^ 63" by linarith
    then have "k < 63" by (rule power_less_imp_less_exp [rotated]) simp
    then have "grow_capacity 65 cap used req = Some c"
      using grow_capacity_more [OF c, of "65 - k"] by simp
    then show ?thesis
      using grow_capacity_Some [OF c assms(2) w] b k(3) by fastforce
  qed
qed

subsection \<open>Reserving room\<close>

text \<open>The outcome a caller relies on: the same data, a well-formed buffer, room behind it.\<close>

definition reserve_ok :: "pgrest_buffer \<Rightarrow> nat \<Rightarrow> nat \<times> nat \<Rightarrow> pgrest_buffer \<Rightarrow> bool" where
  "reserve_ok b n tail b' \<longleftrightarrow> buffer_wf b' \<and> buf_data b' = buf_data b \<and>
     fst tail = b_pos b' + b_size b' \<and> n \<le> snd tail \<and> fst tail + snd tail = b_capacity b'"

lemma reserve_okI:
  assumes "buffer_wf b'" "buf_data b' = buf_data b" "b_pos b' + b_size b' + n \<le> b_capacity b'"
  shows "reserve_ok b n (buffer_tail b') b'"
  using assms by (auto simp: reserve_ok_def buffer_tail_exact)

lemma copy_to_spec:
  assumes "buffer_wf b" "b_size b + n \<le> cap" "cap < 2 ^ 63"
  shows "reserve_ok b n (buffer_tail (buffer_copy_to b cap fd fill)) (buffer_copy_to b cap fd fill)"
proof (rule reserve_okI)
  have l: "length (buf_data b) = b_size b" using assms(1) by (rule length_buf_data)
  with assms show "buffer_wf (buffer_copy_to b cap fd fill)"
    by (simp add: buffer_copy_to_def buffer_wf_def)
  show "buf_data (buffer_copy_to b cap fd fill) = buf_data b"
    using l by (simp add: buffer_copy_to_def buf_data_def)
  show "b_pos (buffer_copy_to b cap fd fill) + b_size (buffer_copy_to b cap fd fill) + n
      \<le> b_capacity (buffer_copy_to b cap fd fill)"
    using assms(2) by (simp add: buffer_copy_to_def)
qed

lemma move_down_spec:
  assumes wf: "buffer_wf b" and n: "(b_size b + n) * 2 \<le> b_capacity b"
  defines "b' \<equiv> b\<lparr>b_pos := 0, b_start := buf_data b @ drop (length (buf_data b)) (b_start b)\<rparr>"
  shows "reserve_ok b n (buffer_tail b') b'"
proof (rule reserve_okI)
  have l: "length (buf_data b) = b_size b" using wf by (rule length_buf_data)
  with wf show "buffer_wf b'" by (auto simp: b'_def buffer_wf_def)
  show "buf_data b' = buf_data b" using l by (simp add: b'_def buf_data_def)
  show "b_pos b' + b_size b' + n \<le> b_capacity b'" using n by (simp add: b'_def)
qed

lemma remap_spec:
  fixes c :: byte
  assumes wf: "buffer_wf b" and room: "b_pos b + b_size b + n \<le> cap" and "b_capacity b \<le> cap" "cap < 2 ^ 63"
  defines "b' \<equiv> b\<lparr>b_capacity := cap, b_start := b_start b @ replicate (cap - length (b_start b)) c\<rparr>"
  shows "reserve_ok b n (buffer_tail b') b'"
proof (rule reserve_okI)
  show "buffer_wf b'" using assms by (auto simp: buffer_wf_def)
  show "buf_data b' = buf_data b"
    using wf by (auto simp: b'_def buf_data_def buffer_wf_def)
  show "b_pos b' + b_size b' + n \<le> b_capacity b'" using room by (simp add: b'_def)
qed

lemma reserve_cases:
  assumes wf: "buffer_wf b" and cap: "0 < b_capacity b" "b_capacity b < 2 ^ 62" "b_size b + n < 2 ^ 62"
    and res: "pgrest_buffer_reserve env b n = r" and pos: "b_fd b = None \<or> b_pos b = 0"
  shows "r = Inl NullDeref \<or> r = Inr (None, b) \<or> 
    (\<exists>b'. r = Inr (Some (buffer_tail b'), b') \<and> reserve_ok b n (buffer_tail b') b')"
proof -
  have sz: "b_size b \<le> b_capacity b" using wf by (simp add: buffer_wf_def)
  have dbl: "umul (uadd (b_size b) n) 2 = (b_size b + n) * 2"
    using cap(3) by (simp add: uadd_exact umul_exact WORD_MOD_def)
  obtain c where c: "grow_capacity 65 (b_capacity b) (b_size b) n = Some c" "b_size b + n \<le> c"
    "2 * b_capacity b \<le> c" "c < 2 ^ 63"
    using grow_capacity_total [OF cap(1) sz cap(2,3)] by blast
  have copy: "reserve_ok b n (buffer_tail (buffer_copy_to b c fd fill)) (buffer_copy_to b c fd fill)" for fd fill
    using copy_to_spec [OF wf c(2,4)] .
  have remap: "reserve_ok b n (buffer_tail b') b'"
    if "b_fd b \<noteq> None" "b' = b\<lparr>b_capacity := c, b_start := b_start b @ replicate (c - length (b_start b)) (CHR 0x00)\<rparr>" for b'
    using remap_spec [OF wf _ _ c(4), of n "CHR 0x00"] that pos c(2,3) by auto
  consider (fits) "n \<le> pgrest_buffer_free_size b"
    | (move) "\<not> n \<le> pgrest_buffer_free_size b" "(b_size b + n) * 2 \<le> b_capacity b"
    | (grow) "\<not> n \<le> pgrest_buffer_free_size b" "\<not> (b_size b + n) * 2 \<le> b_capacity b"
    by blast
  then show ?thesis
  proof cases
    case fits
    then have "reserve_ok b n (buffer_tail b) b"
      using wf by (intro reserve_okI) (auto simp: free_size_exact buffer_wf_def)
    moreover have "r = Inr (Some (buffer_tail b), b)"
      using fits res by (simp add: pgrest_buffer_reserve_def)
    ultimately show ?thesis by blast
  next
    case move
    with res move_down_spec [OF wf move(2)] dbl show ?thesis
      by (auto simp: pgrest_buffer_reserve_def Let_def)
  next
    case grow
    with res c(1) dbl copy remap show ?thesis
      by (auto simp: pgrest_buffer_reserve_def Let_def split: if_splits)
  qed
qed

text \<open>The new capacity is less than twice what is asked for or four times the old one.\<close>

lemma reserve_capacity:
  assumes wf: "buffer_wf b" and cap: "0 < b_capacity b" "b_capacity b < 2 ^ 62" "b_size b + n < 2 ^ 62"
    and res: "pgrest_buffer_reserve env b n = Inr (x, b')"
  shows "b_capacity b \<le> b_capacity b'" "b_capacity b' < 2 * max (b_size b + n) (2 * b_capacity b)"
    "b_size b' = b_size b" "b_pos b = 0 \<Longrightarrow> b_pos b' = 0"
proof -
  have sz: "b_size b \<le> b_capacity b" using wf by (simp add: buffer_wf_def)
  obtain c where c: "grow_capacity 65 (b_capacity b) (b_size b) n = Some c" "2 * b_capacity b \<le> c" "c < 2 * max (b_size b + n) (2 * b_capacity b)"
    using grow_capacity_total [OF cap(1) sz cap(2,3)] by blast
  note r = res [unfolded pgrest_buffer_reserve_def c(1) Let_def option.case]
  show "b_capacity b \<le> b_capacity b'" using r c(2) by (auto simp: buffer_copy_to_def split: if_splits)
  have "b_capacity b < 2 * max (b_size b + n) (2 * b_capacity b)" using cap(1) by (simp add: max_def)
  with r c(3) show "b_capacity b' < 2 * max (b_size b + n) (2 * b_capacity b)" by (auto simp: buffer_copy_to_def split: if_splits)
  show "b_size b' = b_size b" using r by (auto simp: buffer_copy_to_def split: if_splits)
  show "b_pos b = 0 \<Longrightarrow> b_pos b' = 0" using r by (auto simp: buffer_copy_to_def split: if_splits)
qed

section \<open>Chains\<close>

lemma chain_append_loop_spec:
  "chain_append_loop chain inp t free allocs = (ok, chain', t', free') \<Longrightarrow>
     (ok \<longrightarrow> chain' = chain @ inp \<and> t') \<and> (\<exists>k. chain' = chain @ take k inp)"
proof (induction chain inp t free allocs rule: chain_append_loop.induct)
  case (1 chain t free allocs)
  then show ?case by auto
next
  case (2 chain b inp t free allocs)
  obtain ok1 p f al where l: "pgrest_chain_link_alloc free allocs = (ok1, p, f, al)"
    by (metis prod_cases4)
  show ?case
  proof (cases ok1)
    case False
    with 2 l show ?thesis by (auto intro: exI [of _ 0])
  next
    case True
    with 2 l have "(ok \<longrightarrow> chain' = (chain @ [b]) @ inp \<and> t') \<and> (\<exists>k. chain' = (chain @ [b]) @ take k inp)"
      by auto
    then obtain k where "ok \<longrightarrow> chain' = chain @ b # inp \<and> t'" "chain' = chain @ b # take k inp"
      unfolding append_assoc append_Cons append_Nil by blast
    then show ?thesis by (auto intro: exI [of _ "Suc k"])
  qed
qed

text \<open>What is still to be sent: the data of the buffers from the returned link on.\<close>

definition chain_data :: "pgrest_buffer list \<Rightarrow> byte list" where
  "chain_data bs = concat (map buf_data bs)"

lemma update_sent_spec:
  assumes "list_all buffer_wf bs"
  shows "chain_data (fst (pgrest_chain_update_sent bs n)) = drop n (chain_data bs) \<and>
    list_all buffer_wf (fst (pgrest_chain_update_sent bs n)) \<and>
    list_all (\<lambda>b. buf_data b = []) (take (snd (pgrest_chain_update_sent bs n)) (fst (pgrest_chain_update_sent bs n)))"
  using assms
proof (induction bs n rule: pgrest_chain_update_sent.induct)
  case (1 n)
  then show ?case by (simp add: chain_data_def)
next
  case (2 b bs n)
  then have b: "buffer_wf b" and len: "length (buf_data b) = b_size b" by (simp_all add: length_buf_data)
  consider "n = 0" | "n \<noteq> 0" "b_size b \<le> n" | "n \<noteq> 0" "\<not> b_size b \<le> n" by blast
  then show ?case
  proof cases
    case 1
    with 2 show ?thesis by simp
  next
    case 2
    obtain bs' k where r: "pgrest_chain_update_sent bs (n - b_size b) = (bs', k)" by force
    have "buffer_wf (b\<lparr>b_pos := 0, b_size := 0\<rparr>)" "buf_data (b\<lparr>b_pos := 0, b_size := 0\<rparr>) = []"
      using b by (simp_all add: buffer_wf_def buf_data_def)
    with "2.IH" "2.prems" 2 r len show ?thesis by (simp add: chain_data_def)
  next
    case 3
    let ?b = "b\<lparr>b_pos := b_pos b + n, b_size := b_size b - n\<rparr>"
    have "buffer_wf ?b" "buf_data ?b = drop n (buf_data b)"
      using 3 b by (auto simp: buffer_wf_def buf_data_def drop_take add.commute)
    with 3 "2.prems" len show ?thesis by (simp add: chain_data_def)
  qed
qed

section \<open>Properties\<close>


text \<open>A small heap buffer and an environment in which every call succeeds, for concrete runs.\<close>

definition env_ok :: buf_env where
  "env_ok = \<lparr>be_mem = pg_mem_ok, be_junk = CHR 0x00, be_mkstemp = Some 9,
     be_fallocate = (\<lambda>_. True), be_mmap = (\<lambda>_. True), be_pagesize = 4096\<rparr>"

definition buf_abc :: pgrest_buffer where
  "buf_abc = \<lparr>b_capacity = 4, b_size = 2, b_pos = 1, b_fd = None, b_start = ''abcd''\<rparr>"

lemma grow_capacity_numeral:
  "grow_capacity (numeral k) cap used req =
     (let c = umul cap 2 in if usub c used < req then grow_capacity (pred_numeral k) c used req else Some c)"
  by (simp add: numeral_eq_Suc)

lemma reserve_abc: "pgrest_buffer_reserve env_ok buf_abc 7 =
    Inr (Some (2, 14), \<lparr>b_capacity = 16, b_size = 2, b_pos = 0, b_fd = None,
                         b_start = ''bc'' @ replicate 14 (CHR 0x00)\<rparr>)"
proof -
  have g: "grow_capacity 65 4 2 7 = Some 16"
    by (simp add: grow_capacity_numeral umul_def usub_def WORD_MOD_def)
  show ?thesis
    by (simp add: pgrest_buffer_reserve_def buf_abc_def env_ok_def pgrest_buffer_free_size_def g
        usub_def umul_def uadd_def WORD_MOD_def PGREST_BUFFER_LIMIT_SIZE_def pgrest_util_alloc_def
        pg_mem_ok_def MaxAllocSize_def buffer_header_def buffer_copy_to_def buf_data_def buffer_tail_def Let_def)
qed


text \<open>
  Consuming sent bytes: after \<^verbatim>\<open>pgrest_chain_update_sent\<close> the chain carries exactly
  the data it carried before less its first \<open>n\<close> bytes, every link before the returned
  one is empty, and the buffers stay well-formed, for any split of the data over buffers.
\<close>

theorem chain_update_sent_drops:
  assumes "list_all buffer_wf bs" "pgrest_chain_update_sent bs n = (bs', k)"
  shows "chain_data (drop k bs') = drop n (chain_data bs) \<and> list_all buffer_wf bs' \<and>
    length bs' = length bs"
proof -
  have s: "chain_data bs' = drop n (chain_data bs)" "list_all buffer_wf bs'"
    "list_all (\<lambda>b. buf_data b = []) (take k bs')"
    using update_sent_spec [OF assms(1), of n] assms(2) by simp_all
  have "chain_data (take k bs') = []"
    using s(3) by (simp add: chain_data_def list_all_iff)
  then have "chain_data (drop k bs') = chain_data bs'"
    unfolding chain_data_def by (metis append_take_drop_id concat_append map_append append_Nil)
  moreover have "length (fst (pgrest_chain_update_sent bs n)) = length bs"
    by (induction bs n rule: pgrest_chain_update_sent.induct) (auto split: prod.splits)
  ultimately show ?thesis using s assms(2) by simp
qed

theorem chain_update_sent_drops_witness:
  "list_all buffer_wf [buf_abc, buf_abc] \<and>
   chain_data (drop 1 (fst (pgrest_chain_update_sent [buf_abc, buf_abc] 3))) = ''c''"
proof -
  have wf: "list_all buffer_wf [buf_abc, buf_abc]" by (simp add: buf_abc_def buffer_wf_def)
  have u: "pgrest_chain_update_sent [buf_abc, buf_abc] 3 =
      ([buf_abc\<lparr>b_pos := 0, b_size := 0\<rparr>, buf_abc\<lparr>b_pos := 2, b_size := 1\<rparr>], 1)"
    by (simp add: buf_abc_def)
  from chain_update_sent_drops [OF wf u] wf u show ?thesis
    by (simp add: chain_data_def buf_abc_def buf_data_def)
qed

text \<open>
  The room promised is not always delivered: for a file-backed buffer whose data does
  not start at the front, the doubling loop ignores the offset of \<open>pos\<close>, and the routine
  reports success with a free area smaller than the request.
\<close>

theorem buffer_reserve_short_when_mapped:
  "\<exists>env b n off room b'. buffer_wf b \<and> b_fd b \<noteq> None \<and>
     pgrest_buffer_reserve env b n = Inr (Some (off, room), b') \<and> room < n"
proof -
  let ?b = "\<lparr>b_capacity = 2097152, b_size = 1, b_pos = 2097151, b_fd = Some 7,
             b_start = replicate 2097152 (CHR 0x00)\<rparr>"
  have g: "grow_capacity 65 2097152 (Suc 0) 4194302 = Some 4194304"
    by (simp add: grow_capacity_numeral umul_def usub_def WORD_MOD_def)
  have f: "pgrest_buffer_free_size ?b = 0"
    by (subst free_size_exact) (simp_all add: buffer_wf_def)
  have d: "umul (uadd 1 4194302) 2 = 8388606"
    by (simp add: umul_def uadd_def WORD_MOD_def)
  let ?b' = "?b\<lparr>b_capacity := 4194304,
       b_start := replicate 2097152 (CHR 0x00) @ replicate (4194304 - 2097152) (CHR 0x00)\<rparr>"
  have t: "buffer_tail ?b' = (2097152, 2097152)"
    by (subst buffer_tail_exact) (simp_all add: buffer_wf_def)
  have "pgrest_buffer_reserve env_ok ?b 4194302 = Inr (Some (buffer_tail ?b'), ?b')"
    using f d g by (simp add: pgrest_buffer_reserve_def env_ok_def PGREST_BUFFER_LIMIT_SIZE_def Let_def)
  then have "pgrest_buffer_reserve env_ok ?b 4194302 = Inr (Some (2097152, 2097152), ?b')"
    unfolding t .
  moreover have "buffer_wf ?b" by (simp add: buffer_wf_def)
  moreover have "b_fd ?b \<noteq> None" "(2097152::nat) < 4194302" by simp_all
  ultimately show ?thesis by blast
qed

text \<open>
  \<^verbatim>\<open>pgrest_buffer_extend\<close> reallocates \<open>2 * capacity\<close> bytes for header and data
  together but records \<open>2 * capacity\<close> as the data capacity: after every successful call the
  recorded capacity exceeds the memory behind it.
\<close>

theorem buffer_extend_overstates_capacity:
  assumes "pgrest_buffer_extend env b = Some b'" "0 < b_capacity b" "2 * b_capacity b < WORD_MOD"
  shows "length (b_start b') < b_capacity b' \<and> b_capacity b' = 2 * b_capacity b"
  using assms by (auto simp: pgrest_buffer_extend_def umul_exact mult.commute buffer_header_def split: if_splits)

theorem buffer_extend_overstates_capacity_witness:
  "\<exists>b'. pgrest_buffer_extend env_ok buf_abc = Some b' \<and> length (b_start b') < b_capacity b'"
proof -
  obtain b' where b': "pgrest_buffer_extend env_ok buf_abc = Some b'"
    by (simp add: pgrest_buffer_extend_def env_ok_def pgrest_util_realloc_def pg_mem_ok_def
        MaxAllocSize_def buf_abc_def umul_def WORD_MOD_def)
  from buffer_extend_overstates_capacity [OF this] b' show ?thesis
    by (simp add: buf_abc_def WORD_MOD_def)
qed

end
