(* ===== verification/Chunked.thy ===== *)
theory Chunked
  imports Prelude
begin

text \<open>
  The decoder of chunked request bodies, \<^verbatim>\<open>phr_decode_chunked\<close> of
  \<^verbatim>\<open>picohttpparser/picohttpparser.c\<close>, which \<^verbatim>\<open>pgrest_http_body_chunked\<close> drives. It works in
  place: a read index \<open>src\<close> and a write index \<open>dst\<close> into one buffer, with \<^verbatim>\<open>memmove\<close>
  between them, and it can be called again with more input. The model keeps the buffer and
  both indices. It is shown to refine a one-byte-at-a-time automaton, from which follow that
  feeding the input in pieces gives the same result as feeding it at once, and that
  decoding undoes the chunked transfer coding.
\<close>

section \<open>The decoder\<close>

datatype chunk_state =
    CHUNKED_IN_CHUNK_SIZE
  | CHUNKED_IN_CHUNK_EXT
  | CHUNKED_IN_CHUNK_DATA
  | CHUNKED_IN_CHUNK_CRLF
  | CHUNKED_IN_TRAILERS_LINE_HEAD
  | CHUNKED_IN_TRAILERS_LINE_MIDDLE

record phr_chunked_decoder =
  bytes_left_in_chunk :: nat
  consume_trailer :: bool
  hex_count :: nat
  ck_state :: chunk_state

definition decode_hex :: "char \<Rightarrow> nat option" where
  "decode_hex ch =
     (if 48 \<le> code ch \<and> code ch \<le> 57 then Some (code ch - 48)
      else if 65 \<le> code ch \<and> code ch \<le> 70 then Some (code ch - 65 + 10)
      else if 97 \<le> code ch \<and> code ch \<le> 102 then Some (code ch - 97 + 10)
      else None)"

text \<open>\<^verbatim>\<open>memmove\<close> inside one buffer: every byte is read before any is written.\<close>

definition memmove :: "byte list \<Rightarrow> nat \<Rightarrow> nat \<Rightarrow> nat \<Rightarrow> byte list" where
  "memmove buf dst src n =
     map (\<lambda>i. if dst \<le> i \<and> i < dst + n then buf ! (src + (i - dst)) else buf ! i) [0..<length buf]"

lemma length_memmove [simp]: "length (memmove buf dst src n) = length buf"
  by (simp add: memmove_def)

abbreviation LF :: char where "LF \<equiv> CHR 0x0A"
abbreviation CR :: char where "CR \<equiv> CHR 0x0D"

text \<open>The labels \<open>Exit\<close> and \<open>Complete\<close>: return code, decoder, buffer and decoded length.\<close>

definition decode_exit ::
  "int \<Rightarrow> phr_chunked_decoder \<Rightarrow> byte list \<Rightarrow> nat \<Rightarrow> nat \<Rightarrow> int \<times> phr_chunked_decoder \<times> byte list \<times> nat" where
  "decode_exit ret d buf src dst =
     (ret, d, if dst \<noteq> src then memmove buf dst src (length buf - src) else buf, dst)"

fun state_rank :: "chunk_state \<Rightarrow> nat" where
  "state_rank CHUNKED_IN_CHUNK_SIZE = 3"
| "state_rank CHUNKED_IN_CHUNK_EXT = 2"
| "state_rank CHUNKED_IN_CHUNK_DATA = 1"
| "state_rank _ = 0"

text \<open>
  One call of the loop is one round of the inner loop of the current state; \<open>buf\<close> are the
  \<open>bufsz\<close> bytes passed in. The measure counts the bytes not yet read, and the order of the
  states that fall through to the next one without reading.
\<close>

function decode_loop ::
  "phr_chunked_decoder \<Rightarrow> byte list \<Rightarrow> nat \<Rightarrow> nat \<Rightarrow> int \<times> phr_chunked_decoder \<times> byte list \<times> nat" where
  "decode_loop d buf src dst =
    (case ck_state d of
       CHUNKED_IN_CHUNK_SIZE \<Rightarrow>
         if src \<ge> length buf then decode_exit (-2) d buf src dst
         else (case decode_hex (buf ! src) of
                 None \<Rightarrow> if hex_count d = 0 then decode_exit (-1) d buf src dst
                         else decode_loop (d\<lparr>hex_count := 0, ck_state := CHUNKED_IN_CHUNK_EXT\<rparr>) buf src dst
               | Some v \<Rightarrow> if hex_count d = 16 then decode_exit (-1) d buf src dst
                           else decode_loop (d\<lparr>bytes_left_in_chunk := uadd (umul (bytes_left_in_chunk d) 16) v,
                                               hex_count := hex_count d + 1\<rparr>) buf (src + 1) dst)
     | CHUNKED_IN_CHUNK_EXT \<Rightarrow>
         if src \<ge> length buf then decode_exit (-2) d buf src dst
         else if buf ! src = LF then
           if bytes_left_in_chunk d = 0 then
             if consume_trailer d
             then decode_loop (d\<lparr>ck_state := CHUNKED_IN_TRAILERS_LINE_HEAD\<rparr>) buf (src + 1) dst
             else decode_exit (int (length buf - (src + 1))) d buf (src + 1) dst
           else decode_loop (d\<lparr>ck_state := CHUNKED_IN_CHUNK_DATA\<rparr>) buf (src + 1) dst
         else decode_loop d buf (src + 1) dst
     | CHUNKED_IN_CHUNK_DATA \<Rightarrow>
         let avail = length buf - src; left = bytes_left_in_chunk d in
         if avail < left then
           let buf' = (if dst \<noteq> src then memmove buf dst src avail else buf)
           in decode_exit (-2) (d\<lparr>bytes_left_in_chunk := left - avail\<rparr>) buf' (src + avail) (dst + avail)
         else
           let buf' = (if dst \<noteq> src then memmove buf dst src left else buf)
           in decode_loop (d\<lparr>bytes_left_in_chunk := 0, ck_state := CHUNKED_IN_CHUNK_CRLF\<rparr>)
                buf' (src + left) (dst + left)
     | CHUNKED_IN_CHUNK_CRLF \<Rightarrow>
         if src \<ge> length buf then decode_exit (-2) d buf src dst
         else if buf ! src = CR then decode_loop d buf (src + 1) dst
         else if buf ! src \<noteq> LF then decode_exit (-1) d buf src dst
         else decode_loop (d\<lparr>ck_state := CHUNKED_IN_CHUNK_SIZE\<rparr>) buf (src + 1) dst
     | CHUNKED_IN_TRAILERS_LINE_HEAD \<Rightarrow>
         if src \<ge> length buf then decode_exit (-2) d buf src dst
         else if buf ! src = CR then decode_loop d buf (src + 1) dst
         else if buf ! src = LF
         then decode_exit (int (length buf - (src + 1))) d buf (src + 1) dst
         else decode_loop (d\<lparr>ck_state := CHUNKED_IN_TRAILERS_LINE_MIDDLE\<rparr>) buf (src + 1) dst
     | CHUNKED_IN_TRAILERS_LINE_MIDDLE \<Rightarrow>
         if src \<ge> length buf then decode_exit (-2) d buf src dst
         else if buf ! src = LF
         then decode_loop (d\<lparr>ck_state := CHUNKED_IN_TRAILERS_LINE_HEAD\<rparr>) buf (src + 1) dst
         else decode_loop d buf (src + 1) dst)"
  by pat_completeness auto
termination
  by (relation "measure (\<lambda>(d, buf, src, dst). 4 * (length buf - src) + state_rank (ck_state d))")
    (auto simp: Let_def split: if_splits)

declare decode_loop.simps [simp del]

text \<open>
  The entry point: the return value (-2 incomplete, -1 error, otherwise the number of bytes
  after the body), the decoder, the rewritten buffer and the new \<open>*bufsz\<close>.
\<close>

definition phr_decode_chunked ::
  "phr_chunked_decoder \<Rightarrow> byte list \<Rightarrow> int \<times> phr_chunked_decoder \<times> byte list \<times> nat" where
  "phr_decode_chunked d buf = decode_loop d buf 0 0"

definition phr_decode_chunked_is_in_data :: "phr_chunked_decoder \<Rightarrow> bool" where
  "phr_decode_chunked_is_in_data d \<longleftrightarrow> ck_state d = CHUNKED_IN_CHUNK_DATA"

section \<open>The byte automaton\<close>

datatype chunk_move =
    Bad
  | Finished phr_chunked_decoder
  | Next phr_chunked_decoder "byte list"

definition ext_move :: "phr_chunked_decoder \<Rightarrow> byte \<Rightarrow> chunk_move" where
  "ext_move d c =
     (if c = LF then
        if bytes_left_in_chunk d = 0 then
          if consume_trailer d then Next (d\<lparr>ck_state := CHUNKED_IN_TRAILERS_LINE_HEAD\<rparr>) []
          else Finished d
        else Next (d\<lparr>ck_state := CHUNKED_IN_CHUNK_DATA\<rparr>) []
      else Next d [])"

definition chunk_step :: "phr_chunked_decoder \<Rightarrow> byte \<Rightarrow> chunk_move" where
  "chunk_step d c =
     (case ck_state d of
        CHUNKED_IN_CHUNK_SIZE \<Rightarrow>
          (case decode_hex c of
             None \<Rightarrow> if hex_count d = 0 then Bad
                     else ext_move (d\<lparr>hex_count := 0, ck_state := CHUNKED_IN_CHUNK_EXT\<rparr>) c
           | Some v \<Rightarrow> if hex_count d = 16 then Bad
                       else Next (d\<lparr>bytes_left_in_chunk := uadd (umul (bytes_left_in_chunk d) 16) v,
                                    hex_count := hex_count d + 1\<rparr>) [])
      | CHUNKED_IN_CHUNK_EXT \<Rightarrow> ext_move d c
      | CHUNKED_IN_CHUNK_DATA \<Rightarrow>
          Next (d\<lparr>bytes_left_in_chunk := bytes_left_in_chunk d - 1,
                  ck_state := (if bytes_left_in_chunk d \<le> 1 then CHUNKED_IN_CHUNK_CRLF else CHUNKED_IN_CHUNK_DATA)\<rparr>) [c]
      | CHUNKED_IN_CHUNK_CRLF \<Rightarrow>
          if c = CR then Next d []
          else if c = LF then Next (d\<lparr>ck_state := CHUNKED_IN_CHUNK_SIZE\<rparr>) [] else Bad
      | CHUNKED_IN_TRAILERS_LINE_HEAD \<Rightarrow>
          if c = CR then Next d [] else if c = LF then Finished d
          else Next (d\<lparr>ck_state := CHUNKED_IN_TRAILERS_LINE_MIDDLE\<rparr>) []
      | CHUNKED_IN_TRAILERS_LINE_MIDDLE \<Rightarrow>
          if c = LF then Next (d\<lparr>ck_state := CHUNKED_IN_TRAILERS_LINE_HEAD\<rparr>) [] else Next d [])"

fun chunk_run :: "phr_chunked_decoder \<Rightarrow> byte list \<Rightarrow> int \<times> phr_chunked_decoder \<times> byte list \<times> byte list" where
  "chunk_run d [] = (-2, d, [], [])"
| "chunk_run d (c # cs) =
     (case chunk_step d c of
        Bad \<Rightarrow> (-1, d, [], c # cs)
      | Finished d' \<Rightarrow> (int (length cs), d', [], cs)
      | Next d' out \<Rightarrow> (case chunk_run d' cs of (r, d'', out', rest) \<Rightarrow> (r, d'', out @ out', rest)))"

text \<open>A decoder that is inside chunk data has data left.\<close>

definition decoder_wf :: "phr_chunked_decoder \<Rightarrow> bool" where
  "decoder_wf d \<longleftrightarrow> (ck_state d = CHUNKED_IN_CHUNK_DATA \<longrightarrow> 0 < bytes_left_in_chunk d)"

lemma chunk_step_wf: "decoder_wf d \<Longrightarrow> chunk_step d c = Next d' out \<Longrightarrow> decoder_wf d'"
  by (auto simp: decoder_wf_def chunk_step_def ext_move_def split: chunk_state.splits if_splits option.splits)

lemma chunk_run_wf: "decoder_wf d \<Longrightarrow> chunk_run d xs = (-2, d', out, rest) \<Longrightarrow> decoder_wf d' \<and> rest = []"
  by (induction d xs arbitrary: out rule: chunk_run.induct)
    (auto split: chunk_move.splits prod.splits dest: chunk_step_wf)

lemma chunk_run_append:
  "chunk_run d (xs @ ys) =
     (case chunk_run d xs of
        (r, d', out, rest) \<Rightarrow>
          if r = -2 then (case chunk_run d' ys of (r', d'', out', rest') \<Rightarrow> (r', d'', out @ out', rest'))
          else (if r = -1 then -1 else r + int (length ys), d', out, rest @ ys))"
  by (induction d xs rule: chunk_run.induct) (auto split: chunk_move.splits prod.splits)

lemma data_run:
  assumes "ck_state d = CHUNKED_IN_CHUNK_DATA" "length xs = bytes_left_in_chunk d" "xs \<noteq> []"
  shows "chunk_run d (xs @ ys) =
    (case chunk_run (d\<lparr>bytes_left_in_chunk := 0, ck_state := CHUNKED_IN_CHUNK_CRLF\<rparr>) ys of
       (r, d', out, rest) \<Rightarrow> (r, d', xs @ out, rest))"
  using assms
proof (induction xs arbitrary: d)
  case Nil
  then show ?case by simp
next
  case (Cons x xs)
  show ?case
  proof (cases xs)
    case Nil
    then show ?thesis using Cons.prems by (simp add: chunk_step_def split: prod.splits)
  next
    case (Cons y zs)
    with Cons.prems Cons.IH [of "d\<lparr>bytes_left_in_chunk := bytes_left_in_chunk d - 1, ck_state := CHUNKED_IN_CHUNK_DATA\<rparr>"]
    show ?thesis by (auto simp: chunk_step_def split: prod.splits)
  qed
qed

lemma data_run_short:
  assumes "ck_state d = CHUNKED_IN_CHUNK_DATA" "length xs < bytes_left_in_chunk d"
  shows "chunk_run d xs = (-2, d\<lparr>bytes_left_in_chunk := bytes_left_in_chunk d - length xs\<rparr>, xs, [])"
  using assms
proof (induction xs arbitrary: d)
  case Nil
  then show ?case by simp
next
  case (Cons x xs)
  let ?d = "d\<lparr>bytes_left_in_chunk := bytes_left_in_chunk d - 1, ck_state := CHUNKED_IN_CHUNK_DATA\<rparr>"
  have "d\<lparr>bytes_left_in_chunk := n, ck_state := CHUNKED_IN_CHUNK_DATA\<rparr> = d\<lparr>bytes_left_in_chunk := n\<rparr>" for n
    using Cons.prems(1) by (cases d) simp
  then have "?d\<lparr>bytes_left_in_chunk := n\<rparr> = d\<lparr>bytes_left_in_chunk := n\<rparr>" for n by simp
  moreover have "chunk_run ?d xs = (-2, ?d\<lparr>bytes_left_in_chunk := bytes_left_in_chunk d - Suc (length xs)\<rparr>, xs, [])"
    using Cons.prems Cons.IH [of ?d] by simp
  ultimately have "chunk_run ?d xs = (-2, d\<lparr>bytes_left_in_chunk := bytes_left_in_chunk d - Suc (length xs)\<rparr>, xs, [])"
    by metis
  moreover have "chunk_step d x = Next ?d [x]" using Cons.prems by (simp add: chunk_step_def)
  ultimately show ?case by simp
qed

section \<open>The in-place decoder refines the automaton\<close>

definition refines_run ::
  "phr_chunked_decoder \<Rightarrow> byte list \<Rightarrow> nat \<Rightarrow> nat \<Rightarrow> int \<times> phr_chunked_decoder \<times> byte list \<times> nat \<Rightarrow> bool" where
  "refines_run d buf src dst r \<longleftrightarrow>
     (case chunk_run d (drop src buf) of (ret, d', out, rest) \<Rightarrow>
      case r of (ret2, d2, buf2, dst2) \<Rightarrow>
        ret2 = ret \<and> d2 = d' \<and> dst2 = dst + length out \<and> length buf2 = length buf \<and>
        take (dst2 + length rest) buf2 = take dst buf @ out @ rest)"

lemma take_memmove:
  assumes "dst \<le> src" "src + n \<le> length buf"
  shows "take (dst + n) (memmove buf dst src n) = take dst buf @ take n (drop src buf)"
  using assms by (intro nth_equalityI) (auto simp: memmove_def nth_append)

lemma drop_memmove:
  assumes "dst \<le> src" "src + n \<le> length buf"
  shows "drop (src + n) (memmove buf dst src n) = drop (src + n) buf"
  using assms by (intro nth_equalityI) (auto simp: memmove_def)

lemma memmove_0 [simp]: "memmove buf dst src 0 = buf"
  by (intro nth_equalityI) (auto simp: memmove_def)

lemma decode_exit_end: "length buf \<le> src \<Longrightarrow> decode_exit r d buf src dst = (r, d, buf, dst)"
  by (simp add: decode_exit_def)

lemma move_if:
  assumes "dst \<le> src" "src + n \<le> length buf"
  defines "buf' \<equiv> (if dst \<noteq> src then memmove buf dst src n else buf)"
  shows "take (dst + n) buf' = take dst buf @ take n (drop src buf)"
    "drop (src + n) buf' = drop (src + n) buf" "length buf' = length buf"
  using assms take_memmove drop_memmove by (auto simp: take_add)

lemma refines_exit:
  assumes "dst \<le> src" "src \<le> length buf" "chunk_run d (drop src0 buf) = (ret, d', [], drop src buf)"
  shows "refines_run d buf src0 dst (decode_exit ret d' buf src dst)"
  using assms move_if [of dst src "length buf - src" buf]
  by (auto simp: refines_run_def decode_exit_def)

lemma refines_step:
  assumes "src < length buf" "chunk_step d (buf ! src) = Next d' []" "refines_run d' buf (src + 1) dst r"
  shows "refines_run d buf src dst r"
proof -
  have "drop src buf = buf ! src # drop (src + 1) buf" using assms(1) by (simp add: Cons_nth_drop_Suc)
  with assms(2,3) show ?thesis by (auto simp: refines_run_def split: prod.splits)
qed

lemma decode_loop_refines:
  assumes "dst \<le> src" "src \<le> length buf" "decoder_wf d"
  shows "refines_run d buf src dst (decode_loop d buf src dst)"
  using assms
proof (induction d buf src dst rule: decode_loop.induct)
  case (1 d buf src dst)
  have stop: "refines_run d buf src dst (decode_exit (-2) d buf src dst)" if "\<not> src < length buf"
    using "1.prems" that by (intro refines_exit) auto
  have cons: "src < length buf \<Longrightarrow> drop src buf = buf ! src # drop (src + 1) buf"
    by (simp add: Cons_nth_drop_Suc)
  have bad: "refines_run d buf src dst (decode_exit (-1) d buf src dst)"
    if "src < length buf" "chunk_step d (buf ! src) = Bad"
    using "1.prems" that cons by (intro refines_exit) auto
  have fin: "refines_run d buf src dst (decode_exit (int (length buf - (src + 1))) d' buf (src + 1) dst)"
    if "src < length buf" "chunk_step d (buf ! src) = Finished d'" for d'
    using "1.prems" that cons by (intro refines_exit) auto
  have wf: "decoder_wf d'" if "chunk_step d (buf ! src) = Next d' out" for d' out
    using chunk_step_wf [OF "1.prems"(3) that] .
  have step: "refines_run d buf src dst (decode_loop d' buf (src + 1) dst)"
    if "src < length buf" "chunk_step d (buf ! src) = Next d' []"
      "refines_run d' buf (src + 1) dst (decode_loop d' buf (src + 1) dst)" for d'
    using refines_step [OF that] .
  show ?case
  proof (cases "ck_state d")
    case CHUNKED_IN_CHUNK_SIZE
    show ?thesis
    proof (cases "src < length buf \<and> decode_hex (buf ! src) = None \<and> hex_count d \<noteq> 0")
      case True
      let ?d = "d\<lparr>hex_count := 0, ck_state := CHUNKED_IN_CHUNK_EXT\<rparr>"
      have "chunk_step d (buf ! src) = chunk_step ?d (buf ! src)"
        using CHUNKED_IN_CHUNK_SIZE True by (simp add: chunk_step_def)
      then have "chunk_run d (drop src buf) = chunk_run ?d (drop src buf)"
        using cons True by (auto simp: chunk_step_def ext_move_def)
      moreover have "refines_run ?d buf src dst (decode_loop ?d buf src dst)"
        using "1.IH"(1) "1.prems" CHUNKED_IN_CHUNK_SIZE True by (simp add: decoder_wf_def)
      moreover have "decode_loop d buf src dst = decode_loop ?d buf src dst"
        using CHUNKED_IN_CHUNK_SIZE True by (subst decode_loop.simps) simp
      ultimately show ?thesis by (simp add: refines_run_def)
    next
      case False
      then show ?thesis
        using CHUNKED_IN_CHUNK_SIZE stop bad "1.IH"(2) "1.prems" step
        by (subst decode_loop.simps) (auto simp: chunk_step_def decoder_wf_def split: option.splits)
    qed
  next
    case CHUNKED_IN_CHUNK_EXT
    then show ?thesis
      using stop fin "1.IH"(3-5) "1.prems" step wf
      by (subst decode_loop.simps) (auto simp: chunk_step_def ext_move_def)
  next
    case CHUNKED_IN_CHUNK_DATA
    let ?left = "bytes_left_in_chunk d" and ?avail = "length buf - src"
    show ?thesis
    proof (cases "?avail < ?left")
      case True
      define buf' where "buf' = (if dst \<noteq> src then memmove buf dst src ?avail else buf)"
      have m: "take (dst + ?avail) buf' = take dst buf @ drop src buf" "length buf' = length buf"
        using move_if [of dst src ?avail buf] "1.prems" unfolding buf'_def by simp_all
      have r: "chunk_run d (drop src buf) = (-2, d\<lparr>bytes_left_in_chunk := ?left - ?avail\<rparr>, drop src buf, [])"
        using data_run_short [of d "drop src buf"] CHUNKED_IN_CHUNK_DATA True by simp
      have "decode_loop d buf src dst =
          decode_exit (-2) (d\<lparr>bytes_left_in_chunk := ?left - ?avail\<rparr>) buf' (src + ?avail) (dst + ?avail)"
        using CHUNKED_IN_CHUNK_DATA True by (subst decode_loop.simps) (simp add: Let_def buf'_def)
      then show ?thesis
        using m r "1.prems" by (auto simp: refines_run_def decode_exit_end)
    next
      case False
      define buf' where "buf' = (if dst \<noteq> src then memmove buf dst src ?left else buf)"
      let ?d = "d\<lparr>bytes_left_in_chunk := 0, ck_state := CHUNKED_IN_CHUNK_CRLF\<rparr>"
      let ?xs = "take ?left (drop src buf)"
      have m: "take (dst + ?left) buf' = take dst buf @ ?xs" "drop (src + ?left) buf' = drop (src + ?left) buf"
        "length buf' = length buf"
        using move_if [of dst src ?left buf] "1.prems" False unfolding buf'_def by simp_all
      have xs: "length ?xs = ?left" "?xs \<noteq> []"
        using False "1.prems" CHUNKED_IN_CHUNK_DATA by (auto simp: decoder_wf_def)
      have r: "chunk_run d (drop src buf) =
          (case chunk_run ?d (drop (src + ?left) buf) of (r, d', out, rest) \<Rightarrow> (r, d', ?xs @ out, rest))"
        using data_run [OF CHUNKED_IN_CHUNK_DATA xs, of "drop (src + ?left) buf"]
        by (metis add.commute append_take_drop_id drop_drop)
      have "refines_run ?d buf' (src + ?left) (dst + ?left) (decode_loop ?d buf' (src + ?left) (dst + ?left))"
        using "1.IH"(6) [OF CHUNKED_IN_CHUNK_DATA refl refl False buf'_def] "1.prems" False m(3)
        by (simp add: decoder_wf_def)
      moreover have "decode_loop d buf src dst = decode_loop ?d buf' (src + ?left) (dst + ?left)"
        using CHUNKED_IN_CHUNK_DATA False by (subst decode_loop.simps) (simp add: Let_def buf'_def)
      ultimately show ?thesis
        using m r xs(1) by (auto simp: refines_run_def split: prod.splits)
    qed
  next
    case CHUNKED_IN_CHUNK_CRLF
    then show ?thesis
      using stop bad "1.IH"(7,8) "1.prems" step wf
      by (subst decode_loop.simps) (auto simp: chunk_step_def)
  next
    case CHUNKED_IN_TRAILERS_LINE_HEAD
    then show ?thesis
      using stop fin "1.IH"(9,10) "1.prems" step wf
      by (subst decode_loop.simps) (auto simp: chunk_step_def)
  next
    case CHUNKED_IN_TRAILERS_LINE_MIDDLE
    then show ?thesis
      using stop "1.IH"(11,12) "1.prems" step wf
      by (subst decode_loop.simps) (auto simp: chunk_step_def)
  qed
qed

lemma phr_decode_chunked_run:
  assumes "decoder_wf d" "chunk_run d buf = (ret, d', out, rest)"
  obtains buf' where "phr_decode_chunked d buf = (ret, d', buf', length out)" "length buf' = length buf"
    "take (length out + length rest) buf' = out @ rest"
proof -
  have "refines_run d buf 0 0 (phr_decode_chunked d buf)"
    using decode_loop_refines [of 0 0 buf d] assms(1) by (simp add: phr_decode_chunked_def)
  with assms(2) that show ?thesis by (auto simp: refines_run_def split: prod.splits)
qed

section \<open>The transfer coding\<close>

text \<open>
  A sender's side of the coding (RFC 7230, section 4.1), with no chunk extensions and no
  trailer fields: it is the reference against which the decoder is judged.
\<close>

definition encode_chunk :: "byte list \<Rightarrow> byte list" where
  "encode_chunk xs = hex_of (length xs) @ [CR, LF] @ xs @ [CR, LF]"

definition encode_chunked :: "byte list list \<Rightarrow> byte list" where
  "encode_chunked xss = concat (map encode_chunk xss) @ ''0'' @ [CR, LF, CR, LF]"

definition decoder0 :: phr_chunked_decoder where
  "decoder0 = \<lparr>bytes_left_in_chunk = 0, consume_trailer = True, hex_count = 0, ck_state = CHUNKED_IN_CHUNK_SIZE\<rparr>"

lemma decode_hex_digit: "v < 16 \<Longrightarrow> decode_hex (hex_digit v) = Some v"
  by (auto simp: decode_hex_def hex_digit_def)

lemma hex_run:
  assumes "ck_state d = CHUNKED_IN_CHUNK_SIZE" "bytes_left_in_chunk d = 0" "hex_count d = 0" "n < 16 ^ k" "k \<le> 16" "0 < k"
  shows "chunk_run d (hex_of n) = (-2, d\<lparr>bytes_left_in_chunk := n, hex_count := length (hex_of n)\<rparr>, [], [])"
  using assms(4-)
proof (induction n arbitrary: k rule: hex_of.induct)
  case (1 n)
  show ?case
  proof (cases "n < 16")
    case True
    then show ?thesis using assms(1-3)
      by (simp add: hex_of.simps chunk_step_def decode_hex_digit uadd_def umul_def WORD_MOD_def)
  next
    case False
    then have "k \<noteq> 1" using 1 by auto
    then obtain j where k: "k = Suc j" "0 < j" using 1 by (cases k) auto
    have j: "n div 16 < 16 ^ j" using 1 k by (simp add: less_mult_imp_div_less mult.commute)
    then have IH: "chunk_run d (hex_of (n div 16)) =
        (-2, d\<lparr>bytes_left_in_chunk := n div 16, hex_count := length (hex_of (n div 16))\<rparr>, [], [])"
      using 1 False k by simp
    have "length (hex_of (n div 16)) \<le> j" using length_hex_of j k by blast
    then have len: "length (hex_of (n div 16)) \<noteq> 16" using k 1 by simp
    have "(16::nat) ^ k \<le> 16 ^ 16" using 1 by (intro power_increasing) auto
    then have "n < 2 ^ 64" using 1 by simp
    then have "uadd (umul (n div 16) 16) (n mod 16) = n"
      by (simp add: uadd_def umul_def WORD_MOD_def)
    with IH len False assms(1) show ?thesis
      by (simp add: hex_of.simps [of n] chunk_run_append chunk_step_def decode_hex_digit)
  qed
qed

lemma encode_chunk_run:
  assumes "xs \<noteq> []" "length xs < 2 ^ 64"
  shows "chunk_run decoder0 (encode_chunk xs @ ys) =
    (case chunk_run decoder0 ys of (r, d, out, rest) \<Rightarrow> (r, d, xs @ out, rest))"
proof -
  let ?d = "decoder0\<lparr>bytes_left_in_chunk := length xs, hex_count := 0, ck_state := CHUNKED_IN_CHUNK_DATA\<rparr>"
  have h: "chunk_run decoder0 (hex_of (length xs)) =
      (-2, decoder0\<lparr>bytes_left_in_chunk := length xs, hex_count := length (hex_of (length xs))\<rparr>, [], [])"
    using assms hex_run [of decoder0 "length xs" 16] by (simp add: decoder0_def)
  have "hex_of (length xs) \<noteq> []" by (simp add: hex_of.simps)
  then have "chunk_run decoder0 (encode_chunk xs @ ys) = chunk_run ?d (xs @ [CR, LF] @ ys)"
    using h assms(1) unfolding encode_chunk_def append_assoc
    by (subst chunk_run_append) (auto simp: chunk_step_def ext_move_def decode_hex_def decoder0_def split: prod.splits)
  also have "\<dots> = (case chunk_run decoder0 ys of (r, d, out, rest) \<Rightarrow> (r, d, xs @ out, rest))"
    using assms(1) by (subst data_run) (auto simp: chunk_step_def decoder0_def split: prod.splits)
  finally show ?thesis .
qed

lemma encode_chunked_run:
  assumes "\<forall>xs \<in> set xss. xs \<noteq> [] \<and> length xs < 2 ^ 64"
  shows "chunk_run decoder0 (encode_chunked xss @ rest) =
    (int (length rest), decoder0\<lparr>ck_state := CHUNKED_IN_TRAILERS_LINE_HEAD\<rparr>, concat xss, rest)"
  using assms
proof (induction xss)
  case Nil
  then show ?case
    by (simp add: encode_chunked_def chunk_step_def decode_hex_def decoder0_def ext_move_def uadd_def umul_def WORD_MOD_def)
next
  case (Cons xs xss)
  then show ?case
    using encode_chunk_run [of xs "encode_chunked xss @ rest"] by (simp add: encode_chunked_def)
qed

section \<open>Properties\<close>

text \<open>
  C5. Decoding undoes the chunked transfer coding: from the initial decoder state (with
  \<open>consume_trailer\<close> set, as the server sets it), \<^verbatim>\<open>phr_decode_chunked\<close> on the coding of any
  sequence of non-empty chunks followed by any further bytes returns the number of these
  further bytes, and leaves in the buffer the body, of the length it reports, followed by
  the further bytes.
\<close>

theorem chunked_roundtrip:
  assumes "\<forall>xs \<in> set xss. xs \<noteq> [] \<and> length xs < 2 ^ 64"
  shows "\<exists>buf'. phr_decode_chunked decoder0 (encode_chunked xss @ rest) =
           (int (length rest), decoder0\<lparr>ck_state := CHUNKED_IN_TRAILERS_LINE_HEAD\<rparr>, buf', length (concat xss)) \<and>
         take (length (concat xss) + length rest) buf' = concat xss @ rest"
proof -
  have "decoder_wf decoder0" by (simp add: decoder_wf_def decoder0_def)
  from phr_decode_chunked_run [OF this encode_chunked_run [OF assms]] show ?thesis by metis
qed

theorem chunked_roundtrip_witness:
  "\<exists>buf'. phr_decode_chunked decoder0 (encode_chunked [''hello '', ''world''] @ ''GET'') =
     (3, decoder0\<lparr>ck_state := CHUNKED_IN_TRAILERS_LINE_HEAD\<rparr>, buf', 11) \<and>
   take 14 buf' = ''hello worldGET''"
proof -
  have n: "length (concat [''hello '', ''world'']) = 11" "length ''GET'' = 3" "(11::nat) + 3 = 14" "int 3 = 3"
    by simp_all
  have "\<forall>xs \<in> set [''hello '', ''world'']. xs \<noteq> [] \<and> length xs < 2 ^ 64" by simp
  from chunked_roundtrip [OF this, of "''GET''", unfolded n] show ?thesis by simp
qed

text \<open>
  C19. The decoder may be called as the bytes arrive: if a call on the bytes \<open>xs\<close> reports
  an incomplete body and a second call on the bytes \<open>ys\<close> gives a result, then one call on
  \<open>xs @ ys\<close> gives the same return value and the same decoder, and the body it leaves in the
  buffer is the concatenation of the bodies left by the two calls.
\<close>

theorem chunked_in_pieces:
  assumes "decoder_wf d"
    and "phr_decode_chunked d xs = (-2, d', buf1, n1)"
    and "phr_decode_chunked d' ys = (ret, d'', buf2, n2)"
  shows "\<exists>buf. phr_decode_chunked d (xs @ ys) = (ret, d'', buf, n1 + n2) \<and>
           take (n1 + n2) buf = take n1 buf1 @ take n2 buf2"
proof -
  obtain r1 e1 out1 rest1 where 1: "chunk_run d xs = (r1, e1, out1, rest1)" by (metis prod_cases4)
  from phr_decode_chunked_run [OF assms(1) 1] assms(2)
  have e1: "r1 = -2" "e1 = d'" "n1 = length out1" "take (n1 + length rest1) buf1 = out1 @ rest1" by auto
  have d': "decoder_wf d'" "rest1 = []" using chunk_run_wf [OF assms(1)] 1 e1 by auto
  obtain r2 e2 out2 rest2 where 2: "chunk_run d' ys = (r2, e2, out2, rest2)" by (metis prod_cases4)
  from phr_decode_chunked_run [OF d'(1) 2] assms(3)
  have e2: "r2 = ret" "e2 = d''" "n2 = length out2" "take (n2 + length rest2) buf2 = out2 @ rest2" by auto
  have "chunk_run d (xs @ ys) = (ret, d'', out1 @ out2, rest2)"
    using 1 2 e1 e2 by (simp add: chunk_run_append)
  from phr_decode_chunked_run [OF assms(1) this] obtain buf where
    b: "phr_decode_chunked d (xs @ ys) = (ret, d'', buf, n1 + n2)"
      "take (n1 + n2 + length rest2) buf = out1 @ out2 @ rest2"
    using e1 e2 by auto
  have take_out: "take n b = out" if "take (n + m) b = out @ r" "n = length out" for n m and b out r :: "byte list"
    using that by (metis append_eq_conv_conj min.absorb1 le_add1 take_take)
  show ?thesis
    using b e1 e2 d' take_out [of n1 "length rest1" buf1 out1 rest1] take_out [of n2 "length rest2" buf2 out2 rest2]
      take_out [of "n1 + n2" "length rest2" buf "out1 @ out2" rest2]
    by auto
qed

theorem chunked_in_pieces_witness:
  "\<exists>buf. phr_decode_chunked decoder0 ([CHR ''3'', LF, CHR ''a''] @ [CHR ''b'', CHR ''c'', LF]) =
     (-2, decoder0, buf, 3) \<and> take 3 buf = ''abc''"
proof -
  let ?d = "decoder0\<lparr>bytes_left_in_chunk := 2, ck_state := CHUNKED_IN_CHUNK_DATA\<rparr>"
  have wf: "decoder_wf decoder0" "decoder_wf ?d" by (simp_all add: decoder_wf_def decoder0_def)
  have "chunk_run decoder0 [CHR ''3'', LF, CHR ''a''] = (-2, ?d, [CHR ''a''], [])"
    by (simp add: chunk_step_def ext_move_def decoder0_def decode_hex_def uadd_def umul_def WORD_MOD_def)
  from phr_decode_chunked_run [OF wf(1) this] obtain b1 where
    b1: "phr_decode_chunked decoder0 [CHR ''3'', LF, CHR ''a''] = (-2, ?d, b1, 1)" "take 1 b1 = ''a''" by auto
  have "chunk_run ?d [CHR ''b'', CHR ''c'', LF] = (-2, decoder0, ''bc'', [])"
    by (simp add: chunk_step_def decoder0_def)
  from phr_decode_chunked_run [OF wf(2) this] obtain b2 where
    b2: "phr_decode_chunked ?d [CHR ''b'', CHR ''c'', LF] = (-2, decoder0, b2, 2)" "take 2 b2 = ''bc''"
    by (auto simp: numeral_2_eq_2)
  from chunked_in_pieces [OF wf(1) b1(1) b2(1)] b1(2) b2(2) show ?thesis
    by (auto simp: numeral_3_eq_3)
qed

end
