(* ===== verification/Inet.thy ===== *)
theory Inet
  imports Strings
begin

text \<open>
  Socket addresses and listen/upstream URLs, \<^verbatim>\<open>src/pg_rest_inet.c\<close>. A socket address is a
  datatype with the family as its constructor; port and IPv4 address are kept as numbers in
  host order (the source stores them through \<^verbatim>\<open>htons\<close>/\<^verbatim>\<open>htonl\<close>, which are one-to-one and
  fix \<^verbatim>\<open>INADDR_ANY\<close> and \<^verbatim>\<open>INADDR_NONE\<close>), an IPv6 address as its 16 bytes, a Unix path as the
  bytes before the terminator of the zero-filled \<open>sun_path\<close>. \<^verbatim>\<open>evutil_inet_ntop\<close> and
  \<^verbatim>\<open>getaddrinfo\<close> are parameters. The model is the build with IPv6, Unix sockets and
  \<^verbatim>\<open>getaddrinfo\<close>.
\<close>

section \<open>Socket addresses\<close>

datatype sockaddr =
    AF_INET (sin_port: nat) (s_addr: nat)
  | AF_INET6 (sin6_port: nat) (s6_addr: "nat list")
  | AF_UNIX (sun_path: string)

datatype sa_family = F_INET | F_INET6 | F_UNIX

fun family_of :: "sockaddr \<Rightarrow> sa_family" where
  "family_of (AF_INET _ _) = F_INET"
| "family_of (AF_INET6 _ _) = F_INET6"
| "family_of (AF_UNIX _) = F_UNIX"

definition INADDR_NONE :: nat where "INADDR_NONE = 0xffffffff"
definition INADDR_ANY :: nat where "INADDR_ANY = 0"

fun pgrest_inet_cmp_sockaddr :: "sockaddr \<Rightarrow> sockaddr \<Rightarrow> bool \<Rightarrow> bool" where
  "pgrest_inet_cmp_sockaddr (AF_INET6 p1 a1) (AF_INET6 p2 a2) cmp_port \<longleftrightarrow> \<not> (cmp_port \<and> p1 \<noteq> p2) \<and> a1 = a2"
| "pgrest_inet_cmp_sockaddr (AF_UNIX u1) (AF_UNIX u2) cmp_port \<longleftrightarrow> u1 = u2"
| "pgrest_inet_cmp_sockaddr (AF_INET p1 a1) (AF_INET p2 a2) cmp_port \<longleftrightarrow> \<not> (cmp_port \<and> p1 \<noteq> p2) \<and> a1 = a2"
| "pgrest_inet_cmp_sockaddr _ _ cmp_port \<longleftrightarrow> False"

fun pgrest_inet_get_port :: "sockaddr \<Rightarrow> nat" where
  "pgrest_inet_get_port (AF_INET6 p a) = p"
| "pgrest_inet_get_port (AF_UNIX u) = 0"
| "pgrest_inet_get_port (AF_INET p a) = p"

fun pgrest_inet_set_port :: "sockaddr \<Rightarrow> nat \<Rightarrow> sockaddr" where
  "pgrest_inet_set_port (AF_INET6 p a) port = AF_INET6 port a"
| "pgrest_inet_set_port (AF_UNIX u) port = AF_UNIX u"
| "pgrest_inet_set_port (AF_INET p a) port = AF_INET port a"

lemma cmp_sockaddr_same_port:
  "pgrest_inet_get_port a = pgrest_inet_get_port b \<Longrightarrow> pgrest_inet_cmp_sockaddr a b False \<longleftrightarrow> a = b"
  by (cases a; cases b) auto

section \<open>IPv4 addresses\<close>

abbreviation DOT :: char where "DOT \<equiv> CHR ''.''"

fun inet_addr_loop :: "nat \<Rightarrow> nat \<Rightarrow> nat \<Rightarrow> string \<Rightarrow> nat" where
  "inet_addr_loop addr octet n [] =
     (if n = 3 then (addr * 256 + octet) mod 2 ^ 32 else INADDR_NONE)"
| "inet_addr_loop addr octet n (c # s) =
     (if is_digit c then
        let octet' = octet * 10 + (code c - 48) in
        if octet' > 255 then INADDR_NONE else inet_addr_loop addr octet' n s
      else if c = DOT then inet_addr_loop ((addr * 256 + octet) mod 2 ^ 32) 0 (n + 1) s
      else INADDR_NONE)"

definition pgrest_inet_inet_addr :: "string \<Rightarrow> nat" where
  "pgrest_inet_inet_addr text = inet_addr_loop 0 0 0 text"

section \<open>IPv6 addresses\<close>

text \<open>\<open>c |= 0x20\<close>\<close>

definition or_20 :: "char \<Rightarrow> nat" where
  "or_20 c = (if code c div 32 mod 2 = 1 then code c else code c + 32)"

text \<open>
  The loop of \<^verbatim>\<open>pgrest_inet_inet6_addr\<close>: the bytes written so far, the position of \<open>::\<close>,
  the text after the last colon, the groups left, the digits and value of the current
  group. None is \<open>return false\<close>; otherwise the state after the loop.
\<close>

fun inet6_loop ::
  "nat list \<Rightarrow> nat option \<Rightarrow> string option \<Rightarrow> nat \<Rightarrow> nat \<Rightarrow> nat \<Rightarrow> string \<Rightarrow> (nat list \<times> nat option \<times> nat \<times> nat \<times> nat) option" where
  "inet6_loop out zero digit n nibbles wd [] = Some (out, zero, n, nibbles, wd)"
| "inet6_loop out zero digit n nibbles wd (c # s) =
     (if c = CHR '':'' then
        if nibbles \<noteq> 0 then
          if n - 1 \<noteq> 0
          then inet6_loop (out @ [wd div 256 mod 256, wd mod 256]) zero (Some s) (n - 1) 0 0 s
          else None
        else if zero = None then inet6_loop out (Some (length out)) (Some s) n nibbles wd s
        else None
      else if c = DOT \<and> nibbles \<noteq> 0 then
        (case digit of
           None \<Rightarrow> None
         | Some t \<Rightarrow>
             if n < 2 then None
             else
               let w = pgrest_inet_inet_addr t in
               if w = INADDR_NONE then None
               else Some (out @ [w div 2 ^ 24 mod 256, w div 2 ^ 16 mod 256], zero, n - 1, nibbles, w))
      else if nibbles + 1 > 4 then None
      else if is_digit c then inet6_loop out zero digit n (nibbles + 1) (wd * 16 + (code c - 48)) s
      else if 97 \<le> or_20 c \<and> or_20 c \<le> 102
      then inet6_loop out zero digit n (nibbles + 1) (wd * 16 + (or_20 c - 97) + 10) s
      else None)"

definition pgrest_inet_inet6_addr :: "string \<Rightarrow> nat list option" where
  "pgrest_inet_inet6_addr p =
     (if p = [] then None
      else
        (case inet6_loop [] None None 8 0 0 (if hd p = CHR '':'' then tl p else p) of
           None \<Rightarrow> None
         | Some (out, zero, n, nibbles, wd) \<Rightarrow>
             if nibbles = 0 \<and> zero = None then None
             else
               let out' = out @ [wd div 256 mod 256, wd mod 256] in
               if n - 1 \<noteq> 0 then
                 (case zero of
                    Some z \<Rightarrow> Some (take z out' @ replicate (2 * (n - 1)) 0 @ drop z out')
                  | None \<Rightarrow> None)
               else (case zero of None \<Rightarrow> Some out' | Some z \<Rightarrow> None)))"

section \<open>Printing\<close>

text \<open>\<open>%d\<close> of \<^verbatim>\<open>sprintf\<close> for a port.\<close>

fun dec_of :: "nat \<Rightarrow> string" where
  "dec_of n = (if n < 10 then [char_of (48 + n)] else dec_of (n div 10) @ [char_of (48 + n mod 10)])"

declare dec_of.simps [simp del]

text \<open>\<open>snprintf(dst, size, ...)\<close>: at most \<open>size - 1\<close> bytes.\<close>

definition clip :: "nat \<Rightarrow> string \<Rightarrow> string" where
  "clip n s = take (n - 1) s"

text \<open>
  \<^verbatim>\<open>pgrest_inet_ntop\<close>: \<open>print4\<close> and \<open>print6\<close> stand for \<^verbatim>\<open>evutil_inet_ntop\<close> of the two
  families on a buffer of the given size; \<open>short\<close> is the test of \<open>socklen\<close> for Unix addresses.
\<close>

record inet_lib =
  print4 :: "nat \<Rightarrow> nat \<Rightarrow> string option"
  print6 :: "nat list \<Rightarrow> nat \<Rightarrow> string option"
  getaddrinfo :: "string \<Rightarrow> sockaddr list option"

definition pgrest_inet_ntop :: "inet_lib \<Rightarrow> sockaddr \<Rightarrow> bool \<Rightarrow> nat \<Rightarrow> bool \<Rightarrow> string option" where
  "pgrest_inet_ntop lib sa short bufsz port =
     (case sa of
        AF_INET p a \<Rightarrow>
          (case print4 lib a bufsz of
             None \<Rightarrow> None
           | Some dst \<Rightarrow>
               if port then Some (dst @ clip (bufsz - length dst) ('':'' @ dec_of p)) else Some dst)
      | AF_INET6 p a \<Rightarrow>
          (case print6 lib a bufsz of
             None \<Rightarrow> None
           | Some dst \<Rightarrow>
               if port
               then Some (dst @ ''['' @ clip (bufsz - (length dst + 1)) ('']:'' @ dec_of p))
               else Some dst)
      | AF_UNIX path \<Rightarrow> Some (clip bufsz (if short then ''????'' else path)))"

section \<open>URLs\<close>

record pgrest_addr =
  a_sockaddr :: sockaddr
  a_socklen :: nat
  a_name :: string

text \<open>
  Pointers into the URL text are the strings they delimit. On a failure the socket address
  of the URL is not used; its address bytes are then those of the zero-filled structure.
\<close>

record pgrest_url =
  url :: string
  host :: string
  port_text :: string
  port :: nat
  default_port :: nat
  family :: sa_family
  listen :: bool
  no_resolve :: bool
  no_port :: bool
  wildcard :: bool
  socklen :: nat
  u_sockaddr :: sockaddr
  addrs :: "pgrest_addr list"
  err :: "string option"

definition sizeof_sockaddr_in :: nat where "sizeof_sockaddr_in = 16"
definition sizeof_sockaddr_in6 :: nat where "sizeof_sockaddr_in6 = 28"
definition sizeof_sockaddr_un :: nat where "sizeof_sockaddr_un = 110"
definition sizeof_sun_path :: nat where "sizeof_sun_path = 108"

abbreviation url_fail :: "pgrest_url \<Rightarrow> string \<Rightarrow> (bool \<times> pgrest_url) run" where
  "url_fail u e \<equiv> Inr (False, u\<lparr>err := Some e\<rparr>)"

definition c_string :: "string \<Rightarrow> string" where
  "c_string s = takeWhile (\<lambda>c. code c \<noteq> 0) s"

text \<open>The two loops over the answer: IPv4 addresses first, then IPv6.\<close>

fun resolve_addrs :: "inet_lib \<Rightarrow> nat \<Rightarrow> sockaddr list \<Rightarrow> pgrest_addr list run" where
  "resolve_addrs lib p [] = Inr []"
| "resolve_addrs lib p (sa # rest) =
     (let sa' = pgrest_inet_set_port sa p;
          slen = (case sa of AF_INET _ _ \<Rightarrow> sizeof_sockaddr_in | _ \<Rightarrow> sizeof_sockaddr_in6);
          bufsz = (case sa of AF_INET _ _ \<Rightarrow> 22 | _ \<Rightarrow> 54)
      in (case pgrest_inet_ntop lib sa' False bufsz True of
            None \<Rightarrow> Inl OutOfBounds
          | Some name \<Rightarrow>
              (case resolve_addrs lib p rest of
                 Inl e \<Rightarrow> Inl e
               | Inr as \<Rightarrow> Inr (\<lparr>a_sockaddr = sa', a_socklen = slen, a_name = name\<rparr> # as))))"

definition pgrest_inet_resolve_host :: "inet_lib \<Rightarrow> pgrest_url \<Rightarrow> (bool \<times> pgrest_url) run" where
  "pgrest_inet_resolve_host lib u =
     (case getaddrinfo lib (c_string (host u)) of
        None \<Rightarrow> url_fail u ''host not found''
      | Some res \<Rightarrow>
          let in4 = filter (\<lambda>sa. family_of sa = F_INET) res; in6 = filter (\<lambda>sa. family_of sa = F_INET6) res in
          if length in4 + length in6 = 0 then url_fail u ''host not found''
          else (case resolve_addrs lib (port u) (in4 @ in6) of
                  Inl e \<Rightarrow> Inl e
                | Inr as \<Rightarrow> Inr (True, u\<lparr>addrs := as\<rparr>)))"

definition pgrest_inet_parse_unix :: "pgrest_url \<Rightarrow> (bool \<times> pgrest_url) run" where
  "pgrest_inet_parse_unix u =
     (let path = drop 5 (url u) in
      if length path = 0 then url_fail u ''no path in the unix domain socket''
      else
        let u1 = u\<lparr>host := path\<rparr> in
        if length path + 1 > sizeof_sun_path then url_fail u1 ''too long path in the unix domain socket''
        else
          let sa = AF_UNIX (c_string path) in
          Inr (True, u1\<lparr>socklen := sizeof_sockaddr_un, u_sockaddr := sa, family := F_UNIX,
             addrs := [\<lparr>a_sockaddr = sa, a_socklen = sizeof_sockaddr_un, a_name = url u\<rparr>]\<rparr>))"

definition unspecified6 :: "nat list \<Rightarrow> bool" where
  "unspecified6 a \<longleftrightarrow> list_all (\<lambda>b. b = 0) a"

text \<open>The common part of the parsers: the text of a port.\<close>

definition parse_port :: "pgrest_url \<Rightarrow> string \<Rightarrow> (pgrest_url \<Rightarrow> (bool \<times> pgrest_url) run) \<Rightarrow> (bool \<times> pgrest_url) run" where
  "parse_port u text k =
     (case pgrest_atoi text of
        Inl e \<Rightarrow> Inl e
      | Inr n \<Rightarrow>
          if n < 1 \<or> n > 65535 then url_fail u ''invalid port''
          else k (u\<lparr>port := nat n, u_sockaddr := pgrest_inet_set_port (u_sockaddr u) (nat n), port_text := text\<rparr>))"

definition named_addr :: "pgrest_url \<Rightarrow> pgrest_url" where
  "named_addr u =
     u\<lparr>addrs := [\<lparr>a_sockaddr = u_sockaddr u, a_socklen = socklen u, a_name = host u @ '':'' @ dec_of (port u)\<rparr>]\<rparr>"

definition no_port_given :: "pgrest_url \<Rightarrow> pgrest_url" where
  "no_port_given u =
     u\<lparr>no_port := True, port := default_port u, u_sockaddr := pgrest_inet_set_port (u_sockaddr u) (default_port u)\<rparr>"

definition inet6_host :: "string \<Rightarrow> pgrest_url \<Rightarrow> (bool \<times> pgrest_url) run" where
  "inet6_host h u =
     (if length h = 0 then url_fail u ''no host''
      else
        let u1 = u\<lparr>host := ''['' @ h @ '']''\<rparr> in
        (case pgrest_inet_inet6_addr h of
           None \<Rightarrow> url_fail u1 ''invalid IPv6 address''
         | Some a \<Rightarrow>
             Inr (True, named_addr (u1\<lparr>u_sockaddr := AF_INET6 (sin6_port (u_sockaddr u1)) a,
                wildcard := wildcard u1 \<or> unspecified6 a, family := F_INET6\<rparr>))))"

definition pgrest_inet_parse_inet6 :: "pgrest_url \<Rightarrow> (bool \<times> pgrest_url) run" where
  "pgrest_inet_parse_inet6 u =
     (let u1 = u\<lparr>socklen := sizeof_sockaddr_in6, u_sockaddr := AF_INET6 0 (replicate 16 0)\<rparr>;
          h = drop 1 (url u)
      in (case pgrest_strlchr h (CHR '']'') of
            None \<Rightarrow> url_fail u1 ''invalid host''
          | Some i \<Rightarrow>
              (case drop (i + 1) h of
                 [] \<Rightarrow> inet6_host (take i h) (no_port_given u1)
               | c # p \<Rightarrow>
                   if c \<noteq> CHR '':'' then url_fail u1 ''invalid host''
                   else parse_port u1 p (inet6_host (take i h)))))"

text \<open>The end of \<^verbatim>\<open>pgrest_inet_parse_inet\<close>, for the host in front of the port.\<close>

definition wildcard_of :: "sockaddr \<Rightarrow> bool" where
  "wildcard_of sa = (case sa of AF_INET6 p a \<Rightarrow> unspecified6 a | AF_INET p a \<Rightarrow> a = INADDR_ANY | AF_UNIX _ \<Rightarrow> False)"

definition inet_host :: "inet_lib \<Rightarrow> string \<Rightarrow> pgrest_url \<Rightarrow> (bool \<times> pgrest_url) run" where
  "inet_host lib h u =
     (if length h = 0 then url_fail u ''no host''
      else
        let u1 = u\<lparr>host := h\<rparr> in
        if listen u1 \<and> h = ''*''
        then Inr (True, u1\<lparr>u_sockaddr := AF_INET (sin_port (u_sockaddr u1)) INADDR_ANY, wildcard := True\<rparr>)
        else
          let a = pgrest_inet_inet_addr h; u2 = u1\<lparr>u_sockaddr := AF_INET (sin_port (u_sockaddr u1)) a\<rparr> in
          if a \<noteq> INADDR_NONE
          then Inr (True, named_addr (u2\<lparr>wildcard := wildcard u2 \<or> a = INADDR_ANY\<rparr>))
          else if no_resolve u2 then Inr (True, u2)
          else
            (case pgrest_inet_resolve_host lib u2 of
               Inl e \<Rightarrow> Inl e
             | Inr (ok, u3) \<Rightarrow>
                 if \<not> ok then Inr (False, u3)
                 else
                   (case addrs u3 of
                      [] \<Rightarrow> Inl OutOfBounds
                    | first # _ \<Rightarrow>
                        let sa = a_sockaddr first in
                        Inr (True, u3\<lparr>family := family_of sa, socklen := a_socklen first, u_sockaddr := sa,
                           wildcard := wildcard u3 \<or> wildcard_of sa\<rparr>))))"

definition pgrest_inet_parse_inet :: "inet_lib \<Rightarrow> pgrest_url \<Rightarrow> (bool \<times> pgrest_url) run" where
  "pgrest_inet_parse_inet lib u =
     (let u1 = u\<lparr>socklen := sizeof_sockaddr_in, u_sockaddr := AF_INET 0 0, family := F_INET\<rparr> in
      case pgrest_strlchr (url u) (CHR '':'') of
        Some i \<Rightarrow> parse_port u1 (drop (i + 1) (url u)) (inet_host lib (take i (url u)))
      | None \<Rightarrow>
          if listen u1 then parse_port u1 (url u) (\<lambda>u2. Inr (True, u2\<lparr>wildcard := True\<rparr>))
          else inet_host lib (url u) (no_port_given u1))"

definition pgrest_inet_parse_url :: "inet_lib \<Rightarrow> pgrest_url \<Rightarrow> (bool \<times> pgrest_url) run" where
  "pgrest_inet_parse_url lib u =
     (if length (url u) \<ge> 5 \<and> pgrest_strtolower (take 5 (url u)) = ''unix:'' then pgrest_inet_parse_unix u
      else if url u \<noteq> [] \<and> hd (url u) = CHR ''['' then pgrest_inet_parse_inet6 u
      else pgrest_inet_parse_inet lib u)"


section \<open>The IPv4 parser is exact\<close>

fun split_on :: "char \<Rightarrow> string \<Rightarrow> string list" where
  "split_on d [] = [[]]"
| "split_on d (c # s) =
     (if c = d then [] # split_on d s
      else (case split_on d s of [] \<Rightarrow> [[c]] | p # ps \<Rightarrow> (c # p) # ps))"

definition dec_nat :: "nat \<Rightarrow> string \<Rightarrow> nat" where
  "dec_nat v s = foldl (\<lambda>v c. v * 10 + (code c - 48)) v s"

text \<open>An octet: decimal digits, possibly none, of a value up to 255.\<close>

definition octet_ok :: "nat \<Rightarrow> string \<Rightarrow> bool" where
  "octet_ok v p \<longleftrightarrow> list_all (\<lambda>c. is_digit c) p \<and> dec_nat v p \<le> 255"

definition inet_addr_spec :: "string \<Rightarrow> nat" where
  "inet_addr_spec text =
     (case split_on DOT text of
        [a, b, c, d] \<Rightarrow>
          if octet_ok 0 a \<and> octet_ok 0 b \<and> octet_ok 0 c \<and> octet_ok 0 d
          then ((dec_nat 0 a * 256 + dec_nat 0 b) * 256 + dec_nat 0 c) * 256 + dec_nat 0 d
          else INADDR_NONE
      | _ \<Rightarrow> INADDR_NONE)"

lemma split_on_not_Nil [simp]: "split_on d s \<noteq> []"
  by (induction s) (auto split: list.splits)

lemma dec_nat_simps [simp]: "dec_nat v [] = v" "dec_nat v (c # s) = dec_nat (v * 10 + (code c - 48)) s"
  by (simp_all add: dec_nat_def)

lemma dec_nat_mono: "v \<le> dec_nat v s"
proof (induction s arbitrary: v)
  case (Cons c s)
  have "v \<le> v * 10 + (code c - 48)" by simp
  also have "\<dots> \<le> dec_nat v (c # s)" using Cons by simp
  finally show ?case .
qed simp

lemma octet_ok_Cons:
  "octet_ok v (c # p) \<longleftrightarrow> is_digit c \<and> v * 10 + (code c - 48) \<le> 255 \<and> octet_ok (v * 10 + (code c - 48)) p"
  using dec_nat_mono [of "v * 10 + (code c - 48)" p] by (auto simp: octet_ok_def)

lemma dot_not_digit: "\<not> is_digit DOT"
  by simp

text \<open>The loop in the middle of an octet.\<close>

lemma inet_addr_loop_parts:
  assumes "octet \<le> 255" "split_on DOT s = p # ps"
  shows "inet_addr_loop addr octet n s =
    (if octet_ok octet p \<and> (\<forall>q \<in> set ps. octet_ok 0 q) \<and> n + length ps = 3
     then foldl (\<lambda>a q. (a * 256 + dec_nat 0 q) mod 2 ^ 32) ((addr * 256 + dec_nat octet p) mod 2 ^ 32) ps
     else INADDR_NONE)"
  using assms
proof (induction s arbitrary: addr octet n p ps)
  case Nil
  then show ?case by (auto simp: octet_ok_def)
next
  case (Cons c s)
  obtain q qs where q: "split_on DOT s = q # qs" by (cases "split_on DOT s") auto
  show ?case
  proof (cases "c = DOT")
    case True
    then have "p = []" "ps = q # qs" using Cons.prems(2) q by auto
    then show ?thesis using True Cons.IH [OF _ q, of 0] Cons.prems(1) by (auto simp: octet_ok_def)
  next
    case False
    then have p: "p = c # q" "ps = qs" using Cons.prems(2) q by auto
    show ?thesis
    proof (cases "is_digit c \<and> octet * 10 + (code c - 48) \<le> 255")
      case True
      then show ?thesis using p Cons.IH [OF _ q, of "octet * 10 + (code c - 48)"] by (auto simp: octet_ok_Cons)
    next
      case bad: False
      then have "\<not> octet_ok octet p" using p by (auto simp: octet_ok_Cons)
      then show ?thesis using bad False by (auto simp: Let_def not_le)
    qed
  qed
qed

lemma octets_bound:
  assumes "(a::nat) \<le> 255" "b \<le> 255" "c \<le> 255" "d \<le> 255"
  shows "((a * 256 + b) * 256 + c) * 256 + d < 2 ^ 32"
  using assms by simp

text \<open>
  C23. The IPv4 parser is exact: it returns the address of the four octets if the text is
  four dot-separated strings of decimal digits with values up to 255, and \<^verbatim>\<open>INADDR_NONE\<close>
  otherwise. (An octet may be empty and then counts as 0, as in \<open>1..2.3\<close>.)
\<close>

theorem inet_addr_exact: "pgrest_inet_inet_addr text = inet_addr_spec text"
proof -
  obtain p ps where ps: "split_on DOT text = p # ps" by (cases "split_on DOT text") auto
  have r: "pgrest_inet_inet_addr text =
    (if octet_ok 0 p \<and> (\<forall>q \<in> set ps. octet_ok 0 q) \<and> length ps = 3
     then foldl (\<lambda>a q. (a * 256 + dec_nat 0 q) mod 2 ^ 32) (dec_nat 0 p mod 2 ^ 32) ps
     else INADDR_NONE)"
    using inet_addr_loop_parts [OF _ ps, of 0 0 0] by (simp add: pgrest_inet_inet_addr_def)
  show ?thesis
  proof (cases "length ps = 3")
    case False
    then show ?thesis using r ps by (auto simp: inet_addr_spec_def split: list.splits)
  next
    case True
    then obtain b c d where "ps = [b, c, d]" by (auto simp: length_Suc_conv numeral_3_eq_3)
    then show ?thesis
      using r ps octets_bound [of "dec_nat 0 p" "dec_nat 0 b" "dec_nat 0 c" "dec_nat 0 d"]
      by (auto simp: inet_addr_spec_def octet_ok_def)
  qed
qed



section \<open>Printed numbers\<close>

lemma dec_of_digits: "list_all (\<lambda>c. is_digit c) (dec_of n)" "dec_of n \<noteq> []"
proof -
  show "list_all (\<lambda>c. is_digit c) (dec_of n)"
  proof (induction n rule: dec_of.induct)
    case (1 n)
    have "n mod 10 \<le> 9" using mod_less_divisor [of 10 n] by linarith
    then show ?case using 1 by (subst dec_of.simps) simp
  qed
  show "dec_of n \<noteq> []" by (subst dec_of.simps) simp
qed

lemma dec_nat_append: "dec_nat v (s @ t) = dec_nat (dec_nat v s) t"
  by (simp add: dec_nat_def)

lemma dec_nat_dec_of: "dec_nat 0 (dec_of n) = n"
proof (induction n rule: dec_of.induct)
  case (1 n)
  show ?case
  proof (cases "n < 10")
    case True
    then show ?thesis by (subst dec_of.simps) simp
  next
    case False
    then have "dec_of n = dec_of (n div 10) @ [char_of (48 + n mod 10)]" by (subst dec_of.simps) simp
    then show ?thesis using 1 False by (simp add: dec_nat_append)
  qed
qed

lemma libc_digits_dec: "list_all (\<lambda>c. is_digit c) s \<Longrightarrow> libc_digits (int v) s = int (dec_nat v s)"
proof (induction s arbitrary: v)
  case (Cons c s)
  then have "int v * 10 + digit_val c = int (v * 10 + (code c - 48))" by (simp add: digit_val_def)
  then have "libc_digits (int v) (c # s) = libc_digits (int (v * 10 + (code c - 48))) s"
    using Cons.prems unfolding libc_digits.simps list.pred_inject by (simp only: if_True simp_thms)
  also have "\<dots> = int (dec_nat v (c # s))"
    using Cons.IH [of "v * 10 + (code c - 48)"] Cons.prems by (simp only: dec_nat_simps list.pred_inject)
  finally show ?case .
qed simp

lemma length_dec_of: "n < 10 ^ k \<Longrightarrow> 0 < k \<Longrightarrow> length (dec_of n) \<le> k"
proof (induction n arbitrary: k rule: dec_of.induct)
  case (1 n)
  show ?case
  proof (cases "n < 10")
    case True
    then show ?thesis using 1(3) by (subst dec_of.simps) simp
  next
    case False
    then have "k \<noteq> 1" using 1 by auto
    then obtain j where k: "k = Suc j" "0 < j" using 1(3) by (cases k) auto
    then have "n div 10 < 10 ^ j" using 1(2) by (simp add: less_mult_imp_div_less mult.commute)
    then have "length (dec_of (n div 10)) \<le> j" using 1(1) False k by simp
    then show ?thesis using False k by (subst dec_of.simps) simp
  qed
qed

lemma atoi_dec_of:
  assumes "n \<le> 65535"
  shows "pgrest_atoi (dec_of n) = Inr (int n)"
proof -
  obtain c s where d: "dec_of n = c # s" "is_digit c" "list_all (\<lambda>c. is_digit c) (c # s)"
    using dec_of_digits [of n] by (cases "dec_of n") auto
  have "takeWhile (\<lambda>c. code c \<noteq> 0) (c # s) = c # s"
    using d(3) by (intro takeWhile_eq_all_conv [THEN iffD2]) (auto simp: list_all_iff)
  moreover have "\<not> libc_isspace c" "c \<noteq> CHR ''-''" "c \<noteq> CHR ''+''" using d(2) by (auto simp: libc_isspace_def)
  moreover have "libc_digits 0 (c # s) = int n"
    using libc_digits_dec [OF d(3), of 0] dec_nat_dec_of [of n] d(1) by simp
  ultimately have "libc_atoi (c # s) = Inr (int n)"
    using assms by (simp add: libc_atoi_def del: libc_digits.simps)
  moreover have "length (c # s) < 32" using length_dec_of [of n 5] assms d(1) by simp
  ultimately show ?thesis using d(1) by (simp add: pgrest_atoi_def)
qed

lemma split_on_append: "d \<notin> set s \<Longrightarrow> split_on d (s @ d # r) = s # split_on d r" "d \<notin> set s \<Longrightarrow> split_on d s = [s]"
  by (induction s) auto

lemma dec_of_not_in: "\<not> is_digit c \<Longrightarrow> c \<notin> set (dec_of n)"
  using dec_of_digits(1) [of n] unfolding list_all_iff by blast

definition dotted :: "nat \<Rightarrow> nat \<Rightarrow> nat \<Rightarrow> nat \<Rightarrow> string" where
  "dotted a b c d = dec_of a @ DOT # dec_of b @ DOT # dec_of c @ DOT # dec_of d"

lemma inet_addr_dotted:
  assumes "a \<le> 255" "b \<le> 255" "c \<le> 255" "d \<le> 255"
  shows "pgrest_inet_inet_addr (dotted a b c d) = ((a * 256 + b) * 256 + c) * 256 + d"
proof -
  have "split_on DOT (dotted a b c d) = [dec_of a, dec_of b, dec_of c, dec_of d]"
    unfolding dotted_def by (simp add: split_on_append dec_of_not_in)
  moreover have "octet_ok 0 (dec_of n) \<longleftrightarrow> n \<le> 255" for n
    using dec_of_digits(1) by (simp add: octet_ok_def dec_nat_dec_of)
  ultimately show ?thesis
    using assms by (simp add: pgrest_inet_inet_addr_def inet_addr_loop_parts [where p = "dec_of a" and ps = "[dec_of b, dec_of c, dec_of d]"] dec_nat_dec_of)
qed

lemma strlchr_append: "c \<notin> set s \<Longrightarrow> pgrest_strlchr (s @ c # r) c = Some (length s)"
  by (induction s) auto

lemma octets_none:
  assumes "a \<le> 255" "b \<le> 255" "c \<le> 255" "d \<le> 255"
    "((a * 256 + b) * 256 + c) * 256 + d = INADDR_NONE"
  shows "(a, b, c, d) = (255, 255, 255, 255)"
proof -
  have e: "16777216 * a + 65536 * b + 256 * c + d = 4294967295" using assms(5) unfolding INADDR_NONE_def by simp
  have "255 \<le> a" using e assms(1-4) by arith
  moreover from this have "255 \<le> b" using e assms(1-4) by arith
  moreover from this calculation have "255 \<le> c" using e assms(1-4) by arith
  moreover from this calculation have "255 \<le> d" using e assms(1-4) by arith
  ultimately show ?thesis using assms(1-4) by simp
qed

text \<open>
  A printed IPv4 address and port is parsed back: for every address other than
  255.255.255.255 and every port from 1 to 65535, \<^verbatim>\<open>pgrest_inet_parse_url\<close> on \<open>a.b.c.d:port\<close>
  succeeds and yields the address, the port, the wildcard flag exactly for 0.0.0.0 (or when
  it was set before), and one address whose name is the URL itself.
\<close>

theorem parse_url_ipv4:
  assumes "a \<le> 255" "b \<le> 255" "c \<le> 255" "d \<le> 255" "1 \<le> p" "p \<le> 65535"
    and "(a, b, c, d) \<noteq> (255, 255, 255, 255)"
    and "url u = dotted a b c d @ '':'' @ dec_of p"
  shows "pgrest_inet_parse_url lib u =
    (let addr = ((a * 256 + b) * 256 + c) * 256 + d; sa = AF_INET p addr in
     Inr (True, u\<lparr>host := dotted a b c d, port_text := dec_of p, port := p, family := F_INET,
       wildcard := wildcard u \<or> addr = INADDR_ANY, socklen := sizeof_sockaddr_in, u_sockaddr := sa,
       addrs := [\<lparr>a_sockaddr = sa, a_socklen = sizeof_sockaddr_in, a_name = url u\<rparr>]\<rparr>))"
proof -
  let ?addr = "((a * 256 + b) * 256 + c) * 256 + d"
  have "list_all (\<lambda>c. is_digit c \<or> c = DOT) (dotted a b c d)"
    using dec_of_digits(1) unfolding dotted_def by (auto simp: list_all_iff)
  then have col: "CHR '':'' \<notin> set (dotted a b c d)" by (auto simp: list_all_iff)
  obtain x xs where x: "dotted a b c d = x # xs" "is_digit x"
    using dec_of_digits [of a] by (cases "dec_of a") (auto simp: dotted_def)
  then have low: "pgrest_tolower x = x" "x \<noteq> CHR ''u''" "x \<noteq> CHR ''[''" "x \<noteq> CHR ''*''" by (auto simp: pgrest_tolower_def)
  then have start: "\<not> (length (url u) \<ge> 5 \<and> pgrest_strtolower (take 5 (url u)) = ''unix:'')" "hd (url u) \<noteq> CHR ''[''"
    using assms(8) x by (auto simp: pgrest_strtolower_def)
  have ne: "?addr \<noteq> INADDR_NONE" using octets_none [OF assms(1-4)] assms(7) by blast
  have nd: "dotted a b c d \<noteq> ''*''" "dotted a b c d \<noteq> []" using x low(4) by auto
  have "pgrest_inet_parse_url lib u = pgrest_inet_parse_inet lib u"
    using start unfolding pgrest_inet_parse_url_def by argo
  also have "\<dots> = parse_port (u\<lparr>socklen := sizeof_sockaddr_in, u_sockaddr := AF_INET 0 0, family := F_INET\<rparr>) (dec_of p)
      (inet_host lib (dotted a b c d))"
    using strlchr_append [OF col, of "dec_of p"] assms(8) by (simp add: pgrest_inet_parse_inet_def)
  also have "\<dots> = inet_host lib (dotted a b c d) (u\<lparr>socklen := sizeof_sockaddr_in, family := F_INET, port := p,
      u_sockaddr := AF_INET p 0, port_text := dec_of p\<rparr>)"
    using assms(5,6) by (simp add: parse_port_def atoi_dec_of)
  finally show ?thesis
    using nd ne inet_addr_dotted [OF assms(1-4)] assms(8) by (simp add: inet_host_def named_addr_def Let_def)
qed

definition url0 :: "string \<Rightarrow> pgrest_url" where
  "url0 s = \<lparr>url = s, host = [], port_text = [], port = 0, default_port = 8080, family = F_INET, listen = True,
     no_resolve = False, no_port = False, wildcard = False, socklen = 0, u_sockaddr = AF_INET 0 0, addrs = [], err = None\<rparr>"

definition lib0 :: inet_lib where
  "lib0 = \<lparr>print4 = (\<lambda>a n. Some (dotted (a div 2 ^ 24) (a div 2 ^ 16 mod 256) (a div 256 mod 256) (a mod 256))),
     print6 = (\<lambda>a n. Some ''::1''), getaddrinfo = (\<lambda>h. None)\<rparr>"

theorem parse_url_ipv4_witness:
  "\<exists>u'. pgrest_inet_parse_url lib0 (url0 (dotted 10 0 0 7 @ '':'' @ dec_of 8080)) = Inr (True, u') \<and>
     u_sockaddr u' = AF_INET 8080 167772167 \<and> \<not> wildcard u'"
  using parse_url_ipv4 [of 10 0 0 7 8080 "url0 (dotted 10 0 0 7 @ '':'' @ dec_of 8080)" lib0]
  by (simp add: url0_def INADDR_ANY_def Let_def)

text \<open>
  C29. A long port number is written past the end of a stack buffer: for every URL of the
  form \<open>host:port\<close> (no colon in the host, not a Unix or bracketed address) whose port text
  has 32 bytes or more, the parser calls \<^verbatim>\<open>pgrest_atoi\<close>, which copies the text into
  \<^verbatim>\<open>char buff[32]\<close>.
\<close>

theorem parse_url_port_overflow:
  assumes "url u = h @ '':'' @ p" "CHR '':'' \<notin> set h" "32 \<le> length p" "hd (url u) \<noteq> CHR ''[''"
    and "pgrest_strtolower (take 5 (url u)) \<noteq> ''unix:''"
  shows "pgrest_inet_parse_url lib u = Inl OutOfBounds"
  using assms strlchr_append [OF assms(2), of p]
  by (simp add: pgrest_inet_parse_url_def pgrest_inet_parse_inet_def parse_port_def pgrest_atoi_def Let_def)

theorem parse_url_port_overflow_witness:
  "pgrest_inet_parse_url lib0 (url0 (''127.0.0.1:'' @ replicate 32 (CHR ''8''))) = Inl OutOfBounds"
  by (rule parse_url_port_overflow [of _ "''127.0.0.1''" "replicate 32 (CHR ''8'')"])
    (simp_all add: url0_def pgrest_strtolower_def pgrest_tolower_def)

text \<open>
  The text of an IPv6 address with its port is malformed: whatever the library prints
  for the address, \<^verbatim>\<open>pgrest_inet_ntop\<close> puts the opening bracket behind it, so that
  \<open>::1\<close> with port 80 becomes \<open>::1[]:80\<close>.
\<close>

theorem ntop6_brackets:
  assumes "print6 lib a n = Some s" "length s + 10 \<le> n" "p \<le> 65535"
  shows "pgrest_inet_ntop lib (AF_INET6 p a) short n True = Some (s @ ''[]:'' @ dec_of p)"
proof -
  have "length (dec_of p) \<le> 5" using length_dec_of [of p 5] assms(3) by simp
  then show ?thesis using assms by (simp add: pgrest_inet_ntop_def clip_def)
qed

theorem ntop6_brackets_witness:
  "pgrest_inet_ntop lib0 (AF_INET6 80 (replicate 15 0 @ [1])) False 54 True = Some ''::1[]:80''"
proof -
  have "dec_of 80 = ''80''" by code_simp
  then show ?thesis
    using ntop6_brackets [of lib0 "replicate 15 0 @ [1]" 54 "''::1''" 80 False] by (simp add: lib0_def)
qed



section \<open>The IPv6 parser\<close>

lemma inet6_loop_bounds:
  assumes "inet6_loop out zero digit n nib wd s = Some (out', zero', n', nib', wd')"
    and "length out = 2 * (8 - n)" "1 \<le> n" "n \<le> 8" "\<forall>b \<in> set out. b < 256"
    and "\<forall>z. zero = Some z \<longrightarrow> z \<le> length out"
  shows "length out' = 2 * (8 - n') \<and> 1 \<le> n' \<and> n' \<le> 8 \<and> (\<forall>b \<in> set out'. b < 256) \<and>
    (\<forall>z. zero' = Some z \<longrightarrow> z \<le> length out')"
  using assms
proof (induction out zero digit n nib wd s rule: inet6_loop.induct)
  case 1
  then show ?case by auto
next
  case (2 out zero digit n nib wd c s)
  note inv = "2.prems"(2-)
  consider (group) "c = CHR '':''" "nib \<noteq> 0" "n - 1 \<noteq> 0" | (zero) "c = CHR '':''" "nib = 0" "zero = None"
    | (dot) t where "c = DOT" "nib \<noteq> 0" "digit = Some t" "2 \<le> n" "pgrest_inet_inet_addr t \<noteq> INADDR_NONE"
    | (dec) "c \<noteq> CHR '':''" "\<not> (c = DOT \<and> nib \<noteq> 0)" "nib + 1 \<le> 4" "is_digit c"
    | (hex) "c \<noteq> CHR '':''" "\<not> (c = DOT \<and> nib \<noteq> 0)" "nib + 1 \<le> 4" "\<not> is_digit c" "97 \<le> or_20 c \<and> or_20 c \<le> 102"
    using "2.prems"(1) by (auto simp: Let_def not_le not_less split: if_splits option.splits)
  then show ?case
  proof cases
    case group
    show ?thesis by (rule "2.IH"(1) [OF group(1,2,3)]) (use "2.prems"(1) group inv in auto)
  next
    case zero
    show ?thesis by (rule "2.IH"(2)) (use "2.prems"(1) zero inv in auto)
  next
    case dot
    then show ?thesis using "2.prems"(1) inv by (fastforce simp: Let_def)
  next
    case dec
    show ?thesis by (rule "2.IH"(3)) (use "2.prems"(1) dec inv in auto)
  next
    case hex
    show ?thesis by (rule "2.IH"(4)) (use "2.prems"(1) hex inv in auto)
  qed
qed

text \<open>
  The IPv6 parser writes exactly its 16 bytes: whenever it accepts a text, the result
  has 16 bytes, each a byte value; in particular none of its stores leaves the array.
\<close>

theorem inet6_addr_bytes:
  "pgrest_inet_inet6_addr p = Some a \<Longrightarrow> length a = 16 \<and> (\<forall>b \<in> set a. b < 256)"
proof -
  assume a: "pgrest_inet_inet6_addr p = Some a"
  then obtain out zero n nib wd where
    l: "inet6_loop [] None None 8 0 0 (if hd p = CHR '':'' then tl p else p) = Some (out, zero, n, nib, wd)"
    by (auto simp: pgrest_inet_inet6_addr_def split: if_splits option.splits)
  have b: "length out = 2 * (8 - n)" "1 \<le> n" "n \<le> 8" "\<forall>b \<in> set out. b < 256" "\<forall>z. zero = Some z \<longrightarrow> z \<le> length out"
    using inet6_loop_bounds [OF l] by auto
  moreover have "\<forall>b \<in> set (take z out). b < 256" "\<forall>b \<in> set (drop z out). b < 256" for z
    using b(4) by (meson in_set_takeD, meson in_set_dropD)
  ultimately show ?thesis
    using a l by (auto simp: pgrest_inet_inet6_addr_def Let_def split: if_splits option.splits)
qed

theorem inet6_addr_bytes_witness:
  "pgrest_inet_inet6_addr ''::1'' = Some (replicate 15 0 @ [1]) \<and> length (replicate 15 (0::nat) @ [1]) = 16"
proof -
  have "pgrest_inet_inet6_addr ''::1'' = Some (replicate 15 0 @ [1])"
    by code_simp
  with inet6_addr_bytes [OF this] show ?thesis by simp
qed

lemma hex_digit_cases:
  assumes "v < 16"
  shows "hex_digit v \<noteq> CHR '':''" "hex_digit v \<noteq> DOT"
    "v < 10 \<Longrightarrow> is_digit (hex_digit v) \<and> code (hex_digit v) - 48 = v"
    "\<not> v < 10 \<Longrightarrow> \<not> is_digit (hex_digit v) \<and> or_20 (hex_digit v) = 87 + v"
proof -
  have c: "code (hex_digit v) = (if v < 10 then 48 + v else 87 + v)" using assms by (simp add: hex_digit_def)
  show "hex_digit v \<noteq> CHR '':''" using c assms by (auto split: if_splits)
  show "hex_digit v \<noteq> DOT" using c assms by (auto split: if_splits)
  show "v < 10 \<Longrightarrow> is_digit (hex_digit v) \<and> code (hex_digit v) - 48 = v" using c by simp
  have "(87 + v) div 32 = 3" if "\<not> v < 10" using that assms by (intro div_nat_eqI) auto
  then show "\<not> v < 10 \<Longrightarrow> \<not> is_digit (hex_digit v) \<and> or_20 (hex_digit v) = 87 + v" using c by (simp add: or_20_def)
qed

lemma inet6_group_step:
  assumes "v < 16" "nib < 4"
  shows "inet6_loop out zero digit n nib wd (hex_digit v # s) = inet6_loop out zero digit n (nib + 1) (wd * 16 + v) s"
  using hex_digit_cases [OF assms(1)] assms by (cases "v < 10") auto

lemma inet6_group:
  assumes "w < 16 ^ k" "k \<le> 4" "0 < k"
  shows "inet6_loop out zero digit n 0 0 (hex_of w @ s) = inet6_loop out zero digit n (length (hex_of w)) w s"
  using assms
proof (induction w arbitrary: k s rule: hex_of.induct)
  case (1 w)
  show ?case
  proof (cases "w < 16")
    case True
    then show ?thesis using inet6_group_step [of w 0] by (simp add: hex_of.simps)
  next
    case False
    then have "k \<noteq> 1" using 1 by auto
    then obtain j where k: "k = Suc j" "0 < j" using 1 by (cases k) auto
    have j: "w div 16 < 16 ^ j" using 1 k by (simp add: less_mult_imp_div_less mult.commute)
    have "inet6_loop out zero digit n 0 0 (hex_of w @ s) =
        inet6_loop out zero digit n 0 0 (hex_of (w div 16) @ hex_digit (w mod 16) # s)"
      using False by (simp add: hex_of.simps [of w])
    also have "\<dots> = inet6_loop out zero digit n (length (hex_of (w div 16))) (w div 16) (hex_digit (w mod 16) # s)"
      using 1(1) [OF False j] k 1(3) by simp
    also have "\<dots> = inet6_loop out zero digit n (length (hex_of w)) w s"
      using inet6_group_step [of "w mod 16" "length (hex_of (w div 16))"] length_hex_of [OF j k(2)] k 1(3) False
      by (simp add: hex_of.simps [of w])
    finally show ?thesis .
  qed
qed

text \<open>Groups of 16 bits, their text and their bytes.\<close>

fun text6 :: "nat list \<Rightarrow> string" where
  "text6 [] = []"
| "text6 [w] = hex_of w"
| "text6 (w # ws) = hex_of w @ CHR '':'' # text6 ws"

definition bytes6 :: "nat list \<Rightarrow> nat list" where
  "bytes6 ws = concat (map (\<lambda>w. [w div 256, w mod 256]) ws)"

lemma bytes6_simps [simp]: "bytes6 [] = []" "bytes6 (w # ws) = w div 256 # w mod 256 # bytes6 ws"
  "length (bytes6 ws) = 2 * length ws" "bytes6 (us @ ws) = bytes6 us @ bytes6 ws"
  by (simp_all add: bytes6_def) (induction ws; simp)

lemma hex_of_not_Nil [simp]: "hex_of w \<noteq> []" "length (hex_of w) \<noteq> 0"
  by (simp_all add: hex_of.simps)

lemma inet6_groups:
  assumes "ws \<noteq> []" "length ws \<le> n" "\<forall>w \<in> set ws. w < 65536"
  shows "inet6_loop out zero digit n 0 0 (text6 ws @ s) =
    inet6_loop (out @ bytes6 (butlast ws)) zero (if length ws = 1 then digit else Some (hex_of (last ws) @ s))
      (n - (length ws - 1)) (length (hex_of (last ws))) (last ws) s"
  using assms
proof (induction ws arbitrary: out digit n rule: text6.induct)
  case 1
  then show ?case by simp
next
  case (2 w)
  then show ?case using inet6_group [of w 4] by simp
next
  case (3 w v ws)
  have "inet6_loop out zero digit n 0 0 (text6 (w # v # ws) @ s) =
      inet6_loop (out @ [w div 256, w mod 256]) zero (Some (text6 (v # ws) @ s)) (n - 1) 0 0 (text6 (v # ws) @ s)"
    using 3(3,4) inet6_group [of w 4] less_mult_imp_div_less [of w 256 256] by simp
  also have "\<dots> = inet6_loop (out @ bytes6 (butlast (w # v # ws))) zero
      (if length (v # ws) = 1 then Some (text6 (v # ws) @ s) else Some (hex_of (last (v # ws)) @ s))
      (n - 1 - (length (v # ws) - 1)) (length (hex_of (last (v # ws)))) (last (v # ws)) s"
    using 3(1) [of "n - 1" "out @ [w div 256, w mod 256]" "Some (text6 (v # ws) @ s)"] 3(3,4) by simp
  also have "(if length (v # ws) = 1 then Some (text6 (v # ws) @ s) else Some (hex_of (last (v # ws)) @ s)) =
      Some (hex_of (last (w # v # ws)) @ s)" by (cases ws) auto
  finally show ?case using 3(3) by simp
qed


lemma text6_start: "ws \<noteq> [] \<Longrightarrow> \<forall>w \<in> set ws. w < 65536 \<Longrightarrow> text6 ws \<noteq> [] \<and> hd (text6 ws) \<noteq> CHR '':''"
proof -
  have h: "hd (hex_of w) \<noteq> CHR '':''" for w
  proof (induction w rule: hex_of.induct)
    case (1 w)
    then show ?case using hex_digit_cases(1) [of w] by (subst hex_of.simps) (auto simp: hd_append)
  qed
  assume "ws \<noteq> []"
  then show ?thesis using h by (cases ws rule: text6.cases) (auto simp: hd_append)
qed

lemma group_bytes: "w < 65536 \<Longrightarrow> [w div 256 mod 256, w mod 256] = bytes6 [w]"
  using less_mult_imp_div_less [of w 256 256] by simp

text \<open>
  IPv6 addresses in full form are parsed back: the text of any eight 16-bit groups in
  hexadecimal, separated by colons, gives the 16 bytes of the groups.
\<close>

theorem inet6_full_roundtrip:
  assumes "length ws = 8" "\<forall>w \<in> set ws. w < 65536"
  shows "pgrest_inet_inet6_addr (text6 ws) = Some (bytes6 ws)"
proof -
  have ne: "ws \<noteq> []" using assms(1) by auto
  have l: "inet6_loop [] None None 8 0 0 (text6 ws) =
      Some (bytes6 (butlast ws), None, 1, length (hex_of (last ws)), last ws)"
    using inet6_groups [OF ne, of 8 "[]" None None "[]"] assms by simp
  have "last ws < 65536" using assms ne by simp
  then have "bytes6 (butlast ws) @ [last ws div 256 mod 256, last ws mod 256] = bytes6 ws"
    using group_bytes bytes6_simps(4) [of "butlast ws" "[last ws]"] ne by simp
  then show ?thesis using l text6_start [OF ne assms(2)] by (simp add: pgrest_inet_inet6_addr_def)
qed

theorem inet6_full_roundtrip_witness:
  "pgrest_inet_inet6_addr (text6 [0x2001, 0xdb8, 0, 0, 0, 0xff00, 0x42, 0x8329]) =
     Some (bytes6 [0x2001, 0xdb8, 0, 0, 0, 0xff00, 0x42, 0x8329])"
  by (rule inet6_full_roundtrip) simp_all

lemma inet6_addr_zero:
  assumes "p \<noteq> []" "inet6_loop [] None None 8 0 0 (if hd p = CHR '':'' then tl p else p) = Some (out, Some z, n, nib, wd)"
    "n - 1 \<noteq> 0"
  shows "pgrest_inet_inet6_addr p =
    Some (take z (out @ [wd div 256 mod 256, wd mod 256]) @ replicate (2 * (n - 1)) 0
      @ drop z (out @ [wd div 256 mod 256, wd mod 256]))"
  unfolding pgrest_inet_inet6_addr_def assms(2) using assms(1,3) by (simp add: Let_def)

text \<open>
  C24. A double colon stands for the missing groups: for groups before and after it, at most
  six of them when none follows and at most seven otherwise, the parser fills the gap with
  zero bytes.
\<close>

theorem inet6_compressed_roundtrip:
  assumes "length pre + length post \<le> (if post = [] then 6 else 7)" "\<forall>w \<in> set pre \<union> set post. w < 65536"
  shows "pgrest_inet_inet6_addr (text6 pre @ ''::'' @ text6 post) =
    Some (bytes6 pre @ replicate (16 - 2 * (length pre + length post)) 0 @ bytes6 post)"
proof -
  let ?n = "8 - length pre"
  let ?z = "Some (2 * length pre)"
  have c: "\<exists>d. inet6_loop [] None None 8 0 0 (if hd (text6 pre @ ''::'' @ text6 post) = CHR '':''
      then tl (text6 pre @ ''::'' @ text6 post) else text6 pre @ ''::'' @ text6 post) =
    inet6_loop (bytes6 pre) ?z d ?n 0 0 (text6 post)"
  proof (cases "pre = []")
    case True
    then show ?thesis by auto
  next
    case False
    have pre: "\<forall>w \<in> set pre. w < 65536" "last pre < 65536" using assms(2) False by auto
    have len: "length pre \<le> 7" using assms(1) by (simp split: if_splits)
    have b: "bytes6 (butlast pre) @ [last pre div 256 mod 256, last pre mod 256] = bytes6 pre"
      using group_bytes [OF pre(2)] bytes6_simps(4) [of "butlast pre" "[last pre]"] False by simp
    have "length pre \<noteq> 0" using False by simp
    then have n: "8 - (length pre - 1) - 1 = ?n" "8 - (length pre - 1) - 1 \<noteq> 0" using len by arith+
    have "length (bytes6 pre) = 2 * length pre" by simp
    then show ?thesis
      using text6_start [OF False pre(1)] inet6_groups [OF False, of 8 "[]" None None "''::'' @ text6 post"] len pre(1) n b
      by (auto simp: hd_append)
  qed
  then obtain d where d: "inet6_loop [] None None 8 0 0 (if hd (text6 pre @ ''::'' @ text6 post) = CHR '':''
      then tl (text6 pre @ ''::'' @ text6 post) else text6 pre @ ''::'' @ text6 post) =
    inet6_loop (bytes6 pre) ?z d ?n 0 0 (text6 post)" by blast
  show ?thesis
  proof (cases "post = []")
    case True
    then have "length pre \<le> 6" using assms(1) by simp
    then have e: "?n - 1 \<noteq> 0" "2 * (?n - 1) + 2 = 16 - 2 * length pre" by arith+
    have r: "replicate (16 - 2 * length pre) (0::nat) = replicate (2 * (?n - 1)) 0 @ [0, 0]"
      unfolding e(2) [symmetric] by (simp only: replicate_add numeral_2_eq_2 replicate_Suc replicate_0)
    have l: "inet6_loop (bytes6 pre) ?z d ?n 0 0 (text6 post) = Some (bytes6 pre, ?z, ?n, 0, 0)" using True by simp
    show ?thesis using inet6_addr_zero [OF _ d [unfolded l] e(1)] True r by simp
  next
    case False
    have post: "\<forall>w \<in> set post. w < 65536" "last post < 65536" using assms(2) False by auto
    have len: "length pre + length post \<le> 7" "1 \<le> length post" using assms(1) False by (auto simp: Suc_leI)
    have b: "bytes6 (butlast post) @ [last post div 256 mod 256, last post mod 256] = bytes6 post"
      using group_bytes [OF post(2)] bytes6_simps(4) [of "butlast post" "[last post]"] False by simp
    have e: "?n - (length post - 1) - 1 \<noteq> 0" "2 * (?n - (length post - 1) - 1) = 16 - 2 * (length pre + length post)"
      using len by arith+
    have l: "inet6_loop (bytes6 pre) ?z d ?n 0 0 (text6 post) =
        Some (bytes6 pre @ bytes6 (butlast post), ?z, ?n - (length post - 1), length (hex_of (last post)), last post)"
      using inet6_groups [OF False _ post(1), of ?n "bytes6 pre" ?z d "[]"] len by simp
    show ?thesis using inet6_addr_zero [OF _ d [unfolded l] e(1)] b e(2) by simp
  qed
qed

theorem inet6_compressed_roundtrip_witness:
  "pgrest_inet_inet6_addr (text6 [0xfe80] @ ''::'' @ text6 [1]) = Some (0xfe # 0x80 # replicate 12 0 @ [0, 1])"
  using inet6_compressed_roundtrip [of "[0xfe80]" "[1]"] by simp


end
