(* ===== verification/Rtree.thy ===== *)
theory Rtree
  imports Strings
begin

text \<open>
  The router of \<^verbatim>\<open>src/pg_rest_rtree.c\<close>: a radix tree over URL patterns with named
  parameters (\<open>:name\<close>) and catch-alls (\<open>*name\<close>). The tree is mutated in place along one
  path; no node has two parents, so the model returns the updated node, also when the
  operation reports failure (the source leaves the nodes it has touched changed). The
  fields of a node are a record, its children a list; the byte capacity of the children
  array is not kept. Out-of-range reads are \<open>Inl OutOfBounds\<close>.
\<close>

section \<open>Nodes\<close>

datatype rtree_nodetype =
    PGREST_RTREE_NODE_STATIC
  | PGREST_RTREE_NODE_ROOT
  | PGREST_RTREE_NODE_PARAM
  | PGREST_RTREE_NODE_CATCHALL

record 'h node_info =
  npath :: string
  wild_child :: bool
  ntype :: rtree_nodetype
  max_params :: int
  indices :: string
  nhandler :: "'h option"
  priority :: int

datatype 'h rtree_node = RNode (info: "'h node_info") (children: "'h rtree_node list")

abbreviation upd_info :: "('h node_info \<Rightarrow> 'h node_info) \<Rightarrow> 'h rtree_node \<Rightarrow> 'h rtree_node" where
  "upd_info f n \<equiv> RNode (f (info n)) (children n)"

abbreviation bump :: "'h rtree_node \<Rightarrow> 'h rtree_node" where
  "bump n \<equiv> upd_info (priority_update (\<lambda>p. p + 1)) n"

text \<open>A node from \<^verbatim>\<open>palloc0\<close>, then \<^verbatim>\<open>INIT_NODE\<close>.\<close>

definition INIT_NODE :: "bool \<Rightarrow> rtree_nodetype \<Rightarrow> int \<Rightarrow> 'h option \<Rightarrow> int \<Rightarrow> 'h node_info" where
  "INIT_NODE w t m h p =
     \<lparr>npath = [], wild_child = w, ntype = t, max_params = m, indices = [], nhandler = h, priority = p\<rparr>"

definition pgrest_rtree_create :: "'h rtree_node" where
  "pgrest_rtree_create = RNode (INIT_NODE False PGREST_RTREE_NODE_STATIC 0 None 0) []"

abbreviation SLASH :: char where "SLASH \<equiv> CHR ''/''"
abbreviation COLON :: char where "COLON \<equiv> CHR '':''"
abbreviation STAR :: char where "STAR \<equiv> CHR ''*''"
abbreviation NUL :: char where "NUL \<equiv> CHR 0x00"

abbreviation is_wild :: "char \<Rightarrow> bool" where
  "is_wild c \<equiv> c = COLON \<or> c = STAR"

text \<open>\<open>!strncmp(a, b, n)\<close> on strings of at least \<open>n\<close> bytes.\<close>

fun strncmp_eq :: "nat \<Rightarrow> string \<Rightarrow> string \<Rightarrow> bool" where
  "strncmp_eq 0 _ _ = True"
| "strncmp_eq (Suc n) (a # as) (b # bs) = (a = b \<and> (a = NUL \<or> strncmp_eq n as bs))"
| "strncmp_eq (Suc n) _ _ = False"

section \<open>Child order\<close>

text \<open>
  \<^verbatim>\<open>pgrest_rtree_child_priority\<close>: the first loop moves the child to the front of the
  children with a smaller priority, the second one moves its index byte.
\<close>

fun bubble_up :: "nat \<Rightarrow> 'h rtree_node list \<Rightarrow> nat \<times> 'h rtree_node list" where
  "bubble_up 0 cs = (0, cs)"
| "bubble_up (Suc n) cs =
     (if priority (info (cs ! n)) < priority (info (cs ! Suc n))
      then bubble_up n (cs[n := cs ! Suc n, Suc n := cs ! n])
      else (Suc n, cs))"

fun move_index :: "nat \<Rightarrow> nat \<Rightarrow> string \<Rightarrow> string" where
  "move_index new_pos 0 s = s"
| "move_index new_pos (Suc pos) s =
     (if new_pos < Suc pos then move_index new_pos pos (s[Suc pos := s ! pos]) else s)"

definition pgrest_rtree_child_priority :: "'h rtree_node \<Rightarrow> nat \<Rightarrow> (nat \<times> 'h rtree_node) run" where
  "pgrest_rtree_child_priority node pos =
     (if length (children node) \<le> pos then Inl OutOfBounds
      else
        let cs = (children node)[pos := bump (children node ! pos)];
            (new_pos, cs') = bubble_up pos cs;
            s = indices (info node)
        in if new_pos \<noteq> pos then
             if length s \<le> pos then Inl OutOfBounds
             else Inr (new_pos,
                    RNode ((info node)\<lparr>indices := (move_index new_pos pos s)[new_pos := s ! pos]\<rparr>) cs')
           else Inr (new_pos, RNode (info node) cs'))"

section \<open>Inserting below a node\<close>

definition sub_path :: "string \<Rightarrow> nat \<Rightarrow> nat \<Rightarrow> string" where
  "sub_path s i j = take (j - i) (drop i s)"

text \<open>The inner loop: the end of the wildcard that starts before \<open>e\<close>, None when a second
  wildcard stands in the segment.\<close>

function wildcard_end :: "string \<Rightarrow> nat \<Rightarrow> nat option" where
  "wildcard_end path e =
     (if e < length path \<and> path ! e \<noteq> SLASH
      then if is_wild (path ! e) then None else wildcard_end path (e + 1)
      else Some e)"
  by pat_completeness auto
termination by (relation "measure (\<lambda>(path, e). length path - e)") auto

declare wildcard_end.simps [simp del]

text \<open>
  The outer loop of \<^verbatim>\<open>pgrest_rtree_child_insert\<close> from index \<open>i\<close> on. \<open>node\<close> is the node the
  source's variable points at; \<open>prev\<close> is the byte in front of \<open>path\<close>, None at the start of
  the pattern.
\<close>

function child_insert_loop ::
  "'h rtree_node \<Rightarrow> int \<Rightarrow> string \<Rightarrow> nat \<Rightarrow> nat \<Rightarrow> char option \<Rightarrow> 'h option \<Rightarrow> (bool \<times> 'h rtree_node) run" where
  "child_insert_loop node num_params path i offset prev handler =
    (if num_params > 0 then
       if length path \<le> i then Inl OutOfBounds
       else if \<not> is_wild (path ! i)
       then child_insert_loop node num_params path (i + 1) offset prev handler
       else
         (case wildcard_end path (i + 1) of
            None \<Rightarrow> Inr (False, node)
          | Some e \<Rightarrow>
              if children node \<noteq> [] then Inr (False, node)
              else if e - i < 2 then Inr (False, node)
              else if path ! i = COLON then
                let node1 = (if i > 0 then upd_info (npath_update (\<lambda>_. sub_path path offset i)) node else node);
                    offset1 = (if i > 0 then i else offset);
                    child = INIT_NODE False PGREST_RTREE_NODE_PARAM num_params None 1;
                    up = (\<lambda>c. RNode ((info node1)\<lparr>wild_child := True\<rparr>) [c])
                in if e < length path then
                     (case child_insert_loop (RNode (INIT_NODE False PGREST_RTREE_NODE_STATIC (num_params - 1) None 1) [])
                             (num_params - 1) path (i + 1) e prev handler of
                        Inl u \<Rightarrow> Inl u
                      | Inr (ok, c) \<Rightarrow> Inr (ok, up (RNode (child\<lparr>npath := sub_path path offset1 e\<rparr>) [c])))
                   else
                     (case child_insert_loop (RNode child []) (num_params - 1) path (i + 1) offset1 prev handler of
                        Inl u \<Rightarrow> Inl u
                      | Inr (ok, c) \<Rightarrow> Inr (ok, up c))
              else if e \<noteq> length path \<or> num_params > 1 then Inr (False, node)
              else if npath (info node) \<noteq> [] \<and> last (npath (info node)) = SLASH then Inr (False, node)
              else
                (case (if i > 0 then Some (path ! (i - 1)) else prev) of
                   None \<Rightarrow> Inl OutOfBounds
                 | Some c \<Rightarrow>
                     if c \<noteq> SLASH then Inr (False, node)
                     else if i = 0 then Inl OutOfBounds
                     else
                       let leaf = RNode ((INIT_NODE False PGREST_RTREE_NODE_CATCHALL 1 handler 1)
                                     \<lparr>npath := sub_path path (i - 1) (length path)\<rparr>) [];
                           mid = RNode (INIT_NODE True PGREST_RTREE_NODE_CATCHALL 1 None 1) [leaf]
                       in Inr (True, RNode ((info node)\<lparr>npath := sub_path path offset (i - 1),
                                                       indices := [path ! (i - 1)]\<rparr>) [mid])))
     else Inr (True, upd_info (\<lambda>r. r\<lparr>npath := sub_path path offset (length path), nhandler := handler\<rparr>) node))"
  by pat_completeness auto
termination
  by (relation "measure (\<lambda>(node, np, path, i, off, prev, h). length path - i)") auto

declare child_insert_loop.simps [simp del]

definition pgrest_rtree_child_insert ::
  "'h rtree_node \<Rightarrow> int \<Rightarrow> string \<Rightarrow> char option \<Rightarrow> 'h option \<Rightarrow> (bool \<times> 'h rtree_node) run" where
  "pgrest_rtree_child_insert node num_params path prev handler =
     child_insert_loop node num_params path 0 0 prev handler"

section \<open>Adding a pattern\<close>

fun common_prefix :: "string \<Rightarrow> string \<Rightarrow> nat" where
  "common_prefix (a # as) (b # bs) = (if a = b then Suc (common_prefix as bs) else 0)"
| "common_prefix _ _ = 0"

text \<open>
  The split of a node whose path is longer than the common prefix: the rest of its path, its
  children and handler go to a new static child.
\<close>

definition split_node :: "'h rtree_node \<Rightarrow> string \<Rightarrow> nat \<Rightarrow> 'h rtree_node" where
  "split_node node path i =
     (let r = info node;
          child = RNode
            \<lparr>npath = drop i (npath r), wild_child = wild_child r, ntype = PGREST_RTREE_NODE_STATIC,
             max_params = foldl (\<lambda>m c. if max_params (info c) > m then max_params (info c) else m) 0 (children node),
             indices = indices r, nhandler = nhandler r, priority = priority r - 1\<rparr>
            (children node)
      in RNode (r\<lparr>npath := take i path, wild_child := False, indices := [npath r ! i], nhandler := None\<rparr>) [child])"

text \<open>The position of the first index byte that equals \<open>c\<close>.\<close>

fun find_index :: "char \<Rightarrow> string \<Rightarrow> nat option" where
  "find_index c [] = None"
| "find_index c (d # ds) = (if c = d then Some 0 else map_option Suc (find_index c ds))"

definition raise_max :: "int \<Rightarrow> 'h rtree_node \<Rightarrow> 'h rtree_node" where
  "raise_max m n = upd_info (max_params_update (\<lambda>x. if m > x then m else x)) n"

text \<open>The first half of a round of the loop: raise \<open>max_params\<close>, and split if needed.\<close>

definition split_round :: "int \<Rightarrow> 'h rtree_node \<Rightarrow> string \<Rightarrow> 'h rtree_node" where
  "split_round num_params node path =
     (let i = common_prefix path (npath (info node)); node1 = raise_max num_params node in
      if i < length (npath (info node)) then split_node node1 path i else node1)"

text \<open>Continue the walk at child \<open>j\<close> with \<open>f\<close> and put the result back.\<close>

definition at_child ::
  "'h rtree_node \<Rightarrow> nat \<Rightarrow> (bool \<times> 'h rtree_node) run \<Rightarrow> (bool \<times> 'h rtree_node) run" where
  "at_child node j res =
     (case res of Inl u \<Rightarrow> Inl u
      | Inr (ok, c) \<Rightarrow> Inr (ok, RNode (info node) ((children node)[j := c])))"

fun node_count :: "'h rtree_node \<Rightarrow> nat" where
  "node_count (RNode r cs) = Suc (sum_list (map node_count cs))"

lemma node_count_info [simp]: "node_count (RNode r (children n)) = node_count n"
  by (cases n) simp

lemma node_count_unfold: "node_count n = Suc (sum_list (map node_count (children n)))"
  by (cases n) simp

declare node_count.simps [simp del]

lemma node_count_child: "j < length cs \<Longrightarrow> node_count (cs ! j) \<le> sum_list (map node_count cs)"
  by (metis elem_le_sum_list length_map nth_map)

lemma length_bubble_up [simp]: "length (snd (bubble_up n cs)) = length cs"
  by (induction n cs rule: bubble_up.induct) auto

lemma bubble_up_mset: "n < length cs \<Longrightarrow> mset (snd (bubble_up n cs)) = mset cs"
  by (induction n cs rule: bubble_up.induct) (auto simp: mset_swap)

lemma sum_update_same: "j < length cs \<Longrightarrow> f x = f (cs ! j) \<Longrightarrow> sum_list (map f (cs[j := x])) = sum_list (map f cs)"
  for f :: "'a \<Rightarrow> nat"
  by (metis list_update_id map_update)

lemma sum_list_mset: "mset xs = mset ys \<Longrightarrow> sum_list (map f xs) = sum_list (map f ys)"
  for f :: "'a \<Rightarrow> nat"
  by (metis mset_map sum_mset_sum_list)

lemma child_priority_count:
  assumes "pgrest_rtree_child_priority node j = Inr (j', node')"
  shows "node_count node' = node_count node" "length (children node') = length (children node)"
    "ntype (info node') = ntype (info node)"
proof -
  let ?cs = "(children node)[j := bump (children node ! j)]"
  have j: "j < length (children node)" using assms by (auto simp: pgrest_rtree_child_priority_def split: if_splits)
  have "sum_list (map node_count (snd (bubble_up j ?cs))) = sum_list (map node_count ?cs)"
    using bubble_up_mset [of j ?cs] j by (intro sum_list_mset) simp
  also have "\<dots> = sum_list (map node_count (children node))" using j by (intro sum_update_same) auto
  finally have "sum_list (map node_count (snd (bubble_up j ?cs))) = sum_list (map node_count (children node))" .
  moreover have "children node' = snd (bubble_up j ?cs)" "ntype (info node') = ntype (info node)"
    using assms by (auto simp: pgrest_rtree_child_priority_def Let_def split: if_splits prod.splits)
  ultimately show "node_count node' = node_count node" "length (children node') = length (children node)"
    "ntype (info node') = ntype (info node)"
    by (simp_all add: node_count_unfold [of node] node_count_unfold [of node'])
qed

text \<open>No child of the node continues the pattern: a new static child, or a wildcard below the node.\<close>

definition add_child ::
  "'h rtree_node \<Rightarrow> int \<Rightarrow> string \<Rightarrow> char option \<Rightarrow> 'h option \<Rightarrow> (bool \<times> 'h rtree_node) run" where
  "add_child node num_params path prev handler =
     (if \<not> is_wild (hd path) then
        let child = RNode (INIT_NODE False PGREST_RTREE_NODE_STATIC num_params None 0) [];
            node3 = RNode ((info node)\<lparr>indices := indices (info node) @ [hd path]\<rparr>) (children node @ [child])
        in (case pgrest_rtree_child_priority node3 (length (indices (info node3)) - 1) of
              Inl u \<Rightarrow> Inl u
            | Inr (j, node4) \<Rightarrow>
                at_child node4 j (pgrest_rtree_child_insert (children node4 ! j) num_params path prev handler))
      else pgrest_rtree_child_insert node num_params path prev handler)"

function (sequential) add_loop ::
  "'h rtree_node \<Rightarrow> string \<Rightarrow> int \<Rightarrow> char option \<Rightarrow> 'h option \<Rightarrow> (bool \<times> 'h rtree_node) run" where
  "add_loop node path num_params prev handler =
    (let i = common_prefix path (npath (info node));
         node2 = split_round num_params node path;
         rest = drop i path;
         prev' = (if i = 0 then prev else Some (path ! (i - 1)))
     in
     if i < length path then
       if wild_child (info node2) then
         (case children node2 of
            [] \<Rightarrow> Inl OutOfBounds
          | child # others \<Rightarrow>
              let c1 = raise_max num_params (bump child); p = npath (info c1) in
              if length rest \<ge> length p \<and> strncmp_eq (length p) p rest \<and>
                 (length p \<ge> length rest \<or> rest ! length p = SLASH)
              then at_child node2 0 (add_loop c1 rest (num_params - 1) prev' handler)
              else Inr (False, RNode (info node2) (c1 # others)))
       else if hd rest = SLASH \<and> length (children node2) = 1 \<and> ntype (info node2) = PGREST_RTREE_NODE_PARAM
       then at_child node2 0 (add_loop (bump (children node2 ! 0)) rest num_params prev' handler)
       else
         (case find_index (hd rest) (indices (info node2)) of
            Some j \<Rightarrow>
              (case pgrest_rtree_child_priority node2 j of
                 Inl u \<Rightarrow> Inl u
               | Inr (j', node3) \<Rightarrow>
                   if j' < length (children node3)
                   then at_child node3 j' (add_loop (children node3 ! j') rest num_params prev' handler)
                   else Inl OutOfBounds)
          | None \<Rightarrow> add_child node2 num_params rest prev' handler)
     else if nhandler (info node2) \<noteq> None then Inr (False, node2)
     else Inr (True, upd_info (nhandler_update (\<lambda>_. handler)) node2))"
  by pat_completeness auto


lemma node_count_raise [simp]: "node_count (raise_max m n) = node_count n"
  by (simp add: raise_max_def)

lemma raise_max_simps [simp]:
  "children (raise_max m n) = children n" "npath (info (raise_max m n)) = npath (info n)"
  "wild_child (info (raise_max m n)) = wild_child (info n)" "ntype (info (raise_max m n)) = ntype (info n)"
  "indices (info (raise_max m n)) = indices (info n)" "nhandler (info (raise_max m n)) = nhandler (info n)"
  by (simp_all add: raise_max_def)

lemma common_prefix_take:
  "take (common_prefix xs ys) xs = take (common_prefix xs ys) ys"
  "common_prefix xs ys \<le> length xs" "common_prefix xs ys \<le> length ys"
  by (induction xs ys rule: common_prefix.induct) auto

lemma common_prefix_differ:
  "common_prefix xs ys < length xs \<Longrightarrow> common_prefix xs ys < length ys \<Longrightarrow>
   xs ! common_prefix xs ys \<noteq> ys ! common_prefix xs ys"
  by (induction xs ys rule: common_prefix.induct) auto

lemma find_index_Some: "find_index c s = Some j \<Longrightarrow> j < length s \<and> s ! j = c"
  by (induction s arbitrary: j) (auto split: if_splits)

lemma find_index_None: "find_index c s = None \<longleftrightarrow> c \<notin> set s"
  by (induction s) auto

lemma split_node_simps [simp]:
  "ntype (info (split_node n path i)) = ntype (info n)" "\<not> wild_child (info (split_node n path i))"
  "length (children (split_node n path i)) = 1" "indices (info (split_node n path i)) = [npath (info n) ! i]"
  "npath (info (split_node n path i)) = take i path" "nhandler (info (split_node n path i)) = None"
  by (simp_all add: split_node_def Let_def)

lemma split_child:
  "ntype (info (children (split_node n path i) ! 0)) = PGREST_RTREE_NODE_STATIC"
  "node_count (children (split_node n path i) ! 0) = node_count n"
  by (simp_all add: split_node_def Let_def)

definition add_measure :: "'h rtree_node \<Rightarrow> nat" where
  "add_measure n = 2 * node_count n + (if ntype (info n) = PGREST_RTREE_NODE_PARAM then 1 else 0)"

lemma add_measure_child:
  "j < length (children n) \<Longrightarrow> node_count c = node_count (children n ! j) \<Longrightarrow> add_measure c < 2 * node_count n"
  using node_count_child [of j "children n"] by (simp add: add_measure_def node_count_unfold [of n])

lemma add_measure_bump: "add_measure (bump n) = add_measure n" "add_measure (raise_max m n) = add_measure n"
  by (simp_all add: add_measure_def)

lemma split_round_cases:
  "split_round np n path = raise_max np n \<or>
   split_round np n path = split_node (raise_max np n) path (common_prefix path (npath (info n))) \<and>
   common_prefix path (npath (info n)) < length (npath (info n))"
  by (simp add: split_round_def Let_def)

termination add_loop
proof (relation "measure (\<lambda>(node, path, np, prev, h). add_measure node)", goal_cases)
  case 1
  then show ?case by simp
next
  case (2 node path np prev h i node2 rest prev' c cs c1 p)
  then have n2: "split_round np node path = raise_max np node" using split_round_cases [of np node path] by auto
  with 2 have "children node = c # cs" "c1 = raise_max np (bump c)" by auto
  then have "add_measure c1 < 2 * node_count node"
    by (intro add_measure_child [of 0]) auto
  then show ?case by (simp add: add_measure_def)
next
  case (3 node path np prev h i node2 rest prev')
  show ?case
  proof (cases "split_round np node path = raise_max np node")
    case False
    with 3 have "node2 = split_node (raise_max np node) path i" "ntype (info node) = PGREST_RTREE_NODE_PARAM"
      using split_round_cases [of np node path] by auto
    with split_child [of "raise_max np node" path i] show ?thesis using 3 by (simp add: add_measure_def)
  next
    case True
    with 3 have "add_measure (bump (children node2 ! 0)) < 2 * node_count node"
      by (intro add_measure_child [of 0]) auto
    then show ?thesis by (simp add: add_measure_def)
  qed
next
  case (4 node path np prev h i node2 rest prev' j u j' node3)
  have f: "j < length (indices (info node2)) \<and> indices (info node2) ! j = hd rest"
    using 4 by (intro find_index_Some) auto
  have "split_round np node path = raise_max np node"
  proof (rule ccontr)
    assume "split_round np node path \<noteq> raise_max np node"
    with 4 have n: "node2 = split_node (raise_max np node) path i" "i < length (npath (info node))"
      using split_round_cases [of np node path] by auto
    then have "hd rest = npath (info node) ! i" using f by auto
    then show False using common_prefix_differ [of path "npath (info node)"] n 4
      by (simp add: hd_drop_conv_nth)
  qed
  with 4 have c: "pgrest_rtree_child_priority (raise_max np node) j = Inr (j', node3)" by simp
  have "add_measure (children node3 ! j') < 2 * node_count node3"
    using 4 by (intro add_measure_child [of j']) auto
  with child_priority_count [OF c] show ?case using 4 by (simp add: add_measure_def)
qed

declare add_loop.simps [simp del]

definition pgrest_rtree_add ::
  "'h rtree_node \<Rightarrow> string \<Rightarrow> 'h option \<Rightarrow> (bool \<times> 'h rtree_node) run" where
  "pgrest_rtree_add node path handler =
     (let num_params = int (pgrest_count_params path); node1 = bump node in
      if npath (info node1) = [] \<and> children node1 = []
      then pgrest_rtree_child_insert (upd_info (ntype_update (\<lambda>_. PGREST_RTREE_NODE_ROOT)) node1) num_params path None handler
      else add_loop node1 path num_params None handler)"

section \<open>Looking up a request path\<close>

text \<open>A \<^verbatim>\<open>pgrest_param_t\<close> the lookup fills: the bytes its key and its value point at.\<close>

type_synonym rtree_param = "string \<times> string"

text \<open>
  The result is None for \<open>false\<close> and the handler stored to \<open>*handler\<close> for \<open>true\<close>, with
  the parameters written so far (\<open>*num_params\<close> is their number).
\<close>

function (sequential) find_loop ::
  "'h rtree_node \<Rightarrow> string \<Rightarrow> nat \<Rightarrow> rtree_param list \<Rightarrow> ('h option option \<times> rtree_param list) run" where
  "find_loop node path maxp params =
    (let p = npath (info node); cs = children node in
     if length path > length p then
       if strncmp_eq (length p) path p then
         let path1 = drop (length p) path in
         if \<not> wild_child (info node) then
           (case find_index (path1 ! 0) (indices (info node)) of
              Some i \<Rightarrow> if i < length cs then find_loop (cs ! i) path1 maxp params else Inl OutOfBounds
            | None \<Rightarrow> Inr (None, params))
         else if length params = maxp then Inr (None, params)
         else if cs = [] then Inl OutOfBounds
         else
           let child = info (cs ! 0) in
           (case ntype child of
              PGREST_RTREE_NODE_CATCHALL \<Rightarrow>
                Inr (Some (nhandler child),
                     params @ [(drop 2 (npath child), path1)])
            | PGREST_RTREE_NODE_PARAM \<Rightarrow>
                let e = length (takeWhile (\<lambda>c. c \<noteq> SLASH) path1);
                    params1 = params @ [(drop 1 (npath child), take e path1)]
                in if e < length path1 then
                     if length (children (cs ! 0)) > 0
                     then find_loop (children (cs ! 0) ! 0) (drop e path1) maxp params1
                     else Inr (None, params1)
                   else Inr (Some (nhandler child), params1)
            | _ \<Rightarrow> Inr (None, params))
       else Inr (None, params)
     else if length path = length p \<and> strncmp_eq (length path) path p then Inr (Some (nhandler (info node)), params)
     else Inr (None, params))"
  by pat_completeness auto
termination
proof (relation "measure (\<lambda>(node, path, m, ps). node_count node)", goal_cases)
  case 1
  then show ?case by simp
next
  case (2 node path m ps p cs path1 i)
  then show ?case using node_count_child [of i cs] by (simp add: node_count_unfold [of node])
next
  case (3 node path m ps p cs path1 child e params1)
  let ?c = "children node ! 0"
  have "node_count ?c < node_count node"
    using 3 node_count_child [of 0 "children node"] by (simp add: node_count_unfold [of node])
  moreover have "node_count (children ?c ! 0) < node_count ?c"
    using 3 node_count_child [of 0 "children ?c"] by (simp add: node_count_unfold [of ?c])
  ultimately show ?case using 3 by simp
qed

declare find_loop.simps [simp del]

definition pgrest_rtree_find ::
  "'h rtree_node \<Rightarrow> string \<Rightarrow> nat \<Rightarrow> ('h option option \<times> rtree_param list) run" where
  "pgrest_rtree_find node path num_params = find_loop node path num_params []"

text \<open>The calls of the walker, in order.\<close>

fun pgrest_rtree_walker :: "'h rtree_node \<Rightarrow> 'h option list" where
  "pgrest_rtree_walker (RNode r cs) = concat (map (\<lambda>c. nhandler (info c) # pgrest_rtree_walker c) cs)"

end
