(* ===== verification/Routing.thy ===== *)
theory Routing
  imports Rtree
begin

text \<open>
  What the router of \<^verbatim>\<open>src/pg_rest_rtree.c\<close> promises. A pattern is read as a list of
  tokens, matching a token list against a request path is a five-line function, and a tree
  stands for the set of its (token list, handler) pairs. The lookup is shown to return
  exactly the handler and the parameters of the pattern of that set that matches, and a
  successful add to insert exactly the new pattern into the set, through every split,
  reordering and wildcard branch; a failed add changes the nodes but not the set.
\<close>

section \<open>Patterns and matching\<close>

datatype tok = Lit char | Par string | All string

fun match :: "tok list \<Rightarrow> string \<Rightarrow> rtree_param list option" where
  "match [] p = (if p = [] then Some [] else None)"
| "match (Lit c # ts) p = (case p of [] \<Rightarrow> None | d # q \<Rightarrow> if c = d then match ts q else None)"
| "match (Par n # ts) p =
     (if p = [] then None
      else map_option (\<lambda>as. (n, takeWhile (\<lambda>c. c \<noteq> SLASH) p) # as) (match ts (dropWhile (\<lambda>c. c \<noteq> SLASH) p)))"
| "match (All n # ts) p = (if p \<noteq> [] \<and> hd p = SLASH then Some [(n, p)] else None)"

function parse_pattern :: "string \<Rightarrow> tok list" where
  "parse_pattern [] = []"
| "parse_pattern (c # cs) =
     (if c = COLON
      then Par (takeWhile (\<lambda>c. c \<noteq> SLASH) cs) # parse_pattern (dropWhile (\<lambda>c. c \<noteq> SLASH) cs)
      else if c = SLASH \<and> cs \<noteq> [] \<and> hd cs = STAR then [All (tl cs)]
      else Lit c # parse_pattern cs)"
  by pat_completeness auto
termination by (relation "measure length") (auto simp: le_imp_less_Suc length_dropWhile_le)

definition node_toks :: "'h node_info \<Rightarrow> tok list" where
  "node_toks r =
     (case ntype r of
        PGREST_RTREE_NODE_PARAM \<Rightarrow> [Par (drop 1 (npath r))]
      | PGREST_RTREE_NODE_CATCHALL \<Rightarrow> if wild_child r then [] else [All (drop 2 (npath r))]
      | _ \<Rightarrow> map Lit (npath r))"

definition prefixed :: "tok list \<Rightarrow> (tok list \<times> 'h) set \<Rightarrow> (tok list \<times> 'h) set" where
  "prefixed ts R = (\<lambda>(t, h). (ts @ t, h)) ` R"

fun routes :: "'h rtree_node \<Rightarrow> (tok list \<times> 'h) set" where
  "routes (RNode r cs) =
     {(node_toks r, h) | h. nhandler r = Some h} \<union> prefixed (node_toks r) (\<Union> (routes ` set cs))"

lemma prefixed_simps [simp]:
  "prefixed ts {} = {}" "prefixed [] R = R" "prefixed ts (R \<union> R') = prefixed ts R \<union> prefixed ts R'"
  "prefixed ts (prefixed ts' R) = prefixed (ts @ ts') R" "prefixed ts {(t, h)} = {(ts @ t, h)}"
  "prefixed ts (insert (t, h) R) = insert (ts @ t, h) (prefixed ts R)"
  "(x, h) \<in> prefixed ts R \<longleftrightarrow> (\<exists>t. x = ts @ t \<and> (t, h) \<in> R)"
  by (auto simp: prefixed_def image_iff split: prod.splits)

section \<open>Well-formed trees\<close>

definition plain :: "string \<Rightarrow> bool" where
  "plain s \<longleftrightarrow> COLON \<notin> set s \<and> STAR \<notin> set s \<and> NUL \<notin> set s"

text \<open>Every pattern below the node begins with the byte \<open>ch\<close>.\<close>

definition starts :: "char \<Rightarrow> 'h rtree_node \<Rightarrow> bool" where
  "starts ch n \<longleftrightarrow>
     (let r = info n in
      ntype r = PGREST_RTREE_NODE_STATIC \<and> \<not> is_wild ch \<and>
        (if npath r = [] then \<not> wild_child r \<and> nhandler r = None \<and> set (indices r) \<subseteq> {ch}
         else hd (npath r) = ch)
      \<or> ntype r = PGREST_RTREE_NODE_CATCHALL \<and> wild_child r \<and> ch = SLASH)"

definition param_path :: "string \<Rightarrow> bool" where
  "param_path p \<longleftrightarrow> p \<noteq> [] \<and> hd p = COLON \<and> plain (tl p) \<and> SLASH \<notin> set (tl p)"

definition catch_path :: "string \<Rightarrow> bool" where
  "catch_path p \<longleftrightarrow> (\<exists>name. p = SLASH # STAR # name \<and> plain name \<and> SLASH \<notin> set name)"

definition node_ok :: "'h node_info \<Rightarrow> 'h rtree_node list \<Rightarrow> bool" where
  "node_ok r cs \<longleftrightarrow>
     (case ntype r of
        PGREST_RTREE_NODE_PARAM \<Rightarrow>
          \<not> wild_child r \<and> param_path (npath r) \<and> (cs = [] \<and> indices r = [] \<or> (\<exists>c. cs = [c] \<and> starts SLASH c))
      | PGREST_RTREE_NODE_CATCHALL \<Rightarrow>
          if wild_child r
          then npath r = [] \<and> nhandler r = None \<and>
               (\<exists>c. cs = [c] \<and> ntype (info c) = PGREST_RTREE_NODE_CATCHALL \<and> \<not> wild_child (info c))
          else catch_path (npath r) \<and> cs = []
      | _ \<Rightarrow>
          plain (npath r) \<and>
          (if wild_child r then \<exists>c. cs = [c] \<and> ntype (info c) = PGREST_RTREE_NODE_PARAM
           else length (indices r) = length cs \<and> distinct (indices r) \<and>
                (\<forall>i < length cs. starts (indices r ! i) (cs ! i))))"

fun wf_node :: "'h rtree_node \<Rightarrow> bool" where
  "wf_node (RNode r cs) \<longleftrightarrow> node_ok r cs \<and> (\<forall>c \<in> set cs. wf_node c)"

lemma wf_node_unfold: "wf_node n \<longleftrightarrow> node_ok (info n) (children n) \<and> (\<forall>c \<in> set (children n). wf_node c)"
  by (cases n) simp

lemma routes_unfold:
  "routes n = {(node_toks (info n), h) | h. nhandler (info n) = Some h}
     \<union> prefixed (node_toks (info n)) (\<Union> (routes ` set (children n)))"
  by (cases n) simp

section \<open>The lookup\<close>

lemma strncmp_eq_take:
  "length p \<le> length q \<Longrightarrow> NUL \<notin> set p \<Longrightarrow> strncmp_eq (length p) p q \<longleftrightarrow> take (length p) q = p"
proof (induction p arbitrary: q)
  case Nil
  then show ?case by simp
next
  case (Cons a p)
  then show ?case by (cases q) auto
qed

lemma strncmp_eq_sym: "strncmp_eq n p q = strncmp_eq n q p"
  by (induction n p q rule: strncmp_eq.induct) (auto simp: neq_Nil_conv elim: strncmp_eq.elims)

lemma match_lits: "match (map Lit p @ ts) q = (if take (length p) q = p then match ts (drop (length p) q) else None)"
  by (induction p arbitrary: q) (auto split: list.splits)

text \<open>The parts of the invariant, by the kind of the node.\<close>

definition static_node :: "'h rtree_node \<Rightarrow> bool" where
  "static_node n \<longleftrightarrow> wf_node n \<and>
     (ntype (info n) = PGREST_RTREE_NODE_STATIC \<or> ntype (info n) = PGREST_RTREE_NODE_ROOT \<or> wild_child (info n))"

lemma static_children:
  assumes "static_node n" "\<not> wild_child (info n)"
  shows "length (indices (info n)) = length (children n)" "distinct (indices (info n))"
    "i < length (children n) \<Longrightarrow> starts (indices (info n) ! i) (children n ! i)"
    "i < length (children n) \<Longrightarrow> wf_node (children n ! i)"
  using assms by (cases n; auto simp: static_node_def node_ok_def)+

lemma wild_node_child:
  assumes "static_node n" "wild_child (info n)"
  obtains c where "children n = [c]" "wf_node c"
    "ntype (info c) = PGREST_RTREE_NODE_PARAM \<and> ntype (info n) \<noteq> PGREST_RTREE_NODE_CATCHALL \<or>
     ntype (info c) = PGREST_RTREE_NODE_CATCHALL \<and> ntype (info n) = PGREST_RTREE_NODE_CATCHALL \<and> \<not> wild_child (info c)"
proof -
  obtain r cs where n: "n = RNode r cs" by (cases n)
  have "ntype r \<noteq> PGREST_RTREE_NODE_PARAM" using assms by (auto simp: n node_ok_def static_node_def)
  then show ?thesis using assms that
    by (cases "ntype r") (auto simp: n node_ok_def static_node_def)
qed

lemma param_children:
  assumes "wf_node n" "ntype (info n) = PGREST_RTREE_NODE_PARAM"
  shows "\<not> wild_child (info n)" "param_path (npath (info n))"
    "children n = [] \<and> indices (info n) = [] \<or> (\<exists>c. children n = [c] \<and> starts SLASH c \<and> wf_node c)"
  using assms by (cases n; auto simp: node_ok_def)+

lemma catchall_leaf:
  assumes "wf_node n" "ntype (info n) = PGREST_RTREE_NODE_CATCHALL" "\<not> wild_child (info n)"
  shows "children n = []" "catch_path (npath (info n))"
  using assms by (cases n; auto simp: node_ok_def)+

lemma match_starts:
  assumes "wf_node n" "starts ch n" "(ts, h) \<in> routes n" "match ts p \<noteq> None"
  shows "p \<noteq> [] \<and> hd p = ch"
  using assms
proof (induction n arbitrary: ts)
  case (RNode r cs)
  show ?case
  proof (cases "ntype r = PGREST_RTREE_NODE_CATCHALL")
    case True
    with RNode.prems obtain c where c: "cs = [c]" "ntype (info c) = PGREST_RTREE_NODE_CATCHALL"
        "\<not> wild_child (info c)" "nhandler r = None" "node_toks r = []" "ch = SLASH" "wf_node c"
      by (auto simp: starts_def node_ok_def node_toks_def Let_def)
    then have "children c = []" by (auto simp: wf_node_unfold [of c] node_ok_def)
    then have "ts = [All (drop 2 (npath (info c)))]"
      using RNode.prems(3) c by (auto simp: routes_unfold [of c] node_toks_def)
    with RNode.prems(4) c show ?thesis by (auto split: if_splits)
  next
    case False
    then have s: "ntype r = PGREST_RTREE_NODE_STATIC" using RNode.prems(2) by (simp add: starts_def Let_def)
    show ?thesis
    proof (cases "npath r")
      case Nil
      with s RNode.prems(2) have e: "\<not> wild_child r" "nhandler r = None" "set (indices r) \<subseteq> {ch}" "node_toks r = []"
        by (auto simp: starts_def Let_def node_toks_def)
      with RNode.prems(3) obtain c where c: "c \<in> set cs" "(ts, h) \<in> routes c" by auto
      then obtain i where i: "i < length cs" "c = cs ! i" by (metis in_set_conv_nth)
      with RNode.prems(1) s e have "starts (indices r ! i) c" "length (indices r) = length cs"
        by (auto simp: node_ok_def)
      moreover have "indices r ! i = ch" using e i calculation(2) by (metis nth_mem singletonD subsetD)
      ultimately show ?thesis using RNode.IH [of c ts] c RNode.prems by simp
    next
      case (Cons a p')
      with s RNode.prems(2) have "a = ch" by (simp add: starts_def Let_def)
      with RNode.prems(3) s Cons obtain t where "ts = Lit ch # t" by (auto simp: node_toks_def)
      with RNode.prems(4) show ?thesis by (auto split: list.splits if_splits)
    qed
  qed
qed

text \<open>
  The state of the lookup loop at a node: the node is one at which the loop can stand, and
  at the empty first node of a catch-all the path begins with a slash.
\<close>

definition find_at :: "'h rtree_node \<Rightarrow> string \<Rightarrow> bool" where
  "find_at n path \<longleftrightarrow> wf_node n \<and>
     (case ntype (info n) of
        PGREST_RTREE_NODE_PARAM \<Rightarrow> False
      | PGREST_RTREE_NODE_CATCHALL \<Rightarrow> wild_child (info n) \<and> path \<noteq> [] \<and> hd path = SLASH
      | _ \<Rightarrow> True)"

lemma find_at_static: "find_at n path \<Longrightarrow> static_node n"
  by (auto simp: find_at_def static_node_def split: rtree_nodetype.splits)

lemma find_at_starts: "wf_node n \<Longrightarrow> starts ch n \<Longrightarrow> path \<noteq> [] \<Longrightarrow> hd path = ch \<Longrightarrow> find_at n path"
  by (auto simp: find_at_def starts_def Let_def split: rtree_nodetype.splits)

lemma find_at_lits:
  assumes "find_at n path"
  shows "node_toks (info n) = map Lit (npath (info n))" "NUL \<notin> set (npath (info n))"
  using assms by (auto simp: find_at_def node_toks_def wf_node_unfold [of n] node_ok_def plain_def
      split: rtree_nodetype.splits)

definition found :: "'h rtree_node \<Rightarrow> string \<Rightarrow> nat \<Rightarrow> rtree_param list \<Rightarrow> 'h \<Rightarrow> rtree_param list \<Rightarrow> bool" where
  "found n path m ps h qs \<longleftrightarrow>
     (\<exists>ts as. (ts, h) \<in> routes n \<and> match ts path = Some as \<and> qs = ps @ as \<and> length qs \<le> m)"

definition find_ok :: "'h rtree_node \<Rightarrow> string \<Rightarrow> nat \<Rightarrow> rtree_param list \<Rightarrow> bool" where
  "find_ok n path m ps \<longleftrightarrow>
     (\<exists>r qs. find_loop n path m ps = Inr (r, qs)) \<and>
     (\<forall>h qs. find_loop n path m ps = Inr (Some (Some h), qs) \<longleftrightarrow> found n path m ps h qs)"

lemma routes_iff:
  "(ts, h) \<in> routes n \<longleftrightarrow>
     (\<exists>t. ts = node_toks (info n) @ t \<and>
        (t = [] \<and> nhandler (info n) = Some h \<or> (\<exists>c \<in> set (children n). (t, h) \<in> routes c)))"
  by (auto simp: routes_unfold [of n])

lemma found_unfold:
  "found n path m ps h qs \<longleftrightarrow>
     (\<exists>t as. (t = [] \<and> nhandler (info n) = Some h \<or> (\<exists>c \<in> set (children n). (t, h) \<in> routes c)) \<and>
        match (node_toks (info n) @ t) path = Some as \<and> qs = ps @ as \<and> length qs \<le> m)"
  unfolding found_def routes_iff [of _ h n] by (simp only: ex_simps [symmetric]) auto

lemma found_below:
  assumes "find_at n path" "length (npath (info n)) < length path" "take (length (npath (info n))) path = npath (info n)"
  shows "found n path m ps h qs \<longleftrightarrow>
    (\<exists>c \<in> set (children n). found c (drop (length (npath (info n))) path) m ps h qs)"
  using assms find_at_lits [OF assms(1)]
  by (simp add: found_unfold [of n] match_lits) (auto simp: found_def)

lemma not_found:
  assumes "find_at n path" "take (length (npath (info n))) path \<noteq> npath (info n)"
  shows "\<not> found n path m ps h qs"
  using assms find_at_lits [OF assms(1)] by (simp add: found_unfold [of n] match_lits)

lemma found_end:
  assumes "find_at n path" "path = npath (info n)" "length ps \<le> m"
  shows "found n path m ps h qs \<longleftrightarrow> nhandler (info n) = Some h \<and> qs = ps"
proof -
  have "match t [] = None" if tc: "(t, h) \<in> routes c" "c \<in> set (children n)" for t c
  proof (cases "wild_child (info n)")
    case True
    with tc(2) have "ntype (info c) = PGREST_RTREE_NODE_PARAM"
      using assms(1,2) by (auto simp: find_at_def wf_node_unfold [of n] node_ok_def
          split: rtree_nodetype.splits)
    then obtain p t' where "t = Par p # t'" using tc(1) by (auto simp: node_toks_def routes_iff [of _ _ c])
    then show ?thesis by simp
  next
    case False
    obtain i where i: "i < length (children n)" "c = children n ! i" using tc(2) by (metis in_set_conv_nth)
    have "starts (indices (info n) ! i) c" "wf_node c"
      using static_children(3,4) [OF find_at_static [OF assms(1)] False i(1)] i(2) by simp_all
    from match_starts [OF this(2,1) tc(1), of "[]"] show ?thesis by (cases "match t []") auto
  qed
  then show ?thesis
    using assms find_at_lits [OF assms(1)] by (auto simp: found_unfold [of n] match_lits)
qed

lemma found_param:
  assumes "wf_node c" "ntype (info c) = PGREST_RTREE_NODE_PARAM" "path \<noteq> []"
  defines "v \<equiv> takeWhile (\<lambda>c. c \<noteq> SLASH) path" and "rest \<equiv> dropWhile (\<lambda>c. c \<noteq> SLASH) path"
    and "p \<equiv> drop 1 (npath (info c))"
  shows "found c path m ps h qs \<longleftrightarrow>
    (if rest = [] then nhandler (info c) = Some h \<and> qs = ps @ [(p, v)] \<and> length ps < m
     else \<exists>d \<in> set (children c). found d rest m (ps @ [(p, v)]) h qs)"
proof -
  have t: "node_toks (info c) = [Par p]" using assms by (simp add: node_toks_def)
  have nil: "match t [] = None" if "(t, h) \<in> routes d" "d \<in> set (children c)" for t d
  proof -
    have "wf_node d" "starts SLASH d" using assms(1,2) that by (auto simp: wf_node_unfold [of c] node_ok_def)
    then show ?thesis using match_starts [of d SLASH t h "[]"] that(1) by blast
  qed
  have m: "match ([Par p] @ t) path = map_option (\<lambda>as. (p, v) # as) (match t rest)" for t
    using assms(3) by (simp add: v_def rest_def)
  show ?thesis
  proof (cases "rest = []")
    case True
    with nil show ?thesis unfolding found_unfold [of c] t m by auto
  next
    case False
    then show ?thesis unfolding found_unfold [of c] t m by (auto simp: found_def)
  qed
qed

text \<open>The comparison of the source, on a path at least as long as the node's.\<close>

lemma find_cmp:
  assumes "find_at n path" "length (npath (info n)) \<le> length path"
  shows "strncmp_eq (length (npath (info n))) path (npath (info n)) \<longleftrightarrow>
    take (length (npath (info n))) path = npath (info n)"
  using strncmp_eq_take [OF assms(2)] find_at_lits(2) [OF assms(1)] strncmp_eq_sym by blast

text \<open>The path goes on below a node without a wildcard child.\<close>

lemma child_by_index:
  assumes "static_node n" "\<not> wild_child (info n)" "c \<in> set (children n)" "found c path m ps h qs"
  obtains k where "k < length (children n)" "c = children n ! k" "indices (info n) ! k = hd path"
proof -
  note ch = static_children [OF assms(1,2)]
  obtain ts as where t: "(ts, h) \<in> routes c" "match ts path = Some as" using assms(4) by (auto simp: found_def)
  obtain k where k: "k < length (children n)" "c = children n ! k" using assms(3) by (metis in_set_conv_nth)
  with match_starts [OF ch(4) ch(3) _, of k ts h path] t have "hd path = indices (info n) ! k" by auto
  with k that show ?thesis by simp
qed

lemma find_static:
  assumes at: "find_at n path" "\<not> wild_child (info n)"
    and below: "length (npath (info n)) < length path" "take (length (npath (info n))) path = npath (info n)"
  defines "path1 \<equiv> drop (length (npath (info n))) path"
  assumes rec: "\<And>i. i < length (children n) \<Longrightarrow> find_index (path1 ! 0) (indices (info n)) = Some i \<Longrightarrow>
    find_at (children n ! i) path1 \<Longrightarrow> find_ok (children n ! i) path1 m ps"
  shows "find_ok n path m ps"
proof -
  let ?cs = "children n"
  have path1: "path1 \<noteq> []" "path1 ! 0 = hd path1" using below by (auto simp: path1_def hd_conv_nth)
  note ch = static_children [OF find_at_static [OF at(1)] at(2)]
  have fb: "found n path m ps h qs \<longleftrightarrow> (\<exists>c \<in> set ?cs. found c path1 m ps h qs)" for h qs
    using found_below [OF at(1) below] by (simp add: path1_def)
  note cmp = find_cmp [OF at(1)]
  show ?thesis
  proof (cases "find_index (path1 ! 0) (indices (info n))")
    case None
    then have "find_loop n path m ps = Inr (None, ps)"
      using below at(2) cmp by (subst find_loop.simps) (simp add: Let_def path1_def)
    moreover have "\<not> found c path1 m ps h qs" if "c \<in> set ?cs" for c h qs
      using child_by_index [OF find_at_static [OF at(1)] at(2) that] None ch(1) path1(2)
      by (metis find_index_None nth_mem)
    ultimately show ?thesis by (simp add: find_ok_def fb)
  next
    case (Some i)
    then have i: "i < length ?cs" "indices (info n) ! i = hd path1"
      using find_index_Some [OF Some] ch(1) path1(2) by auto
    have eq: "find_loop n path m ps = find_loop (?cs ! i) path1 m ps"
      using below at(2) cmp Some i(1) by (subst find_loop.simps) (simp add: Let_def path1_def)
    have "find_at (?cs ! i) path1" using find_at_starts ch(3,4) i path1(1) by metis
    then have IH: "find_ok (?cs ! i) path1 m ps" by (rule rec [OF i(1) Some])
    have "c = ?cs ! i" if "c \<in> set ?cs" "found c path1 m ps h qs" for c h qs
      using child_by_index [OF find_at_static [OF at(1)] at(2) that] i ch(1,2) by (metis nth_eq_iff_index_eq)
    then have "found n path m ps h qs \<longleftrightarrow> found (?cs ! i) path1 m ps h qs" for h qs
      using fb i(1) nth_mem by blast
    then show ?thesis using IH eq by (simp add: find_ok_def)
  qed
qed

text \<open>The path goes on at a wildcard child.\<close>

lemma find_wild_full:
  assumes at: "find_at n path" "wild_child (info n)" "children n = [c]"
    and below: "length (npath (info n)) < length path" "take (length (npath (info n))) path = npath (info n)"
    and c: "ntype (info c) = PGREST_RTREE_NODE_PARAM \<or> ntype (info c) = PGREST_RTREE_NODE_CATCHALL \<and> \<not> wild_child (info c)"
    and full: "length ps = m"
  shows "find_ok n path m ps"
proof -
  have "find_loop n path m ps = Inr (None, ps)"
    using below at(2) full find_cmp [OF at(1)] by (subst find_loop.simps) (simp add: Let_def)
  moreover have "\<not> found c path1 m ps h qs" for h qs path1
    using c full by (auto simp: found_unfold [of c] node_toks_def split: if_splits)
  ultimately show ?thesis using found_below [OF at(1) below] at(3) by (simp add: find_ok_def)
qed

lemma find_catchall:
  assumes at: "find_at n path" "wild_child (info n)" "children n = [c]" "wf_node c" "length ps < m"
    and below: "length (npath (info n)) < length path" "take (length (npath (info n))) path = npath (info n)"
    and ca: "ntype (info n) = PGREST_RTREE_NODE_CATCHALL" "ntype (info c) = PGREST_RTREE_NODE_CATCHALL" "\<not> wild_child (info c)"
  shows "find_ok n path m ps"
proof -
  have p: "npath (info n) = []" "path \<noteq> []" "hd path = SLASH"
    using at(1,2) ca(1) by (auto simp: find_at_def wf_node_unfold [of n] node_ok_def)
  have "find_loop n path m ps = Inr (Some (nhandler (info c)), ps @ [(drop 2 (npath (info c)), path)])"
    using below at p(1) ca find_cmp [OF at(1)] by (subst find_loop.simps) (simp add: Let_def)
  moreover have "found n path m ps h qs \<longleftrightarrow> found c path m ps h qs" for h qs
    using found_below [OF at(1) below] at(3) p(1) by simp
  ultimately show ?thesis
    using ca p catchall_leaf [OF at(4) ca(2,3)] at(5)
    by (auto simp: find_ok_def found_unfold [of c] node_toks_def)
qed

lemma find_param:
  assumes at: "find_at n path" "wild_child (info n)" "children n = [c]" "wf_node c" "length ps < m"
    and below: "length (npath (info n)) < length path" "take (length (npath (info n))) path = npath (info n)"
    and pa: "ntype (info c) = PGREST_RTREE_NODE_PARAM"
  defines "path1 \<equiv> drop (length (npath (info n))) path"
  defines "e \<equiv> length (takeWhile (\<lambda>x. x \<noteq> SLASH) path1)"
  defines "ps1 \<equiv> ps @ [(drop 1 (npath (info c)), take e path1)]"
  assumes rec: "e < length path1 \<Longrightarrow> children c \<noteq> [] \<Longrightarrow> find_at (children c ! 0) (drop e path1) \<Longrightarrow>
    find_ok (children c ! 0) (drop e path1) m ps1"
  shows "find_ok n path m ps"
proof -
  have p1: "path1 \<noteq> []" using below by (simp add: path1_def)
  have fc: "found n path m ps h qs \<longleftrightarrow> found c path1 m ps h qs" for h qs
    using found_below [OF at(1) below] at(3) by (simp add: path1_def)
  have e: "take e path1 = takeWhile (\<lambda>x. x \<noteq> SLASH) path1" "drop e path1 = dropWhile (\<lambda>x. x \<noteq> SLASH) path1"
    unfolding e_def by (fact takeWhile_eq_take [symmetric] dropWhile_eq_drop [symmetric])+
  note fp = found_param [OF at(4) pa p1, of m ps, folded e, folded ps1_def]
  have eq: "find_loop n path m ps =
      (if e < length path1 then
         if length (children c) > 0 then find_loop (children c ! 0) (drop e path1) m ps1 else Inr (None, ps1)
       else Inr (Some (nhandler (info c)), ps1))"
    using below at pa find_cmp [OF at(1)] by (subst find_loop.simps) (simp add: Let_def path1_def e_def ps1_def)
  consider (last) "drop e path1 = []" "\<not> e < length path1" | (stuck) "e < length path1" "drop e path1 \<noteq> []" "children c = []"
    | (more) "e < length path1" "drop e path1 \<noteq> []" "children c \<noteq> []" by fastforce
  then show ?thesis
  proof cases
    case last
    then show ?thesis using eq fp at(5) by (auto simp: find_ok_def fc)
  next
    case stuck
    with eq fp show ?thesis by (simp add: find_ok_def fc)
  next
    case more
    then obtain d where d: "children c = [d]" "starts SLASH d" "wf_node d"
      using param_children [OF at(4) pa] by auto
    have "hd (drop e path1) = SLASH"
      using more(2) hd_dropWhile [of "\<lambda>x. x \<noteq> SLASH" path1] unfolding e by blast
    then have "find_at d (drop e path1)" using find_at_starts [OF d(3,2)] more(2) by blast
    then have "find_ok d (drop e path1) m ps1" using rec more d(1) by simp
    then show ?thesis using eq fp more d(1) by (auto simp: find_ok_def fc)
  qed
qed

lemma find_loop_ok:
  assumes "find_at n path" "length ps \<le> m"
  shows "find_ok n path m ps"
  using assms
proof (induction n path m ps rule: find_loop.induct)
  case (1 n path m ps)
  let ?p = "npath (info n)"
  note at = "1.prems"(1) and cmp = find_cmp [OF "1.prems"(1)]
  consider (below) "length ?p < length path" "take (length ?p) path = ?p"
    | (here) "path = ?p" | (no) "take (length ?p) path \<noteq> ?p"
    by (metis nat_less_le take_all_iff take_all length_take min.absorb_iff2 not_le)
  then show ?case
  proof cases
    case here
    then show ?thesis
      using found_end [OF at here "1.prems"(2)] cmp by (auto simp: find_ok_def find_loop.simps [of n])
  next
    case no
    have "find_loop n path m ps = Inr (None, ps)"
      using no cmp by (subst find_loop.simps) (auto simp: Let_def)
    then show ?thesis using not_found [OF at no] by (simp add: find_ok_def)
  next
    case below
    with cmp have cmp': "strncmp_eq (length ?p) path ?p" by simp
    show ?thesis
    proof (cases "wild_child (info n)")
      case False
      show ?thesis
        by (rule find_static [OF at False below])
          (rule "1.IH"(1) [OF refl refl below(1) cmp' refl False], use "1.prems"(2) in auto)
    next
      case True
      obtain c where c: "children n = [c]" "wf_node c"
          "ntype (info c) = PGREST_RTREE_NODE_PARAM \<and> ntype (info n) \<noteq> PGREST_RTREE_NODE_CATCHALL \<or>
           ntype (info c) = PGREST_RTREE_NODE_CATCHALL \<and> ntype (info n) = PGREST_RTREE_NODE_CATCHALL \<and>
           \<not> wild_child (info c)"
        using wild_node_child [OF find_at_static [OF at] True] by blast
      consider (full) "length ps = m" | (catchall) "length ps < m" "ntype (info c) = PGREST_RTREE_NODE_CATCHALL"
        | (param) "length ps < m" "ntype (info c) = PGREST_RTREE_NODE_PARAM"
        using "1.prems"(2) c(3) by linarith
      then show ?thesis
      proof cases
        case full
        show ?thesis by (rule find_wild_full [OF at True c(1) below _ full]) (use c(3) in blast)
      next
        case catchall
        with c(3) show ?thesis by (intro find_catchall [OF at True c(1,2) catchall(1) below]) auto
      next
        case param
        show ?thesis
          by (rule find_param [OF at True c(1,2) param(1) below param(2)])
            (use "1.IH"(2) [OF refl refl below(1) cmp' refl] True c(1) param in auto)
      qed
    qed
  qed
qed

end
