(* ===== verification/RoutingAdd.thy ===== *)
theory RoutingAdd
  imports Routing
begin

text \<open>
  The insertion half of the router: \<^verbatim>\<open>pgrest_rtree_child_priority\<close> permutes the children and
  the index bytes alike, \<^verbatim>\<open>pgrest_rtree_child_insert\<close> builds exactly the branch of the
  pattern, and \<^verbatim>\<open>pgrest_rtree_add\<close> adds it to the set of routes of the tree.
\<close>

section \<open>Reordering children\<close>

definition shifted :: "nat \<Rightarrow> nat \<Rightarrow> nat \<Rightarrow> nat" where
  "shifted new_pos pos i = (if i = new_pos then pos else if new_pos < i \<and> i \<le> pos then i - 1 else i)"

lemma bubble_up_shifted:
  "pos < length cs \<Longrightarrow> bubble_up pos cs = (q, cs') \<Longrightarrow>
     q \<le> pos \<and> length cs' = length cs \<and> (\<forall>i < length cs. cs' ! i = cs ! shifted q pos i)"
proof (induction pos cs rule: bubble_up.induct)
  case (1 cs)
  then show ?case by (auto simp: shifted_def)
next
  case (2 n cs)
  show ?case
  proof (cases "priority (info (cs ! n)) < priority (info (cs ! Suc n))")
    case True
    let ?cs = "cs[n := cs ! Suc n, Suc n := cs ! n]"
    have IH: "q \<le> n" "length cs' = length cs" "\<And>i. i < length cs \<Longrightarrow> cs' ! i = ?cs ! shifted q n i"
      using 2 True by auto
    have "?cs ! shifted q n i = cs ! shifted q (Suc n) i" if "i < length cs" for i
      using that "2.prems"(1) IH(1) by (auto simp: shifted_def nth_list_update not_le le_Suc_eq)
    with IH show ?thesis by simp
  next
    case False
    with 2 show ?thesis by (auto simp: shifted_def)
  qed
qed

lemma move_index_nth:
  "pos < length s \<Longrightarrow> length (move_index q pos s) = length s \<and>
     move_index q pos s ! i = (if q < i \<and> i \<le> pos then s ! (i - 1) else s ! i)"
  by (induction q pos s rule: move_index.induct) (auto simp: nth_list_update le_Suc_eq)

lemma shifted_bound: "pos < n \<Longrightarrow> q \<le> pos \<Longrightarrow> i < n \<Longrightarrow> shifted q pos i < n"
  by (auto simp: shifted_def)

lemma shifted_inj: "q \<le> pos \<Longrightarrow> shifted q pos i = shifted q pos j \<Longrightarrow> i = j"
  unfolding shifted_def by (simp split: if_splits; linarith)

lemma shifted_image: "q \<le> pos \<Longrightarrow> pos < n \<Longrightarrow> shifted q pos ` {..<n} = {..<n}"
proof (rule endo_inj_surj)
  assume "q \<le> pos" "pos < n"
  then show "shifted q pos ` {..<n} \<subseteq> {..<n}" using shifted_bound by blast
  show "inj_on (shifted q pos) {..<n}" using shifted_inj [OF \<open>q \<le> pos\<close>] by (rule inj_onI)
qed simp

lemma set_shifted:
  assumes "q \<le> pos" "pos < length ys" "length xs = length ys"
    "\<And>i. i < length ys \<Longrightarrow> xs ! i = ys ! shifted q pos i"
  shows "set xs = set ys"
proof -
  have "set xs = (!) xs ` {..<length ys}" using assms(3) by (auto simp: set_conv_nth)
  also have "\<dots> = (\<lambda>i. ys ! shifted q pos i) ` {..<length ys}" using assms(4) by (intro image_cong) auto
  also have "\<dots> = (!) ys ` (shifted q pos ` {..<length ys})" by (simp add: image_image)
  also have "\<dots> = set ys" using shifted_image [OF assms(1,2)] by (auto simp: set_conv_nth)
  finally show ?thesis .
qed

lemma child_priority_shifted:
  assumes "j < length (children n)" "length (indices (info n)) = length (children n)"
  obtains q n' where "pgrest_rtree_child_priority n j = Inr (q, n')" "q \<le> j"
    "length (children n') = length (children n)" "length (indices (info n')) = length (children n)"
    "info n' = (info n)\<lparr>indices := indices (info n')\<rparr>"
    "\<And>i. i < length (children n) \<Longrightarrow>
       indices (info n') ! i = indices (info n) ! shifted q j i \<and>
       children n' ! i = (children n)[j := bump (children n ! j)] ! shifted q j i"
proof -
  let ?cs = "(children n)[j := bump (children n ! j)]" and ?s = "indices (info n)"
  obtain q cs' where b: "bubble_up j ?cs = (q, cs')" by fastforce
  have q: "q \<le> j" "length cs' = length ?cs" "\<And>i. i < length ?cs \<Longrightarrow> cs' ! i = ?cs ! shifted q j i"
    using bubble_up_shifted [OF _ b] assms by auto
  define s' where "s' = (if q \<noteq> j then (move_index q j ?s)[q := ?s ! j] else ?s)"
  have js: "j < length ?s" using assms by simp
  have s': "length s' = length ?s" "\<And>i. i < length ?s \<Longrightarrow> s' ! i = ?s ! shifted q j i"
    using move_index_nth [OF js, of q] q(1) assms(1) by (auto simp: s'_def shifted_def nth_list_update)
  have "pgrest_rtree_child_priority n j = Inr (q, RNode ((info n)\<lparr>indices := s'\<rparr>) cs')"
    using assms b js by (auto simp: pgrest_rtree_child_priority_def s'_def Let_def)
  then show ?thesis using that [of q "RNode ((info n)\<lparr>indices := s'\<rparr>) cs'"] q s' assms by simp
qed

text \<open>The reordered node with the chosen child replaced.\<close>

lemma child_priority_replace:
  assumes "j < length (children n)" "length (indices (info n)) = length (children n)" "distinct (indices (info n))"
    "\<And>i. i < length (children n) \<Longrightarrow> i \<noteq> j \<Longrightarrow> starts (indices (info n) ! i) (children n ! i)"
  obtains q n' where "pgrest_rtree_child_priority n j = Inr (q, n')" "q < length (children n')"
    "children n' ! q = bump (children n ! j)" "info n' = (info n)\<lparr>indices := indices (info n')\<rparr>"
    "length (indices (info n')) = length (children n')" "distinct (indices (info n'))"
    "set (indices (info n')) = set (indices (info n))"
    "\<And>c. set ((children n')[q := c]) = set ((children n)[j := c])"
    "\<And>c i. starts (indices (info n) ! j) c \<Longrightarrow> i < length (children n') \<Longrightarrow>
       starts (indices (info n') ! i) ((children n')[q := c] ! i)"
proof -
  from child_priority_shifted [OF assms(1,2)] obtain q n' where
    p: "pgrest_rtree_child_priority n j = Inr (q, n')" "q \<le> j"
    "length (children n') = length (children n)" "length (indices (info n')) = length (children n)"
    "info n' = (info n)\<lparr>indices := indices (info n')\<rparr>"
    "\<And>i. i < length (children n) \<Longrightarrow>
       indices (info n') ! i = indices (info n) ! shifted q j i \<and>
       children n' ! i = (children n)[j := bump (children n ! j)] ! shifted q j i"
    by blast
  let ?n = "length (children n)"
  have inj: "shifted q j q = j" "\<And>i. i \<noteq> q \<Longrightarrow> shifted q j i \<noteq> j"
    using p(2) by (auto simp: shifted_def)
  have rep: "(children n')[q := c] ! i = (children n)[j := c] ! shifted q j i" if "i < ?n" for c i
    using that p(2,3) p(6) [OF that] inj(1) inj(2) [of i] assms(1) by (cases "i = q") simp_all
  show ?thesis
  proof (rule that [OF p(1) _ _ p(5)])
    show "q < length (children n')" "length (indices (info n')) = length (children n')"
      using p assms by simp_all
    show "children n' ! q = bump (children n ! j)" using p assms inj by simp
    show "distinct (indices (info n'))"
    proof (unfold distinct_conv_nth p(4), intro allI impI)
      fix i k
      assume ik: "i < ?n" "k < ?n" "i \<noteq> k"
      then have "shifted q j i \<noteq> shifted q j k" "shifted q j i < ?n" "shifted q j k < ?n"
        using shifted_inj [OF p(2)] shifted_bound [OF assms(1) p(2)] by blast+
      then show "indices (info n') ! i \<noteq> indices (info n') ! k"
        using p(6) [OF ik(1)] p(6) [OF ik(2)] assms(2,3) nth_eq_iff_index_eq by metis
    qed
    show "set (indices (info n')) = set (indices (info n))"
      by (rule set_shifted [OF p(2)]) (use p assms(1,2) in auto)
    show "set ((children n')[q := c]) = set ((children n)[j := c])" for c
      by (rule set_shifted [OF p(2)]) (use p(3) rep assms(1) in auto)
    show "starts (indices (info n') ! i) ((children n')[q := c] ! i)"
      if "starts (indices (info n) ! j) c" "i < length (children n')" for c i
    proof (cases "i = q")
      case True
      then show ?thesis using that p(2,3,6) inj assms(1) by simp
    next
      case False
      have "i < ?n" using that p(3) by simp
      moreover have "shifted q j i \<noteq> j" "shifted q j i < ?n"
        using inj(2) [OF False] shifted_bound p(2) assms(1) calculation by blast+
      ultimately show ?thesis using rep [of i c] p(6) [of i] assms(4) [of "shifted q j i"] by simp
    qed
  qed
qed

section \<open>Patterns\<close>

definition wilds :: "string \<Rightarrow> nat" where
  "wilds s = length (filter is_wild s)"

text \<open>Nothing follows the segment of a catch-all.\<close>

definition star_last :: "string \<Rightarrow> bool" where
  "star_last p \<longleftrightarrow> SLASH \<notin> set (dropWhile (\<lambda>c. c \<noteq> STAR) p)"

lemma wilds_simps [simp]:
  "wilds [] = 0" "wilds (c # s) = (if is_wild c then Suc (wilds s) else wilds s)" "wilds (s @ t) = wilds s + wilds t"
  by (simp_all add: wilds_def)

lemma wilds_plain: "plain s \<Longrightarrow> wilds s = 0"
  by (auto simp: wilds_def plain_def filter_empty_conv)

lemma wilds_0_plain: "wilds s = 0 \<Longrightarrow> NUL \<notin> set s \<Longrightarrow> plain s"
  by (auto simp: wilds_def plain_def filter_empty_conv)

lemma plain_simps [simp]:
  "plain []" "plain (c # s) \<longleftrightarrow> \<not> is_wild c \<and> c \<noteq> NUL \<and> plain s" "plain (s @ t) \<longleftrightarrow> plain s \<and> plain t"
  by (auto simp: plain_def)

lemma count_params_wilds: "wilds s < 255 \<Longrightarrow> pgrest_count_params s = wilds s"
  by (auto simp: pgrest_count_params_def wilds_def)

lemma parse_plain: "plain p \<Longrightarrow> r = [] \<or> hd r \<noteq> STAR \<Longrightarrow> parse_pattern (p @ r) = map Lit p @ parse_pattern r"
proof (induction p)
  case Nil
  then show ?case by simp
next
  case (Cons c p)
  then have "\<not> (p @ r \<noteq> [] \<and> hd (p @ r) = STAR)" by (cases p) auto
  with Cons show ?case by auto
qed

lemma parse_plain0: "plain p \<Longrightarrow> parse_pattern p = map Lit p"
  using parse_plain [of p "[]"] by simp

lemma parse_param:
  "SLASH \<notin> set name \<Longrightarrow> r = [] \<or> hd r = SLASH \<Longrightarrow>
     parse_pattern (COLON # name @ r) = Par name # parse_pattern r"
proof -
  assume a: "SLASH \<notin> set name" "r = [] \<or> hd r = SLASH"
  then have "dropWhile (\<lambda>c. c \<noteq> SLASH) (name @ r) = r" "takeWhile (\<lambda>c. c \<noteq> SLASH) (name @ r) = name"
    by (cases r; auto simp: dropWhile_append takeWhile_append dropWhile_eq_Nil_conv takeWhile_eq_all_conv)+
  then show ?thesis by simp
qed

lemma parse_catch:
  "plain p \<Longrightarrow> parse_pattern (p @ SLASH # STAR # name) = map Lit p @ [All name]"
  using parse_plain [of p "SLASH # STAR # name"] by simp

lemma star_last_append: "star_last (p @ q) \<Longrightarrow> star_last q"
  by (induction p) (auto simp: star_last_def split: if_splits dest: set_dropWhileD)

lemma star_last_after: "star_last (p @ STAR # q) \<Longrightarrow> SLASH \<notin> set q"
  using star_last_append [of p "STAR # q"] by (simp add: star_last_def)

section \<open>Inserting below a node\<close>

lemma wildcard_end_spec:
  assumes "k \<le> length path"
  shows "case wildcard_end path k of
      None \<Rightarrow> True
    | Some e \<Rightarrow> k \<le> e \<and> e \<le> length path \<and> wilds (sub_path path k e) = 0 \<and> SLASH \<notin> set (sub_path path k e) \<and>
        (e < length path \<longrightarrow> path ! e = SLASH)"
  using assms
proof (induction path k rule: wildcard_end.induct)
  case (1 path k)
  show ?case
  proof (cases "k < length path \<and> path ! k \<noteq> SLASH \<and> \<not> is_wild (path ! k)")
    case True
    then have "wildcard_end path k = wildcard_end path (k + 1)" by (subst wildcard_end.simps) simp
    moreover have "sub_path path k e = path ! k # sub_path path (k + 1) e" if "k + 1 \<le> e" for e
      using True that by (auto simp: sub_path_def Cons_nth_drop_Suc [symmetric] Suc_diff_le take_Cons')
    ultimately show ?thesis using 1 True by (auto split: option.splits)
  next
    case False
    then have "wildcard_end path k = None \<or> wildcard_end path k = Some k \<and> (k < length path \<longrightarrow> path ! k = SLASH)"
      by (subst (1 2) wildcard_end.simps) auto
    then show ?thesis using "1.prems" by (auto simp: sub_path_def)
  qed
qed

lemma child_insert_skip:
  assumes "i \<le> j" "j \<le> length path" "wilds (sub_path path i j) = 0"
  shows "child_insert_loop node np path i off prev h = child_insert_loop node np path j off prev h"
  using assms
proof (induction i rule: inc_induct)
  case base
  then show ?case by simp
next
  case (step i)
  have s: "sub_path path i j = path ! i # sub_path path (Suc i) j"
    using step by (auto simp: sub_path_def Cons_nth_drop_Suc [symmetric] Suc_diff_le take_Cons')
  then have w: "\<not> is_wild (path ! i)" "wilds (sub_path path (Suc i) j) = 0" using step by (auto split: if_splits)
  show ?case
  proof (cases "np > 0")
    case True
    then have "child_insert_loop node np path i off prev h = child_insert_loop node np path (Suc i) off prev h"
      using step w by (subst child_insert_loop.simps) auto
    then show ?thesis using step w by simp
  next
    case False
    then show ?thesis by (subst (1 2) child_insert_loop.simps) simp
  qed
qed

lemma child_insert_leaf:
  "child_insert_loop node 0 path i off prev h =
     Inr (True, upd_info (\<lambda>r. r\<lparr>npath := drop off path, nhandler := h\<rparr>) node)"
  by (subst child_insert_loop.simps) (simp add: sub_path_def)


lemma sub_path_simps:
  "off \<le> i \<Longrightarrow> i \<le> length path \<Longrightarrow> drop off path = sub_path path off i @ drop i path"
  "sub_path path off (length path) = drop off path"
  by (simp_all add: sub_path_def) (metis append_take_drop_id drop_drop le_add_diff_inverse2)

text \<open>The result of inserting the rest \<open>q\<close> of a pattern below a fresh node.\<close>

definition fresh_info :: "'h node_info \<Rightarrow> bool" where
  "fresh_info r \<longleftrightarrow> npath r = [] \<and> \<not> wild_child r \<and> indices r = [] \<and> nhandler r = None \<and>
     (ntype r = PGREST_RTREE_NODE_STATIC \<or> ntype r = PGREST_RTREE_NODE_ROOT)"

definition inserted :: "rtree_nodetype \<Rightarrow> string \<Rightarrow> 'h \<Rightarrow> bool \<times> 'h rtree_node \<Rightarrow> bool" where
  "inserted t q h res \<longleftrightarrow>
     (case res of (ok, n) \<Rightarrow>
        wf_node n \<and> ntype (info n) = t \<and> routes n = (if ok then {(parse_pattern q, h)} else {}) \<and>
        (if npath (info n) = []
         then \<not> wild_child (info n) \<and> nhandler (info n) = None \<and> set (indices (info n)) \<subseteq> {hd q}
         else hd (npath (info n)) = hd q))"

lemma inserted_fresh: "fresh_info r \<Longrightarrow> inserted (ntype r) q h (False, RNode r [])"
  by (auto simp: inserted_def fresh_info_def node_ok_def)

text \<open>A parameter: the node above it gets one child, the parameter node.\<close>

lemma child_insert_param:
  assumes w: "w < length path" "path ! w = COLON" "children n = []" "w = 0 \<longrightarrow> off = 0"
    and e: "wildcard_end path (w + 1) = Some e" "2 \<le> e - w"
    and np: "np = int (wilds (drop w path))" and nul: "NUL \<notin> set path"
    and rec: "\<And>r. e < length path \<Longrightarrow> fresh_info r \<Longrightarrow> ntype r = PGREST_RTREE_NODE_STATIC \<Longrightarrow>
      \<exists>res. child_insert_loop (RNode r []) (int (wilds (drop e path))) path e e prev (Some h) = Inr res \<and>
        inserted (ntype r) (drop e path) h res"
  shows "\<exists>ok p. child_insert_loop n np path w off prev (Some h) =
      Inr (ok, RNode ((if w > 0 then (info n)\<lparr>npath := sub_path path off w\<rparr> else info n)\<lparr>wild_child := True\<rparr>) [p]) \<and>
    wf_node p \<and> ntype (info p) = PGREST_RTREE_NODE_PARAM \<and>
    routes p = (if ok then {(parse_pattern (drop w path), h)} else {})"
proof -
  let ?name = "sub_path path (w + 1) e"
  have s: "w + 1 \<le> e" "e \<le> length path" "wilds ?name = 0" "SLASH \<notin> set ?name" "e < length path \<longrightarrow> path ! e = SLASH"
    using wildcard_end_spec [of "w + 1" path] w(1) e(1) by auto
  have d: "drop w path = COLON # ?name @ drop e path"
    using w(1,2) sub_path_simps(1) [of "w + 1" e path] s by (simp add: Cons_nth_drop_Suc [symmetric])
  have pl: "plain ?name" using wilds_0_plain [OF s(3)] nul by (auto simp: sub_path_def dest: in_set_takeD in_set_dropD)
  have hdr: "drop e path = [] \<or> hd (drop e path) = SLASH" using s(5) by (cases "e < length path") (auto simp: hd_drop_conv_nth)
  have pc: "sub_path path w e = COLON # ?name"
    using d w(1) s by (simp add: sub_path_def Cons_nth_drop_Suc [symmetric] take_Cons' w(2))
  have np1: "np - 1 = int (wilds (drop e path))" "np > 0" using np d s(3) by simp_all
  have parse: "parse_pattern (drop w path) = Par ?name # parse_pattern (drop e path)"
    unfolding d by (rule parse_param [OF s(4) hdr])
  have pp: "param_path (COLON # ?name)" using pl s(4) by (simp add: param_path_def)
  let ?child = "INIT_NODE False PGREST_RTREE_NODE_PARAM np None 1 :: 'a node_info"
  let ?up = "\<lambda>c. RNode ((if w > 0 then (info n)\<lparr>npath := sub_path path off w\<rparr> else info n)\<lparr>wild_child := True\<rparr>) [c]"
  show ?thesis
  proof (cases "e < length path")
    case True
    let ?r = "INIT_NODE False PGREST_RTREE_NODE_STATIC (np - 1) None 1 :: 'a node_info"
    have "fresh_info ?r" "ntype ?r = PGREST_RTREE_NODE_STATIC" by (simp_all add: fresh_info_def INIT_NODE_def)
    from rec [OF True this] obtain ok c where
      c: "child_insert_loop (RNode ?r []) (np - 1) path (w + 1) e prev (Some h) = Inr (ok, c)"
      "inserted PGREST_RTREE_NODE_STATIC (drop e path) h (ok, c)"
      using child_insert_skip [of "w + 1" e path "RNode ?r []" "np - 1" e prev "Some h"] s np1 \<open>ntype ?r = _\<close> by auto
    let ?p = "RNode (?child\<lparr>npath := COLON # ?name\<rparr>) [c]"
    have "child_insert_loop n np path w off prev (Some h) = Inr (ok, ?up ?p)"
      using w np1(2) e True c(1) pc by (subst child_insert_loop.simps) (auto simp: Let_def)
    moreover have "starts SLASH c" "wf_node c"
      using c(2) hdr True by (auto simp: inserted_def starts_def Let_def)
    then have "wf_node ?p" using pp by (simp add: node_ok_def INIT_NODE_def)
    moreover have "routes ?p = (if ok then {(parse_pattern (drop w path), h)} else {})"
      using c(2) parse by (simp add: INIT_NODE_def node_toks_def inserted_def)
    ultimately show ?thesis by (intro exI [of _ ok] exI [of _ ?p]) (simp add: INIT_NODE_def)
  next
    case False
    with s have "e = length path" by simp
    with np1 have "np - 1 = 0" by simp
    let ?p = "RNode (?child\<lparr>npath := COLON # ?name, nhandler := Some h\<rparr>) []"
    have "drop w path = COLON # ?name" using d \<open>e = length path\<close> by simp
    then have "child_insert_loop n np path w off prev (Some h) = Inr (True, ?up ?p)"
      using w np1(2) e False \<open>np - 1 = 0\<close> by (subst child_insert_loop.simps) (auto simp: Let_def child_insert_leaf)
    moreover have "wf_node ?p" using pp by (simp add: node_ok_def INIT_NODE_def)
    moreover have "routes ?p = {(parse_pattern (drop w path), h)}"
      using parse \<open>e = length path\<close> by (simp add: INIT_NODE_def node_toks_def)
    ultimately show ?thesis by (intro exI [of _ True] exI [of _ ?p]) (simp add: INIT_NODE_def)
  qed
qed


lemma first_wild:
  assumes "0 < wilds q"
  obtains p c r where "q = p @ c # r" "wilds p = 0" "is_wild c"
proof -
  have "\<exists>c \<in> set q. is_wild c" using assms by (auto simp: wilds_def filter_empty_conv)
  from split_list_first_prop [OF this] obtain p c r where
    p: "q = p @ c # r" "is_wild c" "\<forall>x \<in> set p. \<not> is_wild x" by (elim exE conjE)
  then have "wilds p = 0" by (simp add: wilds_def filter_empty_conv)
  with p show ?thesis by (intro that)
qed

lemma sub_path_Suc: "off \<le> k \<Longrightarrow> k < length path \<Longrightarrow> sub_path path off (Suc k) = sub_path path off k @ [path ! k]"
  by (simp add: sub_path_def Suc_diff_le take_Suc_conv_app_nth)

lemma child_insert_catch:
  assumes w: "w < length path" "path ! w = STAR" "off < w" "wilds (sub_path path off w) = 0"
    and e: "wildcard_end path (w + 1) = Some e" "2 \<le> e - w"
    and r: "fresh_info r" and np: "np = int (wilds (drop w path))" and nul: "NUL \<notin> set path"
  shows "\<exists>res. child_insert_loop (RNode r []) np path w off prev (Some h) = Inr res \<and>
    inserted (ntype r) (drop off path) h res"
proof -
  let ?name = "sub_path path (w + 1) e"
  have s: "w + 1 \<le> e" "e \<le> length path" "wilds ?name = 0" "SLASH \<notin> set ?name"
    using wildcard_end_spec [of "w + 1" path] w(1) e(1) by auto
  have d: "drop w path = STAR # ?name @ drop e path"
    using w(1,2) sub_path_simps(1) [of "w + 1" e path] s by (simp add: Cons_nth_drop_Suc [symmetric])
  then have np0: "np > 0" using np by simp
  have fail: "inserted (ntype r) (drop off path) h (False, RNode r [])" by (rule inserted_fresh [OF r])
  show ?thesis
  proof (cases "e = length path \<and> np \<le> 1 \<and> path ! (w - 1) = SLASH")
    case False
    then have "child_insert_loop (RNode r []) np path w off prev (Some h) = Inr (False, RNode r [])"
      using w np0 e r by (subst child_insert_loop.simps) (auto simp: fresh_info_def)
    with fail show ?thesis by blast
  next
    case True
    define p where "p = sub_path path off (w - 1)"
    have ps: "sub_path path off w = p @ [SLASH]"
      using sub_path_Suc [of off "w - 1" path] w True by (simp add: p_def)
    have pl: "plain p" using w(4) ps wilds_0_plain [of p] nul
      by (auto simp: p_def sub_path_def dest: in_set_takeD in_set_dropD)
    have pn: "plain ?name" using wilds_0_plain [OF s(3)] nul by (auto simp: sub_path_def dest: in_set_takeD in_set_dropD)
    have dw: "drop (w - 1) path = SLASH # STAR # ?name"
      using d True w Cons_nth_drop_Suc [of "w - 1" path] by simp
    have dq: "drop off path = p @ SLASH # STAR # ?name"
      using sub_path_simps(1) [of off "w - 1" path] w dw by (simp add: p_def)
    let ?leaf = "RNode ((INIT_NODE False PGREST_RTREE_NODE_CATCHALL 1 (Some h) 1)\<lparr>npath := SLASH # STAR # ?name\<rparr>) []"
    let ?mid = "RNode (INIT_NODE True PGREST_RTREE_NODE_CATCHALL 1 None 1) [?leaf]"
    let ?n = "RNode (r\<lparr>npath := p, indices := [SLASH]\<rparr>) [?mid]"
    have "child_insert_loop (RNode r []) np path w off prev (Some h) = Inr (True, ?n)"
      using w np0 e r True dw by (subst child_insert_loop.simps) (auto simp: fresh_info_def Let_def p_def sub_path_simps(2))
    moreover have "wf_node ?n"
      using r pl pn s(4) by (auto simp: fresh_info_def node_ok_def INIT_NODE_def starts_def catch_path_def)
    moreover have "routes ?n = {(parse_pattern (drop off path), h)}"
      unfolding dq parse_catch [OF pl] using r by (auto simp: fresh_info_def INIT_NODE_def node_toks_def)
    moreover have "if p = [] then hd (drop off path) = SLASH else hd p = hd (drop off path)"
      unfolding dq by simp
    ultimately show ?thesis using r by (auto simp: inserted_def fresh_info_def split: if_splits)
  qed
qed


lemma child_insert_fresh:
  assumes "off < length path" "\<not> is_wild (path ! off)" "NUL \<notin> set path" "fresh_info r"
  shows "\<exists>res. child_insert_loop (RNode r []) (int (wilds (drop off path))) path off off prev (Some h) = Inr res \<and>
    inserted (ntype r) (drop off path) h res"
  using assms
proof (induction "length path - off" arbitrary: off r rule: less_induct)
  case less
  let ?q = "drop off path"
  show ?case
  proof (cases "wilds ?q = 0")
    case True
    then have "plain ?q" using less.prems(3) wilds_0_plain by (metis in_set_dropD)
    then have "inserted (ntype r) ?q h (True, RNode (r\<lparr>npath := ?q, nhandler := Some h\<rparr>) [])"
      using less.prems by (auto simp: inserted_def fresh_info_def node_ok_def node_toks_def parse_plain0)
    with True show ?thesis by (simp add: child_insert_leaf)
  next
    case False
    then obtain lit c rest where q: "?q = lit @ c # rest" "wilds lit = 0" "is_wild c"
      using first_wild [of ?q] by blast
    define w where "w = off + length lit"
    have len: "length ?q = length lit + Suc (length rest)" using q(1) by simp
    have "lit \<noteq> []" using q less.prems(1,2) by (metis append_Nil hd_drop_conv_nth list.sel(1))
    then have w: "off < w" "w < length path" using len by (auto simp: w_def)
    have dw: "drop w path = c # rest"
      using q(1) by (metis add.commute append_eq_conv_conj drop_drop w_def)
    have lit: "sub_path path off w = lit" using q(1) by (simp add: sub_path_def w_def)
    have c: "path ! w = c" using dw w by (metis Cons_nth_drop_Suc list.inject)
    have np: "wilds ?q = wilds (drop w path)" using q dw by simp
    have skip: "child_insert_loop (RNode r []) (int (wilds ?q)) path off off prev (Some h) =
        child_insert_loop (RNode r []) (int (wilds (drop w path))) path w off prev (Some h)"
      unfolding np by (rule child_insert_skip) (use w lit q(2) in auto)
    have pos: "0 < int (wilds (drop w path))" using dw q(3) by simp
    show ?thesis
    proof (cases "\<exists>e. wildcard_end path (w + 1) = Some e \<and> 2 \<le> e - w")
      case False
      then have "child_insert_loop (RNode r []) (int (wilds (drop w path))) path w off prev (Some h) = Inr (False, RNode r [])"
        using w c q(3) pos by (subst child_insert_loop.simps) (auto split: option.splits)
      then show ?thesis using skip inserted_fresh [OF less.prems(4)] by auto
    next
      case True
      then obtain e where e: "wildcard_end path (w + 1) = Some e" "2 \<le> e - w" by blast
      have es: "e < length path \<longrightarrow> path ! e = SLASH" "w < e" using wildcard_end_spec [of "w + 1" path] w e by auto
      show ?thesis
      proof (cases "c = STAR")
        case True
        then show ?thesis
          using child_insert_catch [OF w(2) _ w(1) _ e less.prems(4) refl less.prems(3)] c lit q(2) skip by simp
      next
        case False
        then have col: "path ! w = COLON" using c q(3) by simp
        have rec: "\<exists>res. child_insert_loop (RNode r' []) (int (wilds (drop e path))) path e e prev (Some h) = Inr res \<and>
            inserted (ntype r') (drop e path) h res" if "e < length path" "fresh_info r'" for r' :: "'a node_info"
          using less.hyps [of e r'] that es w less.prems(3) by simp
        have "children (RNode r []) = []" "w = 0 \<longrightarrow> off = 0" using w by simp_all
        from child_insert_param [OF w(2) col this e refl less.prems(3) rec]
        obtain ok p where p: "child_insert_loop (RNode r []) (int (wilds (drop w path))) path w off prev (Some h) =
            Inr (ok, RNode (r\<lparr>npath := lit, wild_child := True\<rparr>) [p])"
            "wf_node p" "ntype (info p) = PGREST_RTREE_NODE_PARAM"
            "routes p = (if ok then {(parse_pattern (drop w path), h)} else {})"
          using lit w by auto
        have pl: "plain lit" using wilds_0_plain [OF q(2)] less.prems(3) lit
          by (auto simp: sub_path_def dest: in_set_takeD in_set_dropD)
        have "parse_pattern ?q = map Lit lit @ parse_pattern (drop w path)"
          unfolding q(1) dw using parse_plain [OF pl, of "c # rest"] False by simp
        then have "inserted (ntype r) ?q h (ok, RNode (r\<lparr>npath := lit, wild_child := True\<rparr>) [p])"
          using p less.prems(4) pl \<open>lit \<noteq> []\<close> q(1)
          by (auto simp: inserted_def fresh_info_def node_ok_def node_toks_def)
        then show ?thesis using p(1) skip by auto
      qed
    qed
  qed
qed



text \<open>Inserting a pattern that begins with a wildcard below a node of the tree.\<close>

lemma child_insert_wild:
  assumes n: "static_node n" "\<not> wild_child (info n)" "ntype (info n) \<noteq> PGREST_RTREE_NODE_CATCHALL"
    "ntype (info n) \<noteq> PGREST_RTREE_NODE_PARAM"
    and path: "path \<noteq> []" "is_wild (hd path)" "NUL \<notin> set path"
    and prev: "hd path = STAR \<Longrightarrow> children n = [] \<Longrightarrow>
      npath (info n) \<noteq> [] \<and> prev = Some (last (npath (info n)))"
  shows "\<exists>ok n'. pgrest_rtree_child_insert n (int (wilds path)) path prev (Some h) = Inr (ok, n') \<and>
    wf_node n' \<and> (\<exists>w. info n' = (info n)\<lparr>wild_child := w\<rparr>) \<and>
    routes n' = (if ok then routes n \<union> {(map Lit (npath (info n)) @ parse_pattern path, h)} else routes n) \<and>
    (ok \<longrightarrow> hd path = COLON)"
proof -
  have wf: "wf_node n" using n(1) by (simp add: static_node_def)
  have t: "node_toks (info n) = map Lit (npath (info n))" "plain (npath (info n))"
    using n wf by (cases "ntype (info n)"; auto simp: node_toks_def wf_node_unfold [of n] node_ok_def)+
  have pos: "0 < int (wilds path)" "0 < length path" "path ! 0 = hd path" using path by (cases path; auto)+
  let ?run = "child_insert_loop n (int (wilds path)) path 0 0 prev (Some h)"
  have fail: ?thesis if "?run = Inr (False, n)"
    using that wf by (intro exI [of _ False] exI [of _ n]) (auto simp: pgrest_rtree_child_insert_def intro: exI [of _ "wild_child (info n)"])
  show ?thesis
  proof (cases "\<exists>e. wildcard_end path 1 = Some e \<and> 2 \<le> e \<and> children n = []")
    case False
    then have "wildcard_end path 1 = None \<or> (\<exists>e. wildcard_end path 1 = Some e \<and> (e < 2 \<or> children n \<noteq> []))"
      by (cases "wildcard_end path 1") auto
    then have "?run = Inr (False, n)"
      using pos path(2) by (subst child_insert_loop.simps) auto
    then show ?thesis by (rule fail)
  next
    case True
    then obtain e where e: "wildcard_end path (0 + 1) = Some e" "2 \<le> e - 0" "children n = []" by auto
    show ?thesis
    proof (cases "hd path = STAR")
      case True
      then have "?run = Inr (False, n)"
        using pos e prev by (subst child_insert_loop.simps) auto
      then show ?thesis by (rule fail)
    next
      case False
      then have col: "path ! 0 = COLON" "hd path = COLON" using path(2) pos(3) by auto
      have es: "e < length path \<longrightarrow> path ! e = SLASH" using wildcard_end_spec [of 1 path] pos e by auto
      have rec: "\<exists>res. child_insert_loop (RNode r []) (int (wilds (drop e path))) path e e prev (Some h) = Inr res \<and>
          inserted (ntype r) (drop e path) h res" if "e < length path" "fresh_info r" for r :: "'a node_info"
        using child_insert_fresh [of e path r] that es path(3) by simp
      have np: "int (wilds path) = int (wilds (drop 0 path))" by simp
      from child_insert_param [OF pos(2) col(1) e(3) _ e(1,2) np path(3) rec, of 0]
      obtain ok p where p: "?run = Inr (ok, RNode ((info n)\<lparr>wild_child := True\<rparr>) [p])"
          "wf_node p" "ntype (info p) = PGREST_RTREE_NODE_PARAM"
          "routes p = (if ok then {(parse_pattern path, h)} else {})" by auto
      let ?n = "RNode ((info n)\<lparr>wild_child := True\<rparr>) [p]"
      have "wf_node ?n" using p(2,3) t(2) n by (cases "ntype (info n)") (auto simp: node_ok_def)
      moreover have "node_toks ((info n)\<lparr>wild_child := True\<rparr>) = map Lit (npath (info n))"
        using t(1) n by (cases "ntype (info n)") (auto simp: node_toks_def)
      then have "routes ?n = (if ok then routes n \<union> {(map Lit (npath (info n)) @ parse_pattern path, h)} else routes n)"
        using p(4) e(3) t(1) by (auto simp: routes_unfold [of n])
      ultimately show ?thesis using p(1) col(2)
        by (intro exI [of _ ok] exI [of _ ?n]) (auto simp: pgrest_rtree_child_insert_def)
    qed
  qed
qed



section \<open>Adding a pattern\<close>

definition add_at :: "'h rtree_node \<Rightarrow> string \<Rightarrow> bool" where
  "add_at n path \<longleftrightarrow> wf_node n \<and> NUL \<notin> set path \<and> star_last path \<and> path \<noteq> [] \<and>
     (case ntype (info n) of
        PGREST_RTREE_NODE_ROOT \<Rightarrow>
          hd path \<noteq> STAR \<and> (npath (info n) = [] \<longrightarrow> children n \<noteq> [] \<and> nhandler (info n) = None)
      | PGREST_RTREE_NODE_STATIC \<Rightarrow> starts (hd path) n
      | PGREST_RTREE_NODE_PARAM \<Rightarrow>
          \<exists>q. path = npath (info n) @ q \<and> (q = [] \<or> hd q = SLASH)
      | PGREST_RTREE_NODE_CATCHALL \<Rightarrow>
          if wild_child (info n) then hd path = SLASH else path = npath (info n))"

definition add_post :: "'h rtree_node \<Rightarrow> string \<Rightarrow> (tok list \<times> 'h) set \<Rightarrow> 'h rtree_node \<Rightarrow> bool" where
  "add_post n path R n' \<longleftrightarrow>
     wf_node n' \<and> ntype (info n') = ntype (info n) \<and> routes n' = routes n \<union> R \<and>
     (starts (hd path) n \<longrightarrow> starts (hd path) n') \<and>
     (ntype (info n) = PGREST_RTREE_NODE_CATCHALL \<longrightarrow> wild_child (info n') = wild_child (info n)) \<and>
     ((npath (info n) = [] \<longrightarrow> nhandler (info n) = None) \<longrightarrow> npath (info n') = [] \<longrightarrow> nhandler (info n') = None)"

lemma add_post_trans:
  "add_post n path R n2 \<Longrightarrow> add_post n2 path R' n3 \<Longrightarrow> add_post n path (R \<union> R') n3"
  by (auto simp: add_post_def)

lemma starts_raise: "starts ch (raise_max m n) = starts ch n"
  by (simp add: starts_def Let_def)

lemma raise_max_post: "wf_node n \<Longrightarrow> add_post n path {} (raise_max m n)"
  by (auto simp: add_post_def starts_raise wf_node_unfold [of n] wf_node_unfold [of "raise_max m n"] node_ok_def
      routes_unfold [of n] routes_unfold [of "raise_max m n"] node_toks_def split: rtree_nodetype.splits)

lemma split_node_post:
  assumes "wf_node n" "ntype (info n) = PGREST_RTREE_NODE_STATIC \<or> ntype (info n) = PGREST_RTREE_NODE_ROOT"
    "i < length (npath (info n))" "take i path = take i (npath (info n))"
    "starts (hd path) n \<Longrightarrow> 0 < i" "path \<noteq> []"
  shows "add_post n path {} (split_node n path i)"
proof -
  obtain r cs where n: "n = RNode r cs" by (cases n)
  let ?c = "children (split_node n path i) ! 0"
  have pl: "plain (npath r)" using assms(1,2) by (auto simp: n node_ok_def)
  then have pd: "plain (drop i (npath r))" "plain (take i (npath r))"
    by (metis append_take_drop_id plain_simps(3))+
  have ch: "npath r ! i = hd (drop i (npath r))" "drop i (npath r) \<noteq> []" using assms(3) by (simp_all add: n hd_drop_conv_nth)
  have nw: "\<not> is_wild (npath r ! i)" using pd(1) ch by (cases "drop i (npath r)") auto
  have "wf_node ?c" using assms(1,2) pd(1) by (auto simp: n split_node_def Let_def node_ok_def)
  moreover have "starts (npath r ! i) ?c" using ch nw assms(3) by (simp add: n split_node_def Let_def starts_def)
  ultimately have c: "wf_node ?c" "starts (npath r ! i) ?c" .
  have sp: "split_node n path i = RNode (info (split_node n path i)) [?c]" by (simp add: n split_node_def Let_def)
  have "wf_node (split_node n path i)"
    using c assms(2,4) pd(2) by (subst sp) (auto simp: node_ok_def n)
  moreover have "routes (split_node n path i) = routes n"
  proof -
    have "map Lit (npath r) = map Lit (take i (npath r)) @ map Lit (drop i (npath r))"
      by (metis append_take_drop_id map_append)
    then show ?thesis using assms(2,4) by (auto simp: n split_node_def Let_def node_toks_def)
  qed
  moreover have "starts (hd path) n \<longrightarrow> starts (hd path) (split_node n path i)"
    using assms(2,4-6) by (auto simp: starts_def Let_def n)
  ultimately show ?thesis using assms(2) by (auto simp: add_post_def)
qed

lemma common_prefix_pos: "xs \<noteq> [] \<Longrightarrow> ys \<noteq> [] \<Longrightarrow> hd xs = hd ys \<Longrightarrow> 0 < common_prefix xs ys"
  by (cases xs; cases ys) auto

text \<open>The first half of a round: the node after the raise and the split.\<close>

lemma split_step:
  fixes n path np
  defines "i \<equiv> common_prefix path (npath (info n))" and "n2 \<equiv> split_round np n path"
  assumes at: "add_at n path"
  shows "add_post n path {} n2" "path = npath (info n2) @ drop i path"
    "i < length (npath (info n)) \<Longrightarrow> ntype (info n) = PGREST_RTREE_NODE_STATIC \<or> ntype (info n) = PGREST_RTREE_NODE_ROOT"
proof -
  have tk: "take i path = take i (npath (info n))" "i \<le> length path" "i \<le> length (npath (info n))"
    using common_prefix_take [of path "npath (info n)"] by (simp_all add: i_def)
  have wf: "wf_node n" "path \<noteq> []" using at by (auto simp: add_at_def)
  have full: "i = length (npath (info n))" if "take (length (npath (info n))) path = npath (info n)"
    using common_prefix_differ [of path "npath (info n)"] that tk
    by (metis i_def le_neq_implies_less length_take min.absorb4 min_def nth_take)
  show st: "ntype (info n) = PGREST_RTREE_NODE_STATIC \<or> ntype (info n) = PGREST_RTREE_NODE_ROOT"
    if "i < length (npath (info n))"
    using that full at by (auto simp: add_at_def wf_node_unfold [of n] node_ok_def split: rtree_nodetype.splits if_splits)
  show "path = npath (info n2) @ drop i path"
    using tk append_take_drop_id [of i path] by (auto simp: n2_def split_round_def Let_def i_def [symmetric])
  show "add_post n path {} n2"
  proof (cases "i < length (npath (info n))")
    case True
    have r: "add_post n path {} (raise_max np n)" by (rule raise_max_post [OF wf(1)])
    have "add_post (raise_max np n) path {} (split_node (raise_max np n) path i)"
    proof (rule split_node_post)
      show "wf_node (raise_max np n)" using r by (simp add: add_post_def)
      show "0 < i" if "starts (hd path) (raise_max np n)"
        using that True st wf(2) common_prefix_pos [of path "npath (info n)"]
        by (auto simp: starts_def Let_def i_def split: if_splits)
    qed (use True st tk wf in auto)
    from add_post_trans [OF r this] True show ?thesis by (simp add: n2_def split_round_def Let_def i_def [symmetric])
  next
    case False
    then show ?thesis using raise_max_post [OF wf(1)] by (simp add: n2_def split_round_def Let_def i_def [symmetric])
  qed
qed



lemma node_toks_upd [simp]:
  "node_toks (r\<lparr>indices := s\<rparr>) = node_toks r" "node_toks (priority_update f r) = node_toks r"
  "node_toks (nhandler_update g r) = node_toks r"
  by (simp_all add: node_toks_def split: rtree_nodetype.splits)

lemma node_parse:
  assumes "wf_node m" "ntype (info m) \<noteq> PGREST_RTREE_NODE_CATCHALL" "rest = [] \<or> hd rest \<noteq> STAR"
    "ntype (info m) = PGREST_RTREE_NODE_PARAM \<Longrightarrow> rest = [] \<or> hd rest = SLASH"
  shows "parse_pattern (npath (info m) @ rest) = node_toks (info m) @ parse_pattern rest"
proof (cases "ntype (info m) = PGREST_RTREE_NODE_PARAM")
  case True
  then obtain name where n: "npath (info m) = COLON # name" "SLASH \<notin> set name"
    using param_children(2) [OF assms(1) True] by (cases "npath (info m)") (auto simp: param_path_def)
  with True show ?thesis using parse_param [OF n(2) assms(4) [OF True]] by (simp add: node_toks_def)
next
  case False
  then have "plain (npath (info m))" "node_toks (info m) = map Lit (npath (info m))"
    using assms(1,2) by (cases "ntype (info m)"; auto simp: wf_node_unfold [of m] node_ok_def node_toks_def)+
  then show ?thesis using parse_plain assms(3) by simp
qed

text \<open>Replacing the children of a node.\<close>

lemma routes_new_children:
  assumes "node_toks r' = node_toks (info n)" "nhandler r' = nhandler (info n)"
    "\<Union> (routes ` set cs) = \<Union> (routes ` set (children n)) \<union> R"
  shows "routes (RNode r' cs) = routes n \<union> prefixed (node_toks (info n)) R"
  using assms by (auto simp: routes_unfold [of n])

lemma add_post_children:
  assumes "wf_node (RNode ((info n)\<lparr>indices := s\<rparr>) cs)" "\<Union> (routes ` set cs) = \<Union> (routes ` set (children n)) \<union> R"
    "starts (hd path) n \<Longrightarrow> npath (info n) = [] \<Longrightarrow> set s \<subseteq> {hd path} \<or> ntype (info n) = PGREST_RTREE_NODE_CATCHALL"
  shows "add_post n path (prefixed (node_toks (info n)) R) (RNode ((info n)\<lparr>indices := s\<rparr>) cs)"
proof -
  have "routes (RNode ((info n)\<lparr>indices := s\<rparr>) cs) = routes n \<union> prefixed (node_toks (info n)) R"
    using assms(2) by (intro routes_new_children) simp_all
  moreover have "starts (hd path) n \<longrightarrow> starts (hd path) (RNode ((info n)\<lparr>indices := s\<rparr>) cs)"
    using assms(3) by (auto simp: starts_def Let_def split: if_splits)
  ultimately show ?thesis using assms(1) by (simp add: add_post_def)
qed

lemma union_routes_update:
  assumes "j < length cs" "routes c = routes (cs ! j) \<union> R"
  shows "\<Union> (routes ` set (cs[j := c])) = \<Union> (routes ` set cs) \<union> R"
proof -
  have a: "cs = take j cs @ cs ! j # drop (Suc j) cs" using assms(1) by (simp add: id_take_nth_drop)
  have b: "cs[j := c] = take j cs @ c # drop (Suc j) cs" using assms(1) by (simp add: upd_conv_take_nth_drop)
  show ?thesis unfolding b by (subst (3) a) (use assms(2) in auto)
qed

lemma routes_bump [simp]: "routes (RNode (priority_update f (info n)) (children n)) = routes n"
  by (simp add: routes_unfold [of n])

lemma add_child_static:
  assumes m: "wf_node m" "\<not> wild_child (info m)" "ntype (info m) \<noteq> PGREST_RTREE_NODE_CATCHALL"
    "ntype (info m) = PGREST_RTREE_NODE_PARAM \<Longrightarrow> children m = [] \<and> hd rest = SLASH"
    and rest: "rest \<noteq> []" "\<not> is_wild (hd rest)" "hd rest \<notin> set (indices (info m))" "NUL \<notin> set rest"
  shows "\<exists>ok n'. add_child m (int (wilds rest)) rest prev (Some h) = Inr (ok, n') \<and>
    add_post m (npath (info m) @ rest)
      (if ok then {(parse_pattern (npath (info m) @ rest), h)} else {}) n'"
proof -
  let ?c0 = "RNode (INIT_NODE False PGREST_RTREE_NODE_STATIC (int (wilds rest)) None 0) [] :: 'a rtree_node"
  let ?r3 = "(info m)\<lparr>indices := indices (info m) @ [hd rest]\<rparr>"
  let ?n3 = "RNode ?r3 (children m @ [?c0])"
  have static: "static_node m" if "ntype (info m) \<noteq> PGREST_RTREE_NODE_PARAM"
    using that m by (cases "ntype (info m)") (auto simp: static_node_def)
  have idx: "length (indices (info m)) = length (children m)" "distinct (indices (info m))"
      "\<And>i. i < length (children m) \<Longrightarrow> starts (indices (info m) ! i) (children m ! i)"
    using static_children [OF static m(2)] param_children(3) [OF m(1)] m(4)
    by (cases "ntype (info m) = PGREST_RTREE_NODE_PARAM"; auto)+
  let ?j = "length (children m)"
  have j: "?j < length (children ?n3)" by simp
  from child_priority_replace [OF j] idx rest(3) obtain q n4 where
    p: "pgrest_rtree_child_priority ?n3 ?j = Inr (q, n4)" "q < length (children n4)"
    "children n4 ! q = bump ?c0" "info n4 = ?r3\<lparr>indices := indices (info n4)\<rparr>"
    "length (indices (info n4)) = length (children n4)" "distinct (indices (info n4))"
    "set (indices (info n4)) = set (indices ?r3)"
    "\<And>c. set ((children n4)[q := c]) = set ((children m @ [?c0])[?j := c])"
    "\<And>c i. starts (hd rest) c \<Longrightarrow> i < length (children n4) \<Longrightarrow> starts (indices (info n4) ! i) ((children n4)[q := c] ! i)"
    by (auto simp: nth_append)
  have "fresh_info (info (bump ?c0))" "ntype (info (bump ?c0)) = PGREST_RTREE_NODE_STATIC"
    by (simp_all add: fresh_info_def INIT_NODE_def)
  with child_insert_fresh [of 0 rest "info (bump ?c0)" prev h] rest obtain ok c where
    c: "pgrest_rtree_child_insert (bump ?c0) (int (wilds rest)) rest prev (Some h) = Inr (ok, c)"
      "inserted PGREST_RTREE_NODE_STATIC rest h (ok, c)"
    by (auto simp: pgrest_rtree_child_insert_def hd_conv_nth)
  let ?n' = "RNode (info n4) ((children n4)[q := c])"
  have run: "add_child m (int (wilds rest)) rest prev (Some h) = Inr (ok, ?n')"
    using rest(2) p(1,3) c(1) idx(1) by (simp add: add_child_def Let_def at_child_def)
  have cs: "wf_node c" "starts (hd rest) c" "routes c = (if ok then {(parse_pattern rest, h)} else {})"
    using c(2) rest(2) by (auto simp: inserted_def starts_def Let_def)
  have set4: "set ((children n4)[q := c]) = insert c (set (children m))" using p(8) [of c] by simp
  have i4: "info n4 = (info m)\<lparr>indices := indices (info n4)\<rparr>" using p(4) by simp
  have wf: "wf_node ?n'"
  proof (cases "ntype (info m) = PGREST_RTREE_NODE_PARAM")
    case True
    then have "children m = []" "hd rest = SLASH" using m(4) by auto
    moreover have "length (children n4) = 1"
      using distinct_card [OF p(6)] p(5,7) idx(1) calculation(1) by simp
    ultimately have "(children n4)[q := c] = [c]" using p(2) by (cases "children n4") auto
    then show ?thesis using True m(2) cs \<open>hd rest = SLASH\<close> param_children(2) [OF m(1) True]
      by (subst i4) (simp add: node_ok_def)
  next
    case False
    then show ?thesis using m cs p(5,6,9) set4
      by (subst i4, cases "ntype (info m)") (auto simp: node_ok_def wf_node_unfold [of m])
  qed
  have "add_post m (npath (info m) @ rest) (prefixed (node_toks (info m)) (routes c))
      (RNode ((info m)\<lparr>indices := indices (info n4)\<rparr>) ((children n4)[q := c]))"
  proof (rule add_post_children)
    show "wf_node (RNode ((info m)\<lparr>indices := indices (info n4)\<rparr>) ((children n4)[q := c]))" using wf i4 by simp
    show "\<Union> (routes ` set ((children n4)[q := c])) = \<Union> (routes ` set (children m)) \<union> routes c"
      unfolding set4 by auto
    show "set (indices (info n4)) \<subseteq> {hd (npath (info m) @ rest)} \<or> ntype (info m) = PGREST_RTREE_NODE_CATCHALL"
      if "starts (hd (npath (info m) @ rest)) m" "npath (info m) = []"
      using that p(7) by (auto simp: starts_def Let_def)
  qed
  moreover have "parse_pattern (npath (info m) @ rest) = node_toks (info m) @ parse_pattern rest"
    using node_parse [OF m(1,3)] rest(1,2) m(4) by auto
  ultimately show ?thesis using run i4 cs(3) by (intro exI [of _ ok] exI [of _ ?n']) auto
qed



lemma add_child_ok:
  assumes m: "wf_node m" "\<not> wild_child (info m)" "ntype (info m) \<noteq> PGREST_RTREE_NODE_CATCHALL"
    "ntype (info m) = PGREST_RTREE_NODE_PARAM \<Longrightarrow> children m = [] \<and> hd rest = SLASH"
    and rest: "rest \<noteq> []" "hd rest \<notin> set (indices (info m))" "NUL \<notin> set rest"
    and prev: "hd rest = STAR \<Longrightarrow> npath (info m) \<noteq> [] \<and> prev = Some (last (npath (info m)))"
  shows "\<exists>ok n'. add_child m (int (wilds rest)) rest prev (Some h) = Inr (ok, n') \<and>
    add_post m (npath (info m) @ rest) (if ok then {(parse_pattern (npath (info m) @ rest), h)} else {}) n'"
proof (cases "is_wild (hd rest)")
  case False
  then show ?thesis using add_child_static [OF m rest(1) False rest(2,3)] by blast
next
  case True
  then have nt: "ntype (info m) \<noteq> PGREST_RTREE_NODE_PARAM" using m(4) by auto
  with m have "static_node m" by (cases "ntype (info m)") (auto simp: static_node_def)
  from child_insert_wild [OF this m(2,3) nt rest(1) True rest(3), of prev h] prev obtain ok n' w where
    r: "pgrest_rtree_child_insert m (int (wilds rest)) rest prev (Some h) = Inr (ok, n')" "wf_node n'"
      "info n' = (info m)\<lparr>wild_child := w\<rparr>"
      "routes n' = (if ok then routes m \<union> {(map Lit (npath (info m)) @ parse_pattern rest, h)} else routes m)"
      "ok \<longrightarrow> hd rest = COLON"
    by blast
  have "ok \<Longrightarrow> parse_pattern (npath (info m) @ rest) = map Lit (npath (info m)) @ parse_pattern rest"
    using node_parse [OF m(1,3), of rest] r(5) nt m(3) by (cases "ntype (info m)") (auto simp: node_toks_def)
  moreover have "starts (hd (npath (info m) @ rest)) m \<longrightarrow> starts (hd (npath (info m) @ rest)) n'"
    using r(3) True m(3) by (auto simp: starts_def Let_def split: if_splits)
  ultimately have "add_post m (npath (info m) @ rest) (if ok then {(parse_pattern (npath (info m) @ rest), h)} else {}) n'"
    using r(2-4) m(3) by (auto simp: add_post_def)
  moreover have "add_child m (int (wilds rest)) rest prev (Some h) = Inr (ok, n')"
    using True r(1) by (auto simp: add_child_def)
  ultimately show ?thesis by blast
qed

text \<open>The recursive step: a child is replaced by the result of adding to it.\<close>

lemma add_into:
  assumes "j < length (children m)" "routes c = routes (children m ! j)" "add_post c rest R c'"
    "wf_node (RNode (info m) ((children m)[j := c']))"
  shows "add_post m path (prefixed (node_toks (info m)) R) (RNode (info m) ((children m)[j := c']))"
proof -
  have "routes c' = routes (children m ! j) \<union> R" using assms(2,3) by (simp add: add_post_def)
  then have u: "\<Union> (routes ` set ((children m)[j := c'])) = \<Union> (routes ` set (children m)) \<union> R"
    by (rule union_routes_update [OF assms(1)])
  have "add_post m path (prefixed (node_toks (info m)) R)
      (RNode ((info m)\<lparr>indices := indices (info m)\<rparr>) ((children m)[j := c']))"
    by (rule add_post_children) (use assms(4) u in \<open>auto simp: starts_def Let_def\<close>)
  then show ?thesis by simp
qed

lemma starts_bump [simp]: "starts ch (RNode (priority_update f (info n)) (children n)) = starts ch n"
  by (simp add: starts_def Let_def)

lemma node_ok_upd [simp]:
  "node_ok (priority_update f r) cs = node_ok r cs" "node_ok (max_params_update g r) cs = node_ok r cs"
  by (simp_all add: node_ok_def split: rtree_nodetype.split)

lemma wf_bump [simp]: "wf_node (RNode (priority_update f (info n)) (children n)) = wf_node n"
  by (simp add: wf_node_unfold [of n])

lemma wf_raise [simp]: "wf_node (raise_max m n) = wf_node n"
  by (simp add: raise_max_def wf_node_unfold [of n])

lemma routes_raise [simp]: "routes (raise_max m n) = routes n"
  by (simp add: raise_max_def routes_unfold [of n] node_toks_def split: rtree_nodetype.split)

lemma add_found_ok:
  assumes m: "static_node m" "\<not> wild_child (info m)" "find_index (hd rest) (indices (info m)) = Some j"
    and rec: "\<exists>ok c'. add_loop (bump (children m ! j)) rest np prev (Some h) = Inr (ok, c') \<and>
      add_post (bump (children m ! j)) rest (if ok then R else {}) c'"
  shows "\<exists>ok n'. (case pgrest_rtree_child_priority m j of
        Inl u \<Rightarrow> Inl u
      | Inr (j', node3) \<Rightarrow>
          if j' < length (children node3)
          then at_child node3 j' (add_loop (children node3 ! j') rest np prev (Some h))
          else Inl OutOfBounds) = Inr (ok, n') \<and>
    add_post m path (prefixed (node_toks (info m)) (if ok then R else {})) n'"
proof -
  note ch = static_children [OF m(1,2)]
  have j: "j < length (children m)" "indices (info m) ! j = hd rest" using find_index_Some [OF m(3)] ch(1) by auto
  obtain q n3 where p: "pgrest_rtree_child_priority m j = Inr (q, n3)" "q < length (children n3)"
    "children n3 ! q = bump (children m ! j)" "info n3 = (info m)\<lparr>indices := indices (info n3)\<rparr>"
    "length (indices (info n3)) = length (children n3)" "distinct (indices (info n3))"
    "set (indices (info n3)) = set (indices (info m))"
    "\<And>c. set ((children n3)[q := c]) = set ((children m)[j := c])"
    "\<And>c i. starts (indices (info m) ! j) c \<Longrightarrow> i < length (children n3) \<Longrightarrow>
       starts (indices (info n3) ! i) ((children n3)[q := c] ! i)"
    using child_priority_replace [OF j(1) ch(1,2)] ch(3) by metis
  obtain ok c where c: "add_loop (bump (children m ! j)) rest np prev (Some h) = Inr (ok, c)"
      "add_post (bump (children m ! j)) rest (if ok then R else {}) c"
    using rec by blast
  have sc: "starts (hd rest) c" "wf_node c" using c(2) ch(3) [OF j(1)] j(2) by (auto simp: add_post_def)
  let ?n' = "RNode ((info m)\<lparr>indices := indices (info n3)\<rparr>) ((children n3)[q := c])"
  have wfm: "wf_node m" "ntype (info m) = PGREST_RTREE_NODE_STATIC \<or> ntype (info m) = PGREST_RTREE_NODE_ROOT"
    using m by (auto simp: static_node_def)
  have "wf_node ?n'"
    using wfm m(2) p(5,6,9) p(8) [of c] sc j(2) set_update_subset_insert [of "children m" j c]
    by (auto simp: node_ok_def wf_node_unfold [of m])
  moreover have "\<Union> (routes ` set ((children n3)[q := c])) = \<Union> (routes ` set (children m)) \<union> (if ok then R else {})"
    unfolding p(8) using c(2) by (intro union_routes_update [OF j(1)]) (simp add: add_post_def del: routes.simps)
  ultimately have "add_post m path (prefixed (node_toks (info m)) (if ok then R else {})) ?n'"
    by (rule add_post_children) (use p(7) in \<open>auto simp: starts_def Let_def\<close>)
  then show ?thesis using p(1-4) c(1) by (simp add: at_child_def)
qed





declare wf_node.simps [simp del] routes.simps [simp del]

definition add_ok :: "'h \<Rightarrow> 'h rtree_node \<Rightarrow> string \<Rightarrow> int \<Rightarrow> char option \<Rightarrow> bool" where
  "add_ok h n path np prev \<longleftrightarrow>
     (\<exists>ok n'. add_loop n path np prev (Some h) = Inr (ok, n') \<and>
        add_post n path (if ok then {(parse_pattern path, h)} else {}) n')"

lemma wilds_npath:
  assumes "wf_node n"
  shows "wilds (npath (info n)) =
    (if ntype (info n) = PGREST_RTREE_NODE_PARAM \<or> ntype (info n) = PGREST_RTREE_NODE_CATCHALL \<and> \<not> wild_child (info n)
     then 1 else 0)"
  using assms
  by (cases "ntype (info n)"; cases "npath (info n)")
    (auto simp: wf_node_unfold [of n] node_ok_def param_path_def catch_path_def wilds_plain split: if_splits)

lemma nul_npath: "wf_node n \<Longrightarrow> NUL \<notin> set (npath (info n))"
  by (cases "ntype (info n)"; cases "npath (info n)")
    (auto simp: wf_node_unfold [of n] node_ok_def param_path_def catch_path_def plain_def split: if_splits)

text \<open>The branch of the wildcard child.\<close>

lemma add_wild_step:
  assumes m: "static_node m" "wild_child (info m)" "children m = child # others"
    and rest: "rest \<noteq> []" "NUL \<notin> set rest" "star_last rest"
    and np: "np = int (wilds rest)"
    and rec: "add_at (raise_max np (bump child)) rest \<Longrightarrow> add_ok h (raise_max np (bump child)) rest (np - 1) prev"
  shows "\<exists>ok n'. (let c1 = raise_max np (bump child); p = npath (info c1) in
              if length rest \<ge> length p \<and> strncmp_eq (length p) p rest \<and>
                 (length p \<ge> length rest \<or> rest ! length p = SLASH)
              then at_child m 0 (add_loop c1 rest (np - 1) prev (Some h))
              else Inr (False, RNode (info m) (c1 # others))) = Inr (ok, n') \<and>
    add_post m (npath (info m) @ rest) (if ok then {(parse_pattern (npath (info m) @ rest), h)} else {}) n'"
proof -
  let ?c1 = "raise_max np (bump child)" and ?p = "npath (info child)"
  obtain c where c: "children m = [c]" "wf_node c"
    "ntype (info c) = PGREST_RTREE_NODE_PARAM \<and> ntype (info m) \<noteq> PGREST_RTREE_NODE_CATCHALL \<or>
     ntype (info c) = PGREST_RTREE_NODE_CATCHALL \<and> ntype (info m) = PGREST_RTREE_NODE_CATCHALL \<and> \<not> wild_child (info c)"
    using wild_node_child [OF m(1,2)] by blast
  have co: "c = child" "others = []" using c(1) m(3) by auto
  have wfm: "wf_node m" using m(1) by (simp add: static_node_def)
  have wf_child: "wf_node (RNode (info m) [c'])" if "wf_node c'" "ntype (info c') = ntype (info child)"
      "ntype (info child) = PGREST_RTREE_NODE_CATCHALL \<longrightarrow> wild_child (info c') = wild_child (info child)" for c'
    using that wfm c co m(2) by (cases "ntype (info m)") (auto simp: wf_node.simps wf_node_unfold [of m] node_ok_def)
  show ?thesis
  proof (cases "length ?p \<le> length rest \<and> strncmp_eq (length ?p) ?p rest \<and> (length rest \<le> length ?p \<or> rest ! length ?p = SLASH)")
    case False
    have "add_post child rest {} ?c1"
      using raise_max_post [of "bump child" rest np] c(2) co
      by (auto simp: add_post_def)
    then have "add_post m (npath (info m) @ rest) (prefixed (node_toks (info m)) {}) (RNode (info m) ((children m)[0 := ?c1]))"
      by (intro add_into) (use wf_child c(2) co m(3) in auto)
    then show ?thesis using False m(3) co by (auto simp: Let_def)
  next
    case True
    then have tk: "take (length ?p) rest = ?p" using strncmp_eq_take nul_npath [OF c(2)] co by blast
    define q where "q = drop (length ?p) rest"
    have rq: "rest = ?p @ q" using tk by (metis append_take_drop_id q_def)
    have hq: "q = [] \<or> hd q = SLASH" using True by (cases "length ?p < length rest") (auto simp: q_def hd_drop_conv_nth)
    have "add_at ?c1 rest"
    proof (cases "ntype (info child) = PGREST_RTREE_NODE_PARAM")
      case True
      then show ?thesis using rest rq hq c(2) co by (auto simp: add_at_def)
    next
      case False
      then have ca: "ntype (info child) = PGREST_RTREE_NODE_CATCHALL" "\<not> wild_child (info child)" using c(3) co by auto
      then obtain name where "?p = SLASH # STAR # name" using catchall_leaf(2) [of child] c(2) co by (auto simp: catch_path_def)
      then have "SLASH \<notin> set q" using star_last_after [of "[SLASH]" "name @ q"] rest(3) rq by simp
      then have "q = []" using hq by (cases q) auto
      then show ?thesis using rest rq c(2) co ca by (auto simp: add_at_def)
    qed
    from rec [OF this] obtain ok c' where r: "add_loop ?c1 rest (np - 1) prev (Some h) = Inr (ok, c')"
        "add_post ?c1 rest (if ok then {(parse_pattern rest, h)} else {}) c'"
      by (auto simp: add_ok_def)
    have "add_post m (npath (info m) @ rest) (prefixed (node_toks (info m)) (if ok then {(parse_pattern rest, h)} else {}))
        (RNode (info m) ((children m)[0 := c']))"
    proof (rule add_into [OF _ _ r(2)])
      show "wf_node (RNode (info m) ((children m)[0 := c']))"
        using r(2) wf_child [of c'] m(3) co by (auto simp: add_post_def)
    qed (use m(3) co in \<open>auto\<close>)
    moreover have "parse_pattern (npath (info m) @ rest) = node_toks (info m) @ parse_pattern rest"
    proof (cases "ntype (info m) = PGREST_RTREE_NODE_CATCHALL")
      case True
      then show ?thesis using wfm m(2) by (auto simp: wf_node_unfold [of m] node_ok_def node_toks_def)
    next
      case False
      then have "param_path ?p" using param_children(2) [OF c(2)] c(3) co by simp
      then have "hd rest \<noteq> STAR" using rq by (cases ?p) (auto simp: param_path_def)
      moreover have "ntype (info m) \<noteq> PGREST_RTREE_NODE_PARAM" using param_children(1) [OF wfm] m(2) by blast
      ultimately show ?thesis using node_parse [OF wfm False] by blast
    qed
    ultimately show ?thesis using True r(1) m(3) co by (auto simp: Let_def at_child_def)
  qed
qed


text \<open>The end of the pattern is reached at the node.\<close>

lemma add_end_step:
  assumes "wf_node m" "npath (info m) \<noteq> []" "nhandler (info m) = None"
  shows "add_post m (npath (info m)) {(parse_pattern (npath (info m)), h)} (upd_info (nhandler_update (\<lambda>_. Some h)) m)"
proof -
  have p: "parse_pattern (npath (info m)) = node_toks (info m)"
  proof (cases "ntype (info m) = PGREST_RTREE_NODE_CATCHALL")
    case True
    then have "\<not> wild_child (info m)" "catch_path (npath (info m))"
      using assms(1,2) by (auto simp: wf_node_unfold [of m] node_ok_def split: if_splits)
    with True show ?thesis by (auto simp: catch_path_def node_toks_def)
  next
    case False
    then show ?thesis using node_parse [OF assms(1) False, of "[]"] by simp
  qed
  have "wf_node (upd_info (nhandler_update (\<lambda>_. Some h)) m)"
    using assms(1,2) by (auto simp: wf_node.simps wf_node_unfold [of m] node_ok_def split: rtree_nodetype.splits)
  moreover have "routes (upd_info (nhandler_update (\<lambda>_. Some h)) m) = routes m \<union> {(node_toks (info m), h)}"
    using assms(3) by (auto simp: routes.simps routes_unfold [of m])
  moreover have "starts ch m \<longrightarrow> starts ch (upd_info (nhandler_update (\<lambda>_. Some h)) m)" for ch
    using assms(2) by (auto simp: starts_def Let_def)
  ultimately show ?thesis using p assms(2) by (auto simp: add_post_def)
qed

lemma add_at_starts: "wf_node n \<Longrightarrow> starts (hd path) n \<Longrightarrow> path \<noteq> [] \<Longrightarrow> NUL \<notin> set path \<Longrightarrow> star_last path \<Longrightarrow> add_at n path"
  by (auto simp: add_at_def starts_def Let_def split: rtree_nodetype.splits)

text \<open>A parameter node whose only child continues the pattern.\<close>

lemma add_param_step:
  assumes m: "wf_node m" "ntype (info m) = PGREST_RTREE_NODE_PARAM" "length (children m) = 1"
    and rest: "rest \<noteq> []" "hd rest = SLASH"
    and rec: "\<exists>ok c'. add_loop (bump (children m ! 0)) rest np prev (Some h) = Inr (ok, c') \<and>
      add_post (bump (children m ! 0)) rest (if ok then {(parse_pattern rest, h)} else {}) c'"
  shows "\<exists>ok n'. at_child m 0 (add_loop (bump (children m ! 0)) rest np prev (Some h)) = Inr (ok, n') \<and>
    add_post m (npath (info m) @ rest) (if ok then {(parse_pattern (npath (info m) @ rest), h)} else {}) n'"
proof -
  obtain c where c: "children m = [c]" "starts SLASH c" "wf_node c" using param_children(3) [OF m(1,2)] m(3) by auto
  obtain ok c' where r: "add_loop (bump (children m ! 0)) rest np prev (Some h) = Inr (ok, c')"
      "add_post (bump (children m ! 0)) rest (if ok then {(parse_pattern rest, h)} else {}) c'"
    using rec by blast
  have c': "starts SLASH c'" "wf_node c'" using r(2) c rest(2) by (auto simp: add_post_def)
  have "wf_node (RNode (info m) [c'])"
    using c' param_children(1,2) [OF m(1,2)] m(2) by (simp add: wf_node.simps node_ok_def)
  then have "add_post m (npath (info m) @ rest) (prefixed (node_toks (info m)) (if ok then {(parse_pattern rest, h)} else {}))
      (RNode (info m) ((children m)[0 := c']))"
    by (intro add_into [OF _ _ r(2)]) (use c(1) in simp_all)
  moreover have "parse_pattern (npath (info m) @ rest) = node_toks (info m) @ parse_pattern rest"
    using node_parse [OF m(1), of rest] m(2) rest by simp
  ultimately show ?thesis using r(1) by (auto simp: at_child_def)
qed

lemma wilds_starts: "wf_node c \<Longrightarrow> starts ch c \<Longrightarrow> wilds (npath (info c)) = 0"
  using wilds_npath [of c] by (auto simp: starts_def Let_def)

lemma starts_not_star: "starts ch c \<Longrightarrow> ch \<noteq> STAR"
  by (auto simp: starts_def Let_def)

lemma add_loop_ok:
  assumes "add_at n path" "np = int (wilds path) - int (wilds (npath (info n)))"
  shows "add_ok h n path np prev"
  using assms
proof (induction "add_measure n" arbitrary: n path np prev rule: less_induct)
  case (less n path np prev)
  define i where "i = common_prefix path (npath (info n))"
  define n2 where "n2 = split_round np n path"
  define rest where "rest = drop i path"
  define prev' where "prev' = (if i = 0 then prev else Some (path ! (i - 1)))"
  note ss = split_step(1,2) [OF less.prems(1), where np = np, folded i_def n2_def, folded rest_def]
    split_step(3) [OF less.prems(1), folded i_def]
  have at: "path \<noteq> []" "NUL \<notin> set path" "star_last path" "wf_node n" using less.prems(1) by (auto simp: add_at_def)
  have n2: "wf_node n2" "ntype (info n2) = ntype (info n)" using ss(1) by (auto simp: add_post_def)
  have path: "path = npath (info n2) @ rest" by (rule ss(2))
  have rest: "NUL \<notin> set rest" "star_last rest"
    using at(2,3) star_last_append path by (metis rest_def in_set_dropD, metis)
  have nosplit: "n2 = raise_max np n" if "wild_child (info n2) \<or> ntype (info n) = PGREST_RTREE_NODE_PARAM \<or>
      ntype (info n) = PGREST_RTREE_NODE_CATCHALL"
    using split_round_cases [of np n path] ss(3) that by (auto simp: n2_def i_def)
  have np: "np = int (wilds rest)"
    using less.prems(2) arg_cong [OF path, of wilds] wilds_npath [OF n2(1)] wilds_npath [OF at(4)] n2(2) ss(1)
    by (auto simp: add_post_def split: if_splits)
  have small: "add_measure c < add_measure n" if "node_count c = node_count (children n ! j)" "j < length (children n)" for c j
    using add_measure_child [OF that(2,1)] by (simp add: add_measure_def)
  let ?X = "if rest \<noteq> [] then
       if wild_child (info n2) then
         (case children n2 of
            [] \<Rightarrow> Inl OutOfBounds
          | child # others \<Rightarrow>
              let c1 = raise_max np (bump child); p = npath (info c1) in
              if length rest \<ge> length p \<and> strncmp_eq (length p) p rest \<and>
                 (length p \<ge> length rest \<or> rest ! length p = SLASH)
              then at_child n2 0 (add_loop c1 rest (np - 1) prev' (Some h))
              else Inr (False, RNode (info n2) (c1 # others)))
       else if hd rest = SLASH \<and> length (children n2) = 1 \<and> ntype (info n2) = PGREST_RTREE_NODE_PARAM
       then at_child n2 0 (add_loop (bump (children n2 ! 0)) rest np prev' (Some h))
       else
         (case find_index (hd rest) (indices (info n2)) of
            Some j \<Rightarrow>
              (case pgrest_rtree_child_priority n2 j of
                 Inl u \<Rightarrow> Inl u
               | Inr (j', node3) \<Rightarrow>
                   if j' < length (children node3)
                   then at_child node3 j' (add_loop (children node3 ! j') rest np prev' (Some h))
                   else Inl OutOfBounds)
          | None \<Rightarrow> add_child n2 np rest prev' (Some h))
     else if nhandler (info n2) \<noteq> None then Inr (False, n2)
     else Inr (True, upd_info (nhandler_update (\<lambda>_. Some h)) n2)"
  have "i < length path \<longleftrightarrow> rest \<noteq> []" by (simp add: rest_def not_le)
  then have run: "add_loop n path np prev (Some h) = ?X"
    unfolding add_loop.simps [of n] Let_def i_def [symmetric] n2_def [symmetric] rest_def [symmetric] prev'_def [symmetric]
    by simp
  have fin: ?case if "?X = Inr (ok, n')" "add_post n2 path (if ok then {(parse_pattern path, h)} else {}) n'" for ok n'
    using that(1) add_post_trans [OF ss(1) that(2)] unfolding add_ok_def run by (intro exI conjI) simp_all
  have "\<exists>ok n'. ?X = Inr (ok, n') \<and> add_post n2 path (if ok then {(parse_pattern path, h)} else {}) n'"
  proof -
    consider (last) "rest = []" | (wild) "rest \<noteq> []" "wild_child (info n2)"
      | (param) "rest \<noteq> []" "\<not> wild_child (info n2)" "ntype (info n2) = PGREST_RTREE_NODE_PARAM" "length (children n2) = 1"
      | (found) j where "rest \<noteq> []" "\<not> wild_child (info n2)" "ntype (info n2) \<noteq> PGREST_RTREE_NODE_PARAM"
          "find_index (hd rest) (indices (info n2)) = Some j"
      | (new) "rest \<noteq> []" "\<not> wild_child (info n2)" "find_index (hd rest) (indices (info n2)) = None"
          "ntype (info n2) = PGREST_RTREE_NODE_PARAM \<longrightarrow> children n2 = []"
      using param_children(3) [OF n2(1)]
      by (cases "rest = []"; cases "wild_child (info n2)"; cases "find_index (hd rest) (indices (info n2))";
          cases "ntype (info n2) = PGREST_RTREE_NODE_PARAM") auto
    then show ?thesis
    proof cases
      case last
      then have p: "path = npath (info n2)" "npath (info n2) \<noteq> []" using path at(1) by auto
      show ?thesis
      proof (cases "nhandler (info n2)")
        case None
        then show ?thesis using last add_end_step [OF n2(1) p(2) None, of h] p(1) by auto
      next
        case (Some h')
        have "add_post n2 path {} n2" using n2(1) by (simp add: add_post_def)
        then show ?thesis using last Some by auto
      qed
    next
      case wild
      then have st: "static_node n2" using n2(1) by (simp add: static_node_def)
      have eq: "n2 = raise_max np n" using nosplit wild(2) by simp
      obtain child others where ch: "children n2 = child # others" using wild_node_child [OF st wild(2)] by blast
      have "add_ok h (raise_max np (bump child)) rest (np - 1) prev'" if a: "add_at (raise_max np (bump child)) rest"
      proof (rule less.hyps [OF _ a])
        show "add_measure (raise_max np (bump child)) < add_measure n" using ch eq by (intro small [of _ 0]) auto
        show "np - 1 = int (wilds rest) - int (wilds (npath (info (raise_max np (bump child)))))"
          using np wilds_npath [of child] wild_node_child [OF st wild(2)] ch by fastforce
      qed
      from add_wild_step [OF st wild(2) ch wild(1) rest np this, folded path] show ?thesis
        using wild ch by (simp split del: if_split)
    next
      case param
      then have eq: "n2 = raise_max np n" using nosplit n2(2) by simp
      have hd: "hd rest = SLASH"
        using less.prems(1) path param(1,3) eq by (auto simp: add_at_def)
      obtain c where c: "children n2 = [c]" "starts SLASH c" "wf_node c"
        using param_children(3) [OF n2(1) param(3)] param(4) by auto
      have "add_ok h (bump c) rest np prev'"
      proof (rule less.hyps)
        show "add_measure (bump c) < add_measure n" using c(1) eq by (intro small [of _ 0]) auto
        show "add_at (bump c) rest" using c(2,3) rest param(1) hd by (intro add_at_starts) auto
        show "np = int (wilds rest) - int (wilds (npath (info (bump c))))" using np wilds_starts [OF c(3,2)] by simp
      qed
      then show ?thesis
        using add_param_step [OF n2(1) param(3,4) param(1) hd, of np prev' h, folded path] param c(1) hd
        by (simp add: add_ok_def split del: if_split)
    next
      case found
      have eq: "n2 = raise_max np n"
        using split_round_cases [of np n path] found(4) common_prefix_differ [of path "npath (info n)"] found(1)
        by (auto simp: n2_def i_def rest_def hd_drop_conv_nth split: if_splits)
      have st: "static_node n2"
        using less.prems(1) n2 found(1-3) eq path
        by (cases "ntype (info n2)") (auto simp: static_node_def add_at_def)
      note ch = static_children [OF st found(2)]
      have j: "j < length (children n2)" "indices (info n2) ! j = hd rest" using find_index_Some [OF found(4)] ch(1) by auto
      let ?c = "children n2 ! j"
      have c: "wf_node ?c" "starts (hd rest) ?c" using ch(3,4) [OF j(1)] j(2) by auto
      have "add_ok h (bump ?c) rest np prev'"
      proof (rule less.hyps)
        show "add_measure (bump ?c) < add_measure n" using j(1) eq by (intro small [of _ j]) auto
        show "add_at (bump ?c) rest" using c rest found(1) by (intro add_at_starts) auto
        show "np = int (wilds rest) - int (wilds (npath (info (bump ?c))))" using np wilds_starts [OF c] by simp
      qed
      then have rec: "\<exists>ok c'. add_loop (bump ?c) rest np prev' (Some h) = Inr (ok, c') \<and>
          add_post (bump ?c) rest (if ok then {(parse_pattern rest, h)} else {}) c'" by (simp only: add_ok_def)
      have "parse_pattern path = node_toks (info n2) @ parse_pattern rest"
        using node_parse [OF n2(1), of rest] st found(2,3) starts_not_star [OF c(2)] path by (auto simp: static_node_def)
      then have "prefixed (node_toks (info n2)) (if ok then {(parse_pattern rest, h)} else {}) =
          (if ok then {(parse_pattern path, h)} else {})" for ok
        by simp
      from add_found_ok [OF st found(2,4) rec, of path, unfolded this] show ?thesis
        using found by (simp split del: if_split)
    next
      case new
      have len: "length (npath (info n2)) = i"
        using arg_cong [OF path, of length] common_prefix_take(2) [of path "npath (info n)"] by (simp add: rest_def i_def)
      have nca: "ntype (info n2) \<noteq> PGREST_RTREE_NODE_CATCHALL"
        using less.prems(1) n2(2) new(1,2) nosplit path by (auto simp: add_at_def)
      have par: "children n2 = [] \<and> hd rest = SLASH" if "ntype (info n2) = PGREST_RTREE_NODE_PARAM"
        using that new n2(2) nosplit less.prems(1) path by (auto simp: add_at_def)
      have star: "npath (info n2) \<noteq> [] \<and> prev' = Some (last (npath (info n2)))" if s: "hd rest = STAR"
      proof -
        have "i \<noteq> 0"
        proof
          assume "i = 0"
          then have "hd path = STAR" using s by (simp add: rest_def)
          then show False using less.prems(1) nca n2(2) par s starts_not_star
            by (auto simp: add_at_def split: rtree_nodetype.splits)
        qed
        moreover have "last (npath (info n2)) = path ! (i - 1)"
          using path len calculation by (metis last_conv_nth length_greater_0_conv neq0_conv nth_append diff_less zero_less_one)
        ultimately show ?thesis using len by (auto simp: prev'_def)
      qed
      have "hd rest \<notin> set (indices (info n2))" using new(3) by (simp add: find_index_None)
      from add_child_ok [OF n2(1) new(2) nca par new(1) this rest(1) star, of h, folded path] show ?thesis
        using new par np by (cases "ntype (info n2) = PGREST_RTREE_NODE_PARAM") (simp_all split del: if_split)
    qed
  qed
  then show ?case using fin by (elim exE conjE)
qed


end
