(* ===== verification/Router.thy ===== *)
theory Router
  imports RoutingAdd
begin

text \<open>
  The router as its users see it: a table of patterns that grows by \<^verbatim>\<open>pgrest_rtree_add\<close>
  and is asked by \<^verbatim>\<open>pgrest_rtree_find\<close>. The interface is a locale with the two laws the
  tree proofs establish; what follows from them for any sequence of adds is proved there
  once and read off for the radix tree.
\<close>

section \<open>Patterns the configuration may add\<close>

definition good_pattern :: "string \<Rightarrow> bool" where
  "good_pattern p \<longleftrightarrow> p \<noteq> [] \<and> hd p \<noteq> STAR \<and> NUL \<notin> set p \<and> star_last p \<and> wilds p < 255"

definition tree_ok :: "'h rtree_node \<Rightarrow> bool" where
  "tree_ok n \<longleftrightarrow> wf_node n \<and> (npath (info n) = [] \<longrightarrow> nhandler (info n) = None) \<and>
     (ntype (info n) = PGREST_RTREE_NODE_ROOT \<or>
      ntype (info n) = PGREST_RTREE_NODE_STATIC \<and> npath (info n) = [] \<and> children n = [])"

lemma tree_ok_create: "tree_ok pgrest_rtree_create" "routes pgrest_rtree_create = {}"
  by (simp_all add: tree_ok_def pgrest_rtree_create_def INIT_NODE_def wf_node.simps node_ok_def routes.simps)

lemma add_empty:
  assumes "tree_ok n" "npath (info n) = []" "children n = []" "good_pattern p"
  defines "m \<equiv> RNode ((info (bump n))\<lparr>ntype := PGREST_RTREE_NODE_ROOT\<rparr>) []"
  shows "\<exists>ok n'. pgrest_rtree_child_insert m (int (wilds p)) p None (Some h) = Inr (ok, n') \<and>
    tree_ok n' \<and> routes n' = (if ok then {(parse_pattern p, h)} else {})"
proof -
  have "\<not> wild_child (info n) \<and> indices (info n) = []"
    using assms(1-3) by (cases "ntype (info n)") (auto simp: tree_ok_def wf_node_unfold [of n] node_ok_def split: if_splits)
  then have fr: "fresh_info (info m)" using assms by (auto simp: m_def fresh_info_def tree_ok_def)
  have m: "m = RNode (info m) []" "ntype (info m) = PGREST_RTREE_NODE_ROOT" by (simp_all add: m_def)
  have p: "p \<noteq> []" "hd p \<noteq> STAR" "NUL \<notin> set p" using assms(4) by (auto simp: good_pattern_def)
  show ?thesis
  proof (cases "is_wild (hd p)")
    case False
    have "0 < length p" "\<not> is_wild (p ! 0)" using p(1) False by (auto simp: hd_conv_nth)
    from child_insert_fresh [OF this p(3) fr, of None h] obtain ok n' where
      "child_insert_loop m (int (wilds p)) p 0 0 None (Some h) = Inr (ok, n')" "inserted PGREST_RTREE_NODE_ROOT p h (ok, n')"
      using m by auto
    then show ?thesis
      by (auto simp: pgrest_rtree_child_insert_def inserted_def tree_ok_def split: if_splits)
  next
    case True
    have "static_node m" "\<not> wild_child (info m)"
      using fr m by (auto simp: static_node_def fresh_info_def m_def wf_node.simps node_ok_def)
    from child_insert_wild [OF this _ _ p(1) True p(3), of None h] m(2) p(2) obtain ok n' w where
      r: "pgrest_rtree_child_insert m (int (wilds p)) p None (Some h) = Inr (ok, n')" "wf_node n'"
        "info n' = (info m)\<lparr>wild_child := w\<rparr>"
        "routes n' = (if ok then routes m \<union> {(map Lit (npath (info m)) @ parse_pattern p, h)} else routes m)"
      by auto
    have "routes m = {}" using fr by (auto simp: m_def fresh_info_def routes.simps)
    with r fr m(2) show ?thesis by (auto simp: tree_ok_def fresh_info_def)
  qed
qed

lemma rtree_add_ok:
  assumes "tree_ok n" "good_pattern p"
  shows "\<exists>ok n'. pgrest_rtree_add n p (Some h) = Inr (ok, n') \<and> tree_ok n' \<and>
    routes n' = (if ok then insert (parse_pattern p, h) (routes n) else routes n)"
proof -
  have np: "int (pgrest_count_params p) = int (wilds p)"
    using assms(2) count_params_wilds by (simp add: good_pattern_def)
  show ?thesis
  proof (cases "npath (info n) = [] \<and> children n = []")
    case True
    then have "routes n = {}" using assms(1) by (auto simp: tree_ok_def routes_unfold [of n])
    with True add_empty [OF assms(1) _ _ assms(2), of h] show ?thesis
      by (auto simp: pgrest_rtree_add_def Let_def np)
  next
    case False
    then have root: "ntype (info n) = PGREST_RTREE_NODE_ROOT" "wf_node n" using assms(1) by (auto simp: tree_ok_def)
    have at: "add_at (bump n) p"
      using root assms False by (auto simp: add_at_def good_pattern_def tree_ok_def)
    have "int (wilds p) = int (wilds p) - int (wilds (npath (info (bump n))))"
      using wilds_npath [of n] root by simp
    from add_loop_ok [OF at this, of h None] obtain ok n' where
      r: "add_loop (bump n) p (int (wilds p)) None (Some h) = Inr (ok, n')"
        "add_post (bump n) p (if ok then {(parse_pattern p, h)} else {}) n'"
      by (auto simp: add_ok_def)
    then have "tree_ok n'" using root assms(1) by (auto simp: add_post_def tree_ok_def)
    moreover have "pgrest_rtree_add n p (Some h) = Inr (ok, n')"
      using False r(1) np by (auto simp: pgrest_rtree_add_def Let_def)
    ultimately show ?thesis using r(2) by (auto simp: add_post_def)
  qed
qed

lemma rtree_find_ok:
  assumes "tree_ok n"
  shows "(\<exists>r. pgrest_rtree_find n path m = Inr r) \<and>
    (pgrest_rtree_find n path m = Inr (Some (Some h), qs) \<longleftrightarrow>
       (\<exists>ts. (ts, h) \<in> routes n \<and> match ts path = Some qs \<and> length qs \<le> m))"
proof -
  have "find_at n path" using assms by (auto simp: tree_ok_def find_at_def)
  from find_loop_ok [OF this, of "[]" m] show ?thesis
    by (auto simp: pgrest_rtree_find_def find_ok_def found_def)
qed

section \<open>A table of routes\<close>

text \<open>Adding a list of patterns one after the other; the accepted ones are collected.\<close>

fun add_all :: "('t \<Rightarrow> string \<Rightarrow> 'h option \<Rightarrow> (bool \<times> 't) run) \<Rightarrow> 't \<Rightarrow> (string \<times> 'h) list \<Rightarrow> ((string \<times> 'h) list \<times> 't) run" where
  "add_all add t [] = Inr ([], t)"
| "add_all add t ((p, h) # ps) =
     (case add t p (Some h) of
        Inl u \<Rightarrow> Inl u
      | Inr (ok, t') \<Rightarrow>
          (case add_all add t' ps of
             Inl u \<Rightarrow> Inl u
           | Inr (acc, t'') \<Rightarrow> Inr (if ok then (p, h) # acc else acc, t'')))"

locale route_table =
  fixes empty :: 't
    and add :: "'t \<Rightarrow> string \<Rightarrow> 'h option \<Rightarrow> (bool \<times> 't) run"
    and lookup :: "'t \<Rightarrow> string \<Rightarrow> nat \<Rightarrow> ('h option option \<times> rtree_param list) run"
    and table :: "'t \<Rightarrow> (tok list \<times> 'h) set"
    and inv :: "'t \<Rightarrow> bool"
  assumes inv_empty: "inv empty" "table empty = {}"
    and add_law: "inv t \<Longrightarrow> good_pattern p \<Longrightarrow>
      \<exists>ok t'. add t p (Some h) = Inr (ok, t') \<and> inv t' \<and>
        table t' = (if ok then insert (parse_pattern p, h) (table t) else table t)"
    and lookup_law: "inv t \<Longrightarrow>
      (\<exists>r. lookup t path m = Inr r) \<and>
      (lookup t path m = Inr (Some (Some h), qs) \<longleftrightarrow>
         (\<exists>ts. (ts, h) \<in> table t \<and> match ts path = Some qs \<and> length qs \<le> m))"
begin

lemma add_all_table:
  assumes "inv t" "\<forall>(p, h) \<in> set ps. good_pattern p"
  shows "\<exists>acc t'. add_all add t ps = Inr (acc, t') \<and> set acc \<subseteq> set ps \<and> inv t' \<and>
    table t' = (\<lambda>(p, h). (parse_pattern p, h)) ` set acc \<union> table t"
  using assms
proof (induction ps arbitrary: t)
  case Nil
  then show ?case by simp
next
  case (Cons x ps)
  obtain p h where x: "x = (p, h)" by (cases x)
  with Cons.prems add_law obtain ok t1 where
    1: "add t p (Some h) = Inr (ok, t1)" "inv t1"
      "table t1 = (if ok then insert (parse_pattern p, h) (table t) else table t)" by fastforce
  from Cons.IH [OF 1(2)] Cons.prems(2) obtain acc t2 where
    2: "add_all add t1 ps = Inr (acc, t2)" "set acc \<subseteq> set ps" "inv t2"
      "table t2 = (\<lambda>(p, h). (parse_pattern p, h)) ` set acc \<union> table t1" by auto
  show ?case using x 1 2 by (cases ok) auto
qed

lemma lookup_after_adds:
  assumes "\<forall>(p, h) \<in> set ps. good_pattern p"
  shows "\<exists>acc t. add_all add empty ps = Inr (acc, t) \<and> set acc \<subseteq> set ps \<and>
    (\<forall>path m. \<exists>r. lookup t path m = Inr r) \<and>
    (\<forall>path m h qs. lookup t path m = Inr (Some (Some h), qs) \<longleftrightarrow>
       (\<exists>p. (p, h) \<in> set acc \<and> match (parse_pattern p) path = Some qs \<and> length qs \<le> m))"
proof -
  from add_all_table [OF inv_empty(1) assms] inv_empty(2) obtain acc t where
    r: "add_all add empty ps = Inr (acc, t)" "set acc \<subseteq> set ps" "inv t"
      "table t = (\<lambda>(p, h). (parse_pattern p, h)) ` set acc" by auto
  have "lookup t path m = Inr (Some (Some h), qs) \<longleftrightarrow>
      (\<exists>p. (p, h) \<in> set acc \<and> match (parse_pattern p) path = Some qs \<and> length qs \<le> m)" for path m h qs
  proof -
    have "(ts, h) \<in> table t \<longleftrightarrow> (\<exists>p. (p, h) \<in> set acc \<and> ts = parse_pattern p)" for ts
      unfolding r(4) by force
    then show ?thesis using lookup_law [OF r(3), of path m h qs] by auto
  qed
  moreover have "\<exists>r. lookup t path m = Inr r" for path m using lookup_law [OF r(3)] by blast
  ultimately show ?thesis using r(1,2) by blast
qed

end

interpretation rt: route_table pgrest_rtree_create pgrest_rtree_add pgrest_rtree_find routes tree_ok
  by unfold_locales (rule tree_ok_create rtree_add_ok rtree_find_ok; assumption?)+

section \<open>Properties\<close>





text \<open>
  A pattern below a catch-all is accepted and never reached: the comparison with the
  wildcard node accepts a following slash for catch-all nodes as well, so \<open>/s/*x/y\<close> is added
  below \<open>/s/*x\<close> although a catch-all is only allowed at the end of a pattern, and the lookup
  of \<open>/s/a/y\<close> gives the catch-all's handler.
\<close>

theorem catchall_child_accepted:
  "map_sum id (\<lambda>(acc, t). (acc, pgrest_rtree_find t ''/s/a/y'' 4))
     (add_all pgrest_rtree_add pgrest_rtree_create [(''/s/*x'', True), (''/s/*x/y'', False)]) =
   Inr ([(''/s/*x'', True), (''/s/*x/y'', False)], Inr (Some (Some True), [(''x'', ''/a/y'')]))"
  by code_simp

end
