(* ===== verification/Upstream.thy ===== *)
theory Upstream
  imports Inet Arrays
begin

text \<open>
  The upstream table of \<^verbatim>\<open>src/pg_rest_http_upstream.c\<close> and
  \<^verbatim>\<open>include/pg_rest_http_upstream.h\<close>. The file's global \<open>pgrest_http_upstreams\<close> is an array
  of pointers, NULL until the first \<open>upstream\<close> directive; the structures they point to are
  palloc'd and never freed, so a pointer is the index of the structure in a list that only
  grows. A returned NULL is None, a \<open>pgrest_string_t\<close> is its bytes, \<open>naddrs\<close> the length of
  the address list. \<open>Assert\<close> is compiled out.
\<close>

section \<open>The table\<close>

datatype rpolicy =
    PGREST_HTTP_UPSTREAM_RWSPLIT
  | PGREST_HTTP_UPSTREAM_SHARDING
  | PGREST_HTTP_UPSTREAM_UNKNOW

record upstream_server =
  us_name :: string
  us_addrs :: "pgrest_addr list"

record upstream_srv_conf =
  policy :: rpolicy
  us_servers :: "upstream_server pgrest_array option"
  us_create :: bool
  us_host :: string
  us_port :: nat
  us_default_port :: nat
  us_no_port :: bool

record up_state =
  http_upstreams :: "nat pgrest_array option"
  srv_confs :: "upstream_srv_conf list"

text \<open>The sizes of a pointer and of an upstream server, for the arrays.\<close>

definition sizeof_pointer :: nat where "sizeof_pointer = 8"
definition sizeof_upstream_server :: nat where "sizeof_upstream_server = 32"

text \<open>\<open>palloc0\<close> of a \<open>pgrest_http_upstream_srv_conf_t\<close>: the policy 0 is \<open>RWSPLIT\<close>.\<close>

definition zero_srv_conf :: upstream_srv_conf where
  "zero_srv_conf = \<lparr>policy = PGREST_HTTP_UPSTREAM_RWSPLIT, us_servers = None, us_create = False, us_host = [],
     us_port = 0, us_default_port = 0, us_no_port = False\<rparr>"

definition zero_server :: upstream_server where
  "zero_server = \<lparr>us_name = [], us_addrs = []\<rparr>"

abbreviation new_conf :: "upstream_srv_conf \<Rightarrow> up_state \<Rightarrow> up_state" where
  "new_conf c st \<equiv> st\<lparr>srv_confs := srv_confs st @ [c]\<rparr>"

abbreviation upd_conf :: "nat \<Rightarrow> (upstream_srv_conf \<Rightarrow> upstream_srv_conf) \<Rightarrow> up_state \<Rightarrow> up_state" where
  "upd_conf i f st \<equiv> st\<lparr>srv_confs := (srv_confs st)[i := f (srv_confs st ! i)]\<rparr>"

section \<open>Directives\<close>

definition pgrest_http_upstream_conf :: "pg_mem \<Rightarrow> up_state \<Rightarrow> nat option \<times> up_state" where
  "pgrest_http_upstream_conf pg st =
     (let ups = (case http_upstreams st of Some a \<Rightarrow> Some a | None \<Rightarrow> pgrest_array_create pg 2 sizeof_pointer);
          st1 = st\<lparr>http_upstreams := ups\<rparr>;
          i = length (srv_confs st)
      in case ups of
           None \<Rightarrow> (None, st1)
         | Some a \<Rightarrow>
             let st2 = new_conf (zero_srv_conf\<lparr>policy := PGREST_HTTP_UPSTREAM_UNKNOW\<rparr>) st1 in
             (case array_append pg i a of
                None \<Rightarrow> (None, st2)
              | Some a' \<Rightarrow> (Some i, st2\<lparr>http_upstreams := Some a'\<rparr>)))"

text \<open>The pushed server is named by the conf it belongs to and its index there.\<close>

definition pgrest_http_upstream_server_conf :: "pg_mem \<Rightarrow> nat \<Rightarrow> up_state \<Rightarrow> (nat option \<times> up_state) run" where
  "pgrest_http_upstream_server_conf pg i st =
     (case us_servers (srv_confs st ! i) of
        None \<Rightarrow> Inl NullDeref
      | Some a \<Rightarrow>
          (case array_append pg zero_server a of
             None \<Rightarrow> Inr (None, st)
           | Some a' \<Rightarrow> Inr (Some (asize a), upd_conf i (us_servers_update (\<lambda>_. Some a')) st)))"

datatype add_step = Skip | Refuse | Take

definition same_host :: "string \<Rightarrow> string \<Rightarrow> bool" where
  "same_host a b \<longleftrightarrow> length a = length b \<and> c_string (pgrest_strtolower a) = c_string (pgrest_strtolower b)"

text \<open>One round of the loop of \<open>pgrest_http_upstream_add\<close>: \<open>continue\<close>, \<open>return false\<close> or \<open>return true\<close>.\<close>

definition upstream_add_step :: "pgrest_url \<Rightarrow> bool \<Rightarrow> upstream_srv_conf \<Rightarrow> add_step" where
  "upstream_add_step u create c =
     (if \<not> same_host (us_host c) (host u) then Skip
      else if create \<and> us_create c then Refuse
      else if us_create c \<and> \<not> no_port u then Refuse
      else if create \<and> \<not> us_no_port c then Refuse
      else if us_port c \<noteq> 0 \<and> port u \<noteq> 0 \<and> us_port c \<noteq> port u then Skip
      else if us_default_port c \<noteq> 0 \<and> default_port u \<noteq> 0 \<and> us_default_port c \<noteq> default_port u then Skip
      else Take)"

fun upstream_add_loop :: "pgrest_url \<Rightarrow> bool \<Rightarrow> upstream_srv_conf list \<Rightarrow> add_step" where
  "upstream_add_loop u create [] = Skip"
| "upstream_add_loop u create (c # cs) =
     (case upstream_add_step u create c of Skip \<Rightarrow> upstream_add_loop u create cs | r \<Rightarrow> r)"

definition listed :: "up_state \<Rightarrow> nat pgrest_array \<Rightarrow> upstream_srv_conf list" where
  "listed st a = map (\<lambda>i. srv_confs st ! i) (contents a)"

text \<open>The fields of a new or of the given upstream, and its single server if the URL names one.\<close>

definition upstream_fill :: "pg_mem \<Rightarrow> pgrest_url \<Rightarrow> bool \<Rightarrow> nat \<Rightarrow> up_state \<Rightarrow> bool \<times> up_state" where
  "upstream_fill pg u create i st =
     (let st1 = upd_conf i (\<lambda>c. c\<lparr>us_create := create, us_host := host u, us_port := port u,
                  us_default_port := default_port u, us_no_port := no_port u\<rparr>) st in
      if length (addrs u) = 1 \<and> (port u \<noteq> 0 \<or> family u = F_UNIX) then
        (case pgrest_array_create pg 1 sizeof_upstream_server of
           None \<Rightarrow> (False, upd_conf i (us_servers_update (\<lambda>_. None)) st1)
         | Some a \<Rightarrow>
             (case array_append pg (zero_server\<lparr>us_addrs := addrs u\<rparr>) a of
                None \<Rightarrow> (False, upd_conf i (us_servers_update (\<lambda>_. Some a)) st1)
              | Some a' \<Rightarrow> (True, upd_conf i (us_servers_update (\<lambda>_. Some a')) st1)))
      else (True, st1))"

text \<open>
  \<open>conf\<close> is the value of \<open>*conf\<close> on entry; the source never stores through \<open>conf\<close>, so the
  caller's pointer keeps this value.
\<close>

definition pgrest_http_upstream_add ::
  "pg_mem \<Rightarrow> inet_lib \<Rightarrow> pgrest_url \<Rightarrow> bool \<Rightarrow> nat option \<Rightarrow> up_state \<Rightarrow> (bool \<times> up_state) run" where
  "pgrest_http_upstream_add pg lib u create conf st =
     (case (if create then Inr (True, u) else pgrest_inet_parse_url lib u) of
        Inl e \<Rightarrow> Inl e
      | Inr (ok, u) \<Rightarrow>
          if \<not> ok then Inr (False, st)
          else
            (case http_upstreams st of
               None \<Rightarrow> Inl NullDeref
             | Some a \<Rightarrow>
                 (case upstream_add_loop u create (listed st a) of
                    Refuse \<Rightarrow> Inr (False, st)
                  | Take \<Rightarrow> Inr (True, st)
                  | Skip \<Rightarrow>
                      (case conf of
                         Some i \<Rightarrow> Inr (upstream_fill pg u create i st)
                       | None \<Rightarrow>
                           (case array_append pg (length (srv_confs st)) a of
                              None \<Rightarrow> Inr (False, st)
                            | Some a' \<Rightarrow>
                                Inr (upstream_fill pg u create (length (srv_confs st))
                                  (new_conf zero_srv_conf (st\<lparr>http_upstreams := Some a'\<rparr>))))))))"

text \<open>The URL of a \<open>name\<close> directive, over a zeroed \<open>pgrest_url_t\<close>.\<close>

definition zero_url :: pgrest_url where
  "zero_url = \<lparr>url = [], host = [], port_text = [], port = 0, default_port = 0, family = F_INET, listen = False,
     no_resolve = False, no_port = False, wildcard = False, socklen = 0, u_sockaddr = AF_INET 0 0, addrs = [], err = None\<rparr>"

text \<open>False stands for \<open>ereport(ERROR)\<close>.\<close>

definition pgrest_http_upstream_name :: "pg_mem \<Rightarrow> inet_lib \<Rightarrow> string \<Rightarrow> nat \<Rightarrow> up_state \<Rightarrow> (bool \<times> up_state) run" where
  "pgrest_http_upstream_name pg lib value i st =
     (case pgrest_http_upstream_add pg lib (zero_url\<lparr>host := value, no_resolve := True, no_port := True\<rparr>) True (Some i) st of
        Inl e \<Rightarrow> Inl e
      | Inr (ok, st1) \<Rightarrow>
          if \<not> ok then Inr (False, st1)
          else
            let a = pgrest_array_create pg 2 sizeof_upstream_server in
            Inr (a \<noteq> None, upd_conf i (us_servers_update (\<lambda>_. a)) st1))"

definition pgrest_http_upstream_algorithm :: "string \<Rightarrow> nat \<Rightarrow> up_state \<Rightarrow> bool \<times> up_state" where
  "pgrest_http_upstream_algorithm value i st =
     (if value = ''rw/split'' then (True, upd_conf i (policy_update (\<lambda>_. PGREST_HTTP_UPSTREAM_RWSPLIT)) st)
      else if value = ''sharding'' then (True, upd_conf i (policy_update (\<lambda>_. PGREST_HTTP_UPSTREAM_SHARDING)) st)
      else (False, st))"

text \<open>
  When the parser refuses without a message the source goes on with what the URL holds;
  every refusal of the parser has one.
\<close>

definition pgrest_http_upstream_saddress ::
  "inet_lib \<Rightarrow> string \<Rightarrow> nat \<Rightarrow> nat \<Rightarrow> up_state \<Rightarrow> (bool \<times> up_state) run" where
  "pgrest_http_upstream_saddress lib value i j st =
     (case pgrest_inet_parse_url lib (zero_url\<lparr>url := value, default_port := 5432\<rparr>) of
        Inl e \<Rightarrow> Inl e
      | Inr (ok, u) \<Rightarrow>
          if \<not> ok \<and> err u \<noteq> None then Inr (False, st)
          else
            (case us_servers (srv_confs st ! i) of
               None \<Rightarrow> Inl NullDeref
             | Some a \<Rightarrow>
                 Inr (True, upd_conf i (us_servers_update (\<lambda>_. Some (array_store a j
                   \<lparr>us_name = url u, us_addrs = addrs u\<rparr>))) st)))"

section \<open>The check at startup\<close>

fun upstream_init_loop :: "upstream_srv_conf list \<Rightarrow> bool run" where
  "upstream_init_loop [] = Inr True"
| "upstream_init_loop (c # cs) =
     (case us_servers c of
        None \<Rightarrow> Inl NullDeref
      | Some a \<Rightarrow>
          if asize a = 0 then Inr False
          else if asize a > 1 \<and> policy c = PGREST_HTTP_UPSTREAM_UNKNOW then Inr False
          else upstream_init_loop cs)"

definition pgrest_http_upstream_init :: "up_state \<Rightarrow> bool run" where
  "pgrest_http_upstream_init st =
     (case http_upstreams st of None \<Rightarrow> Inl NullDeref | Some a \<Rightarrow> upstream_init_loop (listed st a))"

end
