(* ===== verification/ConfTypes.thy ===== *)
theory ConfTypes
  imports Upstream Rtree
begin

text \<open>
  The configuration objects of \<^verbatim>\<open>include/pg_rest_conf.h\<close>, \<^verbatim>\<open>include/pg_rest_guc.h\<close> and
  \<^verbatim>\<open>include/pg_rest_http_core.h\<close>, the heap they live in while the configuration file is
  read, and the environment of the reader: the compile-time options, the memory manager,
  the resolver and the few functions of PostgreSQL and of the C library it calls.

  Servers and listeners are elements of two arrays of the settings, locations, handlers
  and upstreams are allocated one by one; a pointer to an object is the constructor of its
  type with its index (\<open>obj\<close>). The back pointers \<open>conf_main\<close> (there is one settings object)
  and the \<open>void *\<close> of a handler are left out. A stored pointer to a server goes on naming
  the same index when the array of servers is moved: the old block is never freed and
  holds a copy that is complete by then.
\<close>

section \<open>Objects\<close>

record conf_listener =
  l_sockaddr :: sockaddr
  l_socklen :: nat
  l_set :: bool
  l_default_server :: bool
  l_bind :: bool
  l_wildcard :: bool
  l_ssl :: bool
  l_http2 :: bool
  l_ipv6only :: bool
  l_reuseport :: bool
  l_so_keepalive :: int
  l_backlog :: int
  l_rcvbuf :: int
  l_sndbuf :: int
  l_setfib :: int
  l_fastopen :: int
  l_tcp_keepidle :: int
  l_tcp_keepintvl :: int
  l_tcp_keepcnt :: int
  l_accept_filter :: string
  l_deferred_accept :: bool
  l_addr :: string

record http_server_name =
  sn_name :: string
  sn_server :: nat

record conf_http_server =
  server_name :: string
  ssl_certificate :: string
  ssl_certificate_key :: string
  ssl_session_cache :: bool
  ssl_session_timeout :: int
  tcp_nopush :: bool
  tcp_nodelay :: bool
  keepalive_timeout :: int
  client_header_timeout :: int
  client_header_buffer_size :: int
  client_max_header_size :: int
  client_max_body_size :: int
  client_body_timeout :: int
  client_body_buffer_size :: int
  lingering_time :: int
  lingering_timeout :: int
  lingering_close :: int
  reset_timedout_connection :: bool
  server_names :: "http_server_name pgrest_array"
  paths :: "nat rtree_node"
  s_listen :: bool

text \<open>The handlers a location can have, by the index of their own configuration.\<close>

datatype http_handler = Postgres nat | PushStream nat

datatype obj =
    ONull
  | OSetting
  | OServer nat
  | OListener nat
  | OPath nat
  | OPostgres nat
  | OPush nat
  | OUpstream nat
  | OUserver nat nat

record conf_http_path =
  p_path :: string
  handlers :: "http_handler pgrest_array"
  filters :: "nat pgrest_array"
  conf_server :: obj

record postgres_conf =
  pg_pass :: string
  dbname :: string
  encode :: string
  pg_upstream :: "nat option"

datatype push_mode =
    PGREST_HTTP_PUSH_STREAM_PUB
  | PGREST_HTTP_PUSH_STREAM_SUB
  | PGREST_HTTP_PUSH_STREAM_ADMIN
  | PGREST_HTTP_PUSH_STREAM_UNKNOW

record push_stream_conf =
  mode :: push_mode
  param_name :: "string option"
  store_message :: bool

record setting =
  worker_processes :: int
  worker_priority :: int
  worker_noconn :: int
  worker_nofile :: int
  acceptor_mutex :: bool
  acceptor_mutex_delay :: int
  acceptor_multi_accept :: bool
  temp_buffer_path :: string
  conf_http_servers :: "conf_http_server pgrest_array"
  conf_listeners :: "conf_listener pgrest_array"

record conf_state =
  setting :: setting
  http_paths :: "conf_http_path list"
  postgres_confs :: "postgres_conf list"
  push_confs :: "push_stream_conf list"
  upstream :: up_state

section \<open>The environment\<close>

record conf_build =
  HAVE_OPENSSL :: bool
  HAVE_ACCEPTFILTER :: bool       \<comment> \<open>\<open>HAVE_DEFERRED_ACCEPT\<close> and \<open>SO_ACCEPTFILTER\<close>\<close>
  HAVE_TCP_DEFER_ACCEPT :: bool   \<comment> \<open>\<open>HAVE_DEFERRED_ACCEPT\<close> and \<open>TCP_DEFER_ACCEPT\<close>\<close>
  HAVE_IPV6_V6ONLY :: bool        \<comment> \<open>\<open>HAVE_IPV6\<close> and \<open>IPV6_V6ONLY\<close>\<close>
  HAVE_REUSEPORT :: bool
  HAVE_KEEPALIVE_TUNABLE :: bool
  HAVE_SETFIB :: bool
  HAVE_TCP_FASTOPEN :: bool

record conf_env =
  build :: conf_build
  pg :: pg_mem
  ilib :: inet_lib
  ncpu :: int                                  \<comment> \<open>\<open>sysconf(_SC_NPROCESSORS_ONLN)\<close>\<close>
  split_ids :: "string \<Rightarrow> string list option"   \<comment> \<open>\<open>SplitIdentifierString(s, ',', ...)\<close>\<close>
  sizeof_server :: nat
  sizeof_listener :: nat
  sizeof_server_name :: nat

text \<open>
  What a reader returns when it does not return normally: \<open>ereport(ERROR)\<close> with the
  directive it is about, or undefined behaviour.
\<close>

datatype conf_error = Ereport string | Undefined ub

type_synonym 'a conf_run = "conf_error + 'a"

fun bind_run :: "'a conf_run \<Rightarrow> ('a \<Rightarrow> 'b conf_run) \<Rightarrow> 'b conf_run" where
  "bind_run (Inl e) k = Inl e"
| "bind_run (Inr a) k = k a"

lemma bind_run_Inr: "bind_run m k = Inr b \<longleftrightarrow> (\<exists>a. m = Inr a \<and> k a = Inr b)"
  by (cases m) simp_all

text \<open>Calls into the components that only know undefined behaviour.\<close>

fun lift_ub :: "'a run \<Rightarrow> 'a conf_run" where
  "lift_ub (Inl e) = Inl (Undefined e)"
| "lift_ub (Inr a) = Inr a"

lemma lift_ub_Inr: "lift_ub m = Inr a \<longleftrightarrow> m = Inr a"
  by (cases m) simp_all

definition check_ok :: "string \<Rightarrow> bool \<times> 'a \<Rightarrow> 'a conf_run" where
  "check_ok name r = (if fst r then Inr (snd r) else Inl (Ereport name))"

lemma check_ok_Inr: "check_ok name r = Inr a \<longleftrightarrow> fst r \<and> snd r = a"
  by (auto simp: check_ok_def)

lemmas conf_run_simps = bind_run_Inr lift_ub_Inr check_ok_Inr

section \<open>Access to the objects\<close>

definition array_get :: "'a pgrest_array \<Rightarrow> nat \<Rightarrow> 'a option" where
  "array_get a i = (if i < asize a then (case elts a of Some xs \<Rightarrow> if i < length xs then xs ! i else None | None \<Rightarrow> None) else None)"

definition array_modify :: "nat \<Rightarrow> ('a \<Rightarrow> 'a) \<Rightarrow> 'a pgrest_array \<Rightarrow> 'a pgrest_array run" where
  "array_modify i f a = (case array_get a i of None \<Rightarrow> Inl OutOfBounds | Some x \<Rightarrow> Inr (array_store a i (f x)))"

definition list_modify :: "nat \<Rightarrow> ('a \<Rightarrow> 'a) \<Rightarrow> 'a list \<Rightarrow> 'a list run" where
  "list_modify i f xs = (if i < length xs then Inr (xs[i := f (xs ! i)]) else Inl OutOfBounds)"

text \<open>
  A write through a pointer of the given object type. The directive's offset is only
  meaningful in the structure it belongs to; at another object it is a wild write.
\<close>

definition in_setting :: "(setting \<Rightarrow> setting) \<Rightarrow> obj \<Rightarrow> conf_state \<Rightarrow> conf_state conf_run" where
  "in_setting f ob st = (case ob of OSetting \<Rightarrow> Inr (st\<lparr>setting := f (setting st)\<rparr>) | _ \<Rightarrow> Inl (Undefined OutOfBounds))"

definition in_server :: "(conf_http_server \<Rightarrow> conf_http_server) \<Rightarrow> obj \<Rightarrow> conf_state \<Rightarrow> conf_state conf_run" where
  "in_server f ob st =
     (case ob of
        OServer i \<Rightarrow>
          bind_run (lift_ub (array_modify i f (conf_http_servers (setting st))))
            (\<lambda>a. Inr (st\<lparr>setting := (setting st)\<lparr>conf_http_servers := a\<rparr>\<rparr>))
      | _ \<Rightarrow> Inl (Undefined OutOfBounds))"

definition in_listener :: "(conf_listener \<Rightarrow> conf_listener) \<Rightarrow> obj \<Rightarrow> conf_state \<Rightarrow> conf_state conf_run" where
  "in_listener f ob st =
     (case ob of
        OListener i \<Rightarrow>
          bind_run (lift_ub (array_modify i f (conf_listeners (setting st))))
            (\<lambda>a. Inr (st\<lparr>setting := (setting st)\<lparr>conf_listeners := a\<rparr>\<rparr>))
      | _ \<Rightarrow> Inl (Undefined OutOfBounds))"

definition in_path :: "(conf_http_path \<Rightarrow> conf_http_path) \<Rightarrow> obj \<Rightarrow> conf_state \<Rightarrow> conf_state conf_run" where
  "in_path f ob st =
     (case ob of
        OPath i \<Rightarrow> bind_run (lift_ub (list_modify i f (http_paths st))) (\<lambda>ps. Inr (st\<lparr>http_paths := ps\<rparr>))
      | _ \<Rightarrow> Inl (Undefined OutOfBounds))"

definition in_postgres :: "(postgres_conf \<Rightarrow> postgres_conf) \<Rightarrow> obj \<Rightarrow> conf_state \<Rightarrow> conf_state conf_run" where
  "in_postgres f ob st =
     (case ob of
        OPostgres i \<Rightarrow> bind_run (lift_ub (list_modify i f (postgres_confs st))) (\<lambda>ps. Inr (st\<lparr>postgres_confs := ps\<rparr>))
      | _ \<Rightarrow> Inl (Undefined OutOfBounds))"

definition in_push :: "(push_stream_conf \<Rightarrow> push_stream_conf) \<Rightarrow> obj \<Rightarrow> conf_state \<Rightarrow> conf_state conf_run" where
  "in_push f ob st =
     (case ob of
        OPush i \<Rightarrow> bind_run (lift_ub (list_modify i f (push_confs st))) (\<lambda>ps. Inr (st\<lparr>push_confs := ps\<rparr>))
      | _ \<Rightarrow> Inl (Undefined OutOfBounds))"

section \<open>Values\<close>

text \<open>
  A scalar is handed to its handler as a \<open>void *\<close> to what the reader holds: the characters
  of a JSON string, an \<open>int\<close>, or a one-byte \<open>bool\<close>. The handler reads it as the type it
  expects, whatever the document has there; the bytes of an \<open>int\<close> are little-endian.
\<close>

datatype conf_val = VStr string | VInt int | VBool bool

definition int_bytes :: "int \<Rightarrow> byte list" where
  "int_bytes n = map (\<lambda>k. char_of (nat (n div 256 ^ k mod 256))) [0, 1, 2, 3]"

definition bytes_int :: "byte list \<Rightarrow> int" where
  "bytes_int bs = sint (word_of_int (foldr (\<lambda>b acc. int (code b) + 256 * acc) bs 0) :: 32 word)"

definition as_str :: "conf_val \<Rightarrow> string conf_run" where
  "as_str v =
     (case v of
        VStr s \<Rightarrow> Inr (c_string s)
      | VInt n \<Rightarrow> if NUL \<in> set (int_bytes n) then Inr (c_string (int_bytes n)) else Inl (Undefined OutOfBounds)
      | VBool b \<Rightarrow> if b then Inl (Undefined OutOfBounds) else Inr [])"

definition as_int :: "conf_val \<Rightarrow> int conf_run" where
  "as_int v =
     (case v of
        VInt n \<Rightarrow> Inr n
      | VStr s \<Rightarrow> if length s < 3 then Inl (Undefined OutOfBounds) else Inr (bytes_int (take 4 (s @ [NUL])))
      | VBool b \<Rightarrow> Inl (Undefined OutOfBounds))"

text \<open>The byte a \<open>bool *\<close> points at.\<close>

definition as_bool :: "conf_val \<Rightarrow> nat" where
  "as_bool v =
     (case v of
        VBool b \<Rightarrow> of_bool b
      | VInt n \<Rightarrow> code (hd (int_bytes n))
      | VStr s \<Rightarrow> code (hd (s @ [NUL])))"

section \<open>What the writes do to the contents of the arrays\<close>

lemma array_get_wf: "array_wf a \<Longrightarrow> array_get a i = (if i < length (contents a) then Some (contents a ! i) else None)"
  by (auto simp: array_wf_def array_get_def contents_def list_all_length split: option.splits)

lemma array_store_wf:
  "array_wf a \<Longrightarrow> i < length (contents a) \<Longrightarrow> array_wf (array_store a i x) \<and> contents (array_store a i x) = (contents a)[i := x]"
  by (auto simp: array_wf_def array_store_def contents_def take_update_swap list_all_length nth_list_update map_update split: option.splits)

lemma array_modify_wf:
  assumes "array_wf a" "array_modify i f a = Inr a'"
  shows "i < length (contents a) \<and> array_wf a' \<and> contents a' = (contents a)[i := f (contents a ! i)]"
  using assms by (auto simp: array_modify_def array_get_wf array_store_wf split: if_splits)

end
