(* ===== verification/HttpHandlers.thy ===== *)
theory HttpHandlers
  imports ConfTypes
begin

text \<open>
  The handlers and filters of a location, \<^verbatim>\<open>src/pg_rest_http_core.c\<close>, and the configuration
  side of the two handlers of the program, \<^verbatim>\<open>src/handler/pg_rest_http_postgres.c\<close> and
  \<^verbatim>\<open>src/handler/pg_rest_http_push_stream.c\<close>. Their request side has no code yet: the
  handler functions return 0 and touch nothing. \<open>palloc0\<close> raises an error instead of
  returning NULL and is taken to succeed.
\<close>

section \<open>Handlers and filters of a location\<close>

definition list_init :: "pg_mem \<Rightarrow> 'a pgrest_array \<Rightarrow> 'a pgrest_array option" where
  "list_init m a =
     (if elts a = None
      then (case pgrest_array_init m a 2 sizeof_pointer of (ok, a') \<Rightarrow> if ok then Some a' else None)
      else Some a)"

definition pgrest_http_handler_create :: "pg_mem \<Rightarrow> http_handler \<Rightarrow> conf_http_path \<Rightarrow> conf_http_path option" where
  "pgrest_http_handler_create m handler path =
     (case list_init m (handlers path) of
        None \<Rightarrow> None
      | Some a \<Rightarrow>
          (case array_append m handler a of None \<Rightarrow> None | Some a' \<Rightarrow> Some (path\<lparr>handlers := a'\<rparr>)))"

text \<open>A filter is put in front: the last one configured runs first.\<close>

definition pgrest_http_filter_create :: "pg_mem \<Rightarrow> nat \<Rightarrow> conf_http_path \<Rightarrow> conf_http_path option" where
  "pgrest_http_filter_create m flt path =
     (case list_init m (filters path) of
        None \<Rightarrow> None
      | Some a \<Rightarrow>
          (case array_prepend m flt a of None \<Rightarrow> None | Some a' \<Rightarrow> Some (path\<lparr>filters := a'\<rparr>)))"

definition path_at :: "obj \<Rightarrow> conf_state \<Rightarrow> (nat \<times> conf_http_path) conf_run" where
  "path_at ob st =
     (case ob of
        OPath i \<Rightarrow> if i < length (http_paths st) then Inr (i, http_paths st ! i) else Inl (Undefined OutOfBounds)
      | _ \<Rightarrow> Inl (Undefined OutOfBounds))"

definition add_handler :: "conf_env \<Rightarrow> http_handler \<Rightarrow> obj \<Rightarrow> obj \<Rightarrow> conf_state \<Rightarrow> (obj option \<times> conf_state) conf_run" where
  "add_handler env h conf parent st =
     bind_run (path_at parent st) (\<lambda>(i, p).
       case pgrest_http_handler_create (pg env) h p of
         None \<Rightarrow> Inr (None, st)
       | Some p' \<Rightarrow> Inr (Some conf, st\<lparr>http_paths := (http_paths st)[i := p']\<rparr>))"

section \<open>The postgres handler\<close>

definition pgrest_http_postgres_conf :: "conf_env \<Rightarrow> obj \<Rightarrow> conf_state \<Rightarrow> (obj option \<times> conf_state) conf_run" where
  "pgrest_http_postgres_conf env parent st =
     (let i = length (postgres_confs st);
          conf = \<lparr>pg_pass = [], dbname = [], encode = [], pg_upstream = None\<rparr>
      in add_handler env (Postgres i) (OPostgres i) parent (st\<lparr>postgres_confs := postgres_confs st @ [conf]\<rparr>))"

definition pgrest_http_postgres_pgpass :: "conf_env \<Rightarrow> string \<Rightarrow> conf_val \<Rightarrow> obj \<Rightarrow> conf_state \<Rightarrow> conf_state conf_run" where
  "pgrest_http_postgres_pgpass env name val parent st =
     bind_run (as_str val) (\<lambda>value.
     bind_run (in_postgres (pg_upstream_update (\<lambda>_. None)) parent st) (\<lambda>st1.
     bind_run (lift_ub (pgrest_http_upstream_add (pg env) (ilib env)
                 (zero_url\<lparr>url := value, no_resolve := True\<rparr>) False None (upstream st1))) (\<lambda>r.
     bind_run (check_ok name r) (\<lambda>up.
     in_postgres (pg_pass_update (\<lambda>_. value)) parent (st1\<lparr>upstream := up\<rparr>)))))"

definition pgrest_http_postgres_encode :: "conf_val \<Rightarrow> obj \<Rightarrow> conf_state \<Rightarrow> conf_state conf_run" where
  "pgrest_http_postgres_encode val parent st =
     bind_run (as_str val) (\<lambda>value. in_postgres (encode_update (\<lambda>_. value)) parent st)"

definition pgrest_http_postgres_dbname :: "conf_val \<Rightarrow> obj \<Rightarrow> conf_state \<Rightarrow> conf_state conf_run" where
  "pgrest_http_postgres_dbname val parent st =
     bind_run (as_str val) (\<lambda>value. in_postgres (dbname_update (\<lambda>_. value)) parent st)"

definition pgrest_http_postgres_init :: "postgres_conf \<Rightarrow> bool" where
  "pgrest_http_postgres_init conf = True"

section \<open>The push stream handler\<close>

definition pgrest_http_push_stream_conf :: "conf_env \<Rightarrow> obj \<Rightarrow> conf_state \<Rightarrow> (obj option \<times> conf_state) conf_run" where
  "pgrest_http_push_stream_conf env parent st =
     (let i = length (push_confs st);
          conf = \<lparr>mode = PGREST_HTTP_PUSH_STREAM_UNKNOW, param_name = None, store_message = False\<rparr>
      in add_handler env (PushStream i) (OPush i) parent (st\<lparr>push_confs := push_confs st @ [conf]\<rparr>))"

definition pgrest_http_push_stream_mode :: "string \<Rightarrow> conf_val \<Rightarrow> obj \<Rightarrow> conf_state \<Rightarrow> conf_state conf_run" where
  "pgrest_http_push_stream_mode name val parent st =
     bind_run (as_str val) (\<lambda>value.
       if value = ''pub'' then in_push (mode_update (\<lambda>_. PGREST_HTTP_PUSH_STREAM_PUB)) parent st
       else if value = ''sub'' then in_push (mode_update (\<lambda>_. PGREST_HTTP_PUSH_STREAM_SUB)) parent st
       else if value = ''admin'' then in_push (mode_update (\<lambda>_. PGREST_HTTP_PUSH_STREAM_ADMIN)) parent st
       else Inl (Ereport name))"

definition pgrest_http_push_stream_name :: "conf_val \<Rightarrow> obj \<Rightarrow> conf_state \<Rightarrow> conf_state conf_run" where
  "pgrest_http_push_stream_name val parent st =
     bind_run (as_str val) (\<lambda>value. in_push (param_name_update (\<lambda>_. Some value)) parent st)"

definition pgrest_http_push_stream_stor :: "conf_val \<Rightarrow> obj \<Rightarrow> conf_state \<Rightarrow> conf_state conf_run" where
  "pgrest_http_push_stream_stor val parent st =
     in_push (store_message_update (\<lambda>_. as_bool val \<noteq> 0)) parent st"

text \<open>
  \<^verbatim>\<open>pgrest_http_push_stream_tunnel\<close> assigns a constant of the tunnel enumeration to the
  field \<open>mode\<close>: \<open>WEBSOCKET\<close>, \<open>LONGPOLLING\<close> and \<open>POLLING\<close> have the values of \<open>PUB\<close>, \<open>SUB\<close>
  and \<open>ADMIN\<close>.
\<close>

datatype push_tunnel =
    PGREST_HTTP_PUSH_STREAM_WEBSOCKET
  | PGREST_HTTP_PUSH_STREAM_LONGPOLLING
  | PGREST_HTTP_PUSH_STREAM_POLLING

fun mode_of_tunnel :: "push_tunnel \<Rightarrow> push_mode" where
  "mode_of_tunnel PGREST_HTTP_PUSH_STREAM_WEBSOCKET = PGREST_HTTP_PUSH_STREAM_PUB"
| "mode_of_tunnel PGREST_HTTP_PUSH_STREAM_LONGPOLLING = PGREST_HTTP_PUSH_STREAM_SUB"
| "mode_of_tunnel PGREST_HTTP_PUSH_STREAM_POLLING = PGREST_HTTP_PUSH_STREAM_ADMIN"

definition pgrest_http_push_stream_tunnel :: "string \<Rightarrow> conf_val \<Rightarrow> obj \<Rightarrow> conf_state \<Rightarrow> conf_state conf_run" where
  "pgrest_http_push_stream_tunnel name val parent st =
     bind_run (as_str val) (\<lambda>value.
       if value = ''websocket''
       then in_push (mode_update (\<lambda>_. mode_of_tunnel PGREST_HTTP_PUSH_STREAM_WEBSOCKET)) parent st
       else if value = ''long-polling''
       then in_push (mode_update (\<lambda>_. mode_of_tunnel PGREST_HTTP_PUSH_STREAM_LONGPOLLING)) parent st
       else if value = ''polling''
       then in_push (mode_update (\<lambda>_. mode_of_tunnel PGREST_HTTP_PUSH_STREAM_POLLING)) parent st
       else Inl (Ereport name))"

definition pgrest_http_push_stream_init :: "push_stream_conf \<Rightarrow> bool \<times> push_stream_conf" where
  "pgrest_http_push_stream_init conf =
     (case mode conf of
        PGREST_HTTP_PUSH_STREAM_PUB \<Rightarrow>
          (True, if param_name conf = None then conf\<lparr>param_name := Some ''id''\<rparr> else conf)
      | PGREST_HTTP_PUSH_STREAM_SUB \<Rightarrow> (True, conf)
      | PGREST_HTTP_PUSH_STREAM_ADMIN \<Rightarrow> (True, conf)
      | PGREST_HTTP_PUSH_STREAM_UNKNOW \<Rightarrow> (False, conf))"

section \<open>The order of handlers and filters\<close>

lemma list_init_spec:
  assumes "alloc_limit m" "list_init m a = Some a'" "elts a = None \<or> array_wf a"
  shows "array_wf a' \<and> contents a' = contents a"
proof (cases "elts a = None")
  case True
  with assms obtain ok where "pgrest_array_init m a 2 sizeof_pointer = (True, a')"
    by (auto simp: list_init_def split: prod.splits if_splits)
  from array_init_spec [OF assms(1) this] True show ?thesis
    by (simp add: sizeof_pointer_def WORD_MOD_def contents_def)
next
  case False
  with assms show ?thesis by (auto simp: list_init_def)
qed

lemma handler_create_appends:
  assumes "alloc_limit m" "elts (handlers p) = None \<or> array_wf (handlers p)"
    and "pgrest_http_handler_create m h p = Some p'"
  shows "array_wf (handlers p') \<and> contents (handlers p') = contents (handlers p) @ [h]
    \<and> filters p' = filters p \<and> p_path p' = p_path p \<and> conf_server p' = conf_server p"
proof -
  from assms(3) obtain a a' where a: "list_init m (handlers p) = Some a" "array_append m h a = Some a'"
    and p': "p' = p\<lparr>handlers := a'\<rparr>"
    by (auto simp: pgrest_http_handler_create_def split: option.splits)
  from list_init_spec [OF assms(1) a(1) assms(2)] array_append_spec [OF _ assms(1) a(2)] p'
  show ?thesis by simp
qed

text \<open>
  The \<open>subscriber\<close> directive overwrites the mode of the handler: a location configured
  with mode \<open>sub\<close> and then subscriber \<open>websocket\<close> ends up as a publisher.
\<close>

theorem push_subscriber_overwrites_mode:
  "bind_run (pgrest_http_push_stream_mode n (VStr ''sub'') (OPush 0) (st\<lparr>push_confs := [c]\<rparr>))
     (pgrest_http_push_stream_tunnel n (VStr ''websocket'') (OPush 0))
   = Inr (st\<lparr>push_confs := [c\<lparr>mode := PGREST_HTTP_PUSH_STREAM_PUB\<rparr>]\<rparr>)"
  by (simp add: pgrest_http_push_stream_mode_def pgrest_http_push_stream_tunnel_def as_str_def c_string_def in_push_def list_modify_def)

end
