(* ===== verification/Conf.thy ===== *)
theory Conf
  imports HttpHandlers
begin

text \<open>
  The reader of the configuration file, \<^verbatim>\<open>src/pg_rest_conf.c\<close>: a table of directives, a
  recursive walk over the JSON document that looks every member up in it, one handler per
  kind of value and one constructor per kind of object. The JSON library (jansson) is
  represented by its documents, an object being the list of its members in the order of
  iteration; \<open>json_load_file\<close> is a parameter.
\<close>

section \<open>Documents and commands\<close>

datatype json =
    JSON_STRING string
  | JSON_INTEGER int
  | JSON_TRUE
  | JSON_FALSE
  | JSON_REAL
  | JSON_NULL
  | JSON_ARRAY "json list"
  | JSON_OBJECT "(string \<times> json) list"

datatype conf_flag = PGREST_CONF_OBJECT | PGREST_CONF_SCALAR

text \<open>
  What a command stores into: the offset of the C table is the update of the field it is the
  offset of.
\<close>

datatype conf_offset =
    No_offset
  | Int_at "int \<Rightarrow> obj \<Rightarrow> conf_state \<Rightarrow> conf_state conf_run"
  | Bool_at "bool \<Rightarrow> obj \<Rightarrow> conf_state \<Rightarrow> conf_state conf_run"
  | Str_at "string \<Rightarrow> obj \<Rightarrow> conf_state \<Rightarrow> conf_state conf_run"

record conf_args =
  cmd_name :: string
  offset :: conf_offset
  min_val :: int
  max_val :: int

datatype conf_handler =
    No_handler
  | Create "conf_env \<Rightarrow> obj \<Rightarrow> conf_state \<Rightarrow> (obj option \<times> conf_state) conf_run"
  | Setter "conf_env \<Rightarrow> conf_args \<Rightarrow> conf_val \<Rightarrow> obj \<Rightarrow> conf_state \<Rightarrow> conf_state conf_run"

record conf_command =
  args :: conf_args
  cflags :: conf_flag
  chandler :: conf_handler

section \<open>Setters\<close>

definition store_int :: "conf_args \<Rightarrow> int \<Rightarrow> obj \<Rightarrow> conf_state \<Rightarrow> conf_state conf_run" where
  "store_int cmd v ob st = (case offset cmd of Int_at f \<Rightarrow> f v ob st | _ \<Rightarrow> Inl (Undefined OutOfBounds))"

definition store_bool :: "conf_args \<Rightarrow> bool \<Rightarrow> obj \<Rightarrow> conf_state \<Rightarrow> conf_state conf_run" where
  "store_bool cmd v ob st = (case offset cmd of Bool_at f \<Rightarrow> f v ob st | _ \<Rightarrow> Inl (Undefined OutOfBounds))"

definition store_str :: "conf_args \<Rightarrow> string \<Rightarrow> obj \<Rightarrow> conf_state \<Rightarrow> conf_state conf_run" where
  "store_str cmd v ob st = (case offset cmd of Str_at f \<Rightarrow> f v ob st | _ \<Rightarrow> Inl (Undefined OutOfBounds))"

definition pgrest_conf_integer_set :: "conf_env \<Rightarrow> conf_args \<Rightarrow> conf_val \<Rightarrow> obj \<Rightarrow> conf_state \<Rightarrow> conf_state conf_run" where
  "pgrest_conf_integer_set env cmd val parent st =
     bind_run (as_int val) (\<lambda>newval.
       if newval < min_val cmd \<or> newval > max_val cmd then Inl (Ereport (cmd_name cmd))
       else store_int cmd newval parent st)"

definition pgrest_conf_bool_set :: "conf_env \<Rightarrow> conf_args \<Rightarrow> conf_val \<Rightarrow> obj \<Rightarrow> conf_state \<Rightarrow> conf_state conf_run" where
  "pgrest_conf_bool_set env cmd val parent st =
     (let newval = as_bool val in
      if newval \<noteq> 0 \<and> newval \<noteq> 1 then Inl (Ereport (cmd_name cmd))
      else store_bool cmd (newval = 1) parent st)"

definition pgrest_conf_string_set :: "conf_env \<Rightarrow> conf_args \<Rightarrow> conf_val \<Rightarrow> obj \<Rightarrow> conf_state \<Rightarrow> conf_state conf_run" where
  "pgrest_conf_string_set env cmd val parent st =
     bind_run (as_str val) (\<lambda>newval. store_str cmd newval parent st)"

definition PGREST_SOCKADDR_STRLEN :: nat where "PGREST_SOCKADDR_STRLEN = 113"

text \<open>
  \<open>memcpy(&sockaddr, &u.sockaddr, u.socklen)\<close> copies the whole address of its family;
  \<open>pgrest_inet_ntop\<close> fills the text, which stays as it was when the library refuses.
\<close>

definition ntop_text :: "conf_env \<Rightarrow> sockaddr \<Rightarrow> string \<Rightarrow> string" where
  "ntop_text env sa old =
     (case pgrest_inet_ntop (ilib env) sa False PGREST_SOCKADDR_STRLEN True of Some t \<Rightarrow> t | None \<Rightarrow> old)"

definition pgrest_conf_address_set :: "conf_env \<Rightarrow> conf_args \<Rightarrow> conf_val \<Rightarrow> obj \<Rightarrow> conf_state \<Rightarrow> conf_state conf_run" where
  "pgrest_conf_address_set env cmd val parent st =
     bind_run (as_str val) (\<lambda>value.
     bind_run (lift_ub (pgrest_inet_parse_url (ilib env) (zero_url\<lparr>url := value, listen := True, default_port := 8080\<rparr>)))
       (\<lambda>(ok, u).
         if \<not> ok \<and> err u \<noteq> None then Inl (Ereport (cmd_name cmd))
         else in_listener (\<lambda>l. l\<lparr>l_sockaddr := u_sockaddr u, l_socklen := socklen u, l_wildcard := wildcard u,
                l_addr := ntop_text env (u_sockaddr u) (l_addr l)\<rparr>) parent st))"

definition pgrest_conf_bind_set :: "bool \<Rightarrow> obj \<Rightarrow> conf_state \<Rightarrow> conf_state conf_run" where
  "pgrest_conf_bind_set value parent st =
     (if value then in_listener (\<lambda>l. l\<lparr>l_set := True, l_bind := True\<rparr>) parent st else Inr st)"

definition pgrest_conf_integer_set2 :: "conf_env \<Rightarrow> conf_args \<Rightarrow> conf_val \<Rightarrow> obj \<Rightarrow> conf_state \<Rightarrow> conf_state conf_run" where
  "pgrest_conf_integer_set2 env cmd val parent st =
     bind_run (pgrest_conf_bind_set True parent st) (pgrest_conf_integer_set env cmd val parent)"

definition pgrest_conf_bool_set2 :: "conf_env \<Rightarrow> conf_args \<Rightarrow> conf_val \<Rightarrow> obj \<Rightarrow> conf_state \<Rightarrow> conf_state conf_run" where
  "pgrest_conf_bool_set2 env cmd val parent st =
     bind_run (pgrest_conf_bind_set (as_bool val = 1) parent st) (pgrest_conf_bool_set env cmd val parent)"

definition PGREST_AF_SIZE :: nat where "PGREST_AF_SIZE = 16"

definition pgrest_conf_afilter_set :: "conf_env \<Rightarrow> conf_args \<Rightarrow> conf_val \<Rightarrow> obj \<Rightarrow> conf_state \<Rightarrow> conf_state conf_run" where
  "pgrest_conf_afilter_set env cmd val parent st =
     bind_run (as_str val) (\<lambda>value.
       if value \<noteq> [] \<and> \<not> HAVE_ACCEPTFILTER (build env) then Inr st
       else bind_run (pgrest_conf_bind_set True parent st)
              (in_listener (\<lambda>l. l\<lparr>l_accept_filter := take (PGREST_AF_SIZE - 1) value\<rparr>) parent))"

text \<open>\<open>MAXPGPATH\<close> of PostgreSQL, and the name part of \<open>PGREST_BUFFER_DTEMP_PATH\<close>.\<close>

definition MAXPGPATH :: nat where "MAXPGPATH = 1024"
definition DTEMP_NAME :: string where "DTEMP_NAME = ''/pg_rest.b.XXXXXX''"

definition pgrest_conf_tbpath_set :: "conf_env \<Rightarrow> conf_args \<Rightarrow> conf_val \<Rightarrow> obj \<Rightarrow> conf_state \<Rightarrow> conf_state conf_run" where
  "pgrest_conf_tbpath_set env cmd val parent st =
     bind_run (as_str val) (\<lambda>value.
       let buf = value @ DTEMP_NAME in
       if length buf \<ge> MAXPGPATH then Inl (Ereport (cmd_name cmd))
       else in_setting (temp_buffer_path_update (\<lambda>_. buf)) parent st)"

definition pgrest_conf_deferred_set :: "conf_env \<Rightarrow> conf_args \<Rightarrow> conf_val \<Rightarrow> obj \<Rightarrow> conf_state \<Rightarrow> conf_state conf_run" where
  "pgrest_conf_deferred_set env cmd val parent st =
     (if as_bool val = 1 \<and> \<not> HAVE_TCP_DEFER_ACCEPT (build env) then Inr st
      else pgrest_conf_bool_set2 env cmd val parent st)"

definition pgrest_conf_ipv6only_set :: "conf_env \<Rightarrow> conf_args \<Rightarrow> conf_val \<Rightarrow> obj \<Rightarrow> conf_state \<Rightarrow> conf_state conf_run" where
  "pgrest_conf_ipv6only_set env cmd val parent st =
     (if as_bool val = 1 \<and> \<not> HAVE_IPV6_V6ONLY (build env) then Inl (Ereport (cmd_name cmd))
      else pgrest_conf_bool_set2 env cmd val parent st)"

definition pgrest_conf_reuse_set :: "conf_env \<Rightarrow> conf_args \<Rightarrow> conf_val \<Rightarrow> obj \<Rightarrow> conf_state \<Rightarrow> conf_state conf_run" where
  "pgrest_conf_reuse_set env cmd val parent st =
     (if as_bool val = 1 \<and> \<not> HAVE_REUSEPORT (build env) then Inr st
      else pgrest_conf_bool_set2 env cmd val parent st)"

definition pgrest_conf_ssl_set :: "conf_env \<Rightarrow> conf_args \<Rightarrow> conf_val \<Rightarrow> obj \<Rightarrow> conf_state \<Rightarrow> conf_state conf_run" where
  "pgrest_conf_ssl_set env cmd val parent st =
     (if as_bool val = 1 \<and> \<not> HAVE_OPENSSL (build env) then Inl (Ereport (cmd_name cmd))
      else pgrest_conf_bool_set env cmd val parent st)"

definition pgrest_conf_keepalive_set :: "conf_env \<Rightarrow> conf_args \<Rightarrow> conf_val \<Rightarrow> obj \<Rightarrow> conf_state \<Rightarrow> conf_state conf_run" where
  "pgrest_conf_keepalive_set env cmd val parent st =
     bind_run (as_str val) (\<lambda>value.
       bind_run
         (if value = ''on'' then in_listener (l_so_keepalive_update (\<lambda>_. 1)) parent st
          else if value = ''off'' then in_listener (l_so_keepalive_update (\<lambda>_. 2)) parent st
          else Inl (Ereport (cmd_name cmd)))
         (pgrest_conf_bind_set True parent))"

definition pgrest_conf_keepalive_opt_set :: "conf_env \<Rightarrow> conf_args \<Rightarrow> conf_val \<Rightarrow> obj \<Rightarrow> conf_state \<Rightarrow> conf_state conf_run" where
  "pgrest_conf_keepalive_opt_set env cmd val parent st =
     (if HAVE_KEEPALIVE_TUNABLE (build env)
      then bind_run (in_listener (l_so_keepalive_update (\<lambda>_. 1)) parent st) (pgrest_conf_integer_set2 env cmd val parent)
      else Inr st)"

text \<open>\<open>NAMEDATALEN\<close> of PostgreSQL.\<close>

definition NAMEDATALEN :: nat where "NAMEDATALEN = 64"

fun push_names :: "pg_mem \<Rightarrow> nat \<Rightarrow> string list \<Rightarrow> http_server_name pgrest_array \<Rightarrow> http_server_name pgrest_array option" where
  "push_names m i [] a = Some a"
| "push_names m i (n # ns) a =
     (case array_append m \<lparr>sn_name = take (NAMEDATALEN - 1) n, sn_server = i\<rparr> a of
        None \<Rightarrow> None | Some a' \<Rightarrow> push_names m i ns a')"

definition server_at :: "obj \<Rightarrow> conf_state \<Rightarrow> (nat \<times> conf_http_server) conf_run" where
  "server_at ob st =
     (case ob of
        OServer i \<Rightarrow> (case array_get (conf_http_servers (setting st)) i of
                        Some s \<Rightarrow> Inr (i, s) | None \<Rightarrow> Inl (Undefined OutOfBounds))
      | _ \<Rightarrow> Inl (Undefined OutOfBounds))"

definition pgrest_conf_server_name_set :: "conf_env \<Rightarrow> conf_args \<Rightarrow> conf_val \<Rightarrow> obj \<Rightarrow> conf_state \<Rightarrow> conf_state conf_run" where
  "pgrest_conf_server_name_set env cmd val parent st =
     bind_run (as_str val) (\<lambda>value.
       if value = [] then Inr st
       else case split_ids env value of
              None \<Rightarrow> Inl (Ereport (cmd_name cmd))
            | Some elemlist \<Rightarrow>
                bind_run (server_at parent st) (\<lambda>(i, s).
                  case push_names (pg env) i elemlist (server_names s) of
                    None \<Rightarrow> Inl (Ereport (cmd_name cmd))
                  | Some a \<Rightarrow> in_server (server_names_update (\<lambda>_. a)) parent st))"

definition pgrest_conf_http_path_set :: "conf_env \<Rightarrow> conf_args \<Rightarrow> conf_val \<Rightarrow> obj \<Rightarrow> conf_state \<Rightarrow> conf_state conf_run" where
  "pgrest_conf_http_path_set env cmd val parent st =
     bind_run (as_str val) (\<lambda>value.
       if value = [] then Inl (Ereport (cmd_name cmd))
       else
         bind_run (path_at parent st) (\<lambda>(i, p).
         bind_run (in_path (p_path_update (\<lambda>_. value)) parent st) (\<lambda>st1.
         bind_run (server_at (conf_server p) st1) (\<lambda>(k, s).
         bind_run (lift_ub (pgrest_rtree_add (paths s) value (Some i))) (\<lambda>r.
         bind_run (check_ok (cmd_name cmd) r) (\<lambda>t.
           in_server (paths_update (\<lambda>_. t)) (OServer k) st1))))))"

definition PGREST_HTTP_LINGERING_OFF :: int where "PGREST_HTTP_LINGERING_OFF = 0"
definition PGREST_HTTP_LINGERING_ON :: int where "PGREST_HTTP_LINGERING_ON = 1"
definition PGREST_HTTP_LINGERING_ALWAYS :: int where "PGREST_HTTP_LINGERING_ALWAYS = 2"

definition pgrest_conf_lc_set :: "conf_env \<Rightarrow> conf_args \<Rightarrow> conf_val \<Rightarrow> obj \<Rightarrow> conf_state \<Rightarrow> conf_state conf_run" where
  "pgrest_conf_lc_set env cmd val parent st =
     bind_run (as_str val) (\<lambda>value.
       if value = ''on'' then in_server (lingering_close_update (\<lambda>_. PGREST_HTTP_LINGERING_ON)) parent st
       else if value = ''off'' then in_server (lingering_close_update (\<lambda>_. PGREST_HTTP_LINGERING_OFF)) parent st
       else if value = ''always'' then in_server (lingering_close_update (\<lambda>_. PGREST_HTTP_LINGERING_ALWAYS)) parent st
       else Inl (Ereport (cmd_name cmd)))"

section \<open>Constructors\<close>

definition null_array :: "'a pgrest_array" where
  "null_array = \<lparr>elts = None, elt_size = 0, asize = 0, capacity = 0\<rparr>"

definition pgrest_conf_setting_create :: "conf_env \<Rightarrow> obj \<Rightarrow> conf_state \<Rightarrow> (obj option \<times> conf_state) conf_run" where
  "pgrest_conf_setting_create env parent st =
     (let s = (setting st)\<lparr>worker_processes := ncpu env, worker_priority := 0, worker_nofile := 1024,
            worker_noconn := 1024, acceptor_mutex := True, acceptor_mutex_delay := 500,
            acceptor_multi_accept := False, temp_buffer_path := ''/tmp'' @ DTEMP_NAME\<rparr>;
          (ok, srv) = pgrest_array_init (pg env) (conf_http_servers s) 2 (sizeof_server env);
          (ok', lis) = pgrest_array_init (pg env) (conf_listeners s) 2 (sizeof_listener env)
      in if \<not> ok then Inr (None, st\<lparr>setting := s\<lparr>conf_http_servers := srv\<rparr>\<rparr>)
         else if \<not> ok' then Inr (None, st\<lparr>setting := s\<lparr>conf_http_servers := srv, conf_listeners := lis\<rparr>\<rparr>)
         else Inr (Some OSetting, st\<lparr>setting := s\<lparr>conf_http_servers := srv, conf_listeners := lis\<rparr>\<rparr>))"

definition ALLOCSET_BUFFER_MINSIZE :: int where "ALLOCSET_BUFFER_MINSIZE = 4 * 1024"

definition default_http_server :: "http_server_name pgrest_array \<Rightarrow> conf_http_server" where
  "default_http_server names =
     \<lparr>server_name = [], ssl_certificate = ''cert.pem'', ssl_certificate_key = ''ssl_certificate_key'',
      ssl_session_cache = True, ssl_session_timeout = 1800000, tcp_nopush = False, tcp_nodelay = True,
      keepalive_timeout = 600000, client_header_timeout = 6000,
      client_header_buffer_size = ALLOCSET_BUFFER_MINSIZE div 2, client_max_header_size = ALLOCSET_BUFFER_MINSIZE,
      client_max_body_size = ALLOCSET_BUFFER_MINSIZE * 2, client_body_timeout = 6000,
      client_body_buffer_size = ALLOCSET_BUFFER_MINSIZE div 2, lingering_time = 30000, lingering_timeout = 5000,
      lingering_close = PGREST_HTTP_LINGERING_ON, reset_timedout_connection = False, server_names = names,
      paths = pgrest_rtree_create, s_listen = False\<rparr>"

text \<open>
  The element is pushed first and filled in place; when the array of names cannot be
  allocated the result is NULL.
\<close>

definition pgrest_conf_http_server_create :: "conf_env \<Rightarrow> obj \<Rightarrow> conf_state \<Rightarrow> (obj option \<times> conf_state) conf_run" where
  "pgrest_conf_http_server_create env parent st =
     (case parent of
        OSetting \<Rightarrow>
          let servers = conf_http_servers (setting st);
              (ok, names) = pgrest_array_init (pg env) null_array 2 (sizeof_server_name env)
          in (case array_append (pg env) (default_http_server names) servers of
                None \<Rightarrow> Inr (None, st)
              | Some a \<Rightarrow>
                  Inr (if ok then Some (OServer (asize servers)) else None,
                       st\<lparr>setting := (setting st)\<lparr>conf_http_servers := a\<rparr>\<rparr>))
      | _ \<Rightarrow> Inl (Undefined OutOfBounds))"

definition default_listener :: "conf_env \<Rightarrow> conf_listener" where
  "default_listener env =
     (let sa = AF_INET 8080 INADDR_ANY in
      \<lparr>l_sockaddr = sa, l_socklen = sizeof_sockaddr_in, l_set = False, l_default_server = False, l_bind = False,
       l_wildcard = True, l_ssl = False, l_http2 = False, l_ipv6only = HAVE_IPV6_V6ONLY (build env),
       l_reuseport = False, l_so_keepalive = 0, l_backlog = 512, l_rcvbuf = -1, l_sndbuf = -1,
       l_setfib = (if HAVE_SETFIB (build env) then -1 else 0),
       l_fastopen = (if HAVE_TCP_FASTOPEN (build env) then -1 else 0),
       l_tcp_keepidle = 0, l_tcp_keepintvl = 0, l_tcp_keepcnt = 0, l_accept_filter = [],
       l_deferred_accept = False, l_addr = ntop_text env sa []\<rparr>)"

definition pgrest_conf_listener_create :: "conf_env \<Rightarrow> obj \<Rightarrow> conf_state \<Rightarrow> (obj option \<times> conf_state) conf_run" where
  "pgrest_conf_listener_create env parent st =
     bind_run (in_server (s_listen_update (\<lambda>_. True)) parent st) (\<lambda>st1.
       let listeners = conf_listeners (setting st1) in
       case array_append (pg env) (default_listener env) listeners of
         None \<Rightarrow> Inr (None, st1)
       | Some a \<Rightarrow> Inr (Some (OListener (asize listeners)), st1\<lparr>setting := (setting st1)\<lparr>conf_listeners := a\<rparr>\<rparr>))"

definition pgrest_conf_http_path_create :: "conf_env \<Rightarrow> obj \<Rightarrow> conf_state \<Rightarrow> (obj option \<times> conf_state) conf_run" where
  "pgrest_conf_http_path_create env parent st =
     (let (ok, hs) = pgrest_array_init (pg env) null_array 2 sizeof_pointer;
          (ok', fs) = pgrest_array_init (pg env) null_array 2 sizeof_pointer
      in if \<not> ok \<or> \<not> ok' then Inr (None, st)
         else Inr (Some (OPath (length (http_paths st))),
                   st\<lparr>http_paths := http_paths st @ [\<lparr>p_path = [], handlers = hs, filters = fs, conf_server = parent\<rparr>]\<rparr>))"

section \<open>The table of directives\<close>

definition INT_MAX :: int where "INT_MAX = 2147483647"

abbreviation object :: "string \<Rightarrow> conf_handler \<Rightarrow> conf_command" where
  "object n h \<equiv> \<lparr>args = \<lparr>cmd_name = n, offset = No_offset, min_val = 0, max_val = 0\<rparr>, cflags = PGREST_CONF_OBJECT, chandler = h\<rparr>"

abbreviation scalar where
  "scalar n off lo hi h \<equiv> \<lparr>args = \<lparr>cmd_name = n, offset = off, min_val = lo, max_val = hi\<rparr>, cflags = PGREST_CONF_SCALAR, chandler = Setter h\<rparr>"

abbreviation setting_int where "setting_int f \<equiv> Int_at (\<lambda>v. in_setting (f (\<lambda>_. v)))"
abbreviation setting_bool where "setting_bool f \<equiv> Bool_at (\<lambda>v. in_setting (f (\<lambda>_. v)))"
abbreviation listener_int where "listener_int f \<equiv> Int_at (\<lambda>v. in_listener (f (\<lambda>_. v)))"
abbreviation listener_bool where "listener_bool f \<equiv> Bool_at (\<lambda>v. in_listener (f (\<lambda>_. v)))"
abbreviation server_int where "server_int f \<equiv> Int_at (\<lambda>v. in_server (f (\<lambda>_. v)))"
abbreviation server_bool where "server_bool f \<equiv> Bool_at (\<lambda>v. in_server (f (\<lambda>_. v)))"
abbreviation server_str where "server_str f \<equiv> Str_at (\<lambda>v. in_server (f (\<lambda>_. v)))"

definition PGREST_MAX_WORKERS :: int where "PGREST_MAX_WORKERS = 128"

definition root_cmds :: "conf_command list" where
  "root_cmds =
     [object ''root'' (Create pgrest_conf_setting_create),
      object ''worker'' No_handler,
      scalar ''worker_processes'' (setting_int worker_processes_update) 1 PGREST_MAX_WORKERS pgrest_conf_integer_set,
      scalar ''worker_priority'' (setting_int worker_priority_update) (-20) 20 pgrest_conf_integer_set,
      scalar ''worker_nofile'' (setting_int worker_nofile_update) (-1) 65535 pgrest_conf_integer_set,
      scalar ''worker_connections'' (setting_int worker_noconn_update) 1 65535 pgrest_conf_integer_set,
      object ''accept'' No_handler,
      scalar ''accept_mutex'' (setting_bool acceptor_mutex_update) 0 0 pgrest_conf_bool_set,
      scalar ''accept_mutex_delay'' (setting_int acceptor_mutex_delay_update) 500 600000 pgrest_conf_integer_set,
      scalar ''multi_accept'' (setting_bool acceptor_multi_accept_update) 0 0 pgrest_conf_bool_set,
      object ''http'' No_handler,
      scalar ''temp_buffer_path'' No_offset 0 0 pgrest_conf_tbpath_set,
      object ''server'' (Create pgrest_conf_http_server_create),
      object ''listen'' (Create pgrest_conf_listener_create)]"

definition listen_cmds :: "conf_command list" where
  "listen_cmds =
     [scalar ''address'' No_offset 0 0 pgrest_conf_address_set,
      scalar ''default_server'' (listener_bool l_default_server_update) 0 0 pgrest_conf_bool_set,
      scalar ''bind'' (listener_bool l_bind_update) 0 0 pgrest_conf_bool_set2,
      scalar ''backlog'' (listener_int l_backlog_update) 1 65535 pgrest_conf_integer_set2,
      scalar ''sndbuf'' (listener_int l_sndbuf_update) (-1) 65535 pgrest_conf_integer_set2,
      scalar ''rcvbuf'' (listener_int l_rcvbuf_update) (-1) 65535 pgrest_conf_integer_set2,
      scalar ''so_keepalive'' No_offset 0 0 pgrest_conf_keepalive_set,
      scalar ''tcp_keepidle'' (listener_int l_tcp_keepidle_update) 0 INT_MAX pgrest_conf_keepalive_opt_set,
      scalar ''tcp_keepintvl'' (listener_int l_tcp_keepintvl_update) 0 INT_MAX pgrest_conf_keepalive_opt_set,
      scalar ''tcp_keepcnt'' (listener_int l_tcp_keepcnt_update) 0 INT_MAX pgrest_conf_keepalive_opt_set,
      scalar ''ipv6_only'' (listener_bool l_ipv6only_update) 0 0 pgrest_conf_ipv6only_set,
      scalar ''accept_filter'' No_offset 0 0 pgrest_conf_afilter_set,
      scalar ''deferred_accept'' (listener_bool l_deferred_accept_update) 0 0 pgrest_conf_deferred_set,
      scalar ''setfib'' (listener_int l_setfib_update) (-1) INT_MAX pgrest_conf_integer_set2,
      scalar ''fastopen'' (listener_int l_fastopen_update) (-1) INT_MAX pgrest_conf_integer_set2,
      scalar ''reuseport'' (listener_bool l_reuseport_update) 0 0 pgrest_conf_reuse_set,
      scalar ''ssl'' (listener_bool l_ssl_update) 0 0 pgrest_conf_ssl_set,
      scalar ''http2'' (listener_bool l_http2_update) 0 0 pgrest_conf_bool_set]"

definition ssl_cmds :: "conf_command list" where
  "ssl_cmds =
     [scalar ''ssl_certificate'' (server_str ssl_certificate_update) 0 0 pgrest_conf_string_set,
      scalar ''ssl_certificate_key'' (server_str ssl_certificate_key_update) 0 0 pgrest_conf_string_set,
      scalar ''ssl_session_cache'' (server_bool ssl_session_cache_update) 0 0 pgrest_conf_bool_set,
      scalar ''ssl_session_timeout'' (server_int ssl_session_timeout_update) 60000 3600000 pgrest_conf_integer_set]"

definition server_cmds :: "conf_command list" where
  "server_cmds =
     [scalar ''keepalive_timeout'' (server_int keepalive_timeout_update) 1000 3600000 pgrest_conf_integer_set,
      scalar ''client_header_timeout'' (server_int client_header_timeout_update) 1000 3600000 pgrest_conf_integer_set,
      scalar ''client_header_buffer_size'' (server_int client_header_buffer_size_update) 1024 (1024 * 8) pgrest_conf_integer_set,
      scalar ''client_max_header_size'' (server_int client_max_header_size_update) 4096 (1024 * 1024) pgrest_conf_integer_set,
      scalar ''client_max_body_size'' (server_int client_max_body_size_update) 4096 (2 * 1024 * 1024) pgrest_conf_integer_set,
      scalar ''client_body_buffer_size'' (server_int client_body_buffer_size_update) 1024 (1024 * 8) pgrest_conf_integer_set,
      scalar ''client_body_timeout'' (server_int client_body_timeout_update) 1000 3600000 pgrest_conf_integer_set,
      scalar ''tcp_nopush'' (server_bool tcp_nopush_update) 0 0 pgrest_conf_bool_set,
      scalar ''tcp_nodelay'' (server_bool tcp_nodelay_update) 0 0 pgrest_conf_bool_set,
      scalar ''lingering_time'' (server_int lingering_time_update) 1000 3600000 pgrest_conf_integer_set,
      scalar ''lingering_timeout'' (server_int lingering_timeout_update) 1000 3600000 pgrest_conf_integer_set,
      scalar ''lingering_close'' No_offset 0 0 pgrest_conf_lc_set,
      scalar ''reset_timedout_connection'' (server_bool reset_timedout_connection_update) 0 0 pgrest_conf_bool_set,
      object ''location'' (Create pgrest_conf_http_path_create),
      scalar ''path'' No_offset 0 0 pgrest_conf_http_path_set,
      object ''handlers'' No_handler]"

definition pgrest_conf_static_cmds :: "conf_build \<Rightarrow> conf_command list" where
  "pgrest_conf_static_cmds b =
     root_cmds @ listen_cmds @ [scalar ''server_name'' No_offset 0 0 pgrest_conf_server_name_set]
     @ (if HAVE_OPENSSL b then ssl_cmds else []) @ server_cmds"

section \<open>Directives of the handlers and of the upstreams\<close>

text \<open>The list \<open>pgrest_conf_dynamic_cmds\<close>, to which the registrations append.\<close>

definition pgrest_conf_def_cmd ::
  "string \<Rightarrow> (conf_env \<Rightarrow> conf_args \<Rightarrow> conf_val \<Rightarrow> obj \<Rightarrow> conf_state \<Rightarrow> conf_state conf_run) \<Rightarrow> conf_command list \<Rightarrow> conf_command list" where
  "pgrest_conf_def_cmd name h cmds = cmds @ [scalar name No_offset 0 0 h]"

definition pgrest_conf_def_obj ::
  "string \<Rightarrow> (conf_env \<Rightarrow> obj \<Rightarrow> conf_state \<Rightarrow> (obj option \<times> conf_state) conf_run) \<Rightarrow> conf_command list \<Rightarrow> conf_command list" where
  "pgrest_conf_def_obj name h cmds = cmds @ [object name (Create h)]"

text \<open>The upstream component behind the types of the table.\<close>

definition with_upstream :: "conf_args \<Rightarrow> (bool \<times> up_state) run \<Rightarrow> conf_state \<Rightarrow> conf_state conf_run" where
  "with_upstream cmd m st =
     bind_run (lift_ub m) (\<lambda>r. bind_run (check_ok (cmd_name cmd) r) (\<lambda>up. Inr (st\<lparr>upstream := up\<rparr>)))"

definition known_upstream :: "nat \<Rightarrow> conf_state \<Rightarrow> bool" where
  "known_upstream i st \<longleftrightarrow> i < length (srv_confs (upstream st))"

definition create_upstream :: "conf_env \<Rightarrow> obj \<Rightarrow> conf_state \<Rightarrow> (obj option \<times> conf_state) conf_run" where
  "create_upstream env parent st =
     (case pgrest_http_upstream_conf (pg env) (upstream st) of
        (r, up) \<Rightarrow> Inr (map_option OUpstream r, st\<lparr>upstream := up\<rparr>))"

definition create_userver :: "conf_env \<Rightarrow> obj \<Rightarrow> conf_state \<Rightarrow> (obj option \<times> conf_state) conf_run" where
  "create_userver env parent st =
     (case parent of
        OUpstream i \<Rightarrow>
          if known_upstream i st
          then bind_run (lift_ub (pgrest_http_upstream_server_conf (pg env) i (upstream st)))
                 (\<lambda>(r, up). Inr (map_option (OUserver i) r, st\<lparr>upstream := up\<rparr>))
          else Inl (Undefined OutOfBounds)
      | _ \<Rightarrow> Inl (Undefined OutOfBounds))"

definition set_upstream_name :: "conf_env \<Rightarrow> conf_args \<Rightarrow> conf_val \<Rightarrow> obj \<Rightarrow> conf_state \<Rightarrow> conf_state conf_run" where
  "set_upstream_name env cmd val parent st =
     bind_run (as_str val) (\<lambda>value.
       case parent of
         OUpstream i \<Rightarrow>
           if known_upstream i st
           then with_upstream cmd (pgrest_http_upstream_name (pg env) (ilib env) value i (upstream st)) st
           else Inl (Undefined OutOfBounds)
       | _ \<Rightarrow> Inl (Undefined OutOfBounds))"

definition set_upstream_algorithm :: "conf_env \<Rightarrow> conf_args \<Rightarrow> conf_val \<Rightarrow> obj \<Rightarrow> conf_state \<Rightarrow> conf_state conf_run" where
  "set_upstream_algorithm env cmd val parent st =
     bind_run (as_str val) (\<lambda>value.
       case parent of
         OUpstream i \<Rightarrow>
           if known_upstream i st
           then with_upstream cmd (Inr (pgrest_http_upstream_algorithm value i (upstream st))) st
           else Inl (Undefined OutOfBounds)
       | _ \<Rightarrow> Inl (Undefined OutOfBounds))"

definition set_upstream_saddress :: "conf_env \<Rightarrow> conf_args \<Rightarrow> conf_val \<Rightarrow> obj \<Rightarrow> conf_state \<Rightarrow> conf_state conf_run" where
  "set_upstream_saddress env cmd val parent st =
     bind_run (as_str val) (\<lambda>value.
       case parent of
         OUserver i j \<Rightarrow>
           if known_upstream i st
           then with_upstream cmd (pgrest_http_upstream_saddress (ilib env) value i j (upstream st)) st
           else Inl (Undefined OutOfBounds)
       | _ \<Rightarrow> Inl (Undefined OutOfBounds))"

definition pgrest_http_upstream_conf_register :: "conf_command list \<Rightarrow> conf_command list" where
  "pgrest_http_upstream_conf_register cmds =
     pgrest_conf_def_cmd ''uaddress'' set_upstream_saddress
     (pgrest_conf_def_cmd ''algorithm'' set_upstream_algorithm
     (pgrest_conf_def_cmd ''name'' set_upstream_name
     (pgrest_conf_def_obj ''userver'' create_userver
     (pgrest_conf_def_obj ''upstream'' create_upstream cmds))))"

definition pgrest_http_postgres_conf_register :: "conf_command list \<Rightarrow> conf_command list" where
  "pgrest_http_postgres_conf_register cmds =
     pgrest_conf_def_cmd ''encode'' (\<lambda>env cmd. pgrest_http_postgres_encode)
     (pgrest_conf_def_cmd ''dbname'' (\<lambda>env cmd. pgrest_http_postgres_dbname)
     (pgrest_conf_def_cmd ''pg_pass'' (\<lambda>env cmd. pgrest_http_postgres_pgpass env (cmd_name cmd))
     (pgrest_conf_def_obj ''postgres'' pgrest_http_postgres_conf cmds)))"

definition pgrest_http_push_stream_conf_register :: "conf_command list \<Rightarrow> conf_command list" where
  "pgrest_http_push_stream_conf_register cmds =
     pgrest_conf_def_cmd ''subscriber'' (\<lambda>env cmd. pgrest_http_push_stream_tunnel (cmd_name cmd))
     (pgrest_conf_def_cmd ''store_message'' (\<lambda>env cmd. pgrest_http_push_stream_stor)
     (pgrest_conf_def_cmd ''param_name'' (\<lambda>env cmd. pgrest_http_push_stream_name)
     (pgrest_conf_def_cmd ''mode'' (\<lambda>env cmd. pgrest_http_push_stream_mode (cmd_name cmd))
     (pgrest_conf_def_obj ''push_stream'' pgrest_http_push_stream_conf cmds))))"

definition pgrest_http_setup_configurators :: "conf_command list" where
  "pgrest_http_setup_configurators =
     pgrest_http_push_stream_conf_register (pgrest_http_postgres_conf_register (pgrest_http_upstream_conf_register []))"

section \<open>The walk over the document\<close>

definition pgrest_conf_cmd_find :: "conf_env \<Rightarrow> string \<Rightarrow> conf_command conf_run" where
  "pgrest_conf_cmd_find env name =
     (case find (\<lambda>c. cmd_name (args c) = name) (pgrest_conf_static_cmds (build env)) of
        Some cmd \<Rightarrow> Inr cmd
      | None \<Rightarrow>
          (case find (\<lambda>c. cmd_name (args c) = name) pgrest_http_setup_configurators of
             Some cmd \<Rightarrow> Inr cmd
           | None \<Rightarrow> Inl (Ereport name)))"

definition pgrest_conf_parse_type :: "conf_env \<Rightarrow> string \<Rightarrow> conf_val \<Rightarrow> obj \<Rightarrow> conf_state \<Rightarrow> conf_state conf_run" where
  "pgrest_conf_parse_type env name val parent st =
     bind_run (pgrest_conf_cmd_find env name) (\<lambda>cmd.
       if cflags cmd \<noteq> PGREST_CONF_SCALAR then Inl (Ereport (cmd_name (args cmd)))
       else case chandler cmd of
              Setter h \<Rightarrow> h env (args cmd) val parent st
            | _ \<Rightarrow> Inl (Undefined NullDeref))"

text \<open>\<open>(int) json_integer_value(jelem)\<close>: the low 32 bits.\<close>

definition to_int :: "int \<Rightarrow> int" where
  "to_int n = sint (word_of_int n :: 32 word)"

definition open_object :: "conf_env \<Rightarrow> string \<Rightarrow> obj \<Rightarrow> conf_state \<Rightarrow> (obj \<times> conf_state) conf_run" where
  "open_object env name parent st =
     bind_run (pgrest_conf_cmd_find env name) (\<lambda>cmd.
       if cflags cmd \<noteq> PGREST_CONF_OBJECT then Inl (Ereport (cmd_name (args cmd)))
       else case chandler cmd of
              Create h \<Rightarrow> bind_run (h env parent st) (\<lambda>(ob, st1).
                case ob of None \<Rightarrow> Inl (Ereport name) | Some ob \<Rightarrow> Inr (ob, st1))
            | _ \<Rightarrow> Inr (parent, st))"

text \<open>
  \<open>parse_members\<close> is the loop of \<^verbatim>\<open>pgrest_conf_parse_object\<close>; a value that is not an object
  has no members. \<open>parse_elems\<close> is the loop of \<^verbatim>\<open>pgrest_conf_parse_array\<close>, whose elements are
  parsed as objects of the array's directive.
\<close>

fun pgrest_conf_parse_object :: "conf_env \<Rightarrow> string \<Rightarrow> json \<Rightarrow> obj \<Rightarrow> conf_state \<Rightarrow> conf_state conf_run"
and parse_members :: "conf_env \<Rightarrow> (string \<times> json) list \<Rightarrow> obj \<Rightarrow> conf_state \<Rightarrow> conf_state conf_run"
and pgrest_conf_parse_array :: "conf_env \<Rightarrow> string \<Rightarrow> json list \<Rightarrow> obj \<Rightarrow> conf_state \<Rightarrow> conf_state conf_run"
where
  "pgrest_conf_parse_object env name (JSON_OBJECT ms) parent st =
     bind_run (open_object env name parent st) (\<lambda>(ob, st1). parse_members env ms ob st1)"
| "pgrest_conf_parse_object env name _ parent st =
     bind_run (open_object env name parent st) (\<lambda>(ob, st1). Inr st1)"
| "parse_members env [] ob st = Inr st"
| "parse_members env ((elem_name, jnode) # ms) ob st =
     bind_run
       (case jnode of
          JSON_STRING s \<Rightarrow> pgrest_conf_parse_type env elem_name (VStr s) ob st
        | JSON_INTEGER n \<Rightarrow> pgrest_conf_parse_type env elem_name (VInt (to_int n)) ob st
        | JSON_TRUE \<Rightarrow> pgrest_conf_parse_type env elem_name (VBool True) ob st
        | JSON_FALSE \<Rightarrow> pgrest_conf_parse_type env elem_name (VBool False) ob st
        | JSON_ARRAY js \<Rightarrow>
            bind_run (pgrest_conf_cmd_find env elem_name) (\<lambda>cmd. pgrest_conf_parse_array env elem_name js ob st)
        | JSON_OBJECT ns \<Rightarrow> pgrest_conf_parse_object env elem_name (JSON_OBJECT ns) ob st
        | _ \<Rightarrow> Inr st)
       (parse_members env ms ob)"
| "pgrest_conf_parse_array env name [] parent st = Inr st"
| "pgrest_conf_parse_array env name (j # js) parent st =
     bind_run (pgrest_conf_parse_object env name j parent st) (pgrest_conf_parse_array env name js parent)"

section \<open>Reading the file\<close>

definition pgrest_conf_default_values :: "conf_env \<Rightarrow> conf_state \<Rightarrow> conf_state conf_run" where
  "pgrest_conf_default_values env st =
     (if asize (conf_http_servers (setting st)) = 0 then
        bind_run (pgrest_conf_http_server_create env OSetting st) (\<lambda>(ob, st1).
          case ob of
            None \<Rightarrow> Inl (Undefined NullDeref)
          | Some ob \<Rightarrow> bind_run (pgrest_conf_listener_create env ob st1) (\<lambda>(l, st2). Inr st2))
      else Inr st)"

definition pgrest_conf_values_check :: "conf_state \<Rightarrow> conf_state conf_run" where
  "pgrest_conf_values_check st =
     (if asize (conf_http_servers (setting st)) \<noteq> asize (conf_listeners (setting st)) then Inl (Ereport ''listen'')
      else Inr st)"

text \<open>
  \<^verbatim>\<open>pgrest_conf_parse\<close>: None is the result \<open>false\<close>. An error raised while the document is
  walked is caught (\<open>PG_CATCH\<close>) and gives \<open>false\<close>; one raised by the check of the values
  is not.
\<close>

definition pgrest_conf_parse :: "conf_env \<Rightarrow> (string \<Rightarrow> json option) \<Rightarrow> string \<Rightarrow> conf_state \<Rightarrow> conf_state option conf_run" where
  "pgrest_conf_parse env json_load_file filename st =
     (case json_load_file filename of
        None \<Rightarrow> Inr None
      | Some jroot \<Rightarrow>
          (case pgrest_conf_parse_object env ''root'' jroot ONull st of
             Inl (Ereport d) \<Rightarrow> Inr None
           | Inl (Undefined e) \<Rightarrow> Inl (Undefined e)
           | Inr st1 \<Rightarrow>
               bind_run (pgrest_conf_default_values env st1) (\<lambda>st2.
               bind_run (pgrest_conf_values_check st2) (\<lambda>st3. Inr (Some st3)))))"

end
