(* ===== verification/Listener.thy ===== *)
theory Listener
  imports Conf
begin

text \<open>
  Listening sockets, \<^verbatim>\<open>src/pg_rest_listener.c\<close>: creating a listener, opening and configuring
  its socket, closing it. The operating system is a parameter that answers each system
  call; what the code does with its sockets is returned as a trace of the descriptors it
  opened and closed, so that leaks are visible. Log messages are left out.
\<close>

record pgrest_listener =
  fd :: "nat option"                 \<comment> \<open>None is -1\<close>
  lsockaddr :: sockaddr
  lsocklen :: nat
  addr_text :: string
  addr_text_max_len :: nat
  backlog :: int
  rcvbuf :: int
  sndbuf :: int
  keepidle :: int
  keepintvl :: int
  keepcnt :: int
  lservers :: "nat option"           \<comment> \<open>the \<open>pgrest_http_port_t\<close> of the listener\<close>
  connection :: "nat option"
  post_accept_timeout :: int
  lopen :: bool
  llisten :: bool
  addr_ntop :: bool
  ipv6only :: bool
  reuseport :: bool
  keepalive :: int
  deferred_accept :: bool
  add_deferred :: bool
  accept_filter :: string
  setfib :: int
  fastopen :: int

definition PGREST_INET_ADDRSTRLEN :: nat where "PGREST_INET_ADDRSTRLEN = 16"
definition PGREST_INET6_ADDRSTRLEN :: nat where "PGREST_INET6_ADDRSTRLEN = 46"
definition PGREST_UNIX_ADDRSTRLEN :: nat where "PGREST_UNIX_ADDRSTRLEN = 108"

text \<open>
  The caller appends the result to \<open>pgrest_listener_listeners\<close>. If the address cannot be
  printed the source duplicates an uninitialised buffer.
\<close>

definition pgrest_listener_create :: "conf_env \<Rightarrow> sockaddr \<Rightarrow> nat \<Rightarrow> pgrest_listener run" where
  "pgrest_listener_create env sa slen =
     (case pgrest_inet_ntop (ilib env) sa False PGREST_SOCKADDR_STRLEN True of
        None \<Rightarrow> Inl OutOfBounds
      | Some text \<Rightarrow>
          Inr \<lparr>fd = None, lsockaddr = sa, lsocklen = slen, addr_text = text,
            addr_text_max_len = (case sa of AF_INET6 _ _ \<Rightarrow> PGREST_INET6_ADDRSTRLEN | AF_UNIX _ \<Rightarrow> PGREST_UNIX_ADDRSTRLEN
              | AF_INET _ _ \<Rightarrow> PGREST_INET_ADDRSTRLEN),
            backlog = 512, rcvbuf = -1, sndbuf = -1, keepidle = 0, keepintvl = 0, keepcnt = 0, lservers = None,
            connection = None, post_accept_timeout = 0, lopen = False, llisten = False, addr_ntop = False, ipv6only = False,
            reuseport = False, keepalive = 0, deferred_accept = False, add_deferred = False, accept_filter = [],
            setfib = (if HAVE_SETFIB (build env) then -1 else 0),
            fastopen = (if HAVE_TCP_FASTOPEN (build env) then -1 else 0)\<rparr>)"

section \<open>Opening\<close>

record listen_os =
  os_socket :: "pgrest_listener \<Rightarrow> nat option"
  os_reuseaddr :: "nat \<Rightarrow> bool"
  os_reuseport :: "nat \<Rightarrow> bool"
  os_nonblocking :: "nat \<Rightarrow> bool"
  os_bind :: "nat \<Rightarrow> sockaddr \<Rightarrow> bool"
  os_listen :: "nat \<Rightarrow> int \<Rightarrow> bool"

datatype fd_event = Opened nat | Closed nat

text \<open>One round of the loop of \<^verbatim>\<open>pgrest_listener_open\<close>; None is \<open>return false\<close>.\<close>

definition open_listener :: "conf_build \<Rightarrow> listen_os \<Rightarrow> pgrest_listener \<Rightarrow> pgrest_listener option \<times> fd_event list" where
  "open_listener b os l =
     (if fd l \<noteq> None then (Some l, [])
      else case os_socket os l of
             None \<Rightarrow> (None, [])
           | Some s \<Rightarrow>
               if \<not> os_reuseaddr os s then (None, [Opened s, Closed s])
               else if HAVE_REUSEPORT b \<and> reuseport l \<and> \<not> os_reuseport os s then (None, [Opened s, Closed s])
               else if \<not> os_nonblocking os s then (None, [Opened s, Closed s])
               else if \<not> os_bind os s (lsockaddr l) then (None, [Opened s, Closed s])
               else if \<not> os_listen os s (backlog l) then (None, [Opened s, Closed s])
               else (Some (l\<lparr>llisten := True, fd := Some s\<rparr>), [Opened s]))"

fun pgrest_listener_open :: "conf_build \<Rightarrow> listen_os \<Rightarrow> pgrest_listener list \<Rightarrow> bool \<times> pgrest_listener list \<times> fd_event list" where
  "pgrest_listener_open b os [] = (True, [], [])"
| "pgrest_listener_open b os (l # ls) =
     (case open_listener b os l of
        (None, ev) \<Rightarrow> (False, l # ls, ev)
      | (Some l', ev) \<Rightarrow>
          (case pgrest_listener_open b os ls of (ok, ls', ev') \<Rightarrow> (ok, l' # ls', ev @ ev')))"

section \<open>Configuring\<close>

datatype sock_opt =
    SO_RCVBUF | SO_SNDBUF | SO_KEEPALIVE | TCP_KEEPIDLE | TCP_KEEPINTVL | TCP_KEEPCNT | SO_SETFIB | TCP_FASTOPEN
  | SO_ACCEPTFILTER | TCP_DEFER_ACCEPT

text \<open>
  The options \<^verbatim>\<open>pgrest_listener_configure\<close> sets on one listener before the deferred accept,
  in order; failures are ignored.
\<close>

definition plain_options :: "conf_build \<Rightarrow> pgrest_listener \<Rightarrow> (sock_opt \<times> int) list" where
  "plain_options b l =
     (if rcvbuf l \<noteq> -1 then [(SO_RCVBUF, rcvbuf l)] else []) @
     (if sndbuf l \<noteq> -1 then [(SO_SNDBUF, sndbuf l)] else []) @
     (if keepalive l \<noteq> 0 then [(SO_KEEPALIVE, if keepalive l = 1 then 1 else 0)] else []) @
     (if HAVE_KEEPALIVE_TUNABLE b then
        (if keepidle l \<noteq> 0 then [(TCP_KEEPIDLE, keepidle l)] else []) @
        (if keepintvl l \<noteq> 0 then [(TCP_KEEPINTVL, keepintvl l)] else []) @
        (if keepcnt l \<noteq> 0 then [(TCP_KEEPCNT, keepcnt l)] else [])
      else []) @
     (if HAVE_SETFIB b \<and> setfib l \<noteq> -1 then [(SO_SETFIB, setfib l)] else []) @
     (if HAVE_TCP_FASTOPEN b \<and> fastopen l \<noteq> -1 then [(TCP_FASTOPEN, fastopen l)] else [])"

text \<open>
  The deferred accept: the accept filter first, then \<open>TCP_DEFER_ACCEPT\<close>, each one only if
  the build has it; a failure skips the rest of the round. \<open>ok\<close> answers the two calls.
\<close>

definition configure_listener ::
  "conf_build \<Rightarrow> (sock_opt \<Rightarrow> bool) \<Rightarrow> pgrest_listener \<Rightarrow> pgrest_listener \<times> (sock_opt \<times> int) list" where
  "configure_listener b ok l =
     (let opts = plain_options b l;
          filter_step = HAVE_ACCEPTFILTER b \<and> add_deferred l;
          l1 = (if filter_step \<and> ok SO_ACCEPTFILTER then l\<lparr>deferred_accept := True\<rparr> else l);
          opts1 = (if filter_step then opts @ [(SO_ACCEPTFILTER, 0)] else opts)
      in if filter_step \<and> \<not> ok SO_ACCEPTFILTER then (l, opts1)
         else if HAVE_TCP_DEFER_ACCEPT b \<and> add_deferred l then
           (if ok TCP_DEFER_ACCEPT then l1\<lparr>deferred_accept := True\<rparr> else l1, opts1 @ [(TCP_DEFER_ACCEPT, 1)])
         else (l1, opts1))"

definition pgrest_listener_configure ::
  "conf_build \<Rightarrow> (pgrest_listener \<Rightarrow> sock_opt \<Rightarrow> bool) \<Rightarrow> pgrest_listener list \<Rightarrow> pgrest_listener list" where
  "pgrest_listener_configure b ok ls = map (\<lambda>l. fst (configure_listener b (ok l) l)) ls"

section \<open>Closing\<close>

text \<open>
  \<^verbatim>\<open>pgrest_listener_close\<close>: also a descriptor of -1 is passed to \<open>closesocket\<close>; only the
  postmaster unlinks the path of a Unix socket.
\<close>

definition close_listener :: "bool \<Rightarrow> pgrest_listener \<Rightarrow> pgrest_listener \<times> fd_event list \<times> string list" where
  "close_listener postmaster l =
     (l\<lparr>fd := None\<rparr>,
      (case fd l of Some s \<Rightarrow> [Closed s] | None \<Rightarrow> []),
      (if family_of (lsockaddr l) = F_UNIX \<and> postmaster then [addr_text l] else []))"

definition pgrest_listener_close :: "bool \<Rightarrow> pgrest_listener list \<Rightarrow> pgrest_listener list \<times> fd_event list \<times> string list" where
  "pgrest_listener_close postmaster ls =
     (map (\<lambda>l. fst (close_listener postmaster l)) ls,
      concat (map (\<lambda>l. fst (snd (close_listener postmaster l))) ls),
      concat (map (\<lambda>l. snd (snd (close_listener postmaster l))) ls))"

definition pgrest_listener_init ::
  "conf_build \<Rightarrow> listen_os \<Rightarrow> (pgrest_listener \<Rightarrow> sock_opt \<Rightarrow> bool) \<Rightarrow> pgrest_listener list \<Rightarrow> pgrest_listener list option \<times> fd_event list" where
  "pgrest_listener_init b os ok ls =
     (if ls = [] then (None, [])
      else case pgrest_listener_open b os ls of
             (False, ls', ev) \<Rightarrow> (None, ev)
           | (True, ls', ev) \<Rightarrow> (Some (pgrest_listener_configure b ok ls'), ev))"

section \<open>No descriptor is lost\<close>

definition fds_of :: "pgrest_listener list \<Rightarrow> nat list" where
  "fds_of ls = concat (map (\<lambda>l. case fd l of Some s \<Rightarrow> [s] | None \<Rightarrow> []) ls)"

lemma close_closes: "fst (snd (pgrest_listener_close pm ls)) = map Closed (fds_of ls) \<and> fds_of (fst (pgrest_listener_close pm ls)) = []"
  by (induction ls) (auto simp: pgrest_listener_close_def close_listener_def fds_of_def split: option.splits)

lemma fds_of_Cons [simp]: "fds_of (l # ls) = (case fd l of Some s \<Rightarrow> [s] | None \<Rightarrow> []) @ fds_of ls"
  by (simp add: fds_of_def)

lemma open_listener_cases:
  assumes "fd l = None" "open_listener b os l = (r, ev)"
  shows "(\<exists>s. r = Some (l\<lparr>llisten := True, fd := Some s\<rparr>) \<and> ev = [Opened s]) \<or>
     r = None \<and> (ev = [] \<or> (\<exists>s. ev = [Opened s, Closed s]))"
  using assms by (auto simp: open_listener_def split: option.splits if_splits)

text \<open>
  C32. Opening the listeners accounts for every descriptor: if \<^verbatim>\<open>pgrest_listener_open\<close>
  succeeds, every listener has an open socket and the descriptors opened are those of the listeners, in
  order; if it fails, the descriptors it leaves open are those recorded in the listeners (so that
  \<^verbatim>\<open>pgrest_listener_close\<close> will close them) and the socket of the failing listener, if
  it got one, has been closed.
\<close>

theorem listener_open_accounts:
  assumes "list_all (\<lambda>l. fd l = None) ls" "pgrest_listener_open b os ls = (ok, ls', ev)"
  shows "\<exists>tl. ev = map Opened (fds_of ls') @ tl \<and> (tl = [] \<or> (\<exists>s. tl = [Opened s, Closed s])) \<and>
    (ok \<longrightarrow> tl = [] \<and> list_all (\<lambda>l. llisten l \<and> fd l \<noteq> None) ls') \<and>
    fst (snd (pgrest_listener_close pm ls')) = map Closed (fds_of ls')"
proof -
  have "\<exists>tl. ev = map Opened (fds_of ls') @ tl \<and> (tl = [] \<or> (\<exists>s. tl = [Opened s, Closed s])) \<and>
    (ok \<longrightarrow> tl = [] \<and> list_all (\<lambda>l. llisten l \<and> fd l \<noteq> None) ls')"
    using assms
  proof (induction ls arbitrary: ok ls' ev)
    case Nil
    then show ?case by (auto simp: fds_of_def)
  next
    case (Cons l ls)
    have rest: "list_all (\<lambda>l. fd l = None) ls \<Longrightarrow> fds_of ls = []" by (induction ls) (auto simp: fds_of_def)
    obtain r e where o: "open_listener b os l = (r, e)" by fastforce
    from open_listener_cases [OF _ o] Cons.prems(1) consider
      s where "r = Some (l\<lparr>llisten := True, fd := Some s\<rparr>)" "e = [Opened s]"
      | "r = None" "e = [] \<or> (\<exists>s. e = [Opened s, Closed s])" by auto
    then show ?case
    proof cases
      case 1
      with o Cons.prems(2) obtain ls2 ev2 where "pgrest_listener_open b os ls = (ok, ls2, ev2)"
        "ls' = l\<lparr>llisten := True, fd := Some s\<rparr> # ls2" "ev = Opened s # ev2"
        by (auto split: prod.splits)
      with Cons.IH [of ok ls2 ev2] Cons.prems(1) show ?thesis by auto
    next
      case 2
      with o Cons.prems rest show ?thesis by auto
    qed
  qed
  with close_closes show ?thesis by blast
qed

definition os0 :: listen_os where
  "os0 = \<lparr>os_socket = (\<lambda>l. Some (length (addr_text l))), os_reuseaddr = (\<lambda>_. True), os_reuseport = (\<lambda>_. True),
     os_nonblocking = (\<lambda>_. True), os_bind = (\<lambda>s sa. pgrest_inet_get_port sa \<noteq> 80), os_listen = (\<lambda>_ _. True)\<rparr>"

definition listener0 :: "nat \<Rightarrow> string \<Rightarrow> pgrest_listener" where
  "listener0 p text = \<lparr>fd = None, lsockaddr = AF_INET p 0, lsocklen = 16, addr_text = text,
     addr_text_max_len = 16, backlog = 512, rcvbuf = -1, sndbuf = -1, keepidle = 0, keepintvl = 0, keepcnt = 0, lservers = None,
     connection = None, post_accept_timeout = 0, lopen = True, llisten = False, addr_ntop = True, ipv6only = False,
     reuseport = False, keepalive = 0, deferred_accept = False, add_deferred = False, accept_filter = [], setfib = 0, fastopen = -1\<rparr>"

text \<open>The second listener cannot bind: its socket is closed again, the first one's is kept.\<close>

theorem listener_open_accounts_witness:
  "\<forall>b. \<exists>tl ls'. pgrest_listener_open b os0 [listener0 8080 ''a'', listener0 80 ''bc''] = (False, ls', map Opened (fds_of ls') @ tl) \<and>
     fds_of ls' = [1] \<and> tl = [Opened 2, Closed 2]"
proof
  fix b
  let ?ls = "[listener0 8080 ''a'', listener0 80 ''bc'']"
  have o: "\<exists>ls'. pgrest_listener_open b os0 ?ls = (False, ls', [Opened 1, Opened 2, Closed 2]) \<and> fds_of ls' = [1]"
    by (simp add: open_listener_def os0_def listener0_def fds_of_def)
  then obtain ls' where l: "pgrest_listener_open b os0 ?ls = (False, ls', [Opened 1, Opened 2, Closed 2])" "fds_of ls' = [1]"
    by blast
  have "list_all (\<lambda>l. fd l = None) ?ls" by (simp add: listener0_def)
  from listener_open_accounts [OF this l(1)] l
  show "\<exists>tl ls'. pgrest_listener_open b os0 ?ls = (False, ls', map Opened (fds_of ls') @ tl) \<and> fds_of ls' = [1] \<and> tl = [Opened 2, Closed 2]"
    by auto
qed

end
