(* ===== verification/ConfInv.thy ===== *)
theory ConfInv
  imports Conf
begin

text \<open>
  What a successful read of the configuration guarantees. The walk over the document is
  generic in the state property: a locale asks that every directive of the table keeps it
  and gives that every document does. It is interpreted for the ranges of the table, which
  then hold in every configuration the program starts with, and for the upstream table,
  which stays untouched by a document that configures no upstream.
\<close>

section \<open>Properties that every directive keeps\<close>

fun keys_of :: "json \<Rightarrow> string list" where
  "keys_of (JSON_OBJECT ms) = concat (map (\<lambda>(k, j). k # keys_of j) ms)"
| "keys_of (JSON_ARRAY js) = concat (map keys_of js)"
| "keys_of _ = []"

definition setter_keeps where
  "setter_keeps env I c \<longleftrightarrow> (\<forall>h v ob st st'. chandler c = Setter h \<longrightarrow> I st \<longrightarrow> h env (args c) v ob st = Inr st' \<longrightarrow> I st')"

definition create_keeps where
  "create_keeps env I c \<longleftrightarrow>
     (\<forall>h ob ob' st st'. chandler c = Create h \<longrightarrow> I st \<longrightarrow> h env ob st = Inr (Some ob', st') \<longrightarrow> I st')"

lemma cmd_find_in:
  "pgrest_conf_cmd_find env name = Inr c \<Longrightarrow>
     c \<in> set (pgrest_conf_static_cmds (build env) @ pgrest_http_setup_configurators) \<and> cmd_name (args c) = name"
  by (auto simp: pgrest_conf_cmd_find_def find_Some_iff split: option.splits)

locale conf_invariant =
  fixes env :: conf_env and allowed :: "string \<Rightarrow> bool" and I :: "conf_state \<Rightarrow> bool"
  assumes set_keeps:
      "c \<in> set (pgrest_conf_static_cmds (build env) @ pgrest_http_setup_configurators) \<Longrightarrow>
       allowed (cmd_name (args c)) \<Longrightarrow> setter_keeps env I c"
    and new_keeps:
      "c \<in> set (pgrest_conf_static_cmds (build env) @ pgrest_http_setup_configurators) \<Longrightarrow>
       allowed (cmd_name (args c)) \<Longrightarrow> create_keeps env I c"
begin

lemma parse_type_keeps:
  assumes "pgrest_conf_parse_type env name v ob st = Inr st'" "allowed name" "I st"
  shows "I st'"
proof -
  from assms(1) obtain c h where c: "pgrest_conf_cmd_find env name = Inr c" "chandler c = Setter h"
    "h env (args c) v ob st = Inr st'"
    by (auto simp: pgrest_conf_parse_type_def bind_run_Inr split: if_splits conf_handler.splits)
  from cmd_find_in [OF c(1)] set_keeps assms(2) have "setter_keeps env I c" by blast
  with c assms(3) show ?thesis by (auto simp: setter_keeps_def)
qed

lemma open_object_keeps:
  assumes "open_object env name ob st = Inr (ob', st')" "allowed name" "I st"
  shows "I st'"
proof -
  from assms(1) obtain c where c: "pgrest_conf_cmd_find env name = Inr c"
    and r: "st' = st \<or> (\<exists>h. chandler c = Create h \<and> h env ob st = Inr (Some ob', st'))"
    by (auto simp: open_object_def bind_run_Inr split: if_splits conf_handler.splits option.splits)
  from cmd_find_in [OF c] new_keeps assms(2) have "create_keeps env I c" by blast
  with r assms(3) show ?thesis by (auto simp: create_keeps_def)
qed

lemma members_keep:
  assumes "parse_members env ((k, j) # ms) ob st = Inr st'" "allowed k" "list_all allowed (keys_of j)" "I st"
    and arr: "\<And>js c st'. j = JSON_ARRAY js \<Longrightarrow> pgrest_conf_parse_array env k js ob st = Inr st' \<Longrightarrow> I st'"
    and obj: "\<And>ns st'. j = JSON_OBJECT ns \<Longrightarrow> pgrest_conf_parse_object env k j ob st = Inr st' \<Longrightarrow> I st'"
  shows "\<exists>st1. I st1 \<and> parse_members env ms ob st1 = Inr st'"
  using assms(1-4) arr obj
  by (cases j) (auto simp: bind_run_Inr simp del: pgrest_conf_parse_object.simps dest: parse_type_keeps)

lemma parse_keeps:
  "e = env \<Longrightarrow> pgrest_conf_parse_object e name j ob st = Inr st' \<Longrightarrow> allowed name \<Longrightarrow> list_all allowed (keys_of j) \<Longrightarrow> I st \<Longrightarrow> I st'"
  "e = env \<Longrightarrow> parse_members e ms ob st = Inr st' \<Longrightarrow> list_all allowed (keys_of (JSON_OBJECT ms)) \<Longrightarrow> I st \<Longrightarrow> I st'"
  "e = env \<Longrightarrow> pgrest_conf_parse_array e name js ob st = Inr st' \<Longrightarrow> allowed name \<Longrightarrow> list_all allowed (keys_of (JSON_ARRAY js)) \<Longrightarrow> I st \<Longrightarrow> I st'"
proof (induction e name j ob st and e ms ob st and e name js ob st
       arbitrary: st' and st' and st' rule: pgrest_conf_parse_object_parse_members_pgrest_conf_parse_array.induct)
  case (1 env name ms parent st)
  then show ?case by (auto simp: bind_run_Inr dest!: open_object_keeps)
next
  case (4 e k j ms ob st)
  then have k: "allowed k" "list_all allowed (keys_of j)" "list_all allowed (keys_of (JSON_OBJECT ms))" by auto
  have "\<exists>st1. I st1 \<and> parse_members env ms ob st1 = Inr st'"
    using 4 k by (intro members_keep [of k j ms ob st st']) auto
  then show ?case using 4 k by blast
next
  case (6 env name j js parent st)
  then show ?case by (auto simp: bind_run_Inr)
qed (auto simp: bind_run_Inr dest: open_object_keeps)

end

section \<open>The ranges of the table\<close>

definition listener_ok :: "conf_listener \<Rightarrow> bool" where
  "listener_ok l \<longleftrightarrow>
     l_backlog l \<in> {1..65535} \<and> l_sndbuf l \<in> {-1..65535} \<and> l_rcvbuf l \<in> {-1..65535} \<and>
     l_so_keepalive l \<in> {0..2} \<and> l_tcp_keepidle l \<in> {0..INT_MAX} \<and> l_tcp_keepintvl l \<in> {0..INT_MAX} \<and>
     l_tcp_keepcnt l \<in> {0..INT_MAX} \<and> l_setfib l \<in> {-1..INT_MAX} \<and> l_fastopen l \<in> {-1..INT_MAX} \<and>
     length (l_accept_filter l) < PGREST_AF_SIZE"

definition server_ok :: "conf_http_server \<Rightarrow> bool" where
  "server_ok s \<longleftrightarrow>
     ssl_session_timeout s \<in> {60000..3600000} \<and> keepalive_timeout s \<in> {1000..3600000} \<and>
     client_header_timeout s \<in> {1000..3600000} \<and> client_header_buffer_size s \<in> {1024..8192} \<and>
     client_max_header_size s \<in> {4096..1048576} \<and> client_max_body_size s \<in> {4096..2097152} \<and>
     client_body_buffer_size s \<in> {1024..8192} \<and> client_body_timeout s \<in> {1000..3600000} \<and>
     lingering_time s \<in> {1000..3600000} \<and> lingering_timeout s \<in> {1000..3600000} \<and>
     lingering_close s \<in> {0..2}"

definition setting_ok :: "setting \<Rightarrow> bool" where
  "setting_ok s \<longleftrightarrow>
     worker_processes s \<in> {1..128} \<and> worker_priority s \<in> {-20..20} \<and> worker_nofile s \<in> {-1..65535} \<and>
     worker_noconn s \<in> {1..65535} \<and> acceptor_mutex_delay s \<in> {500..600000} \<and>
     length (temp_buffer_path s) < MAXPGPATH \<and>
     array_wf (conf_http_servers s) \<and> array_wf (conf_listeners s) \<and>
     list_all server_ok (contents (conf_http_servers s)) \<and> list_all listener_ok (contents (conf_listeners s))"

abbreviation conf_ok :: "conf_state \<Rightarrow> bool" where "conf_ok st \<equiv> setting_ok (setting st)"

lemma in_setting_ok:
  "in_setting f ob st = Inr st' \<Longrightarrow> conf_ok st \<Longrightarrow> (\<And>s. setting_ok s \<Longrightarrow> setting_ok (f s)) \<Longrightarrow> conf_ok st'"
  by (auto simp: in_setting_def split: obj.splits)

lemma setting_ok_updates:
  "setting_ok s \<Longrightarrow> setting_ok (s\<lparr>acceptor_mutex := b\<rparr>)"
  "setting_ok s \<Longrightarrow> setting_ok (s\<lparr>acceptor_multi_accept := b\<rparr>)"
  "setting_ok s \<Longrightarrow> length p < MAXPGPATH \<Longrightarrow> setting_ok (s\<lparr>temp_buffer_path := p\<rparr>)"
  "setting_ok s \<Longrightarrow> 1 \<le> v \<Longrightarrow> v \<le> 128 \<Longrightarrow> setting_ok (s\<lparr>worker_processes := v\<rparr>)"
  "setting_ok s \<Longrightarrow> -20 \<le> v \<Longrightarrow> v \<le> 20 \<Longrightarrow> setting_ok (s\<lparr>worker_priority := v\<rparr>)"
  "setting_ok s \<Longrightarrow> -1 \<le> v \<Longrightarrow> v \<le> 65535 \<Longrightarrow> setting_ok (s\<lparr>worker_nofile := v\<rparr>)"
  "setting_ok s \<Longrightarrow> 1 \<le> v \<Longrightarrow> v \<le> 65535 \<Longrightarrow> setting_ok (s\<lparr>worker_noconn := v\<rparr>)"
  "setting_ok s \<Longrightarrow> 500 \<le> v \<Longrightarrow> v \<le> 600000 \<Longrightarrow> setting_ok (s\<lparr>acceptor_mutex_delay := v\<rparr>)"
  by (simp_all add: setting_ok_def)

lemma in_server_ok:
  assumes "in_server f ob st = Inr st'" "conf_ok st" "\<And>s. server_ok s \<Longrightarrow> server_ok (f s)"
  shows "conf_ok st'"
proof -
  from assms(1) obtain i a where a: "array_modify i f (conf_http_servers (setting st)) = Inr a"
    "st' = st\<lparr>setting := (setting st)\<lparr>conf_http_servers := a\<rparr>\<rparr>"
    by (auto simp: in_server_def conf_run_simps split: obj.splits)
  with assms(2) array_modify_wf [OF _ a(1)] show ?thesis
    by (auto simp: setting_ok_def list_all_length nth_list_update assms(3))
qed

lemma in_listener_ok:
  assumes "in_listener f ob st = Inr st'" "conf_ok st" "\<And>l. listener_ok l \<Longrightarrow> listener_ok (f l)"
  shows "conf_ok st'"
proof -
  from assms(1) obtain i a where a: "array_modify i f (conf_listeners (setting st)) = Inr a"
    "st' = st\<lparr>setting := (setting st)\<lparr>conf_listeners := a\<rparr>\<rparr>"
    by (auto simp: in_listener_def conf_run_simps split: obj.splits)
  with assms(2) array_modify_wf [OF _ a(1)] show ?thesis
    by (auto simp: setting_ok_def list_all_length nth_list_update assms(3))
qed

text \<open>Objects outside the settings.\<close>

lemma in_others_setting:
  "in_path f ob st = Inr st' \<Longrightarrow> setting st' = setting st"
  "in_postgres g ob st = Inr st' \<Longrightarrow> setting st' = setting st"
  "in_push h ob st = Inr st' \<Longrightarrow> setting st' = setting st"
  by (auto simp: in_path_def in_postgres_def in_push_def conf_run_simps split: obj.splits)


text \<open>The stores of the table keep the ranges when the value is in the range of the directive.\<close>

definition int_ok :: "int \<Rightarrow> int \<Rightarrow> (int \<Rightarrow> obj \<Rightarrow> conf_state \<Rightarrow> conf_state conf_run) \<Rightarrow> bool" where
  "int_ok lo hi f \<longleftrightarrow> (\<forall>v ob st st'. lo \<le> v \<longrightarrow> v \<le> hi \<longrightarrow> conf_ok st \<longrightarrow> f v ob st = Inr st' \<longrightarrow> conf_ok st')"

definition bool_ok :: "(bool \<Rightarrow> obj \<Rightarrow> conf_state \<Rightarrow> conf_state conf_run) \<Rightarrow> bool" where
  "bool_ok f \<longleftrightarrow> (\<forall>v ob st st'. conf_ok st \<longrightarrow> f v ob st = Inr st' \<longrightarrow> conf_ok st')"

definition set_ok :: "conf_env \<Rightarrow> conf_args \<Rightarrow>
    (conf_env \<Rightarrow> conf_args \<Rightarrow> conf_val \<Rightarrow> obj \<Rightarrow> conf_state \<Rightarrow> conf_state conf_run) \<Rightarrow> bool" where
  "set_ok env c h \<longleftrightarrow> (\<forall>v ob st st'. conf_ok st \<longrightarrow> h env c v ob st = Inr st' \<longrightarrow> conf_ok st')"

lemma integer_set_ok:
  assumes "offset c = Int_at f" "int_ok (min_val c) (max_val c) f"
  shows "set_ok env c pgrest_conf_integer_set"
proof -
  have "conf_ok st'" if "f x ob st = Inr st'" "\<not> x < min_val c" "\<not> max_val c < x" "conf_ok st" for x ob st st'
    using assms(2) that unfolding int_ok_def by (metis not_less)
  then show ?thesis
    using assms(1) by (auto simp: set_ok_def pgrest_conf_integer_set_def store_int_def bind_run_Inr split: if_splits)
qed

lemma bool_set_ok:
  assumes "offset c = Bool_at f" "bool_ok f"
  shows "set_ok env c pgrest_conf_bool_set"
proof -
  have "conf_ok st'" if "f x ob st = Inr st'" "conf_ok st" for x ob st st'
    using assms(2) that by (auto simp: bool_ok_def)
  then show ?thesis
    using assms(1) by (auto simp: set_ok_def pgrest_conf_bool_set_def store_bool_def Let_def split: if_splits)
qed

lemma bind_set_ok: "pgrest_conf_bind_set b ob st = Inr st' \<Longrightarrow> conf_ok st \<Longrightarrow> conf_ok st'"
  by (auto simp: pgrest_conf_bind_set_def listener_ok_def elim!: in_listener_ok split: if_splits)

lemma set_okI: "(\<And>v ob st st'. conf_ok st \<Longrightarrow> h env c v ob st = Inr st' \<Longrightarrow> conf_ok st') \<Longrightarrow> set_ok env c h"
  by (simp add: set_ok_def)

lemma set_okD: "set_ok env c h \<Longrightarrow> h env c v ob st = Inr st' \<Longrightarrow> conf_ok st \<Longrightarrow> conf_ok st'"
  unfolding set_ok_def by blast

lemma integer_set2_ok:
  assumes "offset c = Int_at f" "int_ok (min_val c) (max_val c) f"
  shows "set_ok env c pgrest_conf_integer_set2"
  unfolding pgrest_conf_integer_set2_def
  by (intro set_okI) (auto simp: bind_run_Inr dest!: bind_set_ok elim: set_okD [OF integer_set_ok [OF assms]])

lemma keepalive_ok: "in_listener (l_so_keepalive_update (\<lambda>_. k)) ob st = Inr st1 \<Longrightarrow> k \<in> {0..2} \<Longrightarrow> conf_ok st \<Longrightarrow> conf_ok st1"
  by (auto simp: listener_ok_def elim!: in_listener_ok)

lemma keepalive_opt_set_ok:
  assumes "offset c = Int_at f" "int_ok (min_val c) (max_val c) f"
  shows "set_ok env c pgrest_conf_keepalive_opt_set"
  unfolding pgrest_conf_keepalive_opt_set_def
  by (intro set_okI)
    (auto simp: bind_run_Inr split: if_splits dest!: keepalive_ok elim: set_okD [OF integer_set2_ok [OF assms]])

text \<open>The setters of a flag that also bind the listener, and those that a build may refuse.\<close>

lemma bool_set2_ok:
  assumes "offset c = Bool_at f" "bool_ok f"
  shows "set_ok env c pgrest_conf_bool_set2"
  unfolding pgrest_conf_bool_set2_def
  by (intro set_okI) (auto simp: bind_run_Inr dest!: bind_set_ok elim: set_okD [OF bool_set_ok [OF assms]])

lemma build_set_ok:
  assumes "offset c = Bool_at f" "bool_ok f"
  shows "set_ok env c pgrest_conf_deferred_set" "set_ok env c pgrest_conf_ipv6only_set"
    "set_ok env c pgrest_conf_reuse_set" "set_ok env c pgrest_conf_ssl_set"
  unfolding pgrest_conf_deferred_set_def pgrest_conf_ipv6only_set_def pgrest_conf_reuse_set_def pgrest_conf_ssl_set_def
  by (intro set_okI;
      auto split: if_splits elim: set_okD [OF bool_set2_ok [OF assms]] set_okD [OF bool_set_ok [OF assms]])+

lemma other_setters_ok:
  "set_ok env c pgrest_conf_address_set" "set_ok env c pgrest_conf_afilter_set" "set_ok env c pgrest_conf_tbpath_set"
  "set_ok env c pgrest_conf_keepalive_set" "set_ok env c pgrest_conf_lc_set"
proof -
  show "set_ok env c pgrest_conf_address_set"
    unfolding pgrest_conf_address_set_def
    by (intro set_okI) (auto simp: conf_run_simps listener_ok_def split: if_splits elim!: in_listener_ok)
  show "set_ok env c pgrest_conf_afilter_set"
    unfolding pgrest_conf_afilter_set_def
    by (intro set_okI) (auto simp: conf_run_simps listener_ok_def PGREST_AF_SIZE_def split: if_splits dest!: bind_set_ok elim!: in_listener_ok)
  show "set_ok env c pgrest_conf_tbpath_set"
    unfolding pgrest_conf_tbpath_set_def
    by (intro set_okI) (auto simp: conf_run_simps Let_def split: if_splits elim!: in_setting_ok intro!: setting_ok_updates)
  show "set_ok env c pgrest_conf_keepalive_set"
    unfolding pgrest_conf_keepalive_set_def
    by (intro set_okI) (auto simp: conf_run_simps split: if_splits dest!: keepalive_ok elim!: bind_set_ok)
  show "set_ok env c pgrest_conf_lc_set"
    unfolding pgrest_conf_lc_set_def PGREST_HTTP_LINGERING_ON_def PGREST_HTTP_LINGERING_OFF_def PGREST_HTTP_LINGERING_ALWAYS_def
    by (intro set_okI) (auto simp: conf_run_simps server_ok_def split: if_splits elim!: in_server_ok)
qed

lemma server_setters_ok: "set_ok env c pgrest_conf_server_name_set" "set_ok env c pgrest_conf_http_path_set"
proof -
  show "set_ok env c pgrest_conf_server_name_set"
    unfolding pgrest_conf_server_name_set_def
    by (intro set_okI) (auto simp: conf_run_simps server_ok_def split: if_splits option.splits elim!: in_server_ok)
  show "set_ok env c pgrest_conf_http_path_set"
    unfolding pgrest_conf_http_path_set_def
    by (intro set_okI)
      (auto simp: conf_run_simps server_ok_def split: if_splits prod.splits dest!: in_others_setting(1) elim!: in_server_ok)
qed

lemma string_set_ok:
  assumes "offset c = Str_at (\<lambda>v. in_server (f v))" "\<And>v s. server_ok s \<Longrightarrow> server_ok (f v s)"
  shows "set_ok env c pgrest_conf_string_set"
  unfolding pgrest_conf_string_set_def
  using assms by (intro set_okI) (auto simp: conf_run_simps store_str_def elim!: in_server_ok)

text \<open>The settings are not touched by the directives of upstreams and handlers.\<close>

lemma dynamic_setters_ok:
  "set_ok env c (\<lambda>env cmd. pgrest_http_postgres_encode)" "set_ok env c (\<lambda>env cmd. pgrest_http_postgres_dbname)"
  "set_ok env c (\<lambda>env cmd. pgrest_http_postgres_pgpass env (cmd_name cmd))"
  "set_ok env c (\<lambda>env cmd. pgrest_http_push_stream_tunnel (cmd_name cmd))"
  "set_ok env c (\<lambda>env cmd. pgrest_http_push_stream_stor)" "set_ok env c (\<lambda>env cmd. pgrest_http_push_stream_name)"
  "set_ok env c (\<lambda>env cmd. pgrest_http_push_stream_mode (cmd_name cmd))"
  unfolding pgrest_http_postgres_encode_def pgrest_http_postgres_dbname_def pgrest_http_postgres_pgpass_def
    pgrest_http_push_stream_tunnel_def pgrest_http_push_stream_stor_def pgrest_http_push_stream_name_def
    pgrest_http_push_stream_mode_def
  by (intro set_okI;
      auto simp: conf_run_simps split: if_splits prod.splits obj.splits dest!: in_others_setting(2,3))+

lemma upstream_setting:
  "with_upstream cmd m st = Inr st' \<Longrightarrow> setting st' = setting st"
  "set_upstream_name env cmd val ob st = Inr st' \<Longrightarrow> setting st' = setting st"
  "set_upstream_algorithm env cmd val ob st = Inr st' \<Longrightarrow> setting st' = setting st"
  "set_upstream_saddress env cmd val ob st = Inr st' \<Longrightarrow> setting st' = setting st"
proof -
  show w: "with_upstream cmd m st = Inr st' \<Longrightarrow> setting st' = setting st" for cmd m
    by (auto simp: with_upstream_def conf_run_simps)
  show "set_upstream_name env cmd val ob st = Inr st' \<Longrightarrow> setting st' = setting st"
    by (cases ob) (auto simp: set_upstream_name_def bind_run_Inr split: if_splits dest: w)
  show "set_upstream_algorithm env cmd val ob st = Inr st' \<Longrightarrow> setting st' = setting st"
    by (cases ob) (auto simp: set_upstream_algorithm_def bind_run_Inr split: if_splits dest: w)
  show "set_upstream_saddress env cmd val ob st = Inr st' \<Longrightarrow> setting st' = setting st"
    by (cases ob) (auto simp: set_upstream_saddress_def bind_run_Inr split: if_splits dest: w)
qed

lemma upstream_setters_ok:
  "set_ok env c set_upstream_name" "set_ok env c set_upstream_algorithm" "set_ok env c set_upstream_saddress"
  by (intro set_okI; auto dest!: upstream_setting)+

lemma table_ints_ok:
  "int_ok 1 PGREST_MAX_WORKERS (\<lambda>v. in_setting (worker_processes_update (\<lambda>_. v)))"
  "int_ok (-20) 20 (\<lambda>v. in_setting (worker_priority_update (\<lambda>_. v)))"
  "int_ok (-1) 65535 (\<lambda>v. in_setting (worker_nofile_update (\<lambda>_. v)))"
  "int_ok 1 65535 (\<lambda>v. in_setting (worker_noconn_update (\<lambda>_. v)))"
  "int_ok 500 600000 (\<lambda>v. in_setting (acceptor_mutex_delay_update (\<lambda>_. v)))"
  unfolding int_ok_def
  by (auto simp: PGREST_MAX_WORKERS_def elim!: in_setting_ok intro!: setting_ok_updates)

lemma listener_ints_ok:
  "int_ok 1 65535 (\<lambda>v. in_listener (l_backlog_update (\<lambda>_. v)))"
  "int_ok (-1) 65535 (\<lambda>v. in_listener (l_sndbuf_update (\<lambda>_. v)))"
  "int_ok (-1) 65535 (\<lambda>v. in_listener (l_rcvbuf_update (\<lambda>_. v)))"
  "int_ok 0 INT_MAX (\<lambda>v. in_listener (l_tcp_keepidle_update (\<lambda>_. v)))"
  "int_ok 0 INT_MAX (\<lambda>v. in_listener (l_tcp_keepintvl_update (\<lambda>_. v)))"
  "int_ok 0 INT_MAX (\<lambda>v. in_listener (l_tcp_keepcnt_update (\<lambda>_. v)))"
  "int_ok (-1) INT_MAX (\<lambda>v. in_listener (l_setfib_update (\<lambda>_. v)))"
  "int_ok (-1) INT_MAX (\<lambda>v. in_listener (l_fastopen_update (\<lambda>_. v)))"
  unfolding int_ok_def
  by (auto simp: listener_ok_def elim!: in_listener_ok)

lemma server_ints_ok:
  "int_ok 60000 3600000 (\<lambda>v. in_server (ssl_session_timeout_update (\<lambda>_. v)))"
  "int_ok 1000 3600000 (\<lambda>v. in_server (keepalive_timeout_update (\<lambda>_. v)))"
  "int_ok 1000 3600000 (\<lambda>v. in_server (client_header_timeout_update (\<lambda>_. v)))"
  "int_ok 1024 8192 (\<lambda>v. in_server (client_header_buffer_size_update (\<lambda>_. v)))"
  "int_ok 4096 1048576 (\<lambda>v. in_server (client_max_header_size_update (\<lambda>_. v)))"
  "int_ok 4096 2097152 (\<lambda>v. in_server (client_max_body_size_update (\<lambda>_. v)))"
  "int_ok 1024 8192 (\<lambda>v. in_server (client_body_buffer_size_update (\<lambda>_. v)))"
  "int_ok 1000 3600000 (\<lambda>v. in_server (client_body_timeout_update (\<lambda>_. v)))"
  "int_ok 1000 3600000 (\<lambda>v. in_server (lingering_time_update (\<lambda>_. v)))"
  "int_ok 1000 3600000 (\<lambda>v. in_server (lingering_timeout_update (\<lambda>_. v)))"
  unfolding int_ok_def
  by (auto simp: server_ok_def elim!: in_server_ok)

lemma table_bools_ok:
  "bool_ok (\<lambda>v. in_setting (acceptor_mutex_update (\<lambda>_. v)))"
  "bool_ok (\<lambda>v. in_setting (acceptor_multi_accept_update (\<lambda>_. v)))"
  "bool_ok (\<lambda>v. in_listener (l_default_server_update (\<lambda>_. v)))"
  "bool_ok (\<lambda>v. in_listener (l_bind_update (\<lambda>_. v)))"
  "bool_ok (\<lambda>v. in_listener (l_ipv6only_update (\<lambda>_. v)))"
  "bool_ok (\<lambda>v. in_listener (l_deferred_accept_update (\<lambda>_. v)))"
  "bool_ok (\<lambda>v. in_listener (l_reuseport_update (\<lambda>_. v)))"
  "bool_ok (\<lambda>v. in_listener (l_ssl_update (\<lambda>_. v)))"
  "bool_ok (\<lambda>v. in_listener (l_http2_update (\<lambda>_. v)))"
  "bool_ok (\<lambda>v. in_server (ssl_session_cache_update (\<lambda>_. v)))"
  "bool_ok (\<lambda>v. in_server (tcp_nopush_update (\<lambda>_. v)))"
  "bool_ok (\<lambda>v. in_server (tcp_nodelay_update (\<lambda>_. v)))"
  "bool_ok (\<lambda>v. in_server (reset_timedout_connection_update (\<lambda>_. v)))"
  unfolding bool_ok_def
  by (auto simp: listener_ok_def server_ok_def elim!: in_setting_ok in_listener_ok in_server_ok intro!: setting_ok_updates)

lemmas setters_ok =
  integer_set_ok [of "\<lparr>cmd_name = n, offset = Int_at f, min_val = lo, max_val = hi\<rparr>" f for n f lo hi, simplified]
  integer_set2_ok [of "\<lparr>cmd_name = n, offset = Int_at f, min_val = lo, max_val = hi\<rparr>" f for n f lo hi, simplified]
  keepalive_opt_set_ok [of "\<lparr>cmd_name = n, offset = Int_at f, min_val = lo, max_val = hi\<rparr>" f for n f lo hi, simplified]
  bool_set_ok [of "\<lparr>cmd_name = n, offset = Bool_at f, min_val = lo, max_val = hi\<rparr>" f for n f lo hi, simplified]
  bool_set2_ok [of "\<lparr>cmd_name = n, offset = Bool_at f, min_val = lo, max_val = hi\<rparr>" f for n f lo hi, simplified]
  build_set_ok [of "\<lparr>cmd_name = n, offset = Bool_at f, min_val = lo, max_val = hi\<rparr>" f for n f lo hi, simplified]
  string_set_ok [of "\<lparr>cmd_name = n, offset = Str_at (\<lambda>v. in_server (f v)), min_val = lo, max_val = hi\<rparr>" f for n f lo hi, simplified]
  other_setters_ok server_setters_ok dynamic_setters_ok upstream_setters_ok
  table_ints_ok listener_ints_ok server_ints_ok table_bools_ok

lemma setter_keeps_ok: "setter_keeps env conf_ok c \<longleftrightarrow> (case chandler c of Setter h \<Rightarrow> set_ok env (args c) h | _ \<Rightarrow> True)"
  by (cases "chandler c") (simp_all add: setter_keeps_def set_ok_def)

lemma static_setters:
  "c \<in> set root_cmds \<Longrightarrow> setter_keeps env conf_ok c" "c \<in> set listen_cmds \<Longrightarrow> setter_keeps env conf_ok c"
  "c \<in> set server_cmds \<Longrightarrow> setter_keeps env conf_ok c"
  by (auto simp: root_cmds_def listen_cmds_def server_cmds_def setter_keeps_ok intro!: setters_ok)

lemma ssl_setters: "c \<in> set ssl_cmds \<Longrightarrow> setter_keeps env conf_ok c"
  by (auto simp: ssl_cmds_def setter_keeps_ok server_ok_def intro!: setters_ok)

lemmas registrations = pgrest_http_setup_configurators_def pgrest_http_upstream_conf_register_def
  pgrest_http_postgres_conf_register_def pgrest_http_push_stream_conf_register_def
  pgrest_conf_def_cmd_def pgrest_conf_def_obj_def

lemma all_setters:
  "c \<in> set (pgrest_conf_static_cmds b @ pgrest_http_setup_configurators) \<Longrightarrow> setter_keeps env conf_ok c"
proof -
  have d: "c \<in> set pgrest_http_setup_configurators \<Longrightarrow> setter_keeps env conf_ok c"
    by (auto simp: registrations setter_keeps_ok intro!: setters_ok)
  have n: "setter_keeps env conf_ok (scalar ''server_name'' No_offset 0 0 pgrest_conf_server_name_set)"
    by (simp add: setter_keeps_ok setters_ok)
  show "c \<in> set (pgrest_conf_static_cmds b @ pgrest_http_setup_configurators) \<Longrightarrow> setter_keeps env conf_ok c"
    using d n static_setters ssl_setters by (auto simp: pgrest_conf_static_cmds_def split: if_splits)
qed

section \<open>Constructors\<close>

text \<open>What the proofs need of the machine: the allocator's limit, a processor count the table allows, sizes that fit.\<close>

definition conf_env_ok :: "conf_env \<Rightarrow> bool" where
  "conf_env_ok env \<longleftrightarrow> alloc_limit (pg env) \<and> ncpu env \<in> {1..128} \<and>
     0 < sizeof_server env \<and> sizeof_server env \<le> MaxAllocSize \<and>
     0 < sizeof_listener env \<and> sizeof_listener env \<le> MaxAllocSize"

lemma two_fit: "n \<le> MaxAllocSize \<Longrightarrow> 2 * n < WORD_MOD"
  using MaxAllocSize_small by linarith

lemma setting_create_ok:
  assumes "conf_env_ok env" "pgrest_conf_setting_create env ob st = Inr (Some ob', st')"
  shows "conf_ok st' \<and> contents (conf_http_servers (setting st')) = []"
proof -
  let ?s = "(setting st)\<lparr>worker_processes := ncpu env, worker_priority := 0, worker_nofile := 1024,
            worker_noconn := 1024, acceptor_mutex := True, acceptor_mutex_delay := 500,
            acceptor_multi_accept := False, temp_buffer_path := ''/tmp'' @ DTEMP_NAME\<rparr>"
  from assms(2) obtain srv lis where
    a: "pgrest_array_init (pg env) (conf_http_servers (setting st)) 2 (sizeof_server env) = (True, srv)"
       "pgrest_array_init (pg env) (conf_listeners (setting st)) 2 (sizeof_listener env) = (True, lis)"
    and st': "st' = st\<lparr>setting := ?s\<lparr>conf_http_servers := srv, conf_listeners := lis\<rparr>\<rparr>"
    by (auto simp: pgrest_conf_setting_create_def Let_def split: prod.splits if_splits)
  have "array_wf srv \<and> contents srv = []" "array_wf lis \<and> contents lis = []"
    using array_init_spec [OF _ a(1)] array_init_spec [OF _ a(2)] assms(1) two_fit
    by (simp_all add: conf_env_ok_def)
  with st' assms(1) show ?thesis
    by (simp add: setting_ok_def conf_env_ok_def DTEMP_NAME_def MAXPGPATH_def)
qed

lemma default_server_ok: "server_ok (default_http_server names)"
  by (simp add: server_ok_def default_http_server_def ALLOCSET_BUFFER_MINSIZE_def PGREST_HTTP_LINGERING_ON_def)

lemma default_listener_ok: "listener_ok (default_listener env)"
  by (simp add: listener_ok_def default_listener_def Let_def INT_MAX_def PGREST_AF_SIZE_def)

lemma asize_contents: "array_wf a \<Longrightarrow> asize a = length (contents a)"
  by (auto simp: array_wf_def contents_def split: option.splits)

lemma server_create_ok:
  assumes "alloc_limit (pg env)" "pgrest_conf_http_server_create env ob st = Inr (r, st')" "conf_ok st"
  shows "conf_ok st'" and "r = Some ob' \<Longrightarrow> \<exists>s. ob' = OServer (length (contents (conf_http_servers (setting st)))) \<and>
    contents (conf_http_servers (setting st')) = contents (conf_http_servers (setting st)) @ [s] \<and>
    conf_listeners (setting st') = conf_listeners (setting st)"
proof -
  let ?a = "conf_http_servers (setting st)"
  from assms(2) obtain ok names where
    "st' = st \<and> r = None \<or> (\<exists>a. array_append (pg env) (default_http_server names) ?a = Some a \<and>
       st' = st\<lparr>setting := (setting st)\<lparr>conf_http_servers := a\<rparr>\<rparr> \<and> (r = Some ob' \<longrightarrow> ob' = OServer (asize ?a)))"
    by (auto simp: pgrest_conf_http_server_create_def Let_def split: obj.splits prod.splits option.splits if_splits)
  moreover have wf: "array_wf ?a" using assms(3) by (simp add: setting_ok_def)
  ultimately show "conf_ok st'" "r = Some ob' \<Longrightarrow> \<exists>s. ob' = OServer (length (contents ?a)) \<and>
      contents (conf_http_servers (setting st')) = contents ?a @ [s] \<and> conf_listeners (setting st') = conf_listeners (setting st)"
    using assms(3) array_append_spec [OF wf assms(1)] default_server_ok
    by (auto simp: setting_ok_def asize_contents)
qed

lemma listener_create_ok:
  assumes "alloc_limit (pg env)" "pgrest_conf_listener_create env ob st = Inr (r, st')" "conf_ok st"
  shows "conf_ok st'"
proof -
  from assms(2) obtain st1 where st1: "in_server (s_listen_update (\<lambda>_. True)) ob st = Inr st1"
    and "st' = st1 \<or> (\<exists>a. array_append (pg env) (default_listener env) (conf_listeners (setting st1)) = Some a \<and>
       st' = st1\<lparr>setting := (setting st1)\<lparr>conf_listeners := a\<rparr>\<rparr>)"
    by (auto simp: pgrest_conf_listener_create_def bind_run_Inr Let_def split: option.splits)
  moreover have ok: "conf_ok st1" using st1 assms(3) by (auto simp: server_ok_def elim!: in_server_ok)
  ultimately show ?thesis
    using array_append_spec [OF _ assms(1)] default_listener_ok by (fastforce simp: setting_ok_def)
qed

lemma other_creates_setting:
  "pgrest_conf_http_path_create env ob st = Inr (r, st') \<Longrightarrow> setting st' = setting st"
  "pgrest_http_postgres_conf env ob st = Inr (r, st') \<Longrightarrow> setting st' = setting st"
  "pgrest_http_push_stream_conf env ob st = Inr (r, st') \<Longrightarrow> setting st' = setting st"
  "create_upstream env ob st = Inr (r, st') \<Longrightarrow> setting st' = setting st"
  "create_userver env ob st = Inr (r, st') \<Longrightarrow> setting st' = setting st"
proof -
  show "pgrest_conf_http_path_create env ob st = Inr (r, st') \<Longrightarrow> setting st' = setting st"
    by (auto simp: pgrest_conf_http_path_create_def Let_def split: prod.splits if_splits)
  have add: "add_handler env h c ob st = Inr (r, st') \<Longrightarrow> setting st' = setting st" for h c st
    by (auto simp: add_handler_def bind_run_Inr split: option.splits)
  show "pgrest_http_postgres_conf env ob st = Inr (r, st') \<Longrightarrow> setting st' = setting st"
    by (auto simp: pgrest_http_postgres_conf_def Let_def dest: add)
  show "pgrest_http_push_stream_conf env ob st = Inr (r, st') \<Longrightarrow> setting st' = setting st"
    by (auto simp: pgrest_http_push_stream_conf_def Let_def dest: add)
  show "create_upstream env ob st = Inr (r, st') \<Longrightarrow> setting st' = setting st"
    by (auto simp: create_upstream_def split: prod.splits)
  show "create_userver env ob st = Inr (r, st') \<Longrightarrow> setting st' = setting st"
    by (cases ob) (auto simp: create_userver_def conf_run_simps split: if_splits)
qed

lemma all_creates:
  assumes "conf_env_ok env" "c \<in> set (pgrest_conf_static_cmds b @ pgrest_http_setup_configurators)"
  shows "create_keeps env conf_ok c"
proof -
  have lim: "alloc_limit (pg env)" using assms(1) by (simp add: conf_env_ok_def)
  have "chandler c \<in> {Create pgrest_conf_setting_create, Create pgrest_conf_http_server_create,
      Create pgrest_conf_listener_create, Create pgrest_conf_http_path_create, Create pgrest_http_postgres_conf,
      Create pgrest_http_push_stream_conf, Create create_upstream, Create create_userver} \<or> (\<forall>h. chandler c \<noteq> Create h)"
    using assms(2)
    by (auto simp: pgrest_conf_static_cmds_def root_cmds_def listen_cmds_def ssl_cmds_def server_cmds_def registrations split: if_splits)
  then show ?thesis
    using setting_create_ok [OF assms(1)] server_create_ok(1) [OF lim] listener_create_ok [OF lim]
    by (auto simp: create_keeps_def dest!: other_creates_setting)
qed

interpretation ranges: conf_invariant env "\<lambda>_. conf_env_ok env" conf_ok for env
  by unfold_locales (auto intro: all_setters all_creates simp del: set_append)

lemma listener_create_servers:
  assumes "pgrest_conf_listener_create env ob st = Inr (r, st')" "conf_ok st"
  shows "length (contents (conf_http_servers (setting st'))) = length (contents (conf_http_servers (setting st)))"
proof -
  from assms(1) obtain i a where a: "array_modify i (s_listen_update (\<lambda>_. True)) (conf_http_servers (setting st)) = Inr a"
    "conf_http_servers (setting st') = a"
    by (auto simp: pgrest_conf_listener_create_def in_server_def conf_run_simps Let_def split: option.splits obj.splits)
  with array_modify_wf [OF _ a(1)] assms(2) show ?thesis by (simp add: setting_ok_def)
qed

lemma default_values_ok:
  assumes lim: "alloc_limit (pg env)" and d: "pgrest_conf_default_values env st = Inr st'" and ok: "conf_ok st"
  shows "conf_ok st' \<and> contents (conf_http_servers (setting st')) \<noteq> []"
proof (cases "asize (conf_http_servers (setting st)) = 0")
  case True
  with d obtain ob st1 l where c: "pgrest_conf_http_server_create env OSetting st = Inr (Some ob, st1)"
    "pgrest_conf_listener_create env ob st1 = Inr (l, st')"
    by (auto simp: pgrest_conf_default_values_def bind_run_Inr split: option.splits)
  have ok1: "conf_ok st1" by (rule server_create_ok(1) [OF lim c(1) ok])
  from server_create_ok(2) [OF lim c(1) ok refl] listener_create_servers [OF c(2) ok1] listener_create_ok [OF lim c(2) ok1]
  show ?thesis by (auto simp flip: length_greater_0_conv)
next
  case False
  with d have "st' = st" by (simp add: pgrest_conf_default_values_def)
  with False ok show ?thesis by (auto simp: setting_ok_def asize_contents)
qed

lemma parse_root_ok:
  assumes "conf_env_ok env" "pgrest_conf_parse_object env ''root'' j ONull st = Inr st'"
  shows "conf_ok st'"
proof -
  have find: "pgrest_conf_cmd_find env ''root'' = Inr (object ''root'' (Create pgrest_conf_setting_create))"
    by (simp add: pgrest_conf_cmd_find_def pgrest_conf_static_cmds_def root_cmds_def)
  have "conf_ok st1" if "open_object env ''root'' ONull st = Inr (ob, st1)" for ob st1
    using that setting_create_ok [OF assms(1)]
    by (auto simp: open_object_def find bind_run_Inr split: option.splits)
  moreover have "list_all (\<lambda>_. conf_env_ok env) ks" for ks :: "string list"
    using assms(1) by (simp add: list_all_iff)
  ultimately show ?thesis
    using assms ranges.parse_keeps(2) [of env env]
    by (cases j) (auto simp: bind_run_Inr simp del: parse_members.simps keys_of.simps)
qed

lemma parse_ok:
  assumes "conf_env_ok env" "pgrest_conf_parse env load f st = Inr (Some st')"
  shows "conf_ok st' \<and> contents (conf_http_servers (setting st')) \<noteq> []"
    and parse_counts: "length (contents (conf_listeners (setting st'))) = length (contents (conf_http_servers (setting st')))"
proof -
  from assms(2) obtain j st1 where j: "pgrest_conf_parse_object env ''root'' j ONull st = Inr st1"
    and d: "pgrest_conf_default_values env st1 = Inr st'"
    and v: "asize (conf_http_servers (setting st')) = asize (conf_listeners (setting st'))"
    by (auto simp: pgrest_conf_parse_def bind_run_Inr pgrest_conf_values_check_def
        split: option.splits sum.splits conf_error.splits if_splits)
  have ok1: "conf_ok st1" by (rule parse_root_ok [OF assms(1) j])
  have lim: "alloc_limit (pg env)" using assms(1) by (simp add: conf_env_ok_def)
  show ok: "conf_ok st' \<and> contents (conf_http_servers (setting st')) \<noteq> []"
    by (rule default_values_ok [OF lim d ok1])
  with v show "length (contents (conf_listeners (setting st'))) = length (contents (conf_http_servers (setting st')))"
    by (auto simp: setting_ok_def asize_contents)
qed


section \<open>A concrete environment\<close>

definition env0 :: conf_env where
  "env0 = \<lparr>build = \<lparr>HAVE_OPENSSL = True, HAVE_ACCEPTFILTER = False, HAVE_TCP_DEFER_ACCEPT = True, HAVE_IPV6_V6ONLY = True,
       HAVE_REUSEPORT = True, HAVE_KEEPALIVE_TUNABLE = True, HAVE_SETFIB = False, HAVE_TCP_FASTOPEN = True\<rparr>,
     pg = pg_mem_ok, ilib = lib0, ncpu = 4, split_ids = (\<lambda>s. Some (split_on (CHR '','') s)),
     sizeof_server = 200, sizeof_listener = 224, sizeof_server_name = 72\<rparr>"

definition st0 :: conf_state where
  "st0 = \<lparr>setting = \<lparr>worker_processes = 0, worker_priority = 0, worker_noconn = 0, worker_nofile = 0, acceptor_mutex = False,
       acceptor_mutex_delay = 0, acceptor_multi_accept = False, temp_buffer_path = [], conf_http_servers = null_array,
       conf_listeners = null_array\<rparr>, http_paths = [], postgres_confs = [], push_confs = [],
     upstream = \<lparr>http_upstreams = None, srv_confs = []\<rparr>\<rparr>"

lemma env0_ok: "conf_env_ok env0"
  by (simp add: conf_env_ok_def env0_def MaxAllocSize_def)

lemma replicate_2: "replicate 2 x = [x, x]"
  by (simp add: numeral_2_eq_2)

lemma array_init0:
  assumes "0 < es" "es \<le> 1000"
  shows "pgrest_array_init pg_mem_ok a 2 es = (True, a\<lparr>asize := 0, capacity := 2, elt_size := es, elts := Some [None, None]\<rparr>)"
proof -
  have "umul 2 es = es * 2" using assms by (simp add: umul_def WORD_MOD_def)
  then show ?thesis
    using assms
    by (simp add: pgrest_array_init_def pgrest_util_alloc_def pg_mem_ok_def MaxAllocSize_def slots_exact Let_def replicate_2)
qed

lemma array_append0: "asize a < capacity a \<Longrightarrow> capacity a < 1000 \<Longrightarrow>
   array_append pg_mem_ok x a = Some (a\<lparr>asize := Suc (asize a), elts := map_option (\<lambda>xs. xs[asize a := Some x]) (elts a)\<rparr>)"
  by (simp add: array_append_def pgrest_array_push_def array_store_def uadd_def WORD_MOD_def Let_def)

lemmas table_eval = pgrest_conf_cmd_find_def pgrest_conf_static_cmds_def root_cmds_def listen_cmds_def ssl_cmds_def server_cmds_def
   registrations

lemmas conf_eval = open_object_def pgrest_conf_parse_type_def pgrest_conf_setting_create_def
  pgrest_conf_http_server_create_def pgrest_conf_listener_create_def array_init0 array_append0 Let_def array_modify_def array_get_def array_store_def
  in_setting_def in_server_def in_listener_def null_array_def check_ok_def

lemmas conf_parse_eval = pgrest_conf_parse_def pgrest_conf_integer_set_def as_int_def store_int_def to_int_def
  pgrest_conf_default_values_def pgrest_conf_values_check_def



section \<open>Which documents are accepted\<close>

text \<open>The directives of a document: the keys of the members the reader does not skip.\<close>

fun directives :: "json \<Rightarrow> string list" where
  "directives (JSON_OBJECT ms) =
     concat (map (\<lambda>(k, j). case j of
        JSON_REAL \<Rightarrow> [] | JSON_NULL \<Rightarrow> []
      | JSON_ARRAY js \<Rightarrow> k # concat (map directives js)
      | _ \<Rightarrow> k # directives j) ms)"
| "directives _ = []"

definition known :: "conf_env \<Rightarrow> string \<Rightarrow> bool" where
  "known env k \<longleftrightarrow> (\<exists>c \<in> set (pgrest_conf_static_cmds (build env) @ pgrest_http_setup_configurators). cmd_name (args c) = k)"

lemma find_known: "pgrest_conf_cmd_find env k = Inr c \<Longrightarrow> known env k"
  using cmd_find_in by (auto simp: known_def)

lemma type_known: "pgrest_conf_parse_type env k v ob st = Inr st' \<Longrightarrow> known env k"
  by (auto simp: pgrest_conf_parse_type_def bind_run_Inr dest: find_known)

lemma open_known: "open_object env k ob st = Inr r \<Longrightarrow> known env k"
  by (auto simp: open_object_def bind_run_Inr dest: find_known)

lemma parse_known:
  "pgrest_conf_parse_object env name j ob st = Inr st' \<Longrightarrow> known env name \<and> list_all (known env) (directives j)"
  "parse_members env ms ob st = Inr st' \<Longrightarrow> list_all (known env) (directives (JSON_OBJECT ms))"
  "pgrest_conf_parse_array env name js ob st = Inr st' \<Longrightarrow> list_all (known env) (concat (map directives js))"
proof (induction env name j ob st and env ms ob st and env name js ob st
       arbitrary: st' and st' and st' rule: pgrest_conf_parse_object_parse_members_pgrest_conf_parse_array.induct)
  case (1 env name ms parent st)
  then show ?case by (auto simp: bind_run_Inr dest: open_known simp del: directives.simps)
next
  case (4 env k j ms ob st)
  then show ?case
    by (cases j) (auto simp: bind_run_Inr dest: type_known find_known simp del: pgrest_conf_parse_object.simps)
next
  case (6 env name j js parent st)
  then show ?case by (auto simp: bind_run_Inr)
qed (auto simp: bind_run_Inr dest: open_known)

text \<open>
  An accepted document uses only directives of the table: if any key at any depth that the
  reader visits is unknown, \<^verbatim>\<open>pgrest_conf_parse\<close> does not succeed.
\<close>

theorem conf_accepts_only_known:
  assumes "load f = Some j" "pgrest_conf_parse env load f st = Inr (Some st')"
  shows "list_all (known env) (directives j)"
  using assms parse_known(1) [of env "''root''" j ONull st]
  by (auto simp: pgrest_conf_parse_def split: sum.splits conf_error.splits)

theorem conf_accepts_only_known_witness:
  "list_all (known env0) (directives (JSON_OBJECT [(''worker'', JSON_OBJECT [(''worker_processes'', JSON_INTEGER 8)])]))"
proof -
  let ?load = "\<lambda>_ :: string. Some (JSON_OBJECT [(''worker'', JSON_OBJECT [(''worker_processes'', JSON_INTEGER 8)])])"
  have "\<exists>st'. pgrest_conf_parse env0 ?load [] st0 = Inr (Some st')"
    by (simp add: conf_parse_eval env0_def st0_def table_eval conf_eval PGREST_MAX_WORKERS_def)
  then obtain st' where "pgrest_conf_parse env0 ?load [] st0 = Inr (Some st')" by blast
  then show ?thesis by (rule conf_accepts_only_known [of ?load, OF refl])
qed

text \<open>\<open>compress\<close> of the shipped \<^verbatim>\<open>pg_rest.json\<close> is no directive of the table.\<close>

lemma compress_unknown: "\<not> known env ''compress''"
  by (auto simp: known_def table_eval)

section \<open>Documents without an upstream\<close>

abbreviation no_upstreams :: "conf_state \<Rightarrow> bool" where "no_upstreams st \<equiv> http_upstreams (upstream st) = None"

lemma in_objects_upstream:
  "in_setting f1 ob st = Inr st' \<Longrightarrow> upstream st' = upstream st"
  "in_server f2 ob st = Inr st' \<Longrightarrow> upstream st' = upstream st"
  "in_listener f3 ob st = Inr st' \<Longrightarrow> upstream st' = upstream st"
  "in_path f4 ob st = Inr st' \<Longrightarrow> upstream st' = upstream st"
  "in_postgres f5 ob st = Inr st' \<Longrightarrow> upstream st' = upstream st"
  "in_push f6 ob st = Inr st' \<Longrightarrow> upstream st' = upstream st"
  by (auto simp: in_setting_def in_server_def in_listener_def in_path_def in_postgres_def in_push_def conf_run_simps
      split: obj.splits)

definition off_quiet :: "conf_offset \<Rightarrow> bool" where
  "off_quiet off \<longleftrightarrow> (\<forall>ob st st'.
     (\<forall>f v. off = Int_at f \<longrightarrow> f v ob st = Inr st' \<longrightarrow> upstream st' = upstream st) \<and>
     (\<forall>f v. off = Bool_at f \<longrightarrow> f v ob st = Inr st' \<longrightarrow> upstream st' = upstream st) \<and>
     (\<forall>f v. off = Str_at f \<longrightarrow> f v ob st = Inr st' \<longrightarrow> upstream st' = upstream st))"

lemma static_offsets_quiet: "c \<in> set (pgrest_conf_static_cmds b) \<Longrightarrow> off_quiet (offset (args c))"
  by (auto simp: table_eval off_quiet_def split: if_splits dest: in_objects_upstream)

lemma stores_quiet:
  assumes "off_quiet (offset c)"
  shows "store_int c n ob st = Inr st' \<Longrightarrow> upstream st' = upstream st"
    "store_bool c v ob st = Inr st' \<Longrightarrow> upstream st' = upstream st"
    "store_str c s ob st = Inr st' \<Longrightarrow> upstream st' = upstream st"
  using assms by (auto simp: off_quiet_def store_int_def store_bool_def store_str_def split: conf_offset.splits)

lemma basic_setters_quiet:
  assumes "off_quiet (offset c)"
  shows "pgrest_conf_integer_set env c v ob st = Inr st' \<Longrightarrow> upstream st' = upstream st"
    "pgrest_conf_bool_set env c v ob st = Inr st' \<Longrightarrow> upstream st' = upstream st"
    "pgrest_conf_string_set env c v ob st = Inr st' \<Longrightarrow> upstream st' = upstream st"
    "pgrest_conf_bind_set b ob st = Inr st' \<Longrightarrow> upstream st' = upstream st"
  by (auto simp: pgrest_conf_integer_set_def pgrest_conf_bool_set_def pgrest_conf_string_set_def pgrest_conf_bind_set_def
      bind_run_Inr Let_def split: if_splits dest: stores_quiet [OF assms] in_objects_upstream)

lemma bind_setters_quiet:
  assumes "off_quiet (offset c)"
  shows "pgrest_conf_integer_set2 env c v ob st = Inr st' \<Longrightarrow> upstream st' = upstream st"
    "pgrest_conf_bool_set2 env c v ob st = Inr st' \<Longrightarrow> upstream st' = upstream st"
    "pgrest_conf_ssl_set env c v ob st = Inr st' \<Longrightarrow> upstream st' = upstream st"
  by (auto simp: pgrest_conf_integer_set2_def pgrest_conf_bool_set2_def pgrest_conf_ssl_set_def
      bind_run_Inr split: if_splits dest!: basic_setters_quiet [OF assms])

lemma build_setters_quiet:
  assumes "off_quiet (offset c)"
  shows "pgrest_conf_deferred_set env c v ob st = Inr st' \<Longrightarrow> upstream st' = upstream st"
    "pgrest_conf_ipv6only_set env c v ob st = Inr st' \<Longrightarrow> upstream st' = upstream st"
    "pgrest_conf_reuse_set env c v ob st = Inr st' \<Longrightarrow> upstream st' = upstream st"
    "pgrest_conf_keepalive_opt_set env c v ob st = Inr st' \<Longrightarrow> upstream st' = upstream st"
  by (auto simp: pgrest_conf_deferred_set_def pgrest_conf_ipv6only_set_def pgrest_conf_reuse_set_def
      pgrest_conf_keepalive_opt_set_def bind_run_Inr split: if_splits
      dest!: bind_setters_quiet [OF assms] in_objects_upstream)

lemma bind_set_quiet: "pgrest_conf_bind_set b ob st = Inr st' \<Longrightarrow> upstream st' = upstream st"
  by (auto simp: pgrest_conf_bind_set_def split: if_splits dest: in_objects_upstream)

lemma other_setters_quiet:
  "pgrest_conf_address_set env c v ob st = Inr st' \<Longrightarrow> upstream st' = upstream st"
  "pgrest_conf_afilter_set env c v ob st = Inr st' \<Longrightarrow> upstream st' = upstream st"
  "pgrest_conf_tbpath_set env c v ob st = Inr st' \<Longrightarrow> upstream st' = upstream st"
  "pgrest_conf_keepalive_set env c v ob st = Inr st' \<Longrightarrow> upstream st' = upstream st"
  "pgrest_conf_lc_set env c v ob st = Inr st' \<Longrightarrow> upstream st' = upstream st"
  "pgrest_conf_server_name_set env c v ob st = Inr st' \<Longrightarrow> upstream st' = upstream st"
  "pgrest_conf_http_path_set env c v ob st = Inr st' \<Longrightarrow> upstream st' = upstream st"
  by (auto simp: pgrest_conf_address_set_def pgrest_conf_afilter_set_def pgrest_conf_tbpath_set_def pgrest_conf_keepalive_set_def
      pgrest_conf_lc_set_def pgrest_conf_server_name_set_def pgrest_conf_http_path_set_def conf_run_simps Let_def
      split: if_splits option.splits prod.splits dest!: in_objects_upstream bind_set_quiet)

lemmas setters_quiet = basic_setters_quiet(1-3) bind_setters_quiet build_setters_quiet

lemma static_setter_quiet:
  assumes "c \<in> set (pgrest_conf_static_cmds b)" "chandler c = Setter h" "h env (args c) v ob st = Inr st'"
  shows "upstream st' = upstream st"
proof -
  have "h \<in> {pgrest_conf_integer_set, pgrest_conf_bool_set, pgrest_conf_string_set, pgrest_conf_integer_set2,
      pgrest_conf_bool_set2, pgrest_conf_ssl_set, pgrest_conf_deferred_set, pgrest_conf_ipv6only_set,
      pgrest_conf_reuse_set, pgrest_conf_keepalive_opt_set, pgrest_conf_address_set, pgrest_conf_afilter_set,
      pgrest_conf_tbpath_set, pgrest_conf_keepalive_set, pgrest_conf_lc_set, pgrest_conf_server_name_set,
      pgrest_conf_http_path_set}"
    using assms(1,2) by (auto simp: table_eval split: if_splits)
  with assms(3) show ?thesis
    by (auto dest: setters_quiet [OF static_offsets_quiet [OF assms(1)]] other_setters_quiet)
qed

lemma upstream_calls_quiet:
  assumes "http_upstreams up = None"
  shows "pgrest_http_upstream_add m lib u b co up = Inr r \<Longrightarrow> http_upstreams (snd r) = None"
    "pgrest_http_upstream_name m lib s i up = Inr r \<Longrightarrow> http_upstreams (snd r) = None"
    "pgrest_http_upstream_algorithm s i up = r \<Longrightarrow> http_upstreams (snd r) = None"
    "pgrest_http_upstream_saddress lib s i j up = Inr r \<Longrightarrow> http_upstreams (snd r) = None"
  using assms
  by (auto simp: pgrest_http_upstream_name_def pgrest_http_upstream_add_def pgrest_http_upstream_algorithm_def
      pgrest_http_upstream_saddress_def split: sum.splits prod.splits if_splits option.splits)

lemma with_upstream_quiet:
  "with_upstream cmd m st = Inr st' \<Longrightarrow> (\<And>r. m = Inr r \<Longrightarrow> http_upstreams (snd r) = None) \<Longrightarrow> no_upstreams st'"
  by (auto simp: with_upstream_def conf_run_simps)

lemma upstream_setters_quiet:
  assumes "no_upstreams st"
  shows "set_upstream_name env cmd val ob st = Inr st' \<Longrightarrow> no_upstreams st'"
    "set_upstream_algorithm env cmd val ob st = Inr st' \<Longrightarrow> no_upstreams st'"
    "set_upstream_saddress env cmd val ob st = Inr st' \<Longrightarrow> no_upstreams st'"
    "pgrest_http_postgres_pgpass env name val ob st = Inr st' \<Longrightarrow> no_upstreams st'"
proof -
  show "set_upstream_name env cmd val ob st = Inr st' \<Longrightarrow> no_upstreams st'"
    by (cases ob) (auto simp: set_upstream_name_def bind_run_Inr split: if_splits elim!: with_upstream_quiet dest: upstream_calls_quiet(2) [OF assms])
  show "set_upstream_algorithm env cmd val ob st = Inr st' \<Longrightarrow> no_upstreams st'"
    by (cases ob) (auto simp: set_upstream_algorithm_def bind_run_Inr split: if_splits elim!: with_upstream_quiet dest!: upstream_calls_quiet(3) [OF assms])
  show "set_upstream_saddress env cmd val ob st = Inr st' \<Longrightarrow> no_upstreams st'"
    by (cases ob) (auto simp: set_upstream_saddress_def bind_run_Inr split: if_splits elim!: with_upstream_quiet dest: upstream_calls_quiet(4) [OF assms])
  show "pgrest_http_postgres_pgpass env name val ob st = Inr st' \<Longrightarrow> no_upstreams st'"
    using assms by (auto simp: pgrest_http_postgres_pgpass_def conf_run_simps dest!: in_objects_upstream upstream_calls_quiet(1) [rotated])
qed

lemma push_setters_quiet:
  "pgrest_http_postgres_encode v ob st = Inr st' \<Longrightarrow> upstream st' = upstream st"
  "pgrest_http_postgres_dbname v ob st = Inr st' \<Longrightarrow> upstream st' = upstream st"
  "pgrest_http_push_stream_mode n v ob st = Inr st' \<Longrightarrow> upstream st' = upstream st"
  "pgrest_http_push_stream_name v ob st = Inr st' \<Longrightarrow> upstream st' = upstream st"
  "pgrest_http_push_stream_stor v ob st = Inr st' \<Longrightarrow> upstream st' = upstream st"
  "pgrest_http_push_stream_tunnel n v ob st = Inr st' \<Longrightarrow> upstream st' = upstream st"
  by (auto simp: pgrest_http_postgres_encode_def pgrest_http_postgres_dbname_def pgrest_http_push_stream_mode_def
      pgrest_http_push_stream_name_def pgrest_http_push_stream_stor_def pgrest_http_push_stream_tunnel_def conf_run_simps
      split: if_splits dest: in_objects_upstream)

lemma creates_quiet:
  "pgrest_conf_setting_create env ob st = Inr (r, st') \<Longrightarrow> upstream st' = upstream st"
  "pgrest_conf_http_server_create env ob st = Inr (r, st') \<Longrightarrow> upstream st' = upstream st"
  "pgrest_conf_listener_create env ob st = Inr (r, st') \<Longrightarrow> upstream st' = upstream st"
  "pgrest_conf_http_path_create env ob st = Inr (r, st') \<Longrightarrow> upstream st' = upstream st"
  "add_handler env h c ob st = Inr (r, st') \<Longrightarrow> upstream st' = upstream st"
  by (auto simp: pgrest_conf_setting_create_def pgrest_conf_http_server_create_def pgrest_conf_listener_create_def
      pgrest_conf_http_path_create_def add_handler_def conf_run_simps Let_def
      split: prod.splits if_splits option.splits obj.splits dest!: in_objects_upstream)

lemma handler_creates_quiet:
  "pgrest_http_postgres_conf env ob st = Inr (r, st') \<Longrightarrow> upstream st' = upstream st"
  "pgrest_http_push_stream_conf env ob st = Inr (r, st') \<Longrightarrow> upstream st' = upstream st"
  by (auto simp: pgrest_http_postgres_conf_def pgrest_http_push_stream_conf_def Let_def dest: creates_quiet(5))

lemma userver_quiet: "create_userver env ob st = Inr (r, st') \<Longrightarrow> no_upstreams st \<Longrightarrow> no_upstreams st'"
  by (cases ob) (auto simp: create_userver_def pgrest_http_upstream_server_conf_def conf_run_simps split: if_splits option.splits)

interpretation quiet: conf_invariant env "\<lambda>k. k \<noteq> ''upstream''" no_upstreams for env
proof
  fix c
  assume c: "c \<in> set (pgrest_conf_static_cmds (build env) @ pgrest_http_setup_configurators)" "cmd_name (args c) \<noteq> ''upstream''"
  have "no_upstreams st'" if "chandler c = Setter h" "no_upstreams st" "h env (args c) v ob st = Inr st'" for h v ob st st'
  proof (cases "c \<in> set (pgrest_conf_static_cmds (build env))")
    case True
    with that show ?thesis by (simp add: static_setter_quiet)
  next
    case False
    with c that show ?thesis
      by (auto simp: registrations dest!: push_setters_quiet intro: upstream_setters_quiet)
  qed
  then show "setter_keeps env no_upstreams c" by (auto simp: setter_keeps_def)
  have "chandler c \<in> {Create pgrest_conf_setting_create, Create pgrest_conf_http_server_create,
      Create pgrest_conf_listener_create, Create pgrest_conf_http_path_create, Create pgrest_http_postgres_conf,
      Create pgrest_http_push_stream_conf, Create create_userver} \<or> (\<forall>h. chandler c \<noteq> Create h)"
    using c by (auto simp: table_eval split: if_splits)
  then show "create_keeps env no_upstreams c"
    by (auto simp: create_keeps_def dest!: creates_quiet(1-4) handler_creates_quiet userver_quiet)
qed

lemma parse_without_upstream:
  assumes "pgrest_conf_parse env load f st = Inr (Some st')" "load f = Some j" "''upstream'' \<notin> set (keys_of j)" "no_upstreams st"
  shows "no_upstreams st'"
proof -
  from assms(1,2) obtain st1 where j: "pgrest_conf_parse_object env ''root'' j ONull st = Inr st1"
    and d: "pgrest_conf_default_values env st1 = Inr st'"
    by (auto simp: pgrest_conf_parse_def bind_run_Inr pgrest_conf_values_check_def
        split: option.splits sum.splits conf_error.splits if_splits)
  have "no_upstreams st1"
    using quiet.parse_keeps(1) [OF refl j] assms(3,4) by (auto simp: list_all_iff)
  with d show ?thesis
    by (auto simp: pgrest_conf_default_values_def bind_run_Inr split: if_splits option.splits dest!: creates_quiet)
qed

end
