(* ===== verification/HttpInit.thy ===== *)
theory HttpInit
  imports Listener ConfInv
begin

text \<open>
  From the configuration to the listeners, \<^verbatim>\<open>src/pg_rest_http.c\<close>: the configured addresses are
  grouped by port, each port's addresses are sorted (\<^verbatim>\<open>pgrest_util_sort\<close> of
  \<^verbatim>\<open>src/pg_rest_util.c\<close>) and turned into listeners, a wildcard address also serving the
  addresses of its port that are not bound on their own. A server is its index in the
  settings. PostgreSQL's hash table is a parameter: a type \<open>'h\<close> with the operations of the
  record \<open>htab\<close> and the laws \<open>htab_ok\<close>.
\<close>

section \<open>The sort\<close>

text \<open>
  The inner loop: \<open>front\<close> is what is left of the cursor in reverse, \<open>moved\<close> what has been
  shifted to the right of it.
\<close>

fun shift_in :: "('a \<Rightarrow> 'a \<Rightarrow> int) \<Rightarrow> 'a \<Rightarrow> 'a list \<Rightarrow> 'a list \<Rightarrow> 'a list" where
  "shift_in cmp p [] moved = p # moved"
| "shift_in cmp p (x # front) moved =
     (if cmp x p > 0 then shift_in cmp p front (x # moved) else rev (x # front) @ p # moved)"

fun sort_loop :: "('a \<Rightarrow> 'a \<Rightarrow> int) \<Rightarrow> 'a list \<Rightarrow> 'a list \<Rightarrow> 'a list" where
  "sort_loop cmp front [] = front"
| "sort_loop cmp front (p # rest) = sort_loop cmp (shift_in cmp p (rev front) []) rest"

definition pgrest_util_sort :: "('a \<Rightarrow> 'a \<Rightarrow> int) \<Rightarrow> 'a list \<Rightarrow> 'a list" where
  "pgrest_util_sort cmp elems = (case elems of [] \<Rightarrow> [] | x # rest \<Rightarrow> sort_loop cmp [x] rest)"

section \<open>Ports, addresses and servers\<close>

record 'h htab =
  hash_create :: 'h
  hash_enter :: "'h \<Rightarrow> string \<Rightarrow> nat \<Rightarrow> bool \<times> 'h"
  hash_find :: "'h \<Rightarrow> string \<Rightarrow> nat option"

definition htab_ok :: "'h htab \<Rightarrow> bool" where
  "htab_ok ht \<longleftrightarrow> (\<forall>k. hash_find ht (hash_create ht) k = None) \<and>
     (\<forall>h k v. fst (hash_enter ht h k v) = (hash_find ht h k \<noteq> None) \<and>
        hash_find ht (snd (hash_enter ht h k v)) = (hash_find ht h)(k \<mapsto> v))"

record 'h conf_addr =
  opt :: conf_listener
  hash :: 'h
  default_server :: nat
  servers :: "nat pgrest_array"

record 'h conf_port =
  cp_family :: sa_family
  cp_port :: nat
  cp_addrs :: "'h conf_addr pgrest_array"

text \<open>Sizes of the elements of the two arrays of structures.\<close>

record http_env = conf_env +
  sizeof_conf_addr :: nat
  sizeof_conf_port :: nat

definition pgrest_http_add_server :: "http_env \<Rightarrow> nat \<Rightarrow> 'h conf_addr \<Rightarrow> bool \<times> 'h conf_addr" where
  "pgrest_http_add_server env cs addr =
     (case (if elts (servers addr) = None then
              (case pgrest_array_init (pg env) (servers addr) 2 sizeof_pointer of (ok, a) \<Rightarrow> (ok, addr\<lparr>servers := a\<rparr>))
            else (cs \<notin> set (contents (servers addr)), addr)) of
        (False, addr') \<Rightarrow> (False, addr')
      | (True, addr') \<Rightarrow>
          (case array_append (pg env) cs (servers addr') of
             None \<Rightarrow> (False, addr')
           | Some a \<Rightarrow> (True, addr'\<lparr>servers := a\<rparr>)))"

definition pgrest_http_add_address ::
  "http_env \<Rightarrow> 'h htab \<Rightarrow> nat \<Rightarrow> conf_listener \<Rightarrow> 'h conf_port \<Rightarrow> bool \<times> 'h conf_port" where
  "pgrest_http_add_address env ht cs cl prt =
     (case (if elts (cp_addrs prt) = None
            then pgrest_array_init (pg env) (cp_addrs prt) 2 (sizeof_conf_addr env)
            else (True, cp_addrs prt)) of
        (False, a) \<Rightarrow> (False, prt\<lparr>cp_addrs := a\<rparr>)
      | (True, a) \<Rightarrow>
          (case pgrest_http_add_server env cs
                  \<lparr>opt = cl, hash = hash_create ht, default_server = cs, servers = null_array\<rparr> of
             (ok, addr) \<Rightarrow>
               (case array_append (pg env) addr a of
                  None \<Rightarrow> (False, prt\<lparr>cp_addrs := a\<rparr>)
                | Some a' \<Rightarrow> (ok, prt\<lparr>cp_addrs := a'\<rparr>))))"

text \<open>
  The address is already in the list: the server joins it, and the options of the listen
  directive are merged.
\<close>

definition merge_address :: "http_env \<Rightarrow> nat \<Rightarrow> conf_listener \<Rightarrow> 'h conf_addr \<Rightarrow> bool \<times> 'h conf_addr" where
  "merge_address env cs cl addr =
     (case pgrest_http_add_server env cs addr of
        (False, a) \<Rightarrow> (False, a)
      | (True, a) \<Rightarrow>
          let ds = l_default_server (opt a);
              ssl = (l_ssl cl \<or> l_ssl (opt a));
              h2 = (l_http2 cl \<or> l_http2 (opt a))
          in if l_set cl \<and> l_set (opt a) then (False, a)
             else
               let a1 = (if l_set cl then a\<lparr>opt := cl\<rparr> else a) in
               if l_default_server cl \<and> ds then (False, a1)
               else
                 let a2 = (if l_default_server cl then a1\<lparr>default_server := cs\<rparr> else a1);
                     o2 = (opt a2)\<lparr>l_default_server := ds \<or> l_default_server cl, l_http2 := h2\<rparr>;
                     o3 = (if HAVE_OPENSSL (build env) then o2\<lparr>l_ssl := ssl\<rparr> else o2)
                 in (True, a2\<lparr>opt := o3\<rparr>))"

fun find_from :: "('a \<Rightarrow> bool) \<Rightarrow> nat \<Rightarrow> 'a list \<Rightarrow> nat option" where
  "find_from P i [] = None"
| "find_from P i (x # xs) = (if P x then Some i else find_from P (i + 1) xs)"

definition same_addr :: "conf_listener \<Rightarrow> 'h conf_addr \<Rightarrow> bool" where
  "same_addr cl a = pgrest_inet_cmp_sockaddr (l_sockaddr cl) (l_sockaddr (opt a)) False"

definition pgrest_http_add_addresses ::
  "http_env \<Rightarrow> 'h htab \<Rightarrow> nat \<Rightarrow> conf_listener \<Rightarrow> 'h conf_port \<Rightarrow> bool \<times> 'h conf_port" where
  "pgrest_http_add_addresses env ht cs cl prt =
     (case find_from (same_addr cl) 0 (contents (cp_addrs prt)) of
        Some i \<Rightarrow>
          (case merge_address env cs cl (contents (cp_addrs prt) ! i) of
             (ok, addr) \<Rightarrow> (ok, prt\<lparr>cp_addrs := array_store (cp_addrs prt) i addr\<rparr>))
      | None \<Rightarrow> pgrest_http_add_address env ht cs cl prt)"

definition same_port :: "conf_listener \<Rightarrow> 'h conf_port \<Rightarrow> bool" where
  "same_port cl p \<longleftrightarrow> pgrest_inet_get_port (l_sockaddr cl) = cp_port p \<and> family_of (l_sockaddr cl) = cp_family p"

definition pgrest_http_add_listen ::
  "http_env \<Rightarrow> 'h htab \<Rightarrow> nat \<Rightarrow> conf_listener \<Rightarrow> 'h conf_port pgrest_array \<Rightarrow> bool \<times> 'h conf_port pgrest_array" where
  "pgrest_http_add_listen env ht cs cl ports =
     (case find_from (same_port cl) 0 (contents ports) of
        Some i \<Rightarrow>
          (case pgrest_http_add_addresses env ht cs cl (contents ports ! i) of
             (ok, p) \<Rightarrow> (ok, array_store ports i p))
      | None \<Rightarrow>
          (case pgrest_http_add_address env ht cs cl
                  \<lparr>cp_family = family_of (l_sockaddr cl), cp_port = pgrest_inet_get_port (l_sockaddr cl), cp_addrs = null_array\<rparr> of
             (ok, p) \<Rightarrow>
               (case array_append (pg env) p ports of None \<Rightarrow> (False, ports) | Some ports' \<Rightarrow> (ok, ports'))))"

section \<open>Virtual names\<close>

fun enter_names :: "'h htab \<Rightarrow> http_server_name list \<Rightarrow> 'h \<Rightarrow> 'h" where
  "enter_names ht [] h = h"
| "enter_names ht (n # ns) h = enter_names ht ns (snd (hash_enter ht h (sn_name n) (sn_server n)))"

definition pgrest_http_server_names :: "'h htab \<Rightarrow> conf_http_server list \<Rightarrow> 'h conf_addr \<Rightarrow> 'h conf_addr run" where
  "pgrest_http_server_names ht srvs addr =
     (if list_all (\<lambda>s. s < length srvs) (contents (servers addr))
      then Inr (addr\<lparr>hash := enter_names ht (concat (map (\<lambda>s. contents (server_names (srvs ! s))) (contents (servers addr)))) (hash addr)\<rparr>)
      else Inl OutOfBounds)"

definition pgrest_http_cmp_conf_addrs :: "'h conf_addr \<Rightarrow> 'h conf_addr \<Rightarrow> int" where
  "pgrest_http_cmp_conf_addrs first second =
     (if l_wildcard (opt first) then 1
      else if l_wildcard (opt second) then -1
      else if l_bind (opt first) \<and> \<not> l_bind (opt second) then -1
      else if \<not> l_bind (opt first) \<and> l_bind (opt second) then 1
      else 0)"

section \<open>Listeners\<close>

datatype host_addr = In_addr nat | In6_addr "nat list"

record 'h http_in_addr =
  ha_addr :: host_addr
  ha_default_server :: nat
  ha_ssl :: bool
  ha_http2 :: bool
  ha_hash :: 'h

text \<open>The bytes \<open>sin_addr\<close> of a Unix address overlap its path; they are taken to be 0.\<close>

definition in_addr_of :: "conf_build \<Rightarrow> (sockaddr \<Rightarrow> host_addr) \<Rightarrow> 'h conf_addr \<Rightarrow> 'h http_in_addr" where
  "in_addr_of b addr a =
     \<lparr>ha_addr = addr (l_sockaddr (opt a)), ha_default_server = default_server a,
      ha_ssl = (HAVE_OPENSSL b \<and> l_ssl (opt a)), ha_http2 = l_http2 (opt a), ha_hash = hash a\<rparr>"

definition pgrest_http_add_addrs :: "conf_build \<Rightarrow> nat \<Rightarrow> 'h conf_addr list \<Rightarrow> 'h http_in_addr list" where
  "pgrest_http_add_addrs b naddrs addr =
     map (in_addr_of b (\<lambda>sa. In_addr (case sa of AF_INET _ a \<Rightarrow> a | _ \<Rightarrow> 0))) (take naddrs addr)"

definition pgrest_http_add_addrs6 :: "conf_build \<Rightarrow> nat \<Rightarrow> 'h conf_addr list \<Rightarrow> 'h http_in_addr list" where
  "pgrest_http_add_addrs6 b naddrs addr =
     map (in_addr_of b (\<lambda>sa. In6_addr (case sa of AF_INET6 _ a \<Rightarrow> a | _ \<Rightarrow> []))) (take naddrs addr)"

text \<open>
  A listener of the model carries the table of its \<open>pgrest_http_port_t\<close> beside it (the field
  \<open>servers\<close> of the C structure).
\<close>

definition pgrest_http_add_listener :: "http_env \<Rightarrow> conf_http_server list \<Rightarrow> 'h conf_addr \<Rightarrow> pgrest_listener run" where
  "pgrest_http_add_listener env srvs addr =
     (case pgrest_listener_create (conf_env.truncate env) (l_sockaddr (opt addr)) (l_socklen (opt addr)) of
        Inl e \<Rightarrow> Inl e
      | Inr l \<Rightarrow>
          if default_server addr < length srvs then
            let op' = opt addr; b = build env in
            Inr (l\<lparr>addr_ntop := True,
              post_accept_timeout := client_header_timeout (srvs ! default_server addr),
              backlog := l_backlog op', rcvbuf := l_rcvbuf op', sndbuf := l_sndbuf op', keepalive := l_so_keepalive op',
              keepidle := (if HAVE_KEEPALIVE_TUNABLE b then l_tcp_keepidle op' else keepidle l),
              keepintvl := (if HAVE_KEEPALIVE_TUNABLE b then l_tcp_keepintvl op' else keepintvl l),
              keepcnt := (if HAVE_KEEPALIVE_TUNABLE b then l_tcp_keepcnt op' else keepcnt l),
              accept_filter := (if HAVE_ACCEPTFILTER b then l_accept_filter op' else accept_filter l),
              deferred_accept := (if HAVE_TCP_DEFER_ACCEPT b then l_deferred_accept op' else deferred_accept l),
              add_deferred := (if HAVE_TCP_DEFER_ACCEPT b then l_deferred_accept op'
                               else if HAVE_ACCEPTFILTER b then l_accept_filter op' \<noteq> [] else add_deferred l),
              ipv6only := (if HAVE_IPV6_V6ONLY b then l_ipv6only op' else ipv6only l),
              setfib := (if HAVE_SETFIB b then l_setfib op' else setfib l),
              fastopen := (if HAVE_TCP_FASTOPEN b then l_fastopen op' else fastopen l),
              reuseport := (HAVE_REUSEPORT b \<and> l_reuseport op' \<and> family_of (l_sockaddr op') \<noteq> F_UNIX),
              lopen := True\<rparr>)
          else Inl OutOfBounds)"

text \<open>
  The loop of \<^verbatim>\<open>pgrest_http_init_listener\<close>: \<open>i\<close> counts the addresses that were passed over
  for the wildcard, \<open>addr\<close> is advanced and \<open>last\<close> lowered for each listener.
\<close>

function init_loop ::
  "http_env \<Rightarrow> conf_http_server list \<Rightarrow> bool \<Rightarrow> nat \<Rightarrow> 'h conf_addr list \<Rightarrow> (pgrest_listener \<times> 'h http_in_addr list) list run" where
  "init_loop env srvs bind_wildcard i addr =
     (if i < length addr then
        if bind_wildcard \<and> \<not> l_bind (opt (addr ! i)) then init_loop env srvs bind_wildcard (i + 1) addr
        else
          (case pgrest_http_add_listener env srvs (addr ! i) of
             Inl e \<Rightarrow> Inl e
           | Inr l \<Rightarrow>
               let hport = (case lsockaddr l of
                     AF_INET6 _ _ \<Rightarrow> pgrest_http_add_addrs6 (build env) (i + 1) addr
                   | _ \<Rightarrow> pgrest_http_add_addrs (build env) (i + 1) addr)
               in (case init_loop env srvs bind_wildcard i (tl addr) of
                     Inl e \<Rightarrow> Inl e
                   | Inr ls \<Rightarrow> Inr ((l, hport) # ls)))
      else Inr [])"
  by pat_completeness auto

termination
  by (relation "measure (\<lambda>(env, srvs, b, i, addr). 2 * length addr - i)") auto

declare init_loop.simps [simp del]

definition pgrest_http_init_listener ::
  "http_env \<Rightarrow> conf_http_server list \<Rightarrow> 'h conf_addr list \<Rightarrow> (pgrest_listener \<times> 'h http_in_addr list) list run" where
  "pgrest_http_init_listener env srvs addr =
     (if addr = [] then Inl OutOfBounds
      else if l_wildcard (opt (last addr))
      then init_loop env srvs True 0 (addr[length addr - 1 := (last addr)\<lparr>opt := (opt (last addr))\<lparr>l_bind := True\<rparr>\<rparr>])
      else init_loop env srvs False 0 addr)"

fun map_run :: "('a \<Rightarrow> 'b run) \<Rightarrow> 'a list \<Rightarrow> 'b list run" where
  "map_run f [] = Inr []"
| "map_run f (x # xs) = (case f x of Inl e \<Rightarrow> Inl e | Inr y \<Rightarrow> (case map_run f xs of Inl e \<Rightarrow> Inl e | Inr ys \<Rightarrow> Inr (y # ys)))"

definition optimize_port ::
  "http_env \<Rightarrow> 'h htab \<Rightarrow> conf_http_server list \<Rightarrow> 'h conf_port \<Rightarrow> (pgrest_listener \<times> 'h http_in_addr list) list run" where
  "optimize_port env ht srvs prt =
     (let addrs = pgrest_util_sort pgrest_http_cmp_conf_addrs (contents (cp_addrs prt)) in
      case map_run (\<lambda>a. if asize (servers a) > 1 then pgrest_http_server_names ht srvs a else Inr a) addrs of
        Inl e \<Rightarrow> Inl e
      | Inr addrs' \<Rightarrow> pgrest_http_init_listener env srvs addrs')"

definition pgrest_http_optimize_servers ::
  "http_env \<Rightarrow> 'h htab \<Rightarrow> conf_http_server list \<Rightarrow> 'h conf_port list \<Rightarrow> (pgrest_listener \<times> 'h http_in_addr list) list run" where
  "pgrest_http_optimize_servers env ht srvs ports =
     (case map_run (optimize_port env ht srvs) ports of Inl e \<Rightarrow> Inl e | Inr lss \<Rightarrow> Inr (concat lss))"

section \<open>Startup\<close>

definition init_handler :: "http_handler \<Rightarrow> conf_state \<Rightarrow> conf_state conf_run" where
  "init_handler h st =
     (case h of
        Postgres i \<Rightarrow>
          if i < length (postgres_confs st)
          then (if pgrest_http_postgres_init (postgres_confs st ! i) then Inr st else Inl (Ereport ''postgres''))
          else Inl (Undefined OutOfBounds)
      | PushStream i \<Rightarrow>
          if i < length (push_confs st)
          then bind_run (check_ok ''push_stream'' (pgrest_http_push_stream_init (push_confs st ! i)))
                 (\<lambda>c. Inr (st\<lparr>push_confs := (push_confs st)[i := c]\<rparr>))
          else Inl (Undefined OutOfBounds))"

fun fold_run :: "('a \<Rightarrow> 's \<Rightarrow> 's conf_run) \<Rightarrow> 'a list \<Rightarrow> 's \<Rightarrow> 's conf_run" where
  "fold_run f [] s = Inr s"
| "fold_run f (x # xs) s = bind_run (f x s) (fold_run f xs)"

text \<open>The callback of the walk over the paths of a server.\<close>

definition pgrest_http_pathtree_waler :: "nat option \<Rightarrow> conf_state \<Rightarrow> conf_state conf_run" where
  "pgrest_http_pathtree_waler path st =
     (case path of
        None \<Rightarrow> Inr st
      | Some i \<Rightarrow>
          if i < length (http_paths st) then fold_run init_handler (contents (handlers (http_paths st ! i))) st
          else Inl (Undefined OutOfBounds))"

text \<open>
  The loop over the listeners gives listener \<open>i\<close> to server \<open>i\<close> of the configuration.
\<close>

fun add_listens ::
  "http_env \<Rightarrow> 'h htab \<Rightarrow> nat \<Rightarrow> conf_listener list \<Rightarrow> 'h conf_port pgrest_array \<Rightarrow> 'h conf_port pgrest_array conf_run" where
  "add_listens env ht i [] ports = Inr ports"
| "add_listens env ht i (cl # cls) ports =
     (case pgrest_http_add_listen env ht i cl ports of
        (ok, ports') \<Rightarrow> if ok then add_listens env ht (i + 1) cls ports' else Inl (Ereport ''listen''))"

definition pgrest_http_init ::
  "http_env \<Rightarrow> 'h htab \<Rightarrow> conf_state \<Rightarrow> (conf_state \<times> (pgrest_listener \<times> 'h http_in_addr list) list) conf_run" where
  "pgrest_http_init env ht st =
     bind_run (lift_ub (pgrest_http_upstream_init (upstream st))) (\<lambda>ok.
     if \<not> ok then Inl (Ereport ''upstream'')
     else
       bind_run (fold_run (\<lambda>s. fold_run pgrest_http_pathtree_waler (pgrest_rtree_walker (paths s)))
                   (contents (conf_http_servers (setting st))) st) (\<lambda>st1.
       case pgrest_array_create (pg env) 2 (sizeof_conf_port env) of
         None \<Rightarrow> Inl (Ereport ''memory'')
       | Some ports \<Rightarrow>
           bind_run (add_listens env ht 0 (contents (conf_listeners (setting st1))) ports) (\<lambda>ports'.
           bind_run (lift_ub (pgrest_http_optimize_servers env ht (contents (conf_http_servers (setting st1))) (contents ports')))
             (\<lambda>ls. Inr (st1, ls)))))"

section \<open>The sort is a stable sort\<close>

lemma shift_in_split:
  "\<exists>front' mid. front = mid @ front' \<and> shift_in cmp p front moved = rev front' @ p # rev mid @ moved \<and>
     list_all (\<lambda>x. cmp x p > 0) mid \<and> (front' = [] \<or> \<not> cmp (hd front') p > 0)"
proof (induction front arbitrary: moved)
  case (Cons x front)
  show ?case
  proof (cases "cmp x p > 0")
    case True
    obtain front' mid where "front = mid @ front'" "shift_in cmp p front (x # moved) = rev front' @ p # rev mid @ x # moved"
      "list_all (\<lambda>x. cmp x p > 0) mid" "front' = [] \<or> \<not> cmp (hd front') p > 0"
      using Cons [of "x # moved"] by blast
    with True show ?thesis by (intro exI [of _ front'] exI [of _ "x # mid"]) simp
  next
    case False
    then show ?thesis by (intro exI [of _ "x # front"] exI [of _ "[]"]) simp
  qed
qed simp

lemma shift_in_insort:
  assumes "sorted (map f (rev front))" "\<And>x y. cmp x y > 0 \<longleftrightarrow> f y < (f x :: 'k :: linorder)"
  shows "sorted (map f (shift_in cmp p front [])) \<and> mset (shift_in cmp p front []) = add_mset p (mset front) \<and>
    filter (\<lambda>x. f x = k) (shift_in cmp p front []) = filter (\<lambda>x. f x = k) (rev front @ [p])"
proof -
  obtain front' mid where s: "front = mid @ front'" "shift_in cmp p front [] = rev front' @ p # rev mid"
    "list_all (\<lambda>x. cmp x p > 0) mid" "front' = [] \<or> \<not> cmp (hd front') p > 0"
    using shift_in_split [of front cmp p "[]"] by auto
  have hi: "\<forall>x\<in>set mid. f p < f x" using s(3) assms(2) by (auto simp: list_all_iff)
  have lo: "\<forall>x\<in>set front'. f x \<le> f p"
  proof (cases front')
    case (Cons y ys)
    with s assms have "f y \<le> f p" "\<forall>x\<in>set ys. f x \<le> f y"
      by (auto simp: not_less sorted_append)
    with Cons show ?thesis by auto
  qed simp
  from assms(1) s(1,2) hi lo have "sorted (map f (shift_in cmp p front []))"
    by (auto simp: sorted_append intro: less_imp_le)
  moreover have "filter (\<lambda>x. f x = k) mid = []" if "f p = k" using hi that by (auto simp: filter_empty_conv)
  ultimately show ?thesis using s(1,2) by (auto simp: rev_filter [symmetric])
qed

lemma sort_loop_key:
  assumes "sorted (map f front)" "\<And>x y. cmp x y > 0 \<longleftrightarrow> f y < (f x :: 'k :: linorder)"
  shows "sort_loop cmp front xs = sort_key f (front @ xs)"
  using assms(1)
proof (induction xs arbitrary: front)
  case Nil
  then show ?case by (simp add: sort_key_id_if_sorted)
next
  case (Cons p xs)
  let ?f = "shift_in cmp p (rev front) []"
  note i = shift_in_insort [of f "rev front" cmp p, OF _ assms(2)]
  have "sort_key f (?f @ xs) = sort_key f (front @ p # xs)"
  proof (rule properties_for_sort_key)
    show "mset (sort_key f (front @ p # xs)) = mset (?f @ xs)" using i Cons.prems by simp
    fix k
    have "filter (\<lambda>x. f x = f k) (sort_key f (front @ p # xs)) = filter (\<lambda>x. f x = f k) (?f @ xs)"
      using i Cons.prems by (simp add: sort_key_stable)
    then show "filter (\<lambda>x. f k = f x) (sort_key f (front @ p # xs)) = filter (\<lambda>x. f k = f x) (?f @ xs)"
      by (simp add: eq_commute)
  qed simp
  with Cons i show ?case by simp
qed

text \<open>
  C31. \<^verbatim>\<open>pgrest_util_sort\<close> is a stable sort: with a comparison that is positive exactly when its
  first argument has the greater key, the result is the input sorted by the key, equal
  keys in their original order.
\<close>

theorem util_sort_stable:
  assumes "\<And>x y. cmp x y > 0 \<longleftrightarrow> f y < (f x :: 'k :: linorder)"
  shows "pgrest_util_sort cmp xs = sort_key f xs"
  using sort_loop_key [of f "[hd xs]" cmp "tl xs", OF _ assms] by (cases xs) (simp_all add: pgrest_util_sort_def)

theorem util_sort_stable_witness:
  "pgrest_util_sort (\<lambda>x y. int (fst x) - int (fst y)) [(2, True), (1, False), (2 :: nat, False)] = [(1, False), (2, True), (2, False)]"
  using util_sort_stable [of "\<lambda>x y. int (fst x) - int (fst y)" fst "[(2, True), (1, False), (2, False)]"] by simp

text \<open>
  The comparison of addresses is no order when there are several wildcards: each one comes
  before the earlier ones.
\<close>

abbreviation bound_only :: "'h conf_addr list \<Rightarrow> 'h conf_addr list" where
  "bound_only \<equiv> filter (\<lambda>a. \<not> l_wildcard (opt a) \<and> l_bind (opt a))"
abbreviation unbound :: "'h conf_addr list \<Rightarrow> 'h conf_addr list" where
  "unbound \<equiv> filter (\<lambda>a. \<not> l_wildcard (opt a) \<and> \<not> l_bind (opt a))"
abbreviation wild :: "'h conf_addr list \<Rightarrow> 'h conf_addr list" where
  "wild \<equiv> filter (\<lambda>a. l_wildcard (opt a))"

lemma shift_past:
  "list_all (\<lambda>x. cmp x p > 0) xs \<Longrightarrow> shift_in cmp p (xs @ ys) moved = shift_in cmp p ys (rev xs @ moved)"
  by (induction xs arbitrary: moved) auto

lemma shift_stop: "ys = [] \<or> \<not> cmp (hd ys) p > 0 \<Longrightarrow> shift_in cmp p ys moved = rev ys @ p # moved"
  by (cases ys) auto

abbreviation is_bound :: "'h conf_addr \<Rightarrow> bool" where "is_bound a \<equiv> \<not> l_wildcard (opt a) \<and> l_bind (opt a)"
abbreviation is_unbound :: "'h conf_addr \<Rightarrow> bool" where "is_unbound a \<equiv> \<not> l_wildcard (opt a) \<and> \<not> l_bind (opt a)"
abbreviation is_wild_addr :: "'h conf_addr \<Rightarrow> bool" where "is_wild_addr a \<equiv> l_wildcard (opt a)"

lemma shift_addr:
  fixes b u w :: "'h conf_addr list"
  assumes "list_all is_bound b" "list_all is_unbound u" "list_all is_wild_addr w"
  shows "shift_in pgrest_http_cmp_conf_addrs p (rev (b @ u @ w)) [] =
    (if is_wild_addr p then b @ u @ p # w else if is_bound p then b @ p # u @ w else b @ u @ p # w)"
proof -
  let ?c = "pgrest_http_cmp_conf_addrs"
  have w: "list_all (\<lambda>x. ?c x p > 0) (rev w)"
    using assms(3) by (auto simp: list_all_iff pgrest_http_cmp_conf_addrs_def)
  show ?thesis
  proof (cases "is_bound p")
    case True
    have "list_all (\<lambda>x. ?c x p > 0) (rev w @ rev u)"
      using True assms(2,3) by (auto simp: list_all_iff pgrest_http_cmp_conf_addrs_def)
    moreover have "b = [] \<or> \<not> ?c (hd (rev b)) p > 0"
      using True assms(1) by (cases b rule: rev_cases) (auto simp: pgrest_http_cmp_conf_addrs_def)
    ultimately show ?thesis
      using True shift_past [of ?c p "rev w @ rev u" "rev b" "[]"] shift_stop [of "rev b" ?c p] by simp
  next
    case False
    have "rev u @ rev b = [] \<or> \<not> ?c (hd (rev u @ rev b)) p > 0"
      using False assms(1,2)
      by (cases u rule: rev_cases; cases b rule: rev_cases) (auto simp: pgrest_http_cmp_conf_addrs_def)
    with False show ?thesis
      using shift_past [of ?c p "rev w" "rev u @ rev b" "[]", OF w] shift_stop [of "rev u @ rev b" ?c p w] by auto
  qed
qed

lemma sort_loop_addrs:
  fixes b u w :: "'h conf_addr list"
  assumes "list_all is_bound b" "list_all is_unbound u" "list_all is_wild_addr w"
  shows "sort_loop pgrest_http_cmp_conf_addrs (b @ u @ w) xs = b @ bound_only xs @ u @ unbound xs @ rev (wild xs) @ w"
  using assms
proof (induction xs arbitrary: b u w)
  case (Cons p xs)
  show ?case
    using Cons.prems shift_addr [OF Cons.prems, of p] Cons.IH [of "b @ [p]" u w] Cons.IH [of b "u @ [p]" w] Cons.IH [of b u "p # w"]
    by auto
qed simp

lemma sort_addrs: "pgrest_util_sort pgrest_http_cmp_conf_addrs xs = bound_only xs @ unbound xs @ rev (wild xs)"
proof (cases xs)
  case (Cons x ys)
  then show ?thesis
    using sort_loop_addrs [of "[x]" "[]" "[]" ys] sort_loop_addrs [of "[]" "[x]" "[]" ys] sort_loop_addrs [of "[]" "[]" "[x]" ys]
    by (auto simp: pgrest_util_sort_def)
qed (simp add: pgrest_util_sort_def)

section \<open>Which listener serves which address\<close>

lemma add_listener_sockaddr: "pgrest_http_add_listener env srvs a = Inr l \<Longrightarrow> lsockaddr l = l_sockaddr (opt a)"
  by (auto simp: pgrest_http_add_listener_def pgrest_listener_create_def Let_def split: option.splits if_splits)

text \<open>The table a listener is given for the addresses \<open>as\<close>, by the family of its own address.\<close>

definition table_of :: "conf_build \<Rightarrow> sockaddr \<Rightarrow> 'h conf_addr list \<Rightarrow> 'h http_in_addr list" where
  "table_of b sa as = (case sa of AF_INET6 _ _ \<Rightarrow> pgrest_http_add_addrs6 b (length as) as | _ \<Rightarrow> pgrest_http_add_addrs b (length as) as)"

definition listens :: "(pgrest_listener \<times> 'h http_in_addr list) list \<Rightarrow> (sockaddr \<times> 'h http_in_addr list) list" where
  "listens ls = map (\<lambda>(l, t). (lsockaddr l, t)) ls"

definition alone :: "conf_build \<Rightarrow> 'h conf_addr \<Rightarrow> sockaddr \<times> 'h http_in_addr list" where
  "alone b a = (l_sockaddr (opt a), table_of b (l_sockaddr (opt a)) [a])"

lemma init_loop_alone:
  "init_loop env srvs bw 0 addr = Inr ls \<Longrightarrow> \<not> bw \<or> list_all (\<lambda>a. l_bind (opt a)) addr \<Longrightarrow>
     listens ls = map (alone (build env)) addr"
proof (induction addr arbitrary: ls)
  case Nil
  then show ?case by (simp add: init_loop.simps listens_def)
next
  case (Cons a addr)
  from Cons.prems obtain l ls' where "pgrest_http_add_listener env srvs a = Inr l" "init_loop env srvs bw 0 addr = Inr ls'"
    "listens ls = (lsockaddr l, table_of (build env) (lsockaddr l) [a]) # listens ls'"
    by (subst (asm) init_loop.simps)
      (auto simp: Let_def listens_def table_of_def pgrest_http_add_addrs_def pgrest_http_add_addrs6_def
        split: sum.splits if_splits sockaddr.splits)
  with Cons show ?case by (auto simp: alone_def add_listener_sockaddr)
qed

end
