(* ===== verification/HttpPorts.thy ===== *)
theory HttpPorts
  imports HttpInit
begin

text \<open>
  What the startup of \<^verbatim>\<open>src/pg_rest_http.c\<close> guarantees: which listener serves which address of a
  port, that the grouping by port and address registers every server exactly where the
  configuration puts it, and that a configuration that was read always gets its listeners.
\<close>

section \<open>The loop over the addresses of a port\<close>

lemma init_loop_skip:
  assumes "list_all (\<lambda>a. \<not> l_bind (opt a)) u" "l_bind (opt w)" "i \<le> length u"
  shows "init_loop env srvs True i (u @ [w]) = init_loop env srvs True (length u) (u @ [w])"
  using assms(3)
proof (induction "length u - i" arbitrary: i)
  case (Suc n)
  then have "\<not> l_bind (opt ((u @ [w]) ! i))" "i < length (u @ [w])" using assms(1) by (auto simp: list_all_length nth_append)
  then have "init_loop env srvs True i (u @ [w]) = init_loop env srvs True (i + 1) (u @ [w])"
    by (subst init_loop.simps) simp
  with Suc show ?case by simp
qed simp

lemma init_loop_wildcard:
  assumes "list_all (\<lambda>a. \<not> l_bind (opt a)) u" "l_bind (opt w)" "init_loop env srvs True 0 (u @ [w]) = Inr ls"
  shows "listens ls = [(l_sockaddr (opt w), table_of (build env) (l_sockaddr (opt w)) (u @ [w]))]"
proof -
  have e: "init_loop env srvs True (length u) (tl (u @ [w])) = Inr []"
    by (subst init_loop.simps) simp
  from assms(3) init_loop_skip [OF assms(1,2), of 0 env srvs]
  have "init_loop env srvs True (length u) (u @ [w]) = Inr ls" by simp
  then obtain l where "pgrest_http_add_listener env srvs w = Inr l"
    "listens ls = [(lsockaddr l, table_of (build env) (lsockaddr l) (u @ [w]))]"
    using assms(2) e
    by (subst (asm) init_loop.simps)
      (auto simp: Let_def listens_def table_of_def pgrest_http_add_addrs_def pgrest_http_add_addrs6_def
        split: sum.splits if_splits sockaddr.splits)
  then show ?thesis by (simp add: add_listener_sockaddr)
qed

lemma init_loop_bound_first:
  assumes "list_all (\<lambda>a. l_bind (opt a)) b" "init_loop env srvs True 0 (b @ rest) = Inr ls"
  shows "\<exists>ls'. init_loop env srvs True 0 rest = Inr ls' \<and> listens ls = map (alone (build env)) b @ listens ls'"
  using assms
proof (induction b arbitrary: ls)
  case (Cons a b)
  from Cons.prems obtain l ls' where "pgrest_http_add_listener env srvs a = Inr l" "init_loop env srvs True 0 (b @ rest) = Inr ls'"
    "listens ls = (lsockaddr l, table_of (build env) (lsockaddr l) [a]) # listens ls'"
    by (subst (asm) init_loop.simps)
      (auto simp: Let_def listens_def table_of_def pgrest_http_add_addrs_def pgrest_http_add_addrs6_def
        split: sum.splits if_splits sockaddr.splits)
  with Cons show ?case by (auto simp: alone_def add_listener_sockaddr)
qed simp

definition binds :: "'h conf_addr \<Rightarrow> 'h conf_addr" where
  "binds a = a\<lparr>opt := (opt a)\<lparr>l_bind := True\<rparr>\<rparr>"

text \<open>
  C30. The listeners of a port cover its addresses exactly: without a wildcard every address
  gets its own listener, the bound ones first; with one wildcard the bound addresses get
  their own listener and the wildcard listener, the last one, serves itself and all addresses that
  are not bound.
\<close>

theorem init_listener_partition:
  assumes "pgrest_http_init_listener env srvs (pgrest_util_sort pgrest_http_cmp_conf_addrs as) = Inr ls"
    and "length (wild as) \<le> 1"
  shows "listens ls =
    (case wild as of
       [] \<Rightarrow> map (alone (build env)) (bound_only as @ unbound as)
     | w # _ \<Rightarrow> map (alone (build env)) (bound_only as) @
         [(l_sockaddr (opt w), table_of (build env) (l_sockaddr (opt w)) (unbound as @ [binds w]))])"
proof (cases "wild as")
  case Nil
  then have s: "pgrest_util_sort pgrest_http_cmp_conf_addrs as = bound_only as @ unbound as" by (simp add: sort_addrs)
  have "\<not> l_wildcard (opt a)" if "a \<in> set as" for a using Nil that by (auto simp: filter_empty_conv)
  then have "\<not> l_wildcard (opt (last (bound_only as @ unbound as)))" if "bound_only as @ unbound as \<noteq> []"
    using last_in_set [OF that] by auto
  with assms(1) have "init_loop env srvs False 0 (bound_only as @ unbound as) = Inr ls"
    by (auto simp: s pgrest_http_init_listener_def simp del: append_is_Nil_conv split: if_splits)
  from init_loop_alone [OF this] Nil show ?thesis by simp
next
  case (Cons w ws)
  with assms(2) have ws: "wild as = [w]" "l_wildcard (opt w)"
    using arg_cong [OF Cons, of set] by (auto simp: filter_eq_Cons_iff)
  then have "init_loop env srvs True 0 (bound_only as @ unbound as @ [binds w]) = Inr ls"
    using assms(1) by (simp add: sort_addrs pgrest_http_init_listener_def binds_def list_update_append)
  moreover have "list_all (\<lambda>a. l_bind (opt a)) (bound_only as)" by (simp add: list_all_iff)
  ultimately obtain ls' where "init_loop env srvs True 0 (unbound as @ [binds w]) = Inr ls'"
    "listens ls = map (alone (build env)) (bound_only as) @ listens ls'"
    using init_loop_bound_first by blast
  with init_loop_wildcard [of "unbound as" "binds w" env srvs ls'] ws show ?thesis
    by (auto simp: list_all_iff binds_def)
qed

section \<open>Grouping the addresses\<close>

text \<open>The servers that are reachable at each address, over all ports.\<close>

definition addr_serves :: "'h conf_addr \<Rightarrow> (sockaddr \<times> nat) set" where
  "addr_serves a = (\<lambda>s. (l_sockaddr (opt a), s)) ` set (contents (servers a))"

definition port_serves :: "'h conf_port \<Rightarrow> (sockaddr \<times> nat) set" where
  "port_serves p = (\<Union>a \<in> set (contents (cp_addrs p)). addr_serves a)"

definition serves :: "'h conf_port list \<Rightarrow> (sockaddr \<times> nat) set" where
  "serves ps = (\<Union>p \<in> set ps. port_serves p)"

definition addr_ok :: "'h conf_addr \<Rightarrow> bool" where
  "addr_ok a \<longleftrightarrow> array_wf (servers a) \<and> default_server a \<in> set (contents (servers a))"

definition port_ok :: "'h conf_port \<Rightarrow> bool" where
  "port_ok p \<longleftrightarrow> array_wf (cp_addrs p) \<and> contents (cp_addrs p) \<noteq> [] \<and> list_all addr_ok (contents (cp_addrs p)) \<and>
     list_all (\<lambda>a. pgrest_inet_get_port (l_sockaddr (opt a)) = cp_port p \<and> family_of (l_sockaddr (opt a)) = cp_family p) (contents (cp_addrs p)) \<and>
     distinct (map (\<lambda>a. l_sockaddr (opt a)) (contents (cp_addrs p)))"

definition ports_ok :: "'h conf_port pgrest_array \<Rightarrow> bool" where
  "ports_ok ports \<longleftrightarrow> array_wf ports \<and> list_all port_ok (contents ports) \<and>
     distinct (map (\<lambda>p. (cp_family p, cp_port p)) (contents ports))"

definition http_env_ok :: "http_env \<Rightarrow> bool" where
  "http_env_ok env \<longleftrightarrow> alloc_limit (pg env) \<and> 0 < sizeof_conf_addr env \<and> sizeof_conf_addr env \<le> MaxAllocSize \<and>
     0 < sizeof_conf_port env \<and> sizeof_conf_port env \<le> MaxAllocSize"

lemma find_from_Some: "find_from P n xs = Some i \<Longrightarrow> n \<le> i \<and> i < n + length xs \<and> P (xs ! (i - n))"
proof (induction P n xs rule: find_from.induct)
  case (2 P n x xs)
  show ?case
  proof (cases "P x")
    case False
    with 2 have "n + 1 \<le> i \<and> i < n + 1 + length xs \<and> P (xs ! (i - (n + 1)))" by simp
    then show ?thesis by (auto simp: nth_Cons' Suc_diff_Suc)
  qed (use 2 in auto)
qed simp

lemma find_from_None: "find_from P n xs = None \<longleftrightarrow> list_all (\<lambda>x. \<not> P x) xs"
  by (induction P n xs rule: find_from.induct) auto

lemma UN_update_insert:
  assumes "i < length xs" "f y = insert z (f (xs ! i))"
  shows "(\<Union>x\<in>set (xs[i := y]). f x) = insert z (\<Union>x\<in>set xs. f x)"
proof -
  have "set (xs[i := y]) = insert y (set (take i xs) \<union> set (drop (Suc i) xs))"
    using assms(1) by (simp add: upd_conv_take_nth_drop Un_commute)
  moreover have "set xs = insert (xs ! i) (set (take i xs) \<union> set (drop (Suc i) xs))"
    using assms(1) arg_cong [OF id_take_nth_drop [OF assms(1)], of set] by auto
  ultimately show ?thesis using assms(2) by auto
qed

lemma add_server_ok:
  assumes "http_env_ok env" "pgrest_http_add_server env cs a = (True, a')" "elts (servers a) = None \<or> array_wf (servers a)"
  shows "array_wf (servers a') \<and> contents (servers a') = contents (servers a) @ [cs] \<and> opt a' = opt a \<and>
    default_server a' = default_server a"
proof -
  have lim: "alloc_limit (pg env)" using assms(1) by (simp add: http_env_ok_def)
  show ?thesis
  proof (cases "elts (servers a) = None")
    case True
    with assms(2) obtain b b' where b: "pgrest_array_init (pg env) (servers a) 2 sizeof_pointer = (True, b)"
      "array_append (pg env) cs b = Some b'" "a' = a\<lparr>servers := b'\<rparr>"
      by (auto simp: pgrest_http_add_server_def split: prod.splits bool.splits option.splits)
    from array_init_spec [OF lim b(1)] have "array_wf b \<and> contents b = []" by (simp add: sizeof_pointer_def WORD_MOD_def)
    with array_append_spec [OF _ lim b(2)] b(3) True show ?thesis by (simp add: contents_def)
  next
    case False
    with assms(2) obtain b' where "array_append (pg env) cs (servers a) = Some b'" "a' = a\<lparr>servers := b'\<rparr>"
      by (auto simp: pgrest_http_add_server_def split: prod.splits bool.splits option.splits)
    with array_append_spec [of "servers a", OF _ lim, of cs b'] assms(3) False show ?thesis by auto
  qed
qed

lemma add_address_ok:
  assumes env: "http_env_ok env" and add: "pgrest_http_add_address env ht cs cl p = (True, p')"
    and p: "port_ok p \<or> elts (cp_addrs p) = None" "same_port cl p" "l_sockaddr cl \<notin> (\<lambda>a. l_sockaddr (opt a)) ` set (contents (cp_addrs p))"
  shows "port_ok p' \<and> cp_family p' = cp_family p \<and> cp_port p' = cp_port p \<and> port_serves p' = insert (l_sockaddr cl, cs) (port_serves p)"
proof -
  have lim: "alloc_limit (pg env)" using env by (simp add: http_env_ok_def)
  let ?a0 = "\<lparr>opt = cl, hash = hash_create ht, default_server = cs, servers = null_array\<rparr>"
  from add obtain a addr a' where a: "(if elts (cp_addrs p) = None then pgrest_array_init (pg env) (cp_addrs p) 2 (sizeof_conf_addr env)
        else (True, cp_addrs p)) = (True, a)"
    and s: "pgrest_http_add_server env cs ?a0 = (True, addr)" and p': "array_append (pg env) addr a = Some a'" "p' = p\<lparr>cp_addrs := a'\<rparr>"
    by (auto simp: pgrest_http_add_address_def split: prod.splits bool.splits option.splits)
  have wf: "array_wf a \<and> contents a = contents (cp_addrs p)"
  proof (cases "elts (cp_addrs p) = None")
    case True
    with a array_init_spec [of "pg env" "cp_addrs p" 2 "sizeof_conf_addr env" a] env two_fit [of "sizeof_conf_addr env"]
    show ?thesis by (simp add: http_env_ok_def contents_def)
  next
    case False
    with a p(1) show ?thesis by (auto simp: port_ok_def)
  qed
  have ok: "addr_ok addr" "opt addr = cl" "contents (servers addr) = [cs]"
    using add_server_ok [OF env s] by (simp_all add: null_array_def contents_def addr_ok_def)
  from array_append_spec [OF _ lim p'(1)] wf have c: "array_wf a'" "contents a' = contents (cp_addrs p) @ [addr]" by auto
  have old: "list_all addr_ok (contents (cp_addrs p)) \<and> distinct (map (\<lambda>a. l_sockaddr (opt a)) (contents (cp_addrs p))) \<and>
      list_all (\<lambda>a. pgrest_inet_get_port (l_sockaddr (opt a)) = cp_port p \<and> family_of (l_sockaddr (opt a)) = cp_family p) (contents (cp_addrs p))"
    using p(1) by (auto simp: port_ok_def contents_def)
  have "port_ok p'" using c old ok p(2,3) p'(2) by (simp add: port_ok_def same_port_def)
  moreover have "port_serves p' = insert (l_sockaddr cl, cs) (port_serves p)"
    using c ok p'(2) by (auto simp: port_serves_def addr_serves_def)
  ultimately show ?thesis using p'(2) by simp
qed

lemma merge_address_ok:
  assumes "http_env_ok env" "merge_address env cs cl a = (True, a')" "addr_ok a" "l_sockaddr cl = l_sockaddr (opt a)"
  shows "addr_ok a' \<and> l_sockaddr (opt a') = l_sockaddr (opt a) \<and> addr_serves a' = insert (l_sockaddr cl, cs) (addr_serves a)"
proof -
  from assms(2) obtain b where b: "pgrest_http_add_server env cs a = (True, b)"
    and a': "servers a' = servers b" "default_server a' = default_server b \<or> default_server a' = cs"
      "l_sockaddr (opt a') = l_sockaddr cl \<or> l_sockaddr (opt a') = l_sockaddr (opt b)"
    by (auto simp: merge_address_def Let_def split: prod.splits bool.splits if_splits)
  with add_server_ok [OF assms(1) b] assms(3,4) show ?thesis
    by (auto simp: addr_ok_def addr_serves_def)
qed

lemma add_addresses_ok:
  assumes env: "http_env_ok env" and add: "pgrest_http_add_addresses env ht cs cl p = (True, p')" and p: "port_ok p" "same_port cl p"
  shows "port_ok p' \<and> cp_family p' = cp_family p \<and> cp_port p' = cp_port p \<and> port_serves p' = insert (l_sockaddr cl, cs) (port_serves p)"
proof -
  let ?as = "contents (cp_addrs p)"
  have same: "same_addr cl a \<longleftrightarrow> l_sockaddr cl = l_sockaddr (opt a)" if "a \<in> set ?as" for a
    using that p cmp_sockaddr_same_port [of "l_sockaddr cl" "l_sockaddr (opt a)"]
    by (auto simp: port_ok_def same_port_def same_addr_def list_all_iff)
  show ?thesis
  proof (cases "find_from (same_addr cl) 0 ?as")
    case None
    then have "l_sockaddr cl \<notin> (\<lambda>a. l_sockaddr (opt a)) ` set ?as" using same by (auto simp: find_from_None list_all_iff)
    with None add add_address_ok [OF env _ _ p(2)] p(1) show ?thesis by (auto simp: pgrest_http_add_addresses_def)
  next
    case (Some i)
    from find_from_Some [OF Some] have i: "i < length ?as" "l_sockaddr cl = l_sockaddr (opt (?as ! i))" using same by auto
    from add Some obtain a where a: "merge_address env cs cl (?as ! i) = (True, a)" "p' = p\<lparr>cp_addrs := array_store (cp_addrs p) i a\<rparr>"
      by (auto simp: pgrest_http_add_addresses_def split: prod.splits)
    have "addr_ok (?as ! i)" using p(1) i(1) by (auto simp: port_ok_def list_all_length)
    note m = merge_address_ok [OF env a(1) this i(2)]
    have c: "array_wf (cp_addrs p')" "contents (cp_addrs p') = ?as[i := a]"
      using array_store_wf [of "cp_addrs p" i a] p(1) i(1) a(2) by (auto simp: port_ok_def)
    have keys: "map (\<lambda>a. l_sockaddr (opt a)) (?as[i := a]) = map (\<lambda>a. l_sockaddr (opt a)) ?as"
      using m i(1) by (simp add: map_update list_update_same_conv)
    have "port_serves p' = insert (l_sockaddr cl, cs) (port_serves p)"
      unfolding port_serves_def c(2) by (rule UN_update_insert [OF i(1)]) (use m in simp)
    moreover have "port_ok p'"
      using c keys m p(1) a(2) i(1) unfolding port_ok_def by (auto simp: list_all_length nth_list_update)
    ultimately show ?thesis using a(2) by simp
  qed
qed

lemma add_listen_ok:
  assumes env: "http_env_ok env" and add: "pgrest_http_add_listen env ht cs cl ports = (True, ports')" and ok: "ports_ok ports"
  shows "ports_ok ports' \<and> serves (contents ports') = insert (l_sockaddr cl, cs) (serves (contents ports))"
proof (cases "find_from (same_port cl) 0 (contents ports)")
  case None
  have lim: "alloc_limit (pg env)" using env by (simp add: http_env_ok_def)
  let ?p = "\<lparr>cp_family = family_of (l_sockaddr cl), cp_port = pgrest_inet_get_port (l_sockaddr cl), cp_addrs = null_array\<rparr>"
  from None add obtain p where p: "pgrest_http_add_address env ht cs cl ?p = (True, p)" "array_append (pg env) p ports = Some ports'"
    by (auto simp: pgrest_http_add_listen_def split: prod.splits option.splits)
  from add_address_ok [OF env p(1)] have p1: "port_ok p" "cp_family p = family_of (l_sockaddr cl)"
    "cp_port p = pgrest_inet_get_port (l_sockaddr cl)" "port_serves p = {(l_sockaddr cl, cs)}"
    by (auto simp: null_array_def same_port_def port_serves_def contents_def)
  from array_append_spec [OF _ lim p(2)] ok have "array_wf ports'" "contents ports' = contents ports @ [p]"
    by (auto simp: ports_ok_def)
  with p1 ok None show ?thesis
    by (auto simp: ports_ok_def serves_def find_from_None list_all_iff same_port_def)
next
  case (Some i)
  let ?ps = "contents ports"
  from find_from_Some [OF Some] have i: "i < length ?ps" "same_port cl (?ps ! i)" by auto
  from add Some obtain p where p: "pgrest_http_add_addresses env ht cs cl (?ps ! i) = (True, p)" "ports' = array_store ports i p"
    by (auto simp: pgrest_http_add_listen_def split: prod.splits)
  have "port_ok (?ps ! i)" using ok i(1) by (auto simp: ports_ok_def list_all_length)
  note m = add_addresses_ok [OF env p(1) this i(2)]
  have c: "array_wf ports'" "contents ports' = ?ps[i := p]"
    using array_store_wf [of ports i p] ok i(1) p(2) by (auto simp: ports_ok_def)
  have keys: "map (\<lambda>p. (cp_family p, cp_port p)) (?ps[i := p]) = map (\<lambda>p. (cp_family p, cp_port p)) ?ps"
    using m i(1) by (simp add: map_update list_update_same_conv)
  have "serves (contents ports') = insert (l_sockaddr cl, cs) (serves ?ps)"
    unfolding serves_def c(2) by (rule UN_update_insert [OF i(1)]) (use m in simp)
  moreover have "ports_ok ports'"
    using c keys m ok i(1) unfolding ports_ok_def by (auto simp: list_all_length nth_list_update)
  ultimately show ?thesis by simp
qed

lemma add_listens_ok:
  assumes "http_env_ok env" "add_listens env ht n cls ports = Inr ports'" "ports_ok ports"
  shows "ports_ok ports' \<and> serves (contents ports') = serves (contents ports) \<union> {(l_sockaddr (cls ! i), n + i) | i. i < length cls}"
  using assms(2,3)
proof (induction cls arbitrary: n ports)
  case (Cons cl cls)
  from Cons.prems(1) obtain ports1 where s: "pgrest_http_add_listen env ht n cl ports = (True, ports1)"
    "add_listens env ht (n + 1) cls ports1 = Inr ports'" by (auto split: prod.splits if_splits)
  from add_listen_ok [OF assms(1) s(1) Cons.prems(2)] Cons.IH [OF s(2)] have
    r: "ports_ok ports'" "serves (contents ports') = insert (l_sockaddr cl, n) (serves (contents ports)) \<union>
        {(l_sockaddr (cls ! i), n + 1 + i) | i. i < length cls}" by auto
  moreover have "{(l_sockaddr ((cl # cls) ! i), n + i) | i. i < length (cl # cls)} =
      insert (l_sockaddr cl, n) {(l_sockaddr (cls ! i), n + 1 + i) | i. i < length cls}"
  proof -
    have "{(l_sockaddr ((cl # cls) ! i), n + i) | i. i < length (cl # cls)} = (\<lambda>i. (l_sockaddr ((cl # cls) ! i), n + i)) ` {..<Suc (length cls)}"
      by auto
    also have "\<dots> = insert (l_sockaddr cl, n) ((\<lambda>i. (l_sockaddr (cls ! i), n + 1 + i)) ` {..<length cls})"
      by (simp add: lessThan_Suc_eq_insert_0 image_image)
    also have "\<dots> = insert (l_sockaddr cl, n) {(l_sockaddr (cls ! i), n + 1 + i) | i. i < length cls}" by auto
    finally show ?thesis .
  qed
  ultimately show ?case by auto
qed simp

lemma create_ports_ok:
  assumes "http_env_ok env" "pgrest_array_create (pg env) 2 (sizeof_conf_port env) = Some ports"
  shows "ports_ok (ports :: 'h conf_port pgrest_array) \<and> contents ports = []"
proof -
  have "pgrest_array_init (pg env) \<lparr>elts = None, elt_size = 0, asize = 0, capacity = 0\<rparr> 2 (sizeof_conf_port env) = (True, ports)"
    using assms(2) by (auto simp: pgrest_array_create_def split: if_splits prod.splits)
  with array_init_spec [of "pg env" _ 2 "sizeof_conf_port env" ports] assms(1) two_fit [of "sizeof_conf_port env"] show ?thesis
    by (simp add: http_env_ok_def ports_ok_def)
qed

text \<open>
  C9. The ports that \<^verbatim>\<open>pgrest_http_init\<close> builds are the configuration grouped by address: no two
  ports have the same family and number, no two addresses of a port are equal, and server \<open>i\<close> is
  registered exactly at the address of listen directive \<open>i\<close>, for every directive.
\<close>

theorem http_ports_refine:
  assumes "http_env_ok env" "pgrest_array_create (pg env) 2 (sizeof_conf_port env) = Some ports0"
    and "add_listens env ht 0 cls ports0 = Inr ports"
  shows "ports_ok ports \<and> serves (contents ports) = {(l_sockaddr (cls ! i), i) | i. i < length cls}"
  using add_listens_ok [OF assms(1,3)] create_ports_ok [OF assms(1,2)] by (simp add: serves_def)

section \<open>The listeners of a valid configuration\<close>

text \<open>The address printer of the library answers for every address.\<close>

definition prints :: "inet_lib \<Rightarrow> bool" where
  "prints lib \<longleftrightarrow> (\<forall>a n. print4 lib a n \<noteq> None) \<and> (\<forall>a n. print6 lib a n \<noteq> None)"

lemma add_listener_total:
  "prints (ilib env) \<Longrightarrow> default_server a < length srvs \<Longrightarrow> \<exists>l. pgrest_http_add_listener env srvs a = Inr l"
  by (cases "l_sockaddr (opt a)")
    (auto simp: pgrest_http_add_listener_def pgrest_listener_create_def pgrest_inet_ntop_def prints_def Let_def
      conf_env.truncate_def split: option.splits)

lemma init_loop_total:
  "prints (ilib env) \<Longrightarrow> list_all (\<lambda>a. default_server a < length srvs) addr \<Longrightarrow> \<exists>ls. init_loop env srvs bw i addr = Inr ls"
proof (induction env srvs bw i addr rule: init_loop.induct)
  case (1 env srvs bw i addr)
  show ?case
  proof (cases "i < length addr \<and> \<not> (bw \<and> \<not> l_bind (opt (addr ! i)))")
    case True
    then obtain l where l: "pgrest_http_add_listener env srvs (addr ! i) = Inr l"
      using 1(3,4) add_listener_total [of env "addr ! i" srvs] by (auto simp: list_all_length)
    have "list_all (\<lambda>a. default_server a < length srvs) (tl addr)" using 1(4) by (cases addr) auto
    with 1(2) [OF _ _ l refl 1(3)] True obtain ls where "init_loop env srvs bw i (tl addr) = Inr ls" by auto
    with True l show ?thesis by (subst init_loop.simps) (auto simp: Let_def)
  next
    case False
    with 1 show ?thesis by (subst init_loop.simps) auto
  qed
qed

lemma map_run_total: "(\<And>x. x \<in> set xs \<Longrightarrow> \<exists>y. f x = Inr y \<and> Q y) \<Longrightarrow> \<exists>ys. map_run f xs = Inr ys \<and> list_all Q ys \<and> length ys = length xs"
proof (induction xs)
  case (Cons x xs)
  then obtain y ys where "f x = Inr y \<and> Q y" "map_run f xs = Inr ys \<and> list_all Q ys \<and> length ys = length xs" by force
  then show ?case by auto
qed simp

lemma optimize_port_total:
  assumes "prints (ilib env)" "port_ok p" "\<And>sa s. (sa, s) \<in> port_serves p \<Longrightarrow> s < length srvs"
  shows "\<exists>ls. optimize_port env ht srvs p = Inr ls"
proof -
  let ?as = "pgrest_util_sort pgrest_http_cmp_conf_addrs (contents (cp_addrs p))"
  let ?step = "\<lambda>a. if asize (servers a) > 1 then pgrest_http_server_names ht srvs a else Inr a"
  have sub: "set ?as = set (contents (cp_addrs p))" by (auto simp: sort_addrs)
  have small: "s < length srvs" if "a \<in> set ?as" "s \<in> set (contents (servers a))" for a s
    using that sub assms(3) [of "l_sockaddr (opt a)" s] by (auto simp: port_serves_def addr_serves_def)
  have "\<exists>b. ?step a = Inr b \<and> default_server b < length srvs" if "a \<in> set ?as" for a
  proof -
    have "addr_ok a" using that sub assms(2) by (auto simp: port_ok_def list_all_iff)
    then have "default_server a < length srvs" using small that by (auto simp: addr_ok_def)
    moreover have "list_all (\<lambda>s. s < length srvs) (contents (servers a))" using small that by (auto simp: list_all_iff)
    ultimately show ?thesis by (auto simp: pgrest_http_server_names_def)
  qed
  from map_run_total [of ?as ?step, OF this] obtain as' where as': "map_run ?step ?as = Inr as'"
    "list_all (\<lambda>b. default_server b < length srvs) as'" "length as' = length ?as" by blast
  have "?as \<noteq> []" using sub assms(2) by (auto simp: port_ok_def)
  then have ne: "as' \<noteq> []" using as'(3) by auto
  have "list_all (\<lambda>b. default_server b < length srvs) (as'[length as' - 1 := (last as')\<lparr>opt := (opt (last as'))\<lparr>l_bind := True\<rparr>\<rparr>])"
    using as'(2) ne by (auto simp: list_all_length nth_list_update last_conv_nth)
  with as' ne init_loop_total [OF assms(1)] have "\<exists>ls. pgrest_http_init_listener env srvs as' = Inr ls"
    by (auto simp: pgrest_http_init_listener_def)
  with as'(1) show ?thesis by (auto simp: optimize_port_def Let_def)
qed


section \<open>Concrete runs\<close>

definition henv0 :: http_env where
  "henv0 = conf_env.extend env0 (http_env.fields 320 56)"

definition ht0 :: "(string \<rightharpoonup> nat) htab" where
  "ht0 = \<lparr>hash_create = Map.empty, hash_enter = (\<lambda>h k v. (h k \<noteq> None, h(k \<mapsto> v))), hash_find = (\<lambda>h. h)\<rparr>"

lemma ht0_ok: "htab_ok ht0"
  by (simp add: htab_ok_def ht0_def)

lemma henv0_simps [simp]: "conf_env.truncate henv0 = env0" "pg henv0 = pg_mem_ok" "build henv0 = build env0" "ilib henv0 = lib0"
    "sizeof_conf_addr henv0 = 320" "sizeof_conf_port henv0 = 56"
  by (simp_all add: henv0_def env0_def conf_env.extend_def http_env.fields_def conf_env.truncate_def)

lemma henv0_ok: "http_env_ok henv0" "prints lib0"
  by (simp_all add: http_env_ok_def MaxAllocSize_def prints_def lib0_def)

definition listen0 :: "bool \<Rightarrow> bool \<Rightarrow> nat \<Rightarrow> conf_listener" where
  "listen0 wc bd a = (default_listener env0)\<lparr>l_sockaddr := AF_INET 8080 a, l_bind := bd, l_wildcard := wc\<rparr>"

definition addr0 :: "conf_listener \<Rightarrow> (string \<rightharpoonup> nat) conf_addr" where
  "addr0 l = \<lparr>opt = l, hash = Map.empty, default_server = 0, servers = null_array\<rparr>"

text \<open>A wildcard, an unbound and a bound address of one port: two listeners.\<close>

theorem init_listener_partition_witness:
  "\<exists>ls. pgrest_http_init_listener henv0 [default_http_server null_array]
       (pgrest_util_sort pgrest_http_cmp_conf_addrs (map addr0 [listen0 True False 0, listen0 False False 1, listen0 False True 2])) = Inr ls \<and>
     map fst (listens ls) = [AF_INET 8080 2, AF_INET 8080 0] \<and> map (map ha_addr \<circ> snd) (listens ls) = [[In_addr 2], [In_addr 1, In_addr 0]]"
proof -
  let ?as = "map addr0 [listen0 True False 0, listen0 False False 1, listen0 False True 2]"
  have "\<exists>ls. pgrest_http_init_listener henv0 [default_http_server null_array]
       (pgrest_util_sort pgrest_http_cmp_conf_addrs ?as) = Inr ls"
    by (simp add: sort_addrs pgrest_http_init_listener_def addr0_def listen0_def)
      (rule init_loop_total, simp_all add: henv0_ok)
  then obtain ls where ls: "pgrest_http_init_listener henv0 [default_http_server null_array]
       (pgrest_util_sort pgrest_http_cmp_conf_addrs ?as) = Inr ls" by blast
  have "length (wild ?as) \<le> 1" by (simp add: addr0_def listen0_def)
  from init_listener_partition [OF ls this] ls show ?thesis
    by (simp add: addr0_def listen0_def alone_def table_of_def pgrest_http_add_addrs_def in_addr_of_def binds_def)
qed

lemma create_ports0: "pgrest_array_create pg_mem_ok 2 56 = Some (\<lparr>elts = Some [None, None], elt_size = 56, asize = 0, capacity = 2\<rparr>)"
  by (simp add: pgrest_array_create_def array_init0) (simp add: pgrest_util_alloc_def pg_mem_ok_def sizeof_pgrest_array_t_def MaxAllocSize_def)

lemmas listen_eval = pgrest_http_add_listen_def pgrest_http_add_addresses_def pgrest_http_add_address_def merge_address_def
  pgrest_http_add_server_def same_port_def same_addr_def null_array_def array_init0 array_append0 contents_def sizeof_pointer_def array_store_def

theorem http_ports_refine_witness:
  "\<exists>ports. add_listens henv0 ht0 0 [listen0 False True 1, listen0 False False 1, listen0 False False 2]
       \<lparr>elts = Some [None, None], elt_size = 56, asize = 0, capacity = 2\<rparr> = Inr ports \<and>
     serves (contents ports) = {(AF_INET 8080 1, 0), (AF_INET 8080 1, 1), (AF_INET 8080 2, 2)}"
proof -
  let ?cls = "[listen0 False True 1, listen0 False False 1, listen0 False False 2]"
  have "\<exists>ports. add_listens henv0 ht0 0 ?cls \<lparr>elts = Some [None, None], elt_size = 56, asize = 0, capacity = 2\<rparr> = Inr ports"
    by (simp add: listen_eval listen0_def default_listener_def Let_def)
  then obtain ports where p: "add_listens henv0 ht0 0 ?cls \<lparr>elts = Some [None, None], elt_size = 56, asize = 0, capacity = 2\<rparr> = Inr ports"
    by blast
  have "pgrest_array_create (pg henv0) 2 (sizeof_conf_port henv0)
      = Some (\<lparr>elts = Some [None, None], elt_size = 56, asize = 0, capacity = 2\<rparr> :: (string \<rightharpoonup> nat) conf_port pgrest_array)"
    by (simp add: create_ports0)
  from http_ports_refine [OF henv0_ok(1) this p] have
    "serves (contents ports) = {(l_sockaddr (?cls ! i), i) | i. i < length ?cls}" by blast
  also have "\<dots> = (\<lambda>i. (l_sockaddr (?cls ! i), i)) ` {..<length ?cls}" by auto
  also have "\<dots> = {(AF_INET 8080 1, 0), (AF_INET 8080 1, 1), (AF_INET 8080 2, 2)}"
    by (auto simp: lessThan_Suc listen0_def)
  finally show ?thesis using p by blast
qed


text \<open>
  C34. A configuration without an upstream cannot be started: for every document that has no
  \<open>upstream\<close> directive, \<^verbatim>\<open>pgrest_http_init\<close> dereferences the null pointer
  \<open>pgrest_http_upstreams\<close> in \<^verbatim>\<open>pgrest_http_upstream_init\<close>.
\<close>

theorem http_init_needs_upstream:
  assumes "pgrest_conf_parse cenv load f st = Inr (Some st')" "load f = Some j" "''upstream'' \<notin> set (keys_of j)"
    and "http_upstreams (upstream st) = None"
  shows "pgrest_http_init env ht st' = Inl (Undefined NullDeref)"
  using parse_without_upstream [OF assms] by (simp add: pgrest_http_init_def pgrest_http_upstream_init_def)

theorem http_init_needs_upstream_witness:
  "\<exists>st'. pgrest_conf_parse env0 (\<lambda>_. Some (JSON_OBJECT [])) [] st0 = Inr (Some st') \<and>
     pgrest_http_init henv0 ht0 st' = Inl (Undefined NullDeref)"
proof -
  have "\<exists>st'. pgrest_conf_parse env0 (\<lambda>_. Some (JSON_OBJECT [])) [] st0 = Inr (Some st')"
    by (simp add: conf_parse_eval env0_def st0_def table_eval conf_eval)
  then obtain st' where s: "pgrest_conf_parse env0 (\<lambda>_. Some (JSON_OBJECT [])) [] st0 = Inr (Some st')" by blast
  from http_init_needs_upstream [OF s refl, of henv0 ht0] s show ?thesis by (simp add: st0_def)
qed

definition two_listens :: json where
  "two_listens = JSON_OBJECT [(''http'', JSON_OBJECT [(''server'', JSON_ARRAY
     [JSON_OBJECT [(''listen'', JSON_ARRAY [JSON_OBJECT [], JSON_OBJECT [(''bind'', JSON_TRUE)]])], JSON_OBJECT []])])]"

text \<open>
  The check that every server has a \<open>listen\<close> directive only compares totals: the document
  with two \<open>listen\<close> objects in the first server and none in the second is accepted, and
  the second server, which never asked for it, is the one that gets the second address.
\<close>

theorem listen_check_counts_only:
  "\<exists>st'. pgrest_conf_parse env0 (\<lambda>_. Some two_listens) [] st0 = Inr (Some st') \<and>
     map s_listen (contents (conf_http_servers (setting st'))) = [True, False] \<and>
     map l_bind (contents (conf_listeners (setting st'))) = [False, True]"
  by (simp add: conf_parse_eval env0_def st0_def table_eval conf_eval two_listens_def pgrest_conf_bool_set2_def pgrest_conf_bool_set_def
      as_bool_def pgrest_conf_bind_set_def store_bool_def contents_def default_http_server_def default_listener_def)

end
