(* ===== verification/Conn.thy ===== *)
theory Conn
  imports Listener
begin

text \<open>
  The connection pool of a worker, \<^verbatim>\<open>src/pg_rest_conn.c\<close>: an array of connections, a free list
  threaded through their field \<open>data\<close>, a list of reusable (idle) connections, and a counter.
  A connection is its index, an event of libevent its number (None is NULL); which events are
  pending is a set. The socket calls are parameters.
\<close>

section \<open>Connections\<close>

record pgrest_connection =
  cdata :: "nat option"
  rev_ev :: "nat option"
  wev_ev :: "nat option"
  cfd :: "nat option"
  clistener :: "nat option"
  sent :: nat
  cpool :: bool                      \<comment> \<open>whether it has a memory pool\<close>
  ctype :: int
  csockaddr :: "sockaddr option"
  csocklen :: nat
  caddr_text :: "string option"
  local_sockaddr :: "sockaddr option"
  local_socklen :: nat
  tcp_nodelay :: nat
  tcp_nopush :: nat
  creusable :: bool
  cclose :: bool
  ready :: bool
  channel :: bool

record conn_pool =
  conns :: "pgrest_connection list"
  free_conns :: "nat option"
  free_noconn :: int
  reuse_conns :: "nat list"
  pending :: "nat set"

definition SOCK_STREAM :: int where "SOCK_STREAM = 1"

text \<open>\<open>MemSet(conn, 0, sizeof(...))\<close>; descriptor 0 is \<open>Some 0\<close>.\<close>

definition zero_conn :: pgrest_connection where
  "zero_conn = \<lparr>cdata = None, rev_ev = None, wev_ev = None, cfd = Some 0, clistener = None, sent = 0,
     cpool = False, ctype = 0, csockaddr = None, csocklen = 0, caddr_text = None, local_sockaddr = None, local_socklen = 0,
     tcp_nodelay = 0, tcp_nopush = 0, creusable = False, cclose = False, ready = False, channel = False\<rparr>"

abbreviation upd_conn :: "nat \<Rightarrow> (pgrest_connection \<Rightarrow> pgrest_connection) \<Rightarrow> conn_pool \<Rightarrow> conn_pool" where
  "upd_conn i f p \<equiv> p\<lparr>conns := (conns p)[i := f (conns p ! i)]\<rparr>"

text \<open>
  \<^verbatim>\<open>pgrest_event_add\<close> and \<^verbatim>\<open>pgrest_event_del\<close> of \<^verbatim>\<open>src/pg_rest_event.c\<close>; \<open>ok\<close> is the answer
  of libevent for an event. Both start with \<open>event_pending\<close>, which reads the event.
\<close>

definition pgrest_event_add :: "(nat \<Rightarrow> bool) \<Rightarrow> nat option \<Rightarrow> nat set \<Rightarrow> (bool \<times> nat set) run" where
  "pgrest_event_add ok ev pend =
     (case ev of
        None \<Rightarrow> Inl NullDeref
      | Some e \<Rightarrow> if e \<in> pend then Inr (True, pend) else if ok e then Inr (True, insert e pend) else Inr (False, pend))"

definition pgrest_event_del :: "(nat \<Rightarrow> bool) \<Rightarrow> nat option \<Rightarrow> nat set \<Rightarrow> (bool \<times> nat set) run" where
  "pgrest_event_del ok ev pend =
     (case ev of
        None \<Rightarrow> Inl NullDeref
      | Some e \<Rightarrow> if e \<notin> pend then Inr (True, pend) else if ok e then Inr (True, pend - {e}) else Inr (False, pend))"

section \<open>The pool\<close>

text \<open>
  \<^verbatim>\<open>pgrest_conn_drain\<close>: the loop marks the last reusable connection again and again, since
  nothing takes it off the list.
\<close>

definition pgrest_conn_drain :: "conn_pool \<Rightarrow> conn_pool" where
  "pgrest_conn_drain p =
     (if reuse_conns p = [] then p else upd_conn (last (reuse_conns p)) (cclose_update (\<lambda>_. True)) p)"

definition pgrest_conn_get :: "nat option \<Rightarrow> conn_pool \<Rightarrow> nat option \<times> conn_pool" where
  "pgrest_conn_get s p =
     (let p1 = (if free_conns p = None then pgrest_conn_drain p else p) in
      case free_conns p1 of
        None \<Rightarrow> (None, p1)
      | Some i \<Rightarrow>
          (Some i, upd_conn i (\<lambda>_. zero_conn\<lparr>cfd := s\<rparr>)
             (p1\<lparr>free_conns := cdata (conns p1 ! i), free_noconn := free_noconn p1 - 1\<rparr>)))"

definition pgrest_conn_reusable :: "nat \<Rightarrow> bool \<Rightarrow> conn_pool \<Rightarrow> conn_pool" where
  "pgrest_conn_reusable i r p =
     (let p1 = (if creusable (conns p ! i) then p\<lparr>reuse_conns := removeAll i (reuse_conns p)\<rparr> else p);
          p2 = upd_conn i (creusable_update (\<lambda>_. r)) p1
      in if r then p2\<lparr>reuse_conns := i # reuse_conns p2\<rparr> else p2)"

definition pgrest_conn_free :: "nat \<Rightarrow> conn_pool \<Rightarrow> conn_pool" where
  "pgrest_conn_free i p =
     (upd_conn i (cdata_update (\<lambda>_. free_conns p)) p)\<lparr>free_conns := Some i, free_noconn := free_noconn p + 1\<rparr>"

text \<open>The results of the two calls of \<open>pgrest_event_del\<close> are ignored; the closed descriptor is returned.\<close>

definition pgrest_conn_close :: "(nat \<Rightarrow> bool) \<Rightarrow> nat \<Rightarrow> conn_pool \<Rightarrow> (nat option \<times> conn_pool) run" where
  "pgrest_conn_close ok i p =
     (case cfd (conns p ! i) of
        None \<Rightarrow> Inr (None, p)
      | Some s \<Rightarrow>
          (case pgrest_event_del ok (rev_ev (conns p ! i)) (pending p) of
             Inl e \<Rightarrow> Inl e
           | Inr (_, pend1) \<Rightarrow>
               (case pgrest_event_del ok (wev_ev (conns p ! i)) pend1 of
                  Inl e \<Rightarrow> Inl e
                | Inr (_, pend2) \<Rightarrow>
                    Inr (Some s, upd_conn i (cfd_update (\<lambda>_. None))
                      (pgrest_conn_free i (pgrest_conn_reusable i False (p\<lparr>pending := pend2\<rparr>)))))))"

text \<open>
  \<^verbatim>\<open>pgrest_conn_worker_init\<close> fills the array from the end, chaining each connection to the
  one behind it; \<open>n\<close> is positive. The two events of connection \<open>i\<close> are numbered \<open>2 i\<close>, \<open>2 i + 1\<close>.
\<close>

definition init_conn :: "nat \<Rightarrow> nat \<Rightarrow> pgrest_connection" where
  "init_conn n i = zero_conn\<lparr>cdata := (if i + 1 < n then Some (i + 1) else None), cfd := None,
     rev_ev := Some (2 * i), wev_ev := Some (2 * i + 1)\<rparr>"

definition pgrest_conn_worker_init :: "nat \<Rightarrow> conn_pool" where
  "pgrest_conn_worker_init n =
     \<lparr>conns = map (init_conn n) [0..<n], free_conns = Some 0, free_noconn = int n, reuse_conns = [], pending = {}\<rparr>"

text \<open>
  \<^verbatim>\<open>pgrest_conn_worker_exit\<close> deletes and frees both events of every connection; the list
  names the connections for which it warns of a socket left open.
\<close>

fun conn_exit_loop :: "pgrest_connection list \<Rightarrow> nat \<Rightarrow> nat set \<Rightarrow> (nat list \<times> nat set) run" where
  "conn_exit_loop [] i pend = Inr ([], pend)"
| "conn_exit_loop (c # cs) i pend =
     (case (rev_ev c, wev_ev c) of
        (Some r, Some w) \<Rightarrow>
          (case conn_exit_loop cs (i + 1) (pend - {r, w}) of
             Inl e \<Rightarrow> Inl e
           | Inr (open_conns, pend') \<Rightarrow>
               Inr (if cfd c \<noteq> None \<and> \<not> channel c then i # open_conns else open_conns, pend'))
      | _ \<Rightarrow> Inl NullDeref)"

definition pgrest_conn_worker_exit :: "conn_pool \<Rightarrow> (nat list \<times> conn_pool) run" where
  "pgrest_conn_worker_exit p =
     (case conn_exit_loop (conns p) 0 (pending p) of
        Inl e \<Rightarrow> Inl e
      | Inr (open_conns, pend) \<Rightarrow> Inr (open_conns, p\<lparr>pending := pend\<rparr>))"

section \<open>Reading and writing\<close>

datatype errno = EINTR | EAGAIN | ENOSYS | ECONNABORTED | EMFILE | ENFILE | EOTHER

definition ERR_RW_RETRIABLE :: "errno \<Rightarrow> bool" where
  "ERR_RW_RETRIABLE e \<longleftrightarrow> e = EINTR \<or> e = EAGAIN"

datatype sys_result = Done nat | Fail errno

text \<open>
  The answers of the successive calls of \<open>recv\<close> (\<open>send\<close>) are a list; None says that the
  loop has used them all up and would call again. \<open>et\<close> is the edge-triggered flag.
\<close>

fun recv_loop :: "bool \<Rightarrow> nat \<Rightarrow> sys_result list \<Rightarrow> (int \<times> bool) option" where
  "recv_loop et sz [] = None"
| "recv_loop et sz (r # rs) =
     (case r of
        Done n \<Rightarrow>
          if n = 0 then Some (0, False)
          else Some (int n, \<not> (n < sz \<and> \<not> et))
      | Fail e \<Rightarrow>
          if \<not> ERR_RW_RETRIABLE e then Some (PGREST_ERROR, False)
          else if e = EINTR then recv_loop et sz rs
          else Some (PGREST_AGAIN, False))"

text \<open>The second component of the result says whether \<open>ready\<close> keeps its value (True) or is cleared.\<close>

definition pgrest_conn_recv :: "bool \<Rightarrow> nat \<Rightarrow> sys_result list \<Rightarrow> pgrest_connection \<Rightarrow> (int \<times> pgrest_connection) option" where
  "pgrest_conn_recv et sz rs c =
     (case recv_loop et sz rs of
        None \<Rightarrow> None
      | Some (n, keep) \<Rightarrow> Some (n, if keep then c else c\<lparr>ready := False\<rparr>))"

fun pgrest_conn_send :: "sys_result list \<Rightarrow> pgrest_connection \<Rightarrow> (int \<times> pgrest_connection) option" where
  "pgrest_conn_send [] c = None"
| "pgrest_conn_send (r # rs) c =
     (case r of
        Done n \<Rightarrow> Some (int n, c\<lparr>sent := sent c + n\<rparr>)
      | Fail e \<Rightarrow>
          if ERR_RW_RETRIABLE e then (if e = EAGAIN then Some (PGREST_AGAIN, c) else pgrest_conn_send rs c)
          else Some (PGREST_ERROR, c))"

section \<open>The local address\<close>

text \<open>
  \<^verbatim>\<open>pgrest_conn_local_sockaddr\<close>: the address of the listener unless it is a wildcard, in which case
  \<open>getsockname\<close> (a parameter, with the answer of the allocation) supplies it. \<open>room\<close> is the
  length of the caller's buffer, None for a null string; the second result is the text.
\<close>

definition wildcard_address :: "sockaddr \<Rightarrow> bool" where
  "wildcard_address sa = (case sa of AF_INET p a \<Rightarrow> a = 0 | AF_INET6 p a \<Rightarrow> list_all (\<lambda>x. x = 0) a | AF_UNIX _ \<Rightarrow> False)"

definition local_text :: "inet_lib \<Rightarrow> nat option \<Rightarrow> bool \<Rightarrow> pgrest_connection \<Rightarrow> string option" where
  "local_text lib room with_port c =
     (case (room, local_sockaddr c) of
        (Some n, Some sa) \<Rightarrow> pgrest_inet_ntop lib sa (local_socklen c \<le> 2) n with_port
      | _ \<Rightarrow> None)"

definition pgrest_conn_local_sockaddr ::
  "inet_lib \<Rightarrow> (sockaddr \<times> nat) option \<Rightarrow> bool \<Rightarrow> nat option \<Rightarrow> bool \<Rightarrow> pgrest_connection \<Rightarrow> (bool \<times> string option \<times> pgrest_connection) run" where
  "pgrest_conn_local_sockaddr lib getsockname alloc_ok room with_port c =
     (if local_socklen c \<noteq> 0 \<and> local_sockaddr c = None then Inl NullDeref
      else if local_socklen c \<noteq> 0 \<and> \<not> wildcard_address (the (local_sockaddr c)) then Inr (True, local_text lib room with_port c, c)
      else
        (case getsockname of
           None \<Rightarrow> Inr (False, None, c)
         | Some (sa, n) \<Rightarrow>
             if \<not> alloc_ok then Inr (False, None, c\<lparr>local_sockaddr := None\<rparr>)
             else let c' = c\<lparr>local_sockaddr := Some sa, local_socklen := n\<rparr> in Inr (True, local_text lib room with_port c', c')))"

section \<open>The listeners of a worker\<close>

text \<open>
  \<^verbatim>\<open>pgrest_listener_worker_init\<close>: \<open>pgrest_event_assign\<close> writes through the event of the
  connection it has just taken from the pool. \<open>aok\<close> and \<open>ok\<close> answer \<open>event_assign\<close> and the others, \<open>k\<close> is the
  position of the first listener of the list. The listeners are updated with their connection.
\<close>

fun listener_init_loop ::
  "conf_build \<Rightarrow> bool \<Rightarrow> (nat \<Rightarrow> bool) \<Rightarrow> (nat \<Rightarrow> bool) \<Rightarrow> nat \<Rightarrow> pgrest_listener list \<Rightarrow> conn_pool \<Rightarrow> (bool \<times> pgrest_listener list \<times> conn_pool) run" where
  "listener_init_loop b use_mutex aok ok k [] p = Inr (True, [], p)"
| "listener_init_loop b use_mutex aok ok k (l # ls) p =
     (case pgrest_conn_get (fd l) p of
        (None, p1) \<Rightarrow> Inr (False, l # ls, p1)
      | (Some i, p1) \<Rightarrow>
          let p2 = upd_conn i (\<lambda>c. c\<lparr>ctype := SOCK_STREAM, clistener := Some k\<rparr>) p1; l' = l\<lparr>connection := Some i\<rparr> in
          (case rev_ev (conns p2 ! i) of
             None \<Rightarrow> Inl NullDeref
           | Some ev \<Rightarrow>
               if \<not> aok ev then Inr (False, l' # ls, p2)
               else
                 (case (if HAVE_REUSEPORT b \<and> reuseport l \<or> \<not> use_mutex then pgrest_event_add ok (Some ev) (pending p2)
                        else Inr (True, pending p2)) of
                    Inl e \<Rightarrow> Inl e
                  | Inr (False, pend) \<Rightarrow> Inr (False, l' # ls, p2\<lparr>pending := pend\<rparr>)
                  | Inr (True, pend) \<Rightarrow>
                      (case listener_init_loop b use_mutex aok ok (k + 1) ls (p2\<lparr>pending := pend\<rparr>) of
                         Inl e \<Rightarrow> Inl e
                       | Inr (r, ls', p3) \<Rightarrow> Inr (r, l' # ls', p3)))))"

definition pgrest_listener_worker_init ::
  "conf_build \<Rightarrow> bool \<Rightarrow> (nat \<Rightarrow> bool) \<Rightarrow> (nat \<Rightarrow> bool) \<Rightarrow> pgrest_listener list \<Rightarrow> conn_pool \<Rightarrow> (bool \<times> pgrest_listener list \<times> conn_pool) run" where
  "pgrest_listener_worker_init b use_mutex aok ok ls p = listener_init_loop b use_mutex aok ok 0 ls p"

text \<open>\<^verbatim>\<open>pgrest_listener_resume\<close> and \<^verbatim>\<open>pgrest_listener_pause\<close> read \<open>conn->rev\<close> before they test \<open>conn\<close>.\<close>

fun pgrest_listener_resume :: "(nat \<Rightarrow> bool) \<Rightarrow> pgrest_listener list \<Rightarrow> conn_pool \<Rightarrow> (bool \<times> conn_pool) run" where
  "pgrest_listener_resume ok [] p = Inr (True, p)"
| "pgrest_listener_resume ok (l # ls) p =
     (case connection l of
        None \<Rightarrow> Inl NullDeref
      | Some i \<Rightarrow>
          (case rev_ev (conns p ! i) of
             None \<Rightarrow> pgrest_listener_resume ok ls p
           | Some ev \<Rightarrow>
               (case pgrest_event_add ok (Some ev) (pending p) of
                  Inl e \<Rightarrow> Inl e
                | Inr (False, pend) \<Rightarrow> Inr (False, p\<lparr>pending := pend\<rparr>)
                | Inr (True, pend) \<Rightarrow> pgrest_listener_resume ok ls (p\<lparr>pending := pend\<rparr>))))"

fun pgrest_listener_pause :: "conf_build \<Rightarrow> (nat \<Rightarrow> bool) \<Rightarrow> bool \<Rightarrow> pgrest_listener list \<Rightarrow> conn_pool \<Rightarrow> (bool \<times> conn_pool) run" where
  "pgrest_listener_pause b ok all [] p = Inr (True, p)"
| "pgrest_listener_pause b ok all (l # ls) p =
     (case connection l of
        None \<Rightarrow> Inl NullDeref
      | Some i \<Rightarrow>
          (case rev_ev (conns p ! i) of
             None \<Rightarrow> pgrest_listener_pause b ok all ls p
           | Some ev \<Rightarrow>
               if HAVE_REUSEPORT b \<and> reuseport l \<and> \<not> all then pgrest_listener_pause b ok all ls p
               else
                 (case pgrest_event_del ok (Some ev) (pending p) of
                    Inl e \<Rightarrow> Inl e
                  | Inr (False, pend) \<Rightarrow> Inr (False, p\<lparr>pending := pend\<rparr>)
                  | Inr (True, pend) \<Rightarrow> pgrest_listener_pause b ok all ls (p\<lparr>pending := pend\<rparr>))))"

section \<open>A pool of slots\<close>

text \<open>
  The interface of the pool: \<open>frees p fl\<close> says that \<open>fl\<close> is the list of free slots. Clients
  take slots and give back slots they hold.
\<close>

datatype pool_op = Take | Put nat

locale slot_pool =
  fixes take_slot :: "'p \<Rightarrow> nat option \<times> 'p" and put_slot :: "nat \<Rightarrow> 'p \<Rightarrow> 'p"
    and frees :: "'p \<Rightarrow> nat list \<Rightarrow> bool" and slots :: nat
  assumes take_empty: "frees p fl \<Longrightarrow> take_slot p = (None, p') \<Longrightarrow> fl = [] \<and> frees p' []"
    and take_first: "frees p fl \<Longrightarrow> take_slot p = (Some i, p') \<Longrightarrow> \<exists>fl'. fl = i # fl' \<and> frees p' fl'"
    and put_first: "frees p fl \<Longrightarrow> i < slots \<Longrightarrow> i \<notin> set fl \<Longrightarrow> frees (put_slot i p) (i # fl)"
begin

fun run :: "pool_op list \<Rightarrow> nat list \<times> 'p \<Rightarrow> nat list \<times> 'p" where
  "run [] s = s"
| "run (Take # ops) (held, p) =
     (case take_slot p of (None, p') \<Rightarrow> run ops (held, p') | (Some i, p') \<Rightarrow> run ops (i # held, p'))"
| "run (Put i # ops) (held, p) = (if i \<in> set held then run ops (removeAll i held, put_slot i p) else run ops (held, p))"

lemma run_accounts:
  assumes "frees p fl" "distinct (held @ fl)" "set (held @ fl) = {..<slots}" "run ops (held, p) = (held', p')"
  shows "\<exists>fl'. frees p' fl' \<and> distinct (held' @ fl') \<and> set (held' @ fl') = {..<slots}"
  using assms
proof (induction ops arbitrary: held p fl)
  case Nil
  then show ?case by auto
next
  case (Cons op ops)
  show ?case
  proof (cases op)
    case Take
    show ?thesis
    proof (cases "take_slot p")
      case (Pair r q)
      show ?thesis
      proof (cases r)
        case None
        with Pair Take Cons.prems take_empty [OF Cons.prems(1)] Cons.IH [of q "[]" held] show ?thesis by auto
      next
        case (Some i)
        with Pair take_first [OF Cons.prems(1)] obtain fl' where f: "fl = i # fl'" "frees q fl'" by auto
        have "distinct ((i # held) @ fl')" "set ((i # held) @ fl') = {..<slots}" using Cons.prems(2,3) f(1) by auto
        with Cons.IH [OF f(2), of "i # held"] Pair Some Take Cons.prems(4) show ?thesis by simp
      qed
    qed
  next
    case (Put i)
    show ?thesis
    proof (cases "i \<in> set held")
      case True
      with Cons.prems have "i < slots" "i \<notin> set fl" by auto
      from put_first [OF Cons.prems(1) this] have "frees (put_slot i p) (i # fl)" .
      moreover have "distinct (removeAll i held @ i # fl)" "set (removeAll i held @ i # fl) = {..<slots}"
        using Cons.prems(2,3) True by (auto simp: distinct_removeAll)
      ultimately show ?thesis using Cons.IH [of "put_slot i p" "i # fl" "removeAll i held"] Put True Cons.prems(4) by simp
    qed (use Put Cons in auto)
  qed
qed

end

section \<open>The free list\<close>

fun chain :: "pgrest_connection list \<Rightarrow> nat option \<Rightarrow> nat list \<Rightarrow> bool" where
  "chain cs None fl \<longleftrightarrow> fl = []"
| "chain cs (Some i) [] \<longleftrightarrow> False"
| "chain cs (Some i) (j # fl) \<longleftrightarrow> i = j \<and> i < length cs \<and> chain cs (cdata (cs ! i)) fl"

definition free_list :: "nat \<Rightarrow> conn_pool \<Rightarrow> nat list \<Rightarrow> bool" where
  "free_list n p fl \<longleftrightarrow> chain (conns p) (free_conns p) fl \<and> distinct fl \<and> free_noconn p = int (length fl) \<and> length (conns p) = n"

lemma chain_update: "i \<notin> set fl \<Longrightarrow> chain (cs[i := c]) h fl = chain cs h fl"
  by (induction cs h fl rule: chain.induct) auto

lemma chain_cdata: "(\<And>j. cdata (cs' ! j) = cdata (cs ! j)) \<Longrightarrow> length cs' = length cs \<Longrightarrow> chain cs' h fl = chain cs h fl"
  by (induction cs h fl rule: chain.induct) auto

lemma drain_keeps: "free_list n p fl \<Longrightarrow> free_list n (pgrest_conn_drain p) fl \<and> free_conns (pgrest_conn_drain p) = free_conns p"
proof -
  have "cdata ((conns p)[i := (conns p ! i)\<lparr>cclose := True\<rparr>] ! j) = cdata (conns p ! j)" for i j
    by (cases "i < length (conns p)") (auto simp: nth_list_update list_update_beyond)
  then show "free_list n p fl \<Longrightarrow> ?thesis"
    by (auto simp: free_list_def pgrest_conn_drain_def chain_cdata [of "(conns p)[_ := _]" "conns p"])
qed

lemma conn_get_None:
  assumes "free_list n p fl" "pgrest_conn_get s p = (None, p')"
  shows "fl = [] \<and> free_list n p' []"
proof -
  from assms drain_keeps [OF assms(1)] have f: "free_conns p = None"
    by (auto simp: pgrest_conn_get_def Let_def split: option.splits if_splits)
  with assms drain_keeps [OF assms(1)] show ?thesis
    by (auto simp: pgrest_conn_get_def Let_def free_list_def split: option.splits)
qed

lemma conn_get_Some:
  assumes "free_list n p fl" "pgrest_conn_get s p = (Some i, p')"
  shows "\<exists>fl'. fl = i # fl' \<and> free_list n p' fl'"
proof -
  from assms drain_keeps [OF assms(1)] have f: "free_conns p = Some i"
    by (auto simp: pgrest_conn_get_def Let_def split: option.splits if_splits)
  with assms(1) obtain fl' where fl: "fl = i # fl'" "i < length (conns p)" "chain (conns p) (cdata (conns p ! i)) fl'" "i \<notin> set fl'" "distinct fl'"
    by (cases fl) (auto simp: free_list_def)
  with f assms show ?thesis
    by (auto simp: pgrest_conn_get_def Let_def free_list_def chain_update)
qed

interpretation pool: slot_pool "pgrest_conn_get s" pgrest_conn_free "free_list n" n for s n
proof
  show "free_list n p fl \<Longrightarrow> i < n \<Longrightarrow> i \<notin> set fl \<Longrightarrow> free_list n (pgrest_conn_free i p) (i # fl)" for p fl i
    by (auto simp: free_list_def pgrest_conn_free_def chain_update)
qed (auto dest: conn_get_None conn_get_Some)

lemma init_chain: "k \<le> n \<Longrightarrow> chain (map (init_conn n) [0..<n]) (if k < n then Some k else None) [k..<n]"
proof (induction "n - k" arbitrary: k)
  case (Suc d)
  then have "chain (map (init_conn n) [0..<n]) (if Suc k < n then Some (Suc k) else None) [Suc k..<n]"
    using Suc.hyps(1) [of "Suc k"] by simp
  with Suc.hyps(2) show ?case by (auto simp: upt_rec [of k] init_conn_def zero_conn_def)
qed simp

lemma init_free_list: "0 < n \<Longrightarrow> free_list n (pgrest_conn_worker_init n) [0..<n]"
  using init_chain [of 0 n] by (simp add: free_list_def pgrest_conn_worker_init_def)

text \<open>
  C13. The connection pool never hands out a connection twice and never loses one: after any
  sequence of gets and frees from the initial pool, the connections held and the
  connections on the free list are distinct and together are all connections, and the counter
  \<open>pgrest_conn_free_noconn\<close> is the length of the free list.
\<close>

theorem conn_pool_accounts:
  assumes "0 < n" "pool.run s ops ([], pgrest_conn_worker_init n) = (held, p)"
  shows "\<exists>fl. chain (conns p) (free_conns p) fl \<and> distinct (held @ fl) \<and> set (held @ fl) = {..<n} \<and> free_noconn p = int (length fl)"
  using pool.run_accounts [OF init_free_list [OF assms(1)] _ _ assms(2)]
  by (auto simp: free_list_def atLeast0LessThan)

theorem conn_pool_accounts_witness:
  "\<exists>p. pool.run (Some 7) [Take, Take, Put 0] ([], pgrest_conn_worker_init 1) = ([], p) \<and> free_noconn p = 1"
proof -
  have i: "pgrest_conn_worker_init 1 = \<lparr>conns = [init_conn 1 0], free_conns = Some 0, free_noconn = 1, reuse_conns = [], pending = {}\<rparr>"
    by (simp add: pgrest_conn_worker_init_def)
  let ?p1 = "\<lparr>conns = [zero_conn\<lparr>cfd := Some 7\<rparr>], free_conns = None, free_noconn = 0, reuse_conns = [], pending = {}\<rparr>"
  have g: "pgrest_conn_get (Some 7) (pgrest_conn_worker_init 1) = (Some 0, ?p1)" "pgrest_conn_get (Some 7) ?p1 = (None, ?p1)"
    unfolding i by (simp_all add: pgrest_conn_get_def pgrest_conn_drain_def init_conn_def zero_conn_def)
  have r: "pool.run (Some 7) [Take, Take, Put 0] ([], pgrest_conn_worker_init 1) = ([], pgrest_conn_free 0 ?p1)"
    using g by simp
  from conn_pool_accounts [OF _ r] obtain fl where "distinct fl" "set fl = {..<Suc 0}" "free_noconn (pgrest_conn_free 0 ?p1) = int (length fl)"
    by auto
  moreover from this have "length fl = 1" using distinct_card [of fl] by simp
  ultimately show ?thesis using r by auto
qed

text \<open>
  C37. No worker gets its listeners: \<^verbatim>\<open>pgrest_conn_get\<close> clears the whole connection and with it the
  events that \<^verbatim>\<open>pgrest_conn_worker_init\<close> created, so the first listener of
  \<^verbatim>\<open>pgrest_listener_worker_init\<close> assigns through a null event.
\<close>

theorem worker_init_without_events:
  assumes "0 < n"
  shows "pgrest_listener_worker_init b use_mutex aok ok (l # ls) (pgrest_conn_worker_init n) = Inl NullDeref"
  using assms by (simp add: pgrest_listener_worker_init_def pgrest_conn_worker_init_def pgrest_conn_get_def Let_def zero_conn_def)

theorem worker_init_without_events_witness:
  "\<forall>b. pgrest_listener_worker_init b True (\<lambda>_. True) (\<lambda>_. True) [listener0 80 []] (pgrest_conn_worker_init 4) = Inl NullDeref"
  using worker_init_without_events [of 4] by simp

end
