(* ===== verification/Acceptor.thy ===== *)
theory Acceptor
  imports Conn ConfInv
begin

text \<open>
  Accepting connections, \<^verbatim>\<open>src/pg_rest_acceptor.c\<close>, and the event loop of a worker,
  \<^verbatim>\<open>src/pg_rest_worker.c\<close>. All workers share one spin lock; a worker keeps in
  \<open>mutex_held\<close> whether its listeners are enabled. The theory has the accept handler, the
  operations on the lock, the loop as a machine whose steps interleave between workers, and
  the exclusion theorem with its limits.
\<close>

section \<open>The state of a worker\<close>

text \<open>
  The position of a worker in \<^verbatim>\<open>pgrest_worker_event_dispatch\<close> and in the loop of \<^verbatim>\<open>pgrest_worker_main\<close>:
  \<open>Got\<close> is right after the lock was taken, \<open>Dispatch\<close> runs handlers after a call of
  \<open>pgrest_acceptor_trylock_mutex\<close>, \<open>LoopOnce\<close> runs handlers without one, \<open>Check\<close> tests the flags.
\<close>

datatype pc = Start | Got | Dispatch | LoopOnce | Check | Exit

record worker =
  wpc :: pc
  mutex_held :: bool
  acceptor_disabled :: int
  event_error :: bool
  ev_timer :: bool                   \<comment> \<open>the timer of the loop is pending\<close>
  acceptor_timer :: bool             \<comment> \<open>\<open>pgrest_acceptor_event_timer\<close> is pending\<close>
  wlisteners :: "pgrest_listener list"
  wpool :: conn_pool
  wclosed :: "nat list"              \<comment> \<open>the sockets closed so far\<close>

text \<open>
  What the operations read besides: the build, the settings, the answers of libevent for the
  events of connections (\<open>ev_ok\<close>) and for the timers, and the handler of a listener.
\<close>

record acceptor_env =
  abuild :: conf_build
  HAVE_ACCEPT4 :: bool
  use_mutex :: bool
  multi_accept :: bool
  noconn :: int
  ev_ok :: "nat \<Rightarrow> bool"
  timer_ok :: bool
  alib :: inet_lib
  on_accept :: "nat \<Rightarrow> conn_pool \<Rightarrow> conn_pool"

section \<open>The accept handler\<close>

text \<open>
  One answer of \<open>accept\<close>: a socket with the peer's address, together with the answers of the
  allocations and of \<open>evutil_make_socket_nonblocking\<close> that follow, or an error.
\<close>

record accepted =
  acc_fd :: nat
  acc_addr :: sockaddr
  acc_len :: nat
  pool_ok :: bool
  addr_ok :: bool
  nonblock_ok :: bool
  text_ok :: bool

datatype accept_result = Accepted accepted | AcceptFail errno

definition PGREST_TCP_NODELAY_DISABLED :: nat where "PGREST_TCP_NODELAY_DISABLED = 2"
definition PGREST_TCP_NOPUSH_DISABLED :: nat where "PGREST_TCP_NOPUSH_DISABLED = 2"

abbreviation upd_wconn :: "nat \<Rightarrow> (pgrest_connection \<Rightarrow> pgrest_connection) \<Rightarrow> worker \<Rightarrow> worker" where
  "upd_wconn i f w \<equiv> w\<lparr>wpool := upd_conn i f (wpool w)\<rparr>"

definition close_socket :: "nat option \<Rightarrow> worker \<Rightarrow> worker" where
  "close_socket s w = (case s of None \<Rightarrow> w | Some x \<Rightarrow> w\<lparr>wclosed := wclosed w @ [x]\<rparr>)"

text \<open>The pool of the connection is destroyed but stays recorded in it.\<close>

definition pgrest_acceptor_close_conn :: "nat \<Rightarrow> worker \<Rightarrow> worker" where
  "pgrest_acceptor_close_conn i w =
     (let w1 = w\<lparr>wpool := pgrest_conn_free i (wpool w)\<rparr> in
      close_socket (cfd (conns (wpool w1) ! i)) (upd_wconn i (cfd_update (\<lambda>_. None)) w1))"

text \<open>The handler after an accepted socket; the first component says whether it goes on to the end of the loop's body.\<close>

definition accept_conn :: "acceptor_env \<Rightarrow> nat \<Rightarrow> accepted \<Rightarrow> worker \<Rightarrow> bool \<times> worker" where
  "accept_conn env k a w =
     (let l = wlisteners w ! k;
          w1 = w\<lparr>acceptor_disabled := noconn env div 8 - free_noconn (wpool w)\<rparr> in
      case pgrest_conn_get (Some (acc_fd a)) (wpool w1) of
        (None, p) \<Rightarrow> (False, close_socket (Some (acc_fd a)) (w1\<lparr>wpool := p\<rparr>))
      | (Some i, p) \<Rightarrow>
          let w2 = upd_wconn i (\<lambda>c. c\<lparr>ctype := SOCK_STREAM, cpool := pool_ok a\<rparr>) (w1\<lparr>wpool := p\<rparr>) in
          if \<not> pool_ok a \<or> \<not> addr_ok a then (False, pgrest_acceptor_close_conn i w2)
          else
            let w3 = upd_wconn i (\<lambda>c. c\<lparr>csockaddr := Some (acc_addr a)\<rparr>) w2 in
            if \<not> nonblock_ok a then (False, pgrest_acceptor_close_conn i w3)
            else
              let w4 = upd_wconn i (\<lambda>c. c\<lparr>csocklen := acc_len a, clistener := Some k, local_sockaddr := Some (lsockaddr l), local_socklen := lsocklen l\<rparr>) w3;
                  w5 = (case acc_addr a of
                          AF_UNIX _ \<Rightarrow> upd_wconn i (\<lambda>c. c\<lparr>tcp_nopush := PGREST_TCP_NOPUSH_DISABLED, tcp_nodelay := PGREST_TCP_NODELAY_DISABLED\<rparr>) w4
                        | _ \<Rightarrow> w4) in
              if addr_ntop l \<and> \<not> text_ok a then (False, pgrest_acceptor_close_conn i w5)
              else
                let w6 = (if addr_ntop l then upd_wconn i (\<lambda>c. c\<lparr>caddr_text := pgrest_inet_ntop (alib env) (acc_addr a) (acc_len a \<le> 2) (addr_text_max_len l) False\<rparr>) w5 else w5) in
                (True, w6\<lparr>wpool := on_accept env i (wpool w6)\<rparr>))"

text \<open>
  The branch of \<open>EMFILE\<close> and \<open>ENFILE\<close>: it gives the lock back if \<open>pgrest_acceptor_mutex_held\<close> is
  set. The first component of the result says whether the lock was released.
\<close>

definition out_of_files :: "acceptor_env \<Rightarrow> worker \<Rightarrow> (bool \<times> worker) run" where
  "out_of_files env w =
     (case pgrest_listener_pause (abuild env) (ev_ok env) True (wlisteners w) (wpool w) of
        Inl e \<Rightarrow> Inl e
      | Inr (False, p) \<Rightarrow> Inr (False, w\<lparr>wpool := p, event_error := True\<rparr>)
      | Inr (True, p) \<Rightarrow>
          if use_mutex env then
            (if mutex_held w then Inr (True, w\<lparr>wpool := p, acceptor_disabled := 1, mutex_held := False\<rparr>)
             else Inr (False, w\<lparr>wpool := p, acceptor_disabled := 1\<rparr>))
          else if acceptor_timer w \<or> timer_ok env then Inr (False, w\<lparr>wpool := p, acceptor_timer := True\<rparr>)
          else Inr (False, w\<lparr>wpool := p, event_error := True\<rparr>))"

text \<open>
  The loop of \<^verbatim>\<open>pgrest_acceptor_accept_handler\<close> over the answers of \<open>accept\<close>; \<open>u4\<close> is the static
  \<open>use_accept4\<close>, and None says that the answers are used up. A \<open>continue\<close> tests the condition of
  the \<open>do\<close> loop, so that without \<open>multi_accept\<close> it ends the loop.
\<close>

fun accept_loop :: "acceptor_env \<Rightarrow> nat \<Rightarrow> bool \<Rightarrow> accept_result list \<Rightarrow> worker \<Rightarrow> (bool \<times> bool \<times> worker) run option" where
  "accept_loop env k u4 [] w = None"
| "accept_loop env k u4 (AcceptFail e # rs) w =
     (if ERR_RW_RETRIABLE e then Some (Inr (u4, False, w))
      else if HAVE_ACCEPT4 env \<and> u4 \<and> e = ENOSYS then
        (if multi_accept env then accept_loop env k False rs w else Some (Inr (False, False, w)))
      else if e = ECONNABORTED \<and> multi_accept env then accept_loop env k u4 rs w
      else if e = EMFILE \<or> e = ENFILE then Some (map_sum id (Pair u4) (out_of_files env w))
      else Some (Inr (u4, False, w)))"
| "accept_loop env k u4 (Accepted a # rs) w =
     (case accept_conn env k a w of
        (False, w') \<Rightarrow> Some (Inr (u4, False, w'))
      | (True, w') \<Rightarrow> if multi_accept env then accept_loop env k u4 rs w' else Some (Inr (u4, False, w')))"

definition pgrest_acceptor_accept_handler :: "acceptor_env \<Rightarrow> nat \<Rightarrow> bool \<Rightarrow> accept_result list \<Rightarrow> worker \<Rightarrow> (bool \<times> bool \<times> worker) run option" where
  "pgrest_acceptor_accept_handler env k u4 rs w =
     (case clistener (conns (wpool w) ! k) of
        None \<Rightarrow> Some (Inl NullDeref)
      | Some l \<Rightarrow> accept_loop env l u4 rs w)"

definition pgrest_acceptor_timer_handler :: "acceptor_env \<Rightarrow> worker \<Rightarrow> worker run" where
  "pgrest_acceptor_timer_handler env w =
     (case pgrest_listener_resume (ev_ok env) (wlisteners w) (wpool w) of
        Inl e \<Rightarrow> Inl e
      | Inr (r, p) \<Rightarrow> Inr (w\<lparr>acceptor_timer := False, wpool := p, event_error := event_error w \<or> \<not> r\<rparr>))"

section \<open>The lock\<close>

text \<open>
  \<^verbatim>\<open>pgrest_acceptor_trylock_mutex\<close> after the test-and-set succeeded (the middle component says
  whether the lock is released again) and after it failed.
\<close>

definition lock_taken :: "acceptor_env \<Rightarrow> worker \<Rightarrow> (bool \<times> bool \<times> worker) run" where
  "lock_taken env w =
     (if mutex_held w then Inr (True, False, w)
      else (case pgrest_listener_resume (ev_ok env) (wlisteners w) (wpool w) of
              Inl e \<Rightarrow> Inl e
            | Inr (False, p) \<Rightarrow> Inr (False, True, w\<lparr>wpool := p, event_error := True\<rparr>)
            | Inr (True, p) \<Rightarrow> Inr (True, False, w\<lparr>wpool := p, mutex_held := True\<rparr>)))"

definition lock_busy :: "acceptor_env \<Rightarrow> worker \<Rightarrow> (bool \<times> worker) run" where
  "lock_busy env w =
     (if mutex_held w then
        (case pgrest_listener_pause (abuild env) (ev_ok env) False (wlisteners w) (wpool w) of
           Inl e \<Rightarrow> Inl e
         | Inr (False, p) \<Rightarrow> Inr (False, w\<lparr>wpool := p, event_error := True\<rparr>)
         | Inr (True, p) \<Rightarrow> Inr (True, w\<lparr>wpool := p, mutex_held := False\<rparr>))
      else Inr (True, w))"

text \<open>The whole operation, for a worker alone.\<close>

definition pgrest_acceptor_trylock_mutex :: "acceptor_env \<Rightarrow> bool \<times> worker \<Rightarrow> (bool \<times> bool \<times> worker) run" where
  "pgrest_acceptor_trylock_mutex env s =
     (case s of (lock, w) \<Rightarrow>
        if \<not> lock then map_sum id (\<lambda>(r, released, w'). (r, \<not> released, w')) (lock_taken env w)
        else map_sum id (\<lambda>(r, w'). (r, lock, w')) (lock_busy env w))"

definition pgrest_acceptor_init :: "int \<Rightarrow> bool \<Rightarrow> bool" where
  "pgrest_acceptor_init processes mutex_setting \<longleftrightarrow> processes > 1 \<and> mutex_setting"

section \<open>The loop of a worker\<close>

text \<open>
  The actions of a worker with the mutex in use. Each has at most one access to the shared
  lock. \<open>Handle\<close> runs the accept handler of a connection, \<open>TimerFired\<close> the (empty) handler of
  the timer, \<open>Raise\<close> is an error raised by a handler, which \<open>PG_CATCH\<close> ends with a release of
  the lock. In \<open>Test\<close> the flag is \<open>pgrest_worker_terminate\<close>.
\<close>

datatype action = Skip | TryLock | Enter | Handle nat bool "accept_result list" | TimerFired | Raise | Finish | Test bool

text \<open>The second test of \<^verbatim>\<open>pgrest_worker_event_dispatch\<close>: without the lock the loop needs its timer.\<close>

definition to_dispatch :: "acceptor_env \<Rightarrow> bool \<Rightarrow> worker \<Rightarrow> worker" where
  "to_dispatch env r w =
     (if \<not> r then w\<lparr>wpc := Check\<rparr>
      else if mutex_held w then w\<lparr>wpc := Dispatch\<rparr>
      else if ev_timer w \<or> timer_ok env then w\<lparr>wpc := Dispatch, ev_timer := True\<rparr>
      else w\<lparr>wpc := Exit\<rparr>)"

fun act :: "acceptor_env \<Rightarrow> action \<Rightarrow> bool \<times> worker \<Rightarrow> (bool \<times> worker) option" where
  "act env Skip (lock, w) =
     (if wpc w = Start \<and> acceptor_disabled w > 0
      then Some (lock, w\<lparr>acceptor_disabled := acceptor_disabled w - 1, wpc := LoopOnce\<rparr>) else None)"
| "act env TryLock (lock, w) =
     (if wpc w = Start \<and> \<not> acceptor_disabled w > 0 then
        (if \<not> lock then Some (True, w\<lparr>wpc := Got\<rparr>)
         else (case lock_busy env w of Inl _ \<Rightarrow> None | Inr (r, w') \<Rightarrow> Some (lock, to_dispatch env r w')))
      else None)"
| "act env Enter (lock, w) =
     (if wpc w = Got then
        (case lock_taken env w of
           Inl _ \<Rightarrow> None
         | Inr (r, released, w') \<Rightarrow> Some (lock \<and> \<not> released, to_dispatch env r w'))
      else None)"
| "act env (Handle k u4 rs) (lock, w) =
     (if wpc w = Dispatch \<or> wpc w = LoopOnce then
        (case pgrest_acceptor_accept_handler env k u4 rs w of
           Some (Inr (_, released, w')) \<Rightarrow> Some (lock \<and> \<not> released, w')
         | _ \<Rightarrow> None)
      else None)"
| "act env TimerFired (lock, w) =
     (if (wpc w = Dispatch \<or> wpc w = LoopOnce) \<and> ev_timer w then Some (lock, w\<lparr>ev_timer := False\<rparr>) else None)"
| "act env Raise (lock, w) =
     (if wpc w = Dispatch \<or> wpc w = LoopOnce then Some (False, w\<lparr>wpc := Exit\<rparr>) else None)"
| "act env Finish (lock, w) =
     (if wpc w = Dispatch then
        (if mutex_held w then Some (False, w\<lparr>wpc := Check\<rparr>)
         else if ev_timer w \<and> \<not> timer_ok env then Some (lock, w\<lparr>wpc := Exit\<rparr>)
         else Some (lock, w\<lparr>ev_timer := False, wpc := Check\<rparr>))
      else if wpc w = LoopOnce then Some (lock, w\<lparr>wpc := Check\<rparr>)
      else None)"
| "act env (Test terminate) (lock, w) =
     (if wpc w = Check then Some (lock, w\<lparr>wpc := (if terminate \<or> event_error w then Exit else Start)\<rparr>) else None)"

section \<open>Interleaving\<close>

text \<open>
  All workers on one lock: a step picks a worker and one of its actions. \<open>allowed\<close> restricts the
  actions.
\<close>

inductive interleaved ::
  "('a \<Rightarrow> bool \<times> 'w \<Rightarrow> (bool \<times> 'w) option) \<Rightarrow> ('a \<Rightarrow> 'w \<Rightarrow> bool) \<Rightarrow> bool \<times> (nat \<Rightarrow> 'w) \<Rightarrow> bool \<times> (nat \<Rightarrow> 'w) \<Rightarrow> bool"
  for perform allowed s0 where
  start: "interleaved perform allowed s0 s0"
| step: "interleaved perform allowed s0 (lock, ws) \<Longrightarrow> allowed a (ws i) \<Longrightarrow> perform a (lock, ws i) = Some (lock', w') \<Longrightarrow>
    interleaved perform allowed s0 (lock', ws(i := w'))"

text \<open>
  The contract of a lock protocol: which states own the lock, and what an action of a worker
  does to the lock when it enters, keeps or leaves such a state.
\<close>

locale lock_protocol =
  fixes perform :: "'a \<Rightarrow> bool \<times> 'w \<Rightarrow> (bool \<times> 'w) option" and allowed :: "'a \<Rightarrow> 'w \<Rightarrow> bool" and owner :: "'w \<Rightarrow> bool"
  assumes acquire: "perform a (lock, w) = Some (lock', w') \<Longrightarrow> allowed a w \<Longrightarrow> \<not> owner w \<Longrightarrow> owner w' \<Longrightarrow> \<not> lock \<and> lock'"
    and outside: "perform a (lock, w) = Some (lock', w') \<Longrightarrow> allowed a w \<Longrightarrow> \<not> owner w \<Longrightarrow> \<not> owner w' \<Longrightarrow> lock' = lock"
    and keep: "perform a (lock, w) = Some (lock', w') \<Longrightarrow> allowed a w \<Longrightarrow> owner w \<Longrightarrow> owner w' \<Longrightarrow> lock' = lock"
    and release: "perform a (lock, w) = Some (lock', w') \<Longrightarrow> allowed a w \<Longrightarrow> owner w \<Longrightarrow> \<not> owner w' \<Longrightarrow> \<not> lock'"
begin

definition exclusive :: "bool \<Rightarrow> (nat \<Rightarrow> 'w) \<Rightarrow> bool" where
  "exclusive lock ws \<longleftrightarrow> (lock \<longleftrightarrow> (\<exists>i. owner (ws i))) \<and> (\<forall>i j. owner (ws i) \<and> owner (ws j) \<longrightarrow> i = j)"

lemma exclusive_step:
  assumes "exclusive lock ws" "allowed a (ws i)" "perform a (lock, ws i) = Some (lock', w')"
  shows "exclusive lock' (ws(i := w'))"
proof (cases "owner (ws i)")
  case True
  with assms(1) have only: "owner (ws j) \<longleftrightarrow> j = i" and "lock" for j unfolding exclusive_def by blast+
  with True keep [OF assms(3,2)] release [OF assms(3,2)] show ?thesis by (cases "owner w'") (auto simp: exclusive_def)
next
  case False
  show ?thesis
  proof (cases "owner w'")
    case True
    with acquire [OF assms(3,2) False] assms(1) show ?thesis by (auto simp: exclusive_def)
  next
    case w': False
    then have "owner ((ws(i := w')) j) \<longleftrightarrow> owner (ws j)" for j using False by simp
    with outside [OF assms(3,2) False w'] assms(1) show ?thesis by (auto simp: exclusive_def)
  qed
qed

theorem exclusion:
  assumes "interleaved perform allowed (False, ws0) (lock, ws)" "\<And>i. \<not> owner (ws0 i)"
  shows "exclusive lock ws"
proof -
  have "interleaved perform allowed (False, ws0) s \<Longrightarrow> exclusive (fst s) (snd s)" for s
  proof (induction rule: interleaved.induct)
    case start
    show ?case using assms(2) by (simp add: exclusive_def)
  next
    case (step lock ws a i lock' w')
    then show ?case using exclusive_step [of lock ws a i lock' w'] by (simp add: fun_upd_def)
  qed
  from this [OF assms(1)] show ?thesis by simp
qed

end

text \<open>
  A worker owns the lock from the test-and-set on, and while it runs handlers with
  \<open>mutex_held\<close> set. A run is regular if no worker that has \<open>mutex_held\<close> set without
  owning the lock runs out of descriptors, and no worker raises an error without owning the lock.
\<close>

definition owns :: "worker \<Rightarrow> bool" where
  "owns w \<longleftrightarrow> wpc w = Got \<or> wpc w = Dispatch \<and> mutex_held w"

fun regular :: "action \<Rightarrow> worker \<Rightarrow> bool" where
  "regular (Handle k u4 rs) w \<longleftrightarrow> (mutex_held w \<longrightarrow> owns w \<or> AcceptFail EMFILE \<notin> set rs \<and> AcceptFail ENFILE \<notin> set rs)"
| "regular Raise w \<longleftrightarrow> owns w"
| "regular _ w \<longleftrightarrow> True"

lemma close_socket_fields [simp]:
  "wpc (close_socket s w) = wpc w" "mutex_held (close_socket s w) = mutex_held w"
  "wpool (close_socket s w) = wpool w" "wlisteners (close_socket s w) = wlisteners w"
  by (simp_all add: close_socket_def split: option.split)

lemma close_conn_fields [simp]:
  "wpc (pgrest_acceptor_close_conn i w) = wpc w" "mutex_held (pgrest_acceptor_close_conn i w) = mutex_held w"
  by (simp_all add: pgrest_acceptor_close_conn_def Let_def)

lemma accept_conn_fields:
  "accept_conn env k a w = (r, w') \<Longrightarrow> wpc w' = wpc w \<and> mutex_held w' = mutex_held w"
  by (auto simp: accept_conn_def Let_def split: prod.splits option.splits if_splits sockaddr.splits)

lemma out_of_files_fields:
  "out_of_files env w = Inr (rel, w') \<Longrightarrow> wpc w' = wpc w \<and> (rel \<longrightarrow> mutex_held w) \<and> (mutex_held w' \<longleftrightarrow> mutex_held w \<and> \<not> rel)"
  by (auto simp: out_of_files_def split: sum.splits prod.splits bool.splits if_splits)

text \<open>The accept handler releases the lock exactly when it clears \<open>mutex_held\<close>, and only when out of descriptors.\<close>

lemma accept_loop_fields:
  assumes "accept_loop env k u4 rs w = Some (Inr (u4', rel, w'))"
  shows "wpc w' = wpc w \<and> (rel \<longrightarrow> mutex_held w \<and> (AcceptFail EMFILE \<in> set rs \<or> AcceptFail ENFILE \<in> set rs)) \<and> (mutex_held w' \<longleftrightarrow> mutex_held w \<and> \<not> rel)"
  using assms
proof (induction env k u4 rs w rule: accept_loop.induct)
  case (2 env k u4 e rs w)
  then show ?case
    by (auto simp: map_sum_def split: if_splits sum.splits dest: out_of_files_fields)
next
  case (3 env k u4 a rs w)
  then show ?case
    by (auto split: prod.splits bool.splits if_splits dest: accept_conn_fields)
qed simp

lemma handler_fields:
  assumes "pgrest_acceptor_accept_handler env k u4 rs w = Some (Inr (u4', rel, w'))"
  shows "wpc w' = wpc w" "rel \<Longrightarrow> mutex_held w \<and> (AcceptFail EMFILE \<in> set rs \<or> AcceptFail ENFILE \<in> set rs)"
    "mutex_held w' \<longleftrightarrow> mutex_held w \<and> \<not> rel"
  using assms by (auto simp: pgrest_acceptor_accept_handler_def split: option.splits dest: accept_loop_fields)

lemma to_dispatch_owns [simp]: "owns (to_dispatch env r w) \<longleftrightarrow> r \<and> mutex_held w"
  by (simp add: to_dispatch_def owns_def)

lemma lock_busy_held: "lock_busy env w = Inr (r, w') \<Longrightarrow> r \<Longrightarrow> \<not> mutex_held w'"
  by (auto simp: lock_busy_def split: sum.splits prod.splits bool.splits if_splits)

lemma lock_taken_held: "lock_taken env w = Inr (r, rel, w') \<Longrightarrow> rel = (\<not> r) \<and> (r \<longrightarrow> mutex_held w')"
  by (auto simp: lock_taken_def split: sum.splits prod.splits bool.splits if_splits)

text \<open>The effect of each action on ownership and on the lock.\<close>

lemma act_owns:
  assumes "act env a (lock, w) = Some (lock', w')" "regular a w"
  shows "(\<not> owns w \<and> owns w' \<longrightarrow> \<not> lock \<and> lock') \<and> (owns w = owns w' \<longrightarrow> lock' = lock) \<and> (owns w \<and> \<not> owns w' \<longrightarrow> \<not> lock')"
proof (cases a)
  case TryLock
  with assms show ?thesis
    by (auto simp: owns_def [of w] owns_def [of "w\<lparr>wpc := Got\<rparr>"] split: if_splits sum.splits dest: lock_busy_held)
next
  case Enter
  with assms show ?thesis by (auto simp: owns_def [of w] split: if_splits sum.splits dest!: lock_taken_held)
next
  case (Handle k u4 rs)
  with assms obtain u4' rel where h: "pgrest_acceptor_accept_handler env k u4 rs w = Some (Inr (u4', rel, w'))" "lock' = (lock \<and> \<not> rel)"
      "wpc w = Dispatch \<or> wpc w = LoopOnce"
    by (auto split: if_splits option.splits sum.splits)
  from handler_fields [OF h(1)] h(2,3) assms(2) Handle show ?thesis by (cases rel) (auto simp: owns_def)
qed (use assms in \<open>auto simp: owns_def split: if_splits\<close>)

interpretation accept_mutex: lock_protocol "act env" regular owns for env
  by unfold_locales (use act_owns in blast)+

text \<open>
  C3. Only one worker accepts at a time: in every regular interleaving of any number of workers, at
  most one worker owns the accept mutex, and the lock is taken exactly while some worker owns
  it, so it is never left locked.
\<close>

theorem accept_mutex_exclusive:
  assumes "interleaved (act env) regular (False, ws0) (lock, ws)" "\<forall>i. wpc (ws0 i) = Start"
  shows "(lock \<longleftrightarrow> (\<exists>i. owns (ws i))) \<and> (\<forall>i j. owns (ws i) \<and> owns (ws j) \<longrightarrow> i = j)"
  using accept_mutex.exclusion [OF assms(1)] assms(2) by (simp add: accept_mutex.exclusive_def owns_def)

text \<open>
  Concrete workers with one listener whose event is number 0, and a full pool.
\<close>

definition env1 :: acceptor_env where
  "env1 = \<lparr>abuild = build env0, HAVE_ACCEPT4 = True, use_mutex = True, multi_accept = False, noconn = 8, ev_ok = (\<lambda>_. True),
     timer_ok = True, alib = lib0, on_accept = (\<lambda>_ p. p)\<rparr>"

definition pool1 :: conn_pool where
  "pool1 = \<lparr>conns = [zero_conn\<lparr>rev_ev := Some 0, wev_ev := Some 1, clistener := Some 0\<rparr>], free_conns = None, free_noconn = 0,
     reuse_conns = [], pending = {}\<rparr>"

definition worker1 :: worker where
  "worker1 = \<lparr>wpc = Start, mutex_held = False, acceptor_disabled = 0, event_error = False, ev_timer = False, acceptor_timer = False,
     wlisteners = [(listener0 8080 [])\<lparr>connection := Some 0\<rparr>], wpool = pool1, wclosed = []\<rparr>"

definition peer1 :: accepted where
  "peer1 = \<lparr>acc_fd = 9, acc_addr = AF_INET 4000 1, acc_len = 16, pool_ok = True, addr_ok = True, nonblock_ok = True, text_ok = True\<rparr>"

fun run_actions :: "acceptor_env \<Rightarrow> (nat \<times> action) list \<Rightarrow> bool \<times> (nat \<Rightarrow> worker) \<Rightarrow> (bool \<times> (nat \<Rightarrow> worker)) option" where
  "run_actions env [] s = Some s"
| "run_actions env ((i, a) # as) (lock, ws) =
     (case act env a (lock, ws i) of None \<Rightarrow> None | Some (lock', w') \<Rightarrow> run_actions env as (lock', ws(i := w')))"

fun all_allowed :: "acceptor_env \<Rightarrow> (action \<Rightarrow> worker \<Rightarrow> bool) \<Rightarrow> (nat \<times> action) list \<Rightarrow> bool \<times> (nat \<Rightarrow> worker) \<Rightarrow> bool" where
  "all_allowed env allowed [] s \<longleftrightarrow> True"
| "all_allowed env allowed ((i, a) # as) (lock, ws) \<longleftrightarrow>
     allowed a (ws i) \<and> (case act env a (lock, ws i) of None \<Rightarrow> True | Some (lock', w') \<Rightarrow> all_allowed env allowed as (lock', ws(i := w')))"

lemma run_actions_interleaved:
  assumes "interleaved (act env) allowed s0 s" "all_allowed env allowed as s" "run_actions env as s = Some s'"
  shows "interleaved (act env) allowed s0 s'"
  using assms
proof (induction env as s rule: run_actions.induct)
  case (2 env i a as lock ws)
  from 2(4) obtain lock' w' where a: "act env a (lock, ws i) = Some (lock', w')" by (auto split: option.splits)
  with 2(3) have "allowed a (ws i)" by simp
  from interleaved.step [OF 2(2) this a] a 2(1,3,4) show ?case by simp
qed simp

lemmas acceptor_eval = env1_def worker1_def pool1_def peer1_def lock_taken_def lock_busy_def to_dispatch_def owns_def
  pgrest_acceptor_accept_handler_def accept_conn_def out_of_files_def close_socket_def ERR_RW_RETRIABLE_def
  pgrest_event_add_def pgrest_event_del_def pgrest_conn_get_def pgrest_conn_drain_def zero_conn_def listener0_def

text \<open>
  The first worker accepts with the lock, and the full pool sets \<open>acceptor_disabled\<close>. Back in the
  loop it skips the lock with \<open>mutex_held\<close> still set.
\<close>

definition accept_then_skip :: "(nat \<times> action) list" where
  "accept_then_skip = [(0, TryLock), (0, Enter), (0, Handle 0 True [Accepted peer1]), (0, Finish), (0, Test False), (0, Skip)]"

definition skipping :: worker where
  "skipping = worker1\<lparr>wpc := LoopOnce, mutex_held := True, wpool := pool1\<lparr>pending := {0}\<rparr>, wclosed := [9]\<rparr>"

definition skipping_ws :: "nat \<Rightarrow> worker" where
  "skipping_ws = (\<lambda>_. worker1)(0 := skipping)"

lemma accept_then_skip_run: "run_actions env1 accept_then_skip (False, \<lambda>_. worker1) = Some (False, skipping_ws)"
  by (simp add: skipping_ws_def accept_then_skip_def skipping_def acceptor_eval)

lemma accept_then_skip_regular: "all_allowed env1 regular accept_then_skip (False, \<lambda>_. worker1)"
  by (simp add: accept_then_skip_def acceptor_eval)

theorem accept_mutex_exclusive_witness:
  "interleaved (act env1) regular (False, \<lambda>_. worker1) (False, skipping_ws) \<and> \<not> (\<exists>i. owns (skipping_ws i))"
proof -
  have r: "interleaved (act env1) regular (False, \<lambda>_. worker1) (False, skipping_ws)"
    by (rule run_actions_interleaved [OF interleaved.start accept_then_skip_regular accept_then_skip_run])
  have "\<forall>i::nat. wpc worker1 = Start" by (simp add: worker1_def)
  from conjunct1 [OF accept_mutex_exclusive [OF r this]] have "\<not> (\<exists>i. owns (skipping_ws i))" by simp
  with r show ?thesis ..
qed


lemma free_list_upd [simp]: "i \<notin> set fl \<Longrightarrow> free_list n (p\<lparr>conns := (conns p)[i := c]\<rparr>) fl \<longleftrightarrow> free_list n p fl"
  by (simp add: free_list_def chain_update)

lemma conn_get_fd:
  assumes "free_list n p fl" "pgrest_conn_get s p = (Some i, p')"
  shows "\<exists>fl'. fl = i # fl' \<and> i \<notin> set fl' \<and> i < n \<and> free_list n p' fl' \<and> cfd (conns p' ! i) = s"
proof -
  from conn_get_Some [OF assms] obtain fl' where f: "fl = i # fl'" "free_list n p' fl'" by auto
  from assms(1) f(1) have "i < n" "i \<notin> set fl'" by (cases "free_conns p"; auto simp: free_list_def)+
  moreover from this(1) assms have "cfd (conns p' ! i) = s"
    using drain_keeps [OF assms(1)] by (auto simp: pgrest_conn_get_def Let_def free_list_def split: option.splits if_splits)
  ultimately show ?thesis using f by simp
qed

lemma close_conn_accounts:
  assumes "free_list n (wpool w) fl" "i \<notin> set fl" "i < n" "cfd (conns (wpool w) ! i) = Some s"
  shows "wclosed (pgrest_acceptor_close_conn i w) = wclosed w @ [s] \<and> free_list n (wpool (pgrest_acceptor_close_conn i w)) (i # fl)"
proof -
  have len: "i < length (conns (wpool w))" using assms(1,3) by (simp add: free_list_def)
  with assms(4) have "cfd (conns (pgrest_conn_free i (wpool w)) ! i) = Some s" by (simp add: pgrest_conn_free_def)
  moreover from len assms(1,2) have "free_list n (upd_conn i (cfd_update (\<lambda>_. None)) (pgrest_conn_free i (wpool w))) (i # fl)"
    by (simp add: pgrest_conn_free_def free_list_def chain_update)
  ultimately show ?thesis by (simp add: pgrest_acceptor_close_conn_def Let_def close_socket_def)
qed

text \<open>
  C36. Every accepted socket is accounted for: either the handler closes it and the free
  connections are the same as before, or the first free connection carries it into the handler of
  the listener.
\<close>

theorem accept_accounts:
  assumes "free_list n (wpool w) fl" "accept_conn env k a w = (r, w')"
  shows "(\<not> r \<and> wclosed w' = wclosed w @ [acc_fd a] \<and> free_list n (wpool w') fl) \<or>
    (r \<and> wclosed w' = wclosed w \<and> fl \<noteq> [] \<and>
      (\<exists>p. wpool w' = on_accept env (hd fl) p \<and> free_list n p (tl fl) \<and> cfd (conns p ! hd fl) = Some (acc_fd a)))"
proof (cases "pgrest_conn_get (Some (acc_fd a)) (wpool w)")
  case (Pair c p)
  show ?thesis
  proof (cases c)
    case None
    with Pair conn_get_None [OF assms(1)] assms(2) show ?thesis
      by (auto simp: accept_conn_def Let_def close_socket_def)
  next
    case (Some i)
    with Pair conn_get_fd [OF assms(1)] obtain fl' where
      fl: "fl = i # fl'" "i \<notin> set fl'" "i < n" "free_list n p fl'" "cfd (conns p ! i) = Some (acc_fd a)" by blast
    moreover from fl(3,4) have "i < length (conns p)" by (simp add: free_list_def)
    ultimately show ?thesis using Pair Some assms(2) 
      by (auto simp: accept_conn_def Let_def close_conn_accounts [where s = "acc_fd a" and fl = fl'] split: if_splits sockaddr.splits)
  qed
qed

theorem accept_accounts_witness:
  "wclosed (snd (accept_conn env1 0 peer1 worker1)) = [9] \<and> free_list 1 pool1 []"
proof -
  have f: "free_list 1 (wpool worker1) []" by (simp add: free_list_def worker1_def pool1_def)
  obtain r w' where a: "accept_conn env1 0 peer1 worker1 = (r, w')" by fastforce
  from accept_accounts [OF f a] f a show ?thesis by (simp add: worker1_def peer1_def)
qed

section \<open>Hooks\<close>

text \<open>
  \<^verbatim>\<open>pgrest_worker_hook_add\<close>, \<^verbatim>\<open>pgrest_worker_process_init\<close> (after the resource limits, whose
  failures are only reported) and \<^verbatim>\<open>pgrest_worker_process_exit\<close>. A hook acts on a state \<open>'s\<close>; None
  is a null pointer.
\<close>

record 's worker_hook =
  hook_name :: string
  startup :: "('s \<Rightarrow> bool \<times> 's) option"
  shutdown :: "('s \<Rightarrow> bool \<times> 's) option"

definition pgrest_worker_hook_add :: "'s worker_hook \<Rightarrow> bool \<Rightarrow> 's worker_hook list \<Rightarrow> 's worker_hook list" where
  "pgrest_worker_hook_add h head hooks = (if head then h # hooks else hooks @ [h])"

fun pgrest_worker_process_init :: "'s worker_hook list \<Rightarrow> 's \<Rightarrow> 's option" where
  "pgrest_worker_process_init [] s = Some s"
| "pgrest_worker_process_init (h # hs) s =
     (case startup h of
        None \<Rightarrow> pgrest_worker_process_init hs s
      | Some f \<Rightarrow> (case f s of (False, _) \<Rightarrow> None | (True, s') \<Rightarrow> pgrest_worker_process_init hs s'))"

fun pgrest_worker_process_exit :: "'s worker_hook list \<Rightarrow> 's \<Rightarrow> 's" where
  "pgrest_worker_process_exit [] s = s"
| "pgrest_worker_process_exit (h # hs) s =
     pgrest_worker_process_exit hs (case shutdown h of None \<Rightarrow> s | Some f \<Rightarrow> snd (f s))"

lemma process_init_append:
  "pgrest_worker_process_init (hs @ gs) s = Option.bind (pgrest_worker_process_init hs s) (pgrest_worker_process_init gs)"
  by (induction hs s rule: pgrest_worker_process_init.induct) (auto split: option.splits prod.splits bool.splits)

end
