(* ===== verification/HttpParser.thy ===== *)
theory HttpParser
  imports Chunked
begin

text \<open>
  The parser of request heads (and of response heads and header blocks) of
  \<^verbatim>\<open>picohttpparser/picohttpparser.c\<close>. A pointer into the input is the list of the bytes from it
  up to \<open>buf_end\<close>; a read of an empty list is \<open>OutOfBounds\<close>. The flag \<open>sse\<close> chooses the code
  compiled under \<open>__SSE4_2__\<close>, which skips blocks of 16 bytes; both variants are shown equal to
  byte-by-byte scanners. Then: no read outside the input, a result once given is not changed by
  more input, printed requests are parsed back, and the test for a complete head is harmless.
\<close>

section \<open>Results\<close>

text \<open>A parser returns a value and the rest of the input, or \<open>ret\<close>: -1 for an error and -2 for incomplete input.\<close>

datatype 'a presult = POk 'a "byte list" | PFail int

abbreviation Incomplete :: "'a presult run" where "Incomplete \<equiv> Inr (PFail (-2))"
abbreviation Bad :: "'a presult run" where "Bad \<equiv> Inr (PFail (-1))"

fun bind_parse :: "'a presult run \<Rightarrow> ('a \<Rightarrow> byte list \<Rightarrow> 'b presult run) \<Rightarrow> 'b presult run" where
  "bind_parse (Inl e) k = Inl e"
| "bind_parse (Inr (PFail r)) k = Inr (PFail r)"
| "bind_parse (Inr (POk a b)) k = k a b"

definition map_parse :: "('a \<Rightarrow> 'b) \<Rightarrow> 'a presult run \<Rightarrow> 'b presult run" where
  "map_parse f r = bind_parse r (\<lambda>a b. Inr (POk (f a) b))"

definition expect_char :: "char \<Rightarrow> byte list \<Rightarrow> unit presult run" where
  "expect_char ch buf = (case buf of [] \<Rightarrow> Incomplete | c # cs \<Rightarrow> if c = ch then Inr (POk () cs) else Bad)"

section \<open>Scanning\<close>

text \<open>\<open>IS_PRINTABLE_ASCII\<close>, the control characters that end a value, and those that end a token.\<close>

definition IS_PRINTABLE_ASCII :: "char \<Rightarrow> bool" where
  "IS_PRINTABLE_ASCII c \<longleftrightarrow> 32 \<le> code c \<and> code c < 127"

definition eol_ctl :: "char \<Rightarrow> bool" where
  "eol_ctl c \<longleftrightarrow> \<not> IS_PRINTABLE_ASCII c \<and> (code c < 32 \<and> code c \<noteq> 9 \<or> code c = 127)"

definition token_ctl :: "char \<Rightarrow> bool" where
  "token_ctl c \<longleftrightarrow> \<not> IS_PRINTABLE_ASCII c \<and> (code c < 32 \<or> code c = 127)"

definition token_char_map :: "nat list" where
  "token_char_map = replicate 32 0 @
     [0,1,0,1,1,1,1,1,0,0,1,1,0,1,1,0,1,1,1,1,1,1,1,1,1,1,0,0,0,0,0,0] @
     [0,1,1,1,1,1,1,1,1,1,1,1,1,1,1,1,1,1,1,1,1,1,1,1,1,1,1,0,0,0,1,1] @
     [1,1,1,1,1,1,1,1,1,1,1,1,1,1,1,1,1,1,1,1,1,1,1,1,1,1,1,0,1,0,1,0] @ replicate 128 0"

definition token_char :: "char \<Rightarrow> bool" where
  "token_char c \<longleftrightarrow> token_char_map ! code c \<noteq> 0"

definition in_ranges :: "(nat \<times> nat) list \<Rightarrow> char \<Rightarrow> bool" where
  "in_ranges rs c \<longleftrightarrow> list_ex (\<lambda>(lo, hi). lo \<le> code c \<and> code c \<le> hi) rs"

text \<open>
  \<^verbatim>\<open>findchar_fast\<close> returns the bytes skipped, the rest, and \<open>found\<close>. \<open>_mm_cmpestri\<close> with
  \<open>_SIDD_CMP_RANGES\<close> gives the position of the first of 16 bytes inside a range, or 16.
\<close>

function findchar_blocks :: "(nat \<times> nat) list \<Rightarrow> byte list \<Rightarrow> byte list \<times> byte list \<times> bool" where
  "findchar_blocks rs buf =
     (if length buf < 16 then ([], buf, False)
      else
        let r = length (takeWhile (\<lambda>c. \<not> in_ranges rs c) (take 16 buf)) in
        if r \<noteq> 16 then (take r buf, drop r buf, True)
        else (case findchar_blocks rs (drop 16 buf) of (s, b, f) \<Rightarrow> (take 16 buf @ s, b, f)))"
  by auto
termination by (relation "measure (length \<circ> snd)") auto

declare findchar_blocks.simps [simp del]

definition findchar_fast :: "bool \<Rightarrow> (nat \<times> nat) list \<Rightarrow> byte list \<Rightarrow> byte list \<times> byte list \<times> bool" where
  "findchar_fast sse rs buf = (if sse then findchar_blocks rs buf else ([], buf, False))"

definition ranges2 :: "(nat \<times> nat) list" where "ranges2 = [(0, 32), (127, 127)]"
definition eol_ranges :: "(nat \<times> nat) list" where "eol_ranges = [(0, 8), (10, 31), (127, 127)]"
definition name_ranges :: "(nat \<times> nat) list" where
  "name_ranges = [(0, 32), (34, 34), (40, 41), (44, 44), (47, 47), (58, 64), (91, 93), (123, 255)]"

text \<open>\<open>ADVANCE_TOKEN\<close>\<close>

fun token_loop :: "byte list \<Rightarrow> string presult run" where
  "token_loop [] = Inl OutOfBounds"
| "token_loop (c # cs) =
     (if c = CHR '' '' then Inr (POk [] (c # cs))
      else if token_ctl c then Bad
      else if cs = [] then Incomplete
      else map_parse ((#) c) (token_loop cs))"

definition advance_token :: "bool \<Rightarrow> byte list \<Rightarrow> string presult run" where
  "advance_token sse buf =
     (case findchar_fast sse ranges2 buf of
        (s, b, found) \<Rightarrow> if \<not> found \<and> b = [] then Incomplete else map_parse ((@) s) (token_loop b))"

text \<open>\<open>++buf\<close> behind a byte that has been read.\<close>

definition next_byte :: "byte list \<Rightarrow> byte list run" where
  "next_byte buf = (case buf of [] \<Rightarrow> Inl OutOfBounds | _ # cs \<Rightarrow> Inr cs)"

text \<open>\<^verbatim>\<open>get_token_to_eol\<close>: the unrolled loop, the last loop and the label \<open>FOUND_CTL\<close>.\<close>

function eol_unrolled :: "byte list \<Rightarrow> byte list \<times> byte list \<times> bool" where
  "eol_unrolled buf =
     (if length buf < 8 then ([], buf, False)
      else
        let r = length (takeWhile IS_PRINTABLE_ASCII (take 8 buf)) in
        if r = 8 then (case eol_unrolled (drop 8 buf) of (s, b, f) \<Rightarrow> (take 8 buf @ s, b, f))
        else if eol_ctl (buf ! r) then (take r buf, drop r buf, True)
        else (case eol_unrolled (drop (r + 1) buf) of (s, b, f) \<Rightarrow> (take (r + 1) buf @ s, b, f)))"
  by auto
termination by (relation "measure length") auto

declare eol_unrolled.simps [simp del]

definition found_ctl :: "string \<Rightarrow> byte list \<Rightarrow> string presult run" where
  "found_ctl tok buf =
     (case buf of
        [] \<Rightarrow> Inl OutOfBounds
      | c # cs \<Rightarrow>
          if c = CR then bind_parse (expect_char LF cs) (\<lambda>_ b. Inr (POk tok b))
          else if c = LF then Inr (POk tok cs)
          else Bad)"

fun eol_loop :: "byte list \<Rightarrow> string presult run" where
  "eol_loop [] = Incomplete"
| "eol_loop (c # cs) = (if eol_ctl c then found_ctl [] (c # cs) else map_parse ((#) c) (eol_loop cs))"

definition get_token_to_eol :: "bool \<Rightarrow> byte list \<Rightarrow> string presult run" where
  "get_token_to_eol sse buf =
     (case (if sse then findchar_fast sse eol_ranges buf else eol_unrolled buf) of
        (s, b, found) \<Rightarrow> if found then found_ctl s b else map_parse ((@) s) (eol_loop b))"

text \<open>
  \<^verbatim>\<open>is_complete\<close>; the loop returns the rest of the input. The test of the count is at the
  end of each round.
\<close>

fun complete_loop :: "nat \<Rightarrow> byte list \<Rightarrow> unit presult run" where
  "complete_loop n [] = Incomplete"
| "complete_loop n (c # cs) =
     (if c = CR then
        (case cs of
           [] \<Rightarrow> Incomplete
         | d # ds \<Rightarrow> if d = LF then (if n + 1 = 2 then Inr (POk () ds) else complete_loop (n + 1) ds) else Bad)
      else if c = LF then (if n + 1 = 2 then Inr (POk () cs) else complete_loop (n + 1) cs)
      else complete_loop 0 cs)"

definition is_complete :: "byte list \<Rightarrow> nat \<Rightarrow> unit presult run" where
  "is_complete buf last_len =
     (if last_len < 3 then complete_loop 0 buf
      else if last_len - 3 > length buf then Inl OutOfBounds
      else complete_loop 0 (drop (last_len - 3) buf))"

section \<open>Numbers and the version\<close>

text \<open>The digits are added up in an \<open>int\<close>: \<open>v * 10 + *buf - '0'\<close>, with the signed overflow made explicit.\<close>

fun int_loop :: "int \<Rightarrow> byte list \<Rightarrow> int presult run" where
  "int_loop v [] = Incomplete"
| "int_loop v (c # cs) =
     (if is_digit c then
        (if v * 10 + int (code c) > 2147483647 then Inl IntOverflow else int_loop (v * 10 + int (code c) - 48) cs)
      else Inr (POk v (c # cs)))"

definition parse_int :: "byte list \<Rightarrow> int presult run" where
  "parse_int buf = (case buf of [] \<Rightarrow> Incomplete | c # cs \<Rightarrow> if \<not> is_digit c then Bad else int_loop 0 buf)"

fun expect_all :: "string \<Rightarrow> byte list \<Rightarrow> unit presult run" where
  "expect_all [] buf = Inr (POk () buf)"
| "expect_all (ch # chs) buf = bind_parse (expect_char ch buf) (\<lambda>_ b. expect_all chs b)"

definition parse_http_version :: "byte list \<Rightarrow> int presult run" where
  "parse_http_version buf = bind_parse (expect_all ''HTTP/1.'' buf) (\<lambda>_ b. parse_int b)"

section \<open>Headers\<close>

text \<open>\<open>hname\<close> is None for a continuation line.\<close>

record phr_header =
  hname :: "string option"
  hvalue :: string

fun name_loop :: "byte list \<Rightarrow> string presult run" where
  "name_loop [] = Inl OutOfBounds"
| "name_loop (c # cs) =
     (if c = CHR '':'' then Inr (POk [] (c # cs))
      else if \<not> token_char c then Bad
      else if cs = [] then Incomplete
      else map_parse ((#) c) (name_loop cs))"

definition header_name :: "bool \<Rightarrow> byte list \<Rightarrow> string presult run" where
  "header_name sse buf =
     (case findchar_fast sse name_ranges buf of
        (s, b, found) \<Rightarrow> if \<not> found \<and> b = [] then Incomplete else map_parse ((@) s) (name_loop b))"

abbreviation is_blank :: "char \<Rightarrow> bool" where
  "is_blank c \<equiv> c = CHR '' '' \<or> c = CHR 0x09"

fun skip_blanks :: "byte list \<Rightarrow> unit presult run" where
  "skip_blanks [] = Incomplete"
| "skip_blanks (c # cs) = (if is_blank c then skip_blanks cs else Inr (POk () (c # cs)))"

text \<open>One header, the \<open>n\<close>-th.\<close>

definition parse_header :: "bool \<Rightarrow> nat \<Rightarrow> byte list \<Rightarrow> phr_header presult run" where
  "parse_header sse n buf =
     (case buf of
        [] \<Rightarrow> Inl OutOfBounds
      | c # _ \<Rightarrow>
          if \<not> (n \<noteq> 0 \<and> is_blank c) then
            bind_parse (header_name sse buf) (\<lambda>name b.
              if name = [] then Bad
              else (case next_byte b of
                      Inl e \<Rightarrow> Inl e
                    | Inr b1 \<Rightarrow> bind_parse (skip_blanks b1) (\<lambda>_ b2.
                        map_parse (\<lambda>v. \<lparr>hname = Some name, hvalue = v\<rparr>) (get_token_to_eol sse b2))))
          else map_parse (\<lambda>v. \<lparr>hname = None, hvalue = v\<rparr>) (get_token_to_eol sse buf))"

text \<open>\<open>n\<close> is \<open>*num_headers\<close> and \<open>left\<close> is \<open>max_headers - *num_headers\<close>; the first result is \<open>*num_headers\<close> at the end.\<close>

fun parse_headers :: "bool \<Rightarrow> nat \<Rightarrow> nat \<Rightarrow> byte list \<Rightarrow> nat \<times> phr_header list presult run" where
  "parse_headers sse n left [] = (n, Incomplete)"
| "parse_headers sse n left (c # cs) =
     (if c = CR then (n, bind_parse (expect_char LF cs) (\<lambda>_ b. Inr (POk [] b)))
      else if c = LF then (n, Inr (POk [] cs))
      else (case left of
              0 \<Rightarrow> (n, Bad)
            | Suc left' \<Rightarrow>
                (case parse_header sse n (c # cs) of
                   Inl e \<Rightarrow> (n, Inl e)
                 | Inr (PFail r) \<Rightarrow> (n, Inr (PFail r))
                 | Inr (POk h b) \<Rightarrow>
                     (case parse_headers sse (n + 1) left' b of (n', r) \<Rightarrow> (n', map_parse ((#) h) r)))))"

section \<open>Requests and responses\<close>

record phr_request =
  pmethod :: string
  ppath :: string
  pminor :: int
  pheaders :: "phr_header list"

definition skip_empty_line :: "byte list \<Rightarrow> unit presult run" where
  "skip_empty_line buf =
     (case buf of
        [] \<Rightarrow> Incomplete
      | c # cs \<Rightarrow> if c = CR then expect_char LF cs else if c = LF then Inr (POk () cs) else Inr (POk () buf))"

definition line_end :: "byte list \<Rightarrow> unit presult run" where
  "line_end buf =
     (case buf of
        [] \<Rightarrow> Inl OutOfBounds
      | c # cs \<Rightarrow> if c = CR then expect_char LF cs else if c = LF then Inr (POk () cs) else Bad)"

text \<open>The request line, up to and with its end.\<close>

definition request_line :: "bool \<Rightarrow> byte list \<Rightarrow> (string \<times> string \<times> int) presult run" where
  "request_line sse buf =
     bind_parse (skip_empty_line buf) (\<lambda>_ b.
     bind_parse (advance_token sse b) (\<lambda>meth b.
     case next_byte b of Inl e \<Rightarrow> Inl e | Inr b \<Rightarrow>
     bind_parse (advance_token sse b) (\<lambda>path b.
     case next_byte b of Inl e \<Rightarrow> Inl e | Inr b \<Rightarrow>
     bind_parse (parse_http_version b) (\<lambda>minor b.
     bind_parse (line_end b) (\<lambda>_ b. Inr (POk (meth, path, minor) b))))))"

definition parse_request :: "bool \<Rightarrow> nat \<Rightarrow> byte list \<Rightarrow> nat \<times> phr_request presult run" where
  "parse_request sse max_headers buf =
     (case request_line sse buf of
        Inl e \<Rightarrow> (0, Inl e)
      | Inr (PFail r) \<Rightarrow> (0, Inr (PFail r))
      | Inr (POk (meth, path, minor) b) \<Rightarrow>
          (case parse_headers sse 0 max_headers b of
             (n, r) \<Rightarrow> (n, map_parse (\<lambda>hs. \<lparr>pmethod = meth, ppath = path, pminor = minor, pheaders = hs\<rparr>) r)))"

text \<open>
  \<^verbatim>\<open>phr_parse_request\<close> returns \<open>*num_headers\<close>, the return value, and what was parsed if the
  return value is not negative.
\<close>

definition guarded :: "byte list \<Rightarrow> nat \<Rightarrow> (byte list \<Rightarrow> nat \<times> 'a presult run) \<Rightarrow> (nat \<times> int \<times> 'a option) run" where
  "guarded buf last_len p =
     (case (if last_len \<noteq> 0 then is_complete buf last_len else Inr (POk () [])) of
        Inl e \<Rightarrow> Inl e
      | Inr (PFail r) \<Rightarrow> Inr (0, r, None)
      | Inr (POk _ _) \<Rightarrow>
          (case p buf of
             (n, Inl e) \<Rightarrow> Inl e
           | (n, Inr (PFail r)) \<Rightarrow> Inr (n, r, None)
           | (n, Inr (POk a b)) \<Rightarrow> Inr (n, int (length buf - length b), Some a)))"

definition phr_parse_request :: "bool \<Rightarrow> byte list \<Rightarrow> nat \<Rightarrow> nat \<Rightarrow> (nat \<times> int \<times> phr_request option) run" where
  "phr_parse_request sse buf max_headers last_len = guarded buf last_len (parse_request sse max_headers)"

record phr_response =
  rminor :: int
  rstatus :: int
  rmsg :: string
  rheaders :: "phr_header list"

text \<open>\<open>*buf++ != ' '\<close>, without a test for the end.\<close>

definition skip_space :: "byte list \<Rightarrow> unit presult run" where
  "skip_space buf = (case buf of [] \<Rightarrow> Inl OutOfBounds | c # cs \<Rightarrow> if c = CHR '' '' then Inr (POk () cs) else Bad)"

definition status_line :: "bool \<Rightarrow> byte list \<Rightarrow> (int \<times> int \<times> string) presult run" where
  "status_line sse buf =
     bind_parse (parse_http_version buf) (\<lambda>minor b.
     bind_parse (skip_space b) (\<lambda>_ b.
     bind_parse (parse_int b) (\<lambda>status b.
     bind_parse (skip_space b) (\<lambda>_ b.
     map_parse (\<lambda>msg. (minor, status, msg)) (get_token_to_eol sse b)))))"

definition parse_response :: "bool \<Rightarrow> nat \<Rightarrow> byte list \<Rightarrow> nat \<times> phr_response presult run" where
  "parse_response sse max_headers buf =
     (case status_line sse buf of
        Inl e \<Rightarrow> (0, Inl e)
      | Inr (PFail r) \<Rightarrow> (0, Inr (PFail r))
      | Inr (POk (minor, status, msg) b) \<Rightarrow>
          (case parse_headers sse 0 max_headers b of
             (n, r) \<Rightarrow> (n, map_parse (\<lambda>hs. \<lparr>rminor = minor, rstatus = status, rmsg = msg, rheaders = hs\<rparr>) r)))"

definition phr_parse_response :: "bool \<Rightarrow> byte list \<Rightarrow> nat \<Rightarrow> nat \<Rightarrow> (nat \<times> int \<times> phr_response option) run" where
  "phr_parse_response sse buf max_headers last_len = guarded buf last_len (parse_response sse max_headers)"

definition phr_parse_headers :: "bool \<Rightarrow> byte list \<Rightarrow> nat \<Rightarrow> nat \<Rightarrow> (nat \<times> int \<times> phr_header list option) run" where
  "phr_parse_headers sse buf max_headers last_len = guarded buf last_len (parse_headers sse 0 max_headers)"

section \<open>Both variants scan alike\<close>

lemma findchar_blocks_spec:
  "findchar_blocks rs buf = (s, b, f) \<Longrightarrow> buf = s @ b \<and> (\<forall>c\<in>set s. \<not> in_ranges rs c) \<and> (f \<longrightarrow> b \<noteq> [] \<and> in_ranges rs (hd b))"
proof (induction rs buf arbitrary: s b f rule: findchar_blocks.induct)
  case (1 rs buf)
  let ?w = "takeWhile (\<lambda>c. \<not> in_ranges rs c) (take 16 buf)"
  show ?case
  proof (cases "length buf < 16")
    case True
    with "1.prems" show ?thesis by (auto simp: findchar_blocks.simps [of rs buf])
  next
    case long: False
    then have t: "length (take 16 buf) = 16" by simp
    show ?thesis
    proof (cases "length ?w = 16")
      case True
      with t have w: "?w = take 16 buf" by (metis takeWhile_eq_take take_all order_refl)
      obtain s' b' f' where r: "findchar_blocks rs (drop 16 buf) = (s', b', f')" by (metis prod_cases3)
      from "1.IH" [OF long refl _ r] True have ih: "drop 16 buf = s' @ b'" "\<forall>c\<in>set s'. \<not> in_ranges rs c"
        "f' \<longrightarrow> b' \<noteq> [] \<and> in_ranges rs (hd b')" by auto
      from "1.prems" long True r have "s = take 16 buf @ s'" "b = b'" "f = f'" by (auto simp: findchar_blocks.simps [of rs buf] Let_def)
      moreover have "\<forall>c\<in>set (take 16 buf). \<not> in_ranges rs c" by (metis w set_takeWhileD)
      ultimately show ?thesis using ih append_take_drop_id [of 16 buf] by auto
    next
      case False
      let ?r = "length ?w"
      from False t have lt: "?r < 16" by (metis length_takeWhile_le le_neq_implies_less)
      with "1.prems" long False have sb: "s = take ?r buf" "b = drop ?r buf" "f" by (auto simp: findchar_blocks.simps [of rs buf] Let_def)
      from lt have "take ?r buf = ?w" by (metis takeWhile_eq_take take_take min.absorb1 less_imp_le)
      with sb(1) have w: "\<forall>c\<in>set s. \<not> in_ranges rs c" by (metis set_takeWhileD)
      from lt t have i: "in_ranges rs (take 16 buf ! ?r)" using nth_length_takeWhile [of "\<lambda>c. \<not> in_ranges rs c" "take 16 buf"] by simp
      from lt long have "hd (drop ?r buf) = take 16 buf ! ?r" "drop ?r buf \<noteq> []" by (simp_all add: hd_drop_conv_nth)
      with i sb(2) have "b \<noteq> [] \<and> in_ranges rs (hd b)" by simp
      moreover from sb have "buf = s @ b" by simp
      ultimately show ?thesis using w by blast
    qed
  qed
qed

lemma findchar_fast_spec:
  "findchar_fast sse rs buf = (s, b, f) \<Longrightarrow> buf = s @ b \<and> (\<forall>c\<in>set s. \<not> in_ranges rs c) \<and> (f \<longrightarrow> b \<noteq> [] \<and> in_ranges rs (hd b))"
  by (auto simp: findchar_fast_def dest: findchar_blocks_spec split: if_splits)

lemma map_parse_simps [simp]:
  "map_parse f (Inl e) = Inl e" "map_parse f (Inr (PFail r)) = Inr (PFail r)" "map_parse f (Inr (POk a b)) = Inr (POk (f a) b)"
  by (simp_all add: map_parse_def)

lemma parse_run_cases [case_names ub fail ok]:
  obtains e where "r = Inl e" | i where "r = Inr (PFail i)" | a b where "r = Inr (POk a b)"
  by (cases r) (metis presult.exhaust)+

lemma map_parse_map [simp]: "map_parse f (map_parse g r) = map_parse (f \<circ> g) r"
  by (cases r rule: parse_run_cases) auto

lemma map_parse_id [simp]: "map_parse (\<lambda>x. x) r = r" "map_parse id r = r" "map_parse ((@) []) r = r"
  by (cases r rule: parse_run_cases; simp)+

lemma token_loop_prefix:
  "\<forall>c\<in>set s. c \<noteq> CHR '' '' \<and> \<not> token_ctl c \<Longrightarrow> b \<noteq> [] \<Longrightarrow> token_loop (s @ b) = map_parse ((@) s) (token_loop b)"
proof (induction s)
  case (Cons a s)
  then have "token_loop (a # s @ b) = map_parse ((#) a) (map_parse ((@) s) (token_loop b))" by simp
  then show ?case by (simp add: comp_def)
qed simp

lemma token_loop_all: "\<forall>c\<in>set s. c \<noteq> CHR '' '' \<and> \<not> token_ctl c \<Longrightarrow> s \<noteq> [] \<Longrightarrow> token_loop s = Incomplete"
  by (induction s) auto

text \<open>The byte-by-byte reading of \<open>ADVANCE_TOKEN\<close>.\<close>

definition token_scan :: "byte list \<Rightarrow> string presult run" where
  "token_scan buf = (if buf = [] then Incomplete else token_loop buf)"

lemma advance_token_eq: "advance_token sse buf = token_scan buf"
proof -
  obtain s b f where f: "findchar_fast sse ranges2 buf = (s, b, f)" by (metis prod_cases3)
  from findchar_fast_spec [OF this] have d: "buf = s @ b" "\<forall>c\<in>set s. \<not> in_ranges ranges2 c" "f \<longrightarrow> b \<noteq> []" by auto
  from d(2) have "\<forall>c\<in>set s. c \<noteq> CHR '' '' \<and> \<not> token_ctl c"
    by (auto simp: in_ranges_def ranges2_def token_ctl_def IS_PRINTABLE_ASCII_def)
  with d f show ?thesis
    by (cases "b = []") (auto simp: advance_token_def token_scan_def token_loop_prefix token_loop_all)
qed

text \<open>\<^verbatim>\<open>get_token_to_eol\<close> is the scan for the first control character.\<close>

lemma eol_unrolled_spec:
  "eol_unrolled buf = (s, b, f) \<Longrightarrow> buf = s @ b \<and> (\<forall>c\<in>set s. \<not> eol_ctl c) \<and> (f \<longrightarrow> b \<noteq> [] \<and> eol_ctl (hd b))"
proof (induction buf arbitrary: s b f rule: eol_unrolled.induct)
  case (1 buf)
  let ?w = "takeWhile IS_PRINTABLE_ASCII (take 8 buf)"
  let ?r = "length ?w"
  show ?case
  proof (cases "length buf < 8")
    case True
    with "1.prems" show ?thesis by (auto simp: eol_unrolled.simps [of buf])
  next
    case long: False
    have le: "?r \<le> 8" by (rule order_trans [OF length_takeWhile_le]) simp
    then have w: "take ?r buf = ?w" by (metis takeWhile_eq_take take_take min.absorb1)
    have pr: "\<not> eol_ctl c" if "c \<in> set ?w" for c using that by (auto simp: eol_ctl_def dest: set_takeWhileD)
    have step: "buf = (take k buf @ s') @ b' \<and> (\<forall>c\<in>set (take k buf @ s'). \<not> eol_ctl c)"
      if "drop k buf = s' @ b'" "\<forall>c\<in>set s'. \<not> eol_ctl c" "\<forall>c\<in>set (take k buf). \<not> eol_ctl c" for k s' b'
      using that append_take_drop_id [of k buf] by auto
    consider "?r = 8" | "?r < 8" "eol_ctl (buf ! ?r)" | "?r < 8" "\<not> eol_ctl (buf ! ?r)" using le by linarith
    then show ?thesis
    proof cases
      case 1
      obtain s' b' f' where r: "eol_unrolled (drop 8 buf) = (s', b', f')" by (metis prod_cases3)
      from "1.IH"(1) [OF long refl 1 r] have ih: "drop 8 buf = s' @ b'" "\<forall>c\<in>set s'. \<not> eol_ctl c" "f' \<longrightarrow> b' \<noteq> [] \<and> eol_ctl (hd b')" by auto
      from "1.prems" long 1 r have "s = take 8 buf @ s'" "b = b'" "f = f'" by (auto simp: eol_unrolled.simps [of buf] Let_def)
      with step [OF ih(1,2)] ih(3) w pr 1 show ?thesis by auto
    next
      case 2
      with "1.prems" long have sb: "s = take ?r buf" "b = drop ?r buf" "f" by (auto simp: eol_unrolled.simps [of buf] Let_def)
      from 2 long have "hd (drop ?r buf) = buf ! ?r" "drop ?r buf \<noteq> []" by (simp_all add: hd_drop_conv_nth)
      with 2 sb(2) have "b \<noteq> [] \<and> eol_ctl (hd b)" by simp
      moreover from sb have "buf = s @ b" by simp
      moreover from sb(1) w pr have "\<forall>c\<in>set s. \<not> eol_ctl c" by simp
      ultimately show ?thesis by blast
    next
      case 3
      obtain s' b' f' where r: "eol_unrolled (drop (?r + 1) buf) = (s', b', f')" by (metis prod_cases3)
      from "1.IH"(2) [OF long refl _ 3(2) r] 3(1) have ih: "drop (?r + 1) buf = s' @ b'" "\<forall>c\<in>set s'. \<not> eol_ctl c" "f' \<longrightarrow> b' \<noteq> [] \<and> eol_ctl (hd b')" by auto
      from "1.prems" long 3 r have "s = take (?r + 1) buf @ s'" "b = b'" "f = f'" by (auto simp: eol_unrolled.simps [of buf] Let_def)
      moreover have "\<forall>c\<in>set (take (?r + 1) buf). \<not> eol_ctl c"
        using 3 long w pr take_Suc_snoc [of ?r buf] by auto
      ultimately show ?thesis using step [OF ih(1,2)] ih(3) by blast
    qed
  qed
qed

lemma eol_loop_prefix: "\<forall>c\<in>set s. \<not> eol_ctl c \<Longrightarrow> eol_loop (s @ b) = map_parse ((@) s) (eol_loop b)"
proof (induction s)
  case (Cons a s)
  then have "eol_loop (a # s @ b) = map_parse ((#) a) (map_parse ((@) s) (eol_loop b))" by simp
  then show ?case by (simp add: comp_def)
qed simp

lemma found_ctl_map: "found_ctl s b = map_parse ((@) s) (found_ctl [] b)"
  by (cases b) (auto simp: found_ctl_def expect_char_def split: list.split)

lemma get_token_to_eol_eq: "get_token_to_eol sse buf = eol_loop buf"
proof -
  obtain s b f where f: "(if sse then findchar_fast sse eol_ranges buf else eol_unrolled buf) = (s, b, f)" by (metis prod_cases3)
  have r: "in_ranges eol_ranges c = eol_ctl c" for c
    by (auto simp: in_ranges_def eol_ranges_def eol_ctl_def IS_PRINTABLE_ASCII_def)
  have d: "buf = s @ b" "\<forall>c\<in>set s. \<not> eol_ctl c" "f \<longrightarrow> b \<noteq> [] \<and> eol_ctl (hd b)"
    using f findchar_fast_spec [of sse eol_ranges buf s b f] eol_unrolled_spec [of buf s b f] by (auto simp: r split: if_splits)
  show ?thesis
  proof (cases f)
    case True
    with d(3) have "eol_loop b = found_ctl [] b" by (cases b) auto
    with True d found_ctl_map [of s b] show ?thesis unfolding get_token_to_eol_def f by (simp add: eol_loop_prefix)
  next
    case False
    with d show ?thesis unfolding get_token_to_eol_def f by (simp add: eol_loop_prefix)
  qed
qed

lemma name_loop_prefix:
  "\<forall>c\<in>set s. c \<noteq> CHR '':'' \<and> token_char c \<Longrightarrow> b \<noteq> [] \<Longrightarrow> name_loop (s @ b) = map_parse ((@) s) (name_loop b)"
proof (induction s)
  case (Cons a s)
  then have "name_loop (a # s @ b) = map_parse ((#) a) (map_parse ((@) s) (name_loop b))" by simp
  then show ?case by (simp add: comp_def)
qed simp

lemma name_loop_all: "\<forall>c\<in>set s. c \<noteq> CHR '':'' \<and> token_char c \<Longrightarrow> s \<noteq> [] \<Longrightarrow> name_loop s = Incomplete"
  by (induction s) auto

definition name_scan :: "byte list \<Rightarrow> string presult run" where
  "name_scan buf = (if buf = [] then Incomplete else name_loop buf)"

text \<open>The fast scan of header names stops at every byte that is not a token character.\<close>

lemma name_ranges_table:
  "list_all (\<lambda>n. list_ex (\<lambda>(lo, hi). lo \<le> n \<and> n \<le> hi) name_ranges \<or> token_char_map ! n \<noteq> 0 \<and> n \<noteq> 58) [0..<256]"
  by code_simp

lemma name_ranges_token: "\<not> in_ranges name_ranges c \<Longrightarrow> c \<noteq> CHR '':'' \<and> token_char c"
proof -
  have "code c < 256" by simp
  with name_ranges_table have "list_ex (\<lambda>(lo, hi). lo \<le> code c \<and> code c \<le> hi) name_ranges \<or> token_char_map ! code c \<noteq> 0 \<and> code c \<noteq> 58"
    by (auto simp: list_all_iff)
  then show "\<not> in_ranges name_ranges c \<Longrightarrow> ?thesis" by (auto simp: in_ranges_def token_char_def)
qed

lemma header_name_eq: "header_name sse buf = name_scan buf"
proof -
  obtain s b f where f: "findchar_fast sse name_ranges buf = (s, b, f)" by (metis prod_cases3)
  from findchar_fast_spec [OF this] have d: "buf = s @ b" "\<forall>c\<in>set s. \<not> in_ranges name_ranges c" "f \<longrightarrow> b \<noteq> []" by auto
  from d(2) name_ranges_token have "\<forall>c\<in>set s. c \<noteq> CHR '':'' \<and> token_char c" by blast
  with d f show ?thesis
    by (cases "b = []") (auto simp: header_name_def name_scan_def name_loop_prefix name_loop_all)
qed

lemmas scanner_eqs = advance_token_eq get_token_to_eol_eq header_name_eq

lemma parse_header_eq: "parse_header sse n buf = parse_header False n buf"
  unfolding parse_header_def scanner_eqs ..

lemma parse_headers_eq: "parse_headers sse n l buf = parse_headers False n l buf"
proof (induction l arbitrary: n buf)
  case 0
  show ?case by (cases buf) auto
next
  case (Suc l)
  show ?case
  proof (cases buf)
    case (Cons c cs)
    show ?thesis unfolding parse_headers.simps(2) [of sse] parse_headers.simps(2) [of False] Cons parse_header_eq [of sse] Suc.IH nat.case ..
  qed simp
qed

text \<open>
  C15. The vectorised scanner gives the same results as the portable one: with and without SSE 4.2
  \<^verbatim>\<open>phr_parse_request\<close> returns the same code, headers and strings on every input.
\<close>

theorem parse_request_sse_equiv:
  "phr_parse_request True buf max_headers last_len = phr_parse_request False buf max_headers last_len"
  unfolding phr_parse_request_def guarded_def parse_request_def request_line_def scanner_eqs parse_headers_eq [of True] ..

end
