(* ===== verification/HttpHead.thy ===== *)
theory HttpHead
  imports HttpParser
begin

text \<open>
  What the request parser guarantees: no read outside the input, results that more input does
  not change, and the transparency of the test for a complete head. The lemmas are stated
  for the byte-by-byte scanners, to which the previous theory reduces both variants of the code.
\<close>

section \<open>The contract of a parser\<close>

text \<open>
  A parser's rest is a suffix of its input, what it consumed has every carriage return
  followed by a line feed, it reads nothing outside the input, more input does not change a
  result, and a parser that lacked input needs some of the input that is added.
\<close>

fun crlf :: "byte list \<Rightarrow> bool" where
  "crlf [] \<longleftrightarrow> True"
| "crlf [c] \<longleftrightarrow> c \<noteq> CR"
| "crlf (c # d # cs) \<longleftrightarrow> (c = CR \<longrightarrow> d = LF) \<and> crlf (d # cs)"

lemma crlf_upto: "crlf (c @ LF # d) \<Longrightarrow> crlf (c @ [LF])"
  by (induction c rule: crlf.induct) auto

fun more :: "byte list \<Rightarrow> 'a presult run \<Rightarrow> 'a presult run" where
  "more t (Inr (POk a b)) = Inr (POk a (b @ t))"
| "more t r = r"

text \<open>The only undefined behaviour of the parsers is the overflow of a number.\<close>

fun bounded :: "'a run \<Rightarrow> bool" where
  "bounded (Inl e) \<longleftrightarrow> e = IntOverflow"
| "bounded (Inr _) \<longleftrightarrow> True"

definition good_at :: "(byte list \<Rightarrow> bool) \<Rightarrow> (byte list \<Rightarrow> bool) \<Rightarrow> (byte list \<Rightarrow> 'a presult run) \<Rightarrow> bool" where
  "good_at pre post p \<longleftrightarrow>
     (\<forall>b. pre b \<longrightarrow> bounded (p b)) \<and>
     (\<forall>b a r. pre b \<longrightarrow> p b = Inr (POk a r) \<longrightarrow> post r \<and> (\<exists>c. b = c @ r \<and> crlf c)) \<and>
     (\<forall>b t. pre b \<longrightarrow> p b \<noteq> Incomplete \<longrightarrow> p (b @ t) = more t (p b)) \<and>
     (\<forall>b t a r. pre b \<longrightarrow> p b = Incomplete \<longrightarrow> p (b @ t) = Inr (POk a r) \<longrightarrow> length r \<le> length t)"

abbreviation anywhere :: "byte list \<Rightarrow> bool" where "anywhere \<equiv> \<lambda>_. True"
abbreviation inside :: "byte list \<Rightarrow> bool" where "inside \<equiv> \<lambda>b. b \<noteq> []"

lemma crlf_append: "crlf c \<Longrightarrow> crlf d \<Longrightarrow> crlf (c @ d)"
proof (induction c rule: crlf.induct)
  case (2 c)
  then show ?case by (cases d) auto
qed auto

lemma crlf_no_CR: "CR \<notin> set c \<Longrightarrow> crlf c"
  by (induction c rule: crlf.induct) auto

lemma crlf_drop: "crlf (c @ d) \<Longrightarrow> crlf d"
  by (induction c rule: crlf.induct) (cases d; auto)+

lemma good_atI:
  assumes "\<And>b. pre b \<Longrightarrow> bounded (p b)"
    and "\<And>b a r. pre b \<Longrightarrow> p b = Inr (POk a r) \<Longrightarrow> post r \<and> (\<exists>c. b = c @ r \<and> crlf c)"
    and "\<And>b t. pre b \<Longrightarrow> p b \<noteq> Incomplete \<Longrightarrow> p (b @ t) = more t (p b)"
    and "\<And>b t a r. pre b \<Longrightarrow> p b = Incomplete \<Longrightarrow> p (b @ t) = Inr (POk a r) \<Longrightarrow> length r \<le> length t"
  shows "good_at pre post p"
  using assms unfolding good_at_def by blast

lemma good_atD:
  assumes "good_at pre post p" "pre b"
  shows "bounded (p b)"
    and "p b = Inr (POk a r) \<Longrightarrow> post r"
    and "p b = Inr (POk a r) \<Longrightarrow> \<exists>c. b = c @ r \<and> crlf c"
    and "p b \<noteq> Incomplete \<Longrightarrow> p (b @ t) = more t (p b)"
    and "p b = Incomplete \<Longrightarrow> p (b @ t) = Inr (POk a r) \<Longrightarrow> length r \<le> length t"
  using assms unfolding good_at_def by blast+

lemma good_cong:
  assumes "\<And>b. pre b \<Longrightarrow> p b = q b" "\<And>b t. pre b \<Longrightarrow> pre (b @ t)" "good_at pre post q"
  shows "good_at pre post p"
  using assms unfolding good_at_def by simp

lemma more_bind: "more t (bind_parse r q) = bind_parse r (\<lambda>a b. more t (q a b))"
  by (cases r rule: parse_run_cases) auto

lemma good_bind:
  assumes p: "good_at pre mid p" and q: "\<And>a. good_at mid post (q a)"
    and up: "\<And>b t. pre b \<Longrightarrow> pre (b @ t)"
  shows "good_at pre post (\<lambda>b. bind_parse (p b) q)"
proof (rule good_atI)
  fix b assume "pre b"
  with good_atD [OF p this] good_atD(1) [OF q] show "bounded (bind_parse (p b) q)"
    by (cases "p b" rule: parse_run_cases) auto
next
  fix b a r assume pre: "pre b" and r: "bind_parse (p b) q = Inr (POk a r)"
  then obtain a' r' where pb: "p b = Inr (POk a' r')" "q a' r' = Inr (POk a r)" by (cases "p b" rule: parse_run_cases) auto
  with good_atD(2,3) [OF p pre] have "mid r'" "\<exists>c. b = c @ r' \<and> crlf c" by blast+
  moreover from good_atD(2,3) [OF q this(1)] pb(2) have "post r" "\<exists>c. r' = c @ r \<and> crlf c" by blast+
  ultimately show "post r \<and> (\<exists>c. b = c @ r \<and> crlf c)" using crlf_append by (metis append.assoc)
next
  fix b t assume pre: "pre b" and n: "bind_parse (p b) q \<noteq> Incomplete"
  then have "p b \<noteq> Incomplete" by auto
  from good_atD(4) [OF p pre this] have pb: "p (b @ t) = more t (p b)" .
  show "bind_parse (p (b @ t)) q = more t (bind_parse (p b) q)"
  proof (cases "p b" rule: parse_run_cases)
    case (ok a r)
    with good_atD(2) [OF p pre] have "mid r" by blast
    with good_atD(4) [OF q this] n ok pb show ?thesis by simp
  qed (use pb in auto)
next
  fix b t a r assume pre: "pre b" and i: "bind_parse (p b) q = Incomplete" and o: "bind_parse (p (b @ t)) q = Inr (POk a r)"
  from o obtain a' r' where t: "p (b @ t) = Inr (POk a' r')" "q a' r' = Inr (POk a r)" by (cases "p (b @ t)" rule: parse_run_cases) auto
  show "length r \<le> length t"
  proof (cases "p b" rule: parse_run_cases)
    case (ok a0 r0)
    with good_atD(2,4) [OF p pre] have m: "mid r0" and "p (b @ t) = Inr (POk a0 (r0 @ t))" by auto
    with t ok i good_atD(5) [OF q m, of a0 t a r] show ?thesis by simp
  next
    case (fail x)
    with i have "p b = Incomplete" by simp
    from good_atD(5) [OF p pre this t(1)] have "length r' \<le> length t" .
    moreover from good_atD(2) [OF p up [OF pre] t(1)] have "mid r'" .
    from good_atD(3) [OF q this t(2)] have "length r \<le> length r'" by auto
    ultimately show ?thesis by simp
  qed (use i in simp)
qed

lemma good_map: "good_at pre post p \<Longrightarrow> (\<And>b t. pre b \<Longrightarrow> pre (b @ t)) \<Longrightarrow> good_at pre post (\<lambda>b. map_parse f (p b))"
  unfolding map_parse_def
  by (rule good_bind [where mid = post]) (auto intro!: good_atI)

lemma good_weaken:
  "good_at pre' post p \<Longrightarrow> (\<And>b. pre b \<Longrightarrow> pre' b) \<Longrightarrow> (\<And>b. post b \<Longrightarrow> post' b) \<Longrightarrow> good_at pre post' p"
  unfolding good_at_def by meson

section \<open>The scanners\<close>

abbreviation plain :: "byte list \<Rightarrow> bool" where "plain \<equiv> \<lambda>b. b \<noteq> [] \<and> hd b \<noteq> CR"

text \<open>A parser for the empty input and the rest, given by the first byte.\<close>

lemma good_expect [intro]: "good_at anywhere anywhere (expect_char LF)"
  by (rule good_atI) (auto simp: expect_char_def split: list.splits if_splits intro!: exI [of _ "[LF]"])

lemma good_expect': "ch \<noteq> CR \<Longrightarrow> good_at anywhere anywhere (expect_char ch)"
  by (rule good_atI) (auto simp: expect_char_def split: list.splits if_splits intro!: exI [of _ "[ch]"])

lemma good_expect_all: "CR \<notin> set chs \<Longrightarrow> good_at anywhere anywhere (expect_all chs)"
proof (induction chs)
  case (Cons ch chs)
  then show ?case by (auto intro!: good_bind [where mid = anywhere] good_expect')
qed (auto intro!: good_atI)

lemma good_ok: "good_at pre pre (\<lambda>b. Inr (POk a b))"
  by (rule good_atI) auto

lemma good_next:
  assumes "good_at anywhere post q"
  shows "good_at plain post (\<lambda>b. case next_byte b of Inl e \<Rightarrow> Inl e | Inr b' \<Rightarrow> q b')"
proof (rule good_atI)
  fix b :: "byte list" assume "plain b"
  then obtain x xs where b: "b = x # xs" "x \<noteq> CR" by (cases b) auto
  note d = good_atD [OF assms, of xs]
  show "bounded (case next_byte b of Inl e \<Rightarrow> Inl e | Inr b' \<Rightarrow> q b')" using b d(1) by (simp add: next_byte_def)
  show "(case next_byte (b @ t) of Inl e \<Rightarrow> Inl e | Inr b' \<Rightarrow> q b') = more t (case next_byte b of Inl e \<Rightarrow> Inl e | Inr b' \<Rightarrow> q b')"
    if "(case next_byte b of Inl e \<Rightarrow> Inl e | Inr b' \<Rightarrow> q b') \<noteq> Incomplete" for t
    using that b d(4) by (simp add: next_byte_def)
  show "length r \<le> length t" if "(case next_byte b of Inl e \<Rightarrow> Inl e | Inr b' \<Rightarrow> q b') = Incomplete"
    "(case next_byte (b @ t) of Inl e \<Rightarrow> Inl e | Inr b' \<Rightarrow> q b') = Inr (POk a r)" for t a r
    using that b d(5) by (simp add: next_byte_def)
  show "post r \<and> (\<exists>c. b = c @ r \<and> crlf c)" if "(case next_byte b of Inl e \<Rightarrow> Inl e | Inr b' \<Rightarrow> q b') = Inr (POk a r)" for a r
  proof -
    from that b have "q xs = Inr (POk a r)" by (simp add: next_byte_def)
    with d(2,3) obtain c where "post r" "xs = c @ r" "crlf c" by blast
    with b crlf_append [of "[x]" c] show ?thesis by (auto intro!: exI [of _ "x # c"])
  qed
qed

text \<open>A loop that collects bytes while \<open>go\<close> holds; \<open>stop\<close> decides at the first other byte.\<close>

lemma good_loop:
  assumes nil: "p [] = Incomplete"
    and step: "\<And>c cs. go c \<Longrightarrow> p (c # cs) = map_parse (f c) (p cs)" and notCR: "\<And>c. go c \<Longrightarrow> c \<noteq> CR"
    and stop: "good_at (\<lambda>b. b \<noteq> [] \<and> \<not> go (hd b)) post p"
  shows "good_at anywhere post p"
proof (rule good_atI)
  note d = good_atD [OF stop]
  have split: "(\<exists>c cs. b = c # cs \<and> go c) \<or> b = [] \<or> b \<noteq> [] \<and> \<not> go (hd b)" for b by (cases b) auto
  show "bounded (p b)" for b
  proof (induction b)
    case (Cons c cs)
    then show ?case using d(1) [of "c # cs"] step [of c cs] by (cases "go c"; cases "p cs" rule: parse_run_cases) auto
  qed (simp add: nil)
  show "p b = Inr (POk a r) \<Longrightarrow> post r \<and> (\<exists>c. b = c @ r \<and> crlf c)" for b a r
  proof (induction b arbitrary: a)
    case (Cons c cs)
    show ?case
    proof (cases "go c")
      case True
      with Cons.prems step obtain a' where "p cs = Inr (POk a' r)" by (cases "p cs" rule: parse_run_cases) auto
      from Cons.IH [OF this] obtain k where "post r" "cs = k @ r" "crlf k" by auto
      with crlf_append [of "[c]" k] notCR [OF True] show ?thesis by (auto intro!: exI [of _ "c # k"])
    next
      case False
      with d(2,3) [of "c # cs" a r] Cons.prems show ?thesis by auto
    qed
  qed (simp add: nil)
  show "p b \<noteq> Incomplete \<Longrightarrow> p (b @ t) = more t (p b)" for b t
  proof (induction b)
    case (Cons c cs)
    show ?case
    proof (cases "go c")
      case True
      with Cons step [of c cs] step [of c "cs @ t"] show ?thesis by (cases "p cs" rule: parse_run_cases) auto
    qed (use Cons.prems d(4) [of "c # cs" t] in auto)
  qed (simp add: nil)
  show "p b = Incomplete \<Longrightarrow> p (b @ t) = Inr (POk a r) \<Longrightarrow> length r \<le> length t" for b t a r
  proof (induction b arbitrary: a)
    case Nil
    have "p x = Inr (POk a r) \<Longrightarrow> length r \<le> length x" for x a
    proof (induction x arbitrary: a)
      case (Cons c cs)
      show ?case
      proof (cases "go c")
        case True
        with Cons step [of c cs] show ?thesis by (cases "p cs" rule: parse_run_cases) fastforce+
      qed (use Cons.prems d(3) [of "c # cs" a r] in fastforce)
    qed (simp add: nil)
    with Nil show ?case by simp
  next
    case (Cons c cs)
    show ?case
    proof (cases "go c")
      case True
      with Cons.prems step [of c cs] step [of c "cs @ t"] obtain a' where "p cs = Incomplete" "p (cs @ t) = Inr (POk a' r)"
        by (cases "p cs" rule: parse_run_cases; cases "p (cs @ t)" rule: parse_run_cases) auto
      then show ?thesis by (rule Cons.IH)
    qed (use Cons.prems d(5) [of "c # cs" t a r] in auto)
  qed
qed

lemma good_if:
  assumes "good_at (\<lambda>b. pre b \<and> C b) post p" "good_at (\<lambda>b. pre b \<and> \<not> C b) post q" "\<And>b t. pre b \<Longrightarrow> C (b @ t) = C b"
  shows "good_at pre post (\<lambda>b. if C b then p b else q b)"
proof (rule good_atI)
  note p = good_atD [OF assms(1)] and q = good_atD [OF assms(2)]
  fix b assume b: "pre b"
  show "bounded (if C b then p b else q b)" using p(1) q(1) b by auto
  show "post r \<and> (\<exists>c. b = c @ r \<and> crlf c)" if "(if C b then p b else q b) = Inr (POk a r)" for a r
    using that p(2,3) [of b a r] q(2,3) [of b a r] b by (auto split: if_splits)
  show "(if C (b @ t) then p (b @ t) else q (b @ t)) = more t (if C b then p b else q b)" if "(if C b then p b else q b) \<noteq> Incomplete" for t
    using that p(4) [of b t] q(4) [of b t] b assms(3) [OF b] by (auto split: if_splits)
  show "length r \<le> length t" if "(if C b then p b else q b) = Incomplete" "(if C (b @ t) then p (b @ t) else q (b @ t)) = Inr (POk a r)" for t a r
    using that p(5) [of b t a r] q(5) [of b t a r] b assms(3) [OF b] by (auto split: if_splits)
qed

lemma good_token: "good_at anywhere plain token_scan"
proof (rule good_loop [where go = "\<lambda>c. c \<noteq> CHR '' '' \<and> \<not> token_ctl c" and f = Cons])
  show "token_scan (c # cs) = map_parse ((#) c) (token_scan cs)" if "c \<noteq> CHR '' '' \<and> \<not> token_ctl c" for c cs
    using that by (simp add: token_scan_def)
  show "good_at (\<lambda>b. b \<noteq> [] \<and> \<not> (hd b \<noteq> CHR '' '' \<and> \<not> token_ctl (hd b))) plain token_scan"
    by (rule good_atI) (auto simp: token_scan_def neq_Nil_conv split: if_splits)
qed (auto simp: token_scan_def token_ctl_def IS_PRINTABLE_ASCII_def)

lemma not_token_CR [simp]: "\<not> token_char CR"
proof -
  have "token_char_map ! 13 = 0" by code_simp
  then show ?thesis by (simp add: token_char_def)
qed

lemma good_name: "good_at anywhere plain name_scan"
proof (rule good_loop [where go = "\<lambda>c. c \<noteq> CHR '':'' \<and> token_char c" and f = Cons])
  show "name_scan (c # cs) = map_parse ((#) c) (name_scan cs)" if "c \<noteq> CHR '':'' \<and> token_char c" for c cs
    using that by (simp add: name_scan_def)
  show "good_at (\<lambda>b. b \<noteq> [] \<and> \<not> (hd b \<noteq> CHR '':'' \<and> token_char (hd b))) plain name_scan"
    by (rule good_atI) (auto simp: name_scan_def neq_Nil_conv split: if_splits)
qed (auto simp: name_scan_def not_token_CR)

lemma eol_ctl_CR [simp]: "eol_ctl CR" "eol_ctl LF"
  by (simp_all add: eol_ctl_def IS_PRINTABLE_ASCII_def)

lemma good_line_end: "good_at inside anywhere line_end"
  by (rule good_atI) (auto simp: line_end_def expect_char_def neq_Nil_conv split: if_splits list.splits
      intro!: exI [of _ "[CR, LF]"] exI [of _ "[LF]"])

lemma found_ctl_line_end: "found_ctl [] b = map_parse (\<lambda>_. []) (line_end b)"
  by (cases b) (auto simp: found_ctl_def line_end_def map_parse_def)

lemma good_eol: "good_at anywhere anywhere eol_loop"
proof (rule good_loop [where go = "\<lambda>c. \<not> eol_ctl c" and f = Cons])
  have "eol_loop b = map_parse (\<lambda>_. []) (line_end b)" if "b \<noteq> [] \<and> \<not> \<not> eol_ctl (hd b)" for b
    using that by (cases b) (simp_all add: found_ctl_line_end)
  moreover have "good_at (\<lambda>b. b \<noteq> [] \<and> \<not> \<not> eol_ctl (hd b)) anywhere (\<lambda>b. map_parse (\<lambda>_. []) (line_end b))"
    by (rule good_weaken [OF good_map [OF good_line_end]]) auto
  ultimately show "good_at (\<lambda>b. b \<noteq> [] \<and> \<not> \<not> eol_ctl (hd b)) anywhere eol_loop" unfolding good_at_def by simp
qed auto

lemma good_blanks: "good_at anywhere inside skip_blanks"
proof (rule good_loop [where go = is_blank and f = "\<lambda>_. id"])
  show "good_at (\<lambda>b. b \<noteq> [] \<and> \<not> is_blank (hd b)) inside skip_blanks"
    by (rule good_atI) (auto simp: neq_Nil_conv split: if_splits)
  show "skip_blanks (c # cs) = map_parse id (skip_blanks cs)" if "is_blank c" for c cs
    using that by (cases "skip_blanks cs" rule: parse_run_cases) auto
qed auto

lemma good_int_loop: "good_at anywhere inside (int_loop v)"
proof (rule good_atI)
  show "bounded (int_loop v b)" for b by (induction v b rule: int_loop.induct) auto
  show "r \<noteq> [] \<and> (\<exists>c. b = c @ r \<and> crlf c)" if "int_loop v b = Inr (POk a r)" for b a r
    using that
  proof (induction v b rule: int_loop.induct)
    case (2 v c cs)
    show ?case
    proof (cases "is_digit c")
      case True
      with 2 obtain k where "r \<noteq> []" "cs = k @ r" "crlf k" by (auto split: if_splits)
      moreover from True have "c \<noteq> CR" by auto
      ultimately show ?thesis using crlf_append [of "[c]" k] by (auto intro!: exI [of _ "c # k"])
    qed (use 2 in \<open>auto split: if_splits\<close>)
  qed simp
  show "int_loop v b \<noteq> Incomplete \<Longrightarrow> int_loop v (b @ t) = more t (int_loop v b)" for b t
    by (induction v b rule: int_loop.induct) auto
  show "length r \<le> length t" if "int_loop v b = Incomplete" "int_loop v (b @ t) = Inr (POk a r)" for b t a r
    using that
  proof (induction v b rule: int_loop.induct)
    case (1 v)
    have "int_loop v x = Inr (POk a r) \<Longrightarrow> length r \<le> length x" for v x
      by (induction v x rule: int_loop.induct) (auto split: if_splits)
    with 1 show ?case by simp
  qed (auto split: if_splits)
qed

lemma good_parse_int: "good_at anywhere inside parse_int"
proof -
  have "good_at inside inside (\<lambda>b. if \<not> is_digit (hd b) then Bad else int_loop 0 b)"
  proof (rule good_if)
    show "good_at (\<lambda>b. b \<noteq> [] \<and> \<not> \<not> is_digit (hd b)) inside (int_loop 0)" by (rule good_weaken [OF good_int_loop]) auto
  qed (auto intro!: good_atI)
  moreover have "parse_int b = (if \<not> is_digit (hd b) then Bad else int_loop 0 b)" if "b \<noteq> []" for b
    using that by (cases b) (simp_all add: parse_int_def)
  ultimately have i: "good_at inside inside parse_int" unfolding good_at_def by simp
  show ?thesis
  proof (rule good_loop [where go = "\<lambda>_. False"])
    show "parse_int [] = Incomplete" by (simp add: parse_int_def)
    show "good_at (\<lambda>b. b \<noteq> [] \<and> \<not> False) inside parse_int" using i by simp
  qed simp_all
qed

lemma good_version: "good_at anywhere inside parse_http_version"
  unfolding parse_http_version_def by (rule good_bind [where mid = anywhere]) (simp_all add: good_parse_int good_expect_all del: expect_all.simps)

lemma good_skip_empty: "good_at anywhere anywhere skip_empty_line"
  by (rule good_atI) (auto simp: skip_empty_line_def expect_char_def split: if_splits list.splits
      intro!: exI [of _ "[CR, LF]"] exI [of _ "[LF]"] exI [of _ "[]"])

section \<open>Headers and the request line\<close>

lemma good_request_line: "good_at anywhere anywhere (request_line sse)"
  unfolding request_line_def advance_token_eq
  by (intro good_bind [OF good_skip_empty] good_bind [OF good_token] good_bind [OF good_version] good_next
      good_bind [OF good_line_end] good_ok) auto

lemma good_header: "good_at inside anywhere (parse_header sse n)"
proof -
  let ?named = "\<lambda>b. bind_parse (name_scan b) (\<lambda>name b.
    if name = [] then Bad
    else (case next_byte b of Inl e \<Rightarrow> Inl e
          | Inr b1 \<Rightarrow> bind_parse (skip_blanks b1) (\<lambda>_ b2. map_parse (\<lambda>v. \<lparr>hname = Some name, hvalue = v\<rparr>) (eol_loop b2))))"
  have val: "good_at anywhere anywhere (\<lambda>b. map_parse f (eol_loop b))" for f :: "string \<Rightarrow> phr_header"
    by (rule good_map [OF good_eol]) auto
  then have val': "good_at inside anywhere (\<lambda>b. map_parse f (eol_loop b))" for f :: "string \<Rightarrow> phr_header"
    by (rule good_weaken) auto
  have "good_at plain anywhere (\<lambda>b. if name = [] then Bad
      else (case next_byte b of Inl e \<Rightarrow> Inl e
            | Inr b1 \<Rightarrow> bind_parse (skip_blanks b1) (\<lambda>_ b2. map_parse (\<lambda>v. \<lparr>hname = Some name, hvalue = v\<rparr>) (eol_loop b2))))" for name
  proof (cases "name = []")
    case False
    have "good_at anywhere anywhere (\<lambda>b1. bind_parse (skip_blanks b1) (\<lambda>_ b2. map_parse (\<lambda>v. \<lparr>hname = Some name, hvalue = v\<rparr>) (eol_loop b2)))"
      by (rule good_bind [OF good_blanks val']) auto
    from good_next [OF this] False show ?thesis by simp
  qed (auto intro!: good_atI)
  from good_bind [OF good_name this] have named: "good_at anywhere anywhere ?named" by simp
  have "good_at inside anywhere (\<lambda>b. if \<not> (n \<noteq> 0 \<and> is_blank (hd b)) then ?named b else map_parse (\<lambda>v. \<lparr>hname = None, hvalue = v\<rparr>) (eol_loop b))"
    by (rule good_if) (auto intro: good_weaken [OF named] good_weaken [OF val])
  moreover have "parse_header sse n b =
      (if \<not> (n \<noteq> 0 \<and> is_blank (hd b)) then ?named b else map_parse (\<lambda>v. \<lparr>hname = None, hvalue = v\<rparr>) (eol_loop b))" if "b \<noteq> []" for b
    using that unfolding parse_header_def scanner_eqs by (cases b) simp_all
  ultimately show ?thesis unfolding good_at_def by simp
qed

abbreviation headers_of :: "bool \<Rightarrow> nat \<Rightarrow> nat \<Rightarrow> byte list \<Rightarrow> phr_header list presult run" where
  "headers_of sse n l b \<equiv> snd (parse_headers sse n l b)"

text \<open>\<^verbatim>\<open>parse_headers\<close> at a byte that does not end the block.\<close>

lemma headers_of_Suc:
  "c \<noteq> CR \<Longrightarrow> c \<noteq> LF \<Longrightarrow> headers_of sse n (Suc l) (c # cs) =
     bind_parse (parse_header sse n (c # cs)) (\<lambda>h b. map_parse ((#) h) (headers_of sse (n + 1) l b))"
  by (cases "parse_header sse n (c # cs)" rule: parse_run_cases) (simp_all split: prod.split)

lemma headers_of_newline:
  "b \<noteq> [] \<Longrightarrow> hd b = CR \<or> hd b = LF \<Longrightarrow> headers_of sse n l b = map_parse (\<lambda>_. []) (line_end b)"
  by (cases b) (auto simp: line_end_def map_parse_def)

lemma good_headers: "good_at anywhere anywhere (headers_of sse n l)"
proof (induction l arbitrary: n)
  have newline: "good_at (\<lambda>b. b \<noteq> [] \<and> (hd b = CR \<or> hd b = LF)) anywhere (headers_of sse n l)" for n l
  proof -
    have "good_at (\<lambda>b. b \<noteq> [] \<and> (hd b = CR \<or> hd b = LF)) anywhere (\<lambda>b. map_parse (\<lambda>_. []) (line_end b))"
      by (rule good_weaken [OF good_map [OF good_line_end]]) auto
    then show ?thesis unfolding good_at_def by (auto simp: headers_of_newline)
  qed
  have both: "good_at anywhere anywhere (headers_of sse n l)"
    if other: "good_at (\<lambda>b. b \<noteq> [] \<and> \<not> (hd b = CR \<or> hd b = LF)) anywhere (headers_of sse n l)" for n l
  proof (rule good_loop [where go = "\<lambda>_. False"])
    have "good_at inside anywhere (\<lambda>b. if hd b = CR \<or> hd b = LF then headers_of sse n l b else headers_of sse n l b)"
      by (rule good_if [OF newline other]) simp
    then show "good_at (\<lambda>b. b \<noteq> [] \<and> \<not> False) anywhere (headers_of sse n l)" by (simp only: if_cancel simp_thms)
  qed simp_all
  {
    case 0
    show ?case by (rule both, rule good_atI) (auto simp: neq_Nil_conv)
  next
    case (Suc l)
    have "good_at inside anywhere (\<lambda>b. bind_parse (parse_header sse n b) (\<lambda>h b. map_parse ((#) h) (headers_of sse (n + 1) l b)))"
      by (rule good_bind [OF good_header good_map [OF Suc.IH]]) auto
    then have g: "good_at (\<lambda>b. b \<noteq> [] \<and> \<not> (hd b = CR \<or> hd b = LF)) anywhere
        (\<lambda>b. bind_parse (parse_header sse n b) (\<lambda>h b. map_parse ((#) h) (headers_of sse (n + 1) l b)))"
      by (rule good_weaken) auto
    show ?case
    proof (rule both, rule good_cong [OF _ _ g])
      show "b \<noteq> [] \<and> \<not> (hd b = CR \<or> hd b = LF) \<Longrightarrow> headers_of sse n (Suc l) b =
          bind_parse (parse_header sse n b) (\<lambda>h b. map_parse ((#) h) (headers_of sse (n + 1) l b))" for b
        by (cases b) (simp_all add: headers_of_Suc del: parse_headers.simps)
    qed auto
  }
qed

text \<open>The number of headers, and the progress of a header block.\<close>

lemma headers_count:
  "parse_headers sse n l b = (k, Inr (POk hs r)) \<Longrightarrow> k = n + length hs \<and> length hs \<le> l \<and> length r < length b"
proof (induction l arbitrary: n b k hs)
  case 0
  then show ?case by (cases b) (auto simp: expect_char_def split: if_splits list.splits)
next
  case (Suc l)
  show ?case
  proof (cases "b \<noteq> [] \<and> hd b \<noteq> CR \<and> hd b \<noteq> LF")
    case True
    then obtain c cs where b: "b = c # cs" "c \<noteq> CR" "c \<noteq> LF" by (cases b) auto
    with Suc.prems obtain h r' k' hs' where h: "parse_header sse n b = Inr (POk h r')" "parse_headers sse (n + 1) l r' = (k', Inr (POk hs' r))"
        "k = k'" "hs = h # hs'"
      by (cases "parse_header sse n (c # cs)" rule: parse_run_cases) (auto simp: map_parse_def split: prod.splits elim: bind_parse.elims)
    from good_atD(3) [OF good_header _ h(1)] b have "length r' \<le> length b" by fastforce
    with Suc.IH [OF h(2)] h(3,4) show ?thesis by simp
  qed (use Suc.prems in \<open>cases b; auto simp: expect_char_def split: if_splits list.splits\<close>)
qed

lemma headers_fst_more: "headers_of sse n l b \<noteq> Incomplete \<Longrightarrow> fst (parse_headers sse n l (b @ t)) = fst (parse_headers sse n l b)"
proof (induction l arbitrary: n b)
  case 0
  then show ?case by (cases b) auto
next
  case (Suc l)
  then show ?case
  proof (cases b)
    case (Cons c cs)
    show ?thesis
    proof (cases "c = CR \<or> c = LF")
      case False
      with Cons Suc.prems have n: "parse_header sse n b \<noteq> Incomplete" by auto
      note m = good_atD(4) [OF good_header _ n, of t, unfolded Cons, simplified]
      show ?thesis
      proof (cases "parse_header sse n b" rule: parse_run_cases)
        case (ok h r)
        with False Cons Suc.prems have "headers_of sse (n + 1) l r \<noteq> Incomplete" by (auto simp: map_parse_def split: prod.splits)
        from Suc.IH [OF this] ok m False Cons show ?thesis by (simp add: split_beta)
      qed (use m False Cons in auto)
    qed (use Cons in auto)
  qed simp
qed

lemma headers_strict:
  "headers_of sse n l b = Incomplete \<Longrightarrow> headers_of sse n l (b @ t) = Inr (POk hs r) \<Longrightarrow> length r < length t"
proof (induction l arbitrary: n b hs)
  case (Suc l)
  show ?case
  proof (cases "b \<noteq> [] \<and> hd b \<noteq> CR \<and> hd b \<noteq> LF")
    case True
    then obtain c cs where b: "b = c # cs" "c \<noteq> CR" "c \<noteq> LF" by (cases b) auto
    from Suc.prems(2) b obtain h r1 hs' where t: "parse_header sse n (b @ t) = Inr (POk h r1)" "headers_of sse (n + 1) l r1 = Inr (POk hs' r)"
      by (cases "parse_header sse n (b @ t)" rule: parse_run_cases) (auto simp: headers_of_Suc map_parse_def simp del: parse_headers.simps elim: bind_parse.elims)
    show ?thesis
    proof (cases "parse_header sse n b" rule: parse_run_cases)
      case (ok h0 r0)
      with good_atD(4) [OF good_header, of b sse n t] b t(1) have r1: "r1 = r0 @ t" by simp
      from Suc.prems(1) b ok have "headers_of sse (n + 1) l r0 = Incomplete"
        by (auto simp: headers_of_Suc map_parse_def simp del: parse_headers.simps elim: bind_parse.elims)
      from Suc.IH [OF this t(2) [unfolded r1]] show ?thesis .
    next
      case (fail i)
      with Suc.prems(1) b have "parse_header sse n b = Incomplete" by (simp add: headers_of_Suc del: parse_headers.simps)
      from good_atD(5) [OF good_header _ this t(1)] b have "length r1 \<le> length t" by simp
      with headers_count [of sse "n + 1" l r1 _ hs' r] t(2) show ?thesis by (metis less_le_trans prod.collapse)
    qed (use Suc.prems(1) b in \<open>simp add: headers_of_Suc del: parse_headers.simps\<close>)
  next
    case False
    with Suc.prems headers_count [of sse n "Suc l" t "fst (parse_headers sse n (Suc l) t)" hs r] show ?thesis
      by (cases b) (auto simp: expect_char_def prod_eq_iff split: list.splits if_splits)
  qed
next
  case 0
  with headers_count [of sse n 0 t "fst (parse_headers sse n 0 t)" hs r] show ?case
    by (cases b) (auto simp: expect_char_def prod_eq_iff split: list.splits if_splits)
qed

section \<open>Whole requests\<close>

lemma parse_request_bind:
  "snd (parse_request sse m b) = bind_parse (request_line sse b) (\<lambda>(meth, path, minor) b.
     map_parse (\<lambda>hs. \<lparr>pmethod = meth, ppath = path, pminor = minor, pheaders = hs\<rparr>) (headers_of sse 0 m b))"
  by (cases "request_line sse b" rule: parse_run_cases) (auto simp: parse_request_def split_beta)

lemma good_request: "good_at anywhere anywhere (\<lambda>b. snd (parse_request sse m b))"
  unfolding parse_request_bind
  by (rule good_bind [OF good_request_line]) (auto simp: split_beta intro: good_map [OF good_headers])

lemma request_count:
  assumes "parse_request sse m b = (k, Inr (POk q r))"
  shows "k = length (pheaders q) \<and> k \<le> m \<and> length r < length b"
proof -
  from assms obtain x r1 hs where l: "request_line sse b = Inr (POk x r1)" "parse_headers sse 0 m r1 = (k, Inr (POk hs r))" "pheaders q = hs"
    by (cases "request_line sse b" rule: parse_run_cases)
      (auto simp: parse_request_def map_parse_def split: prod.splits elim: bind_parse.elims)
  with headers_count [OF l(2)] good_atD(3) [OF good_request_line _ l(1)] show ?thesis by fastforce
qed

lemma request_more:
  assumes "snd (parse_request sse m b) \<noteq> Incomplete"
  shows "parse_request sse m (b @ t) = (fst (parse_request sse m b), more t (snd (parse_request sse m b)))"
proof (rule prod_eqI)
  from assms have l: "request_line sse b \<noteq> Incomplete" by (auto simp: parse_request_bind)
  note m = good_atD(4) [OF good_request_line TrueI l, of t]
  show "fst (parse_request sse m (b @ t)) = fst (fst (parse_request sse m b), more t (snd (parse_request sse m b)))"
  proof (cases "request_line sse b" rule: parse_run_cases)
    case (ok x r)
    with assms have "headers_of sse 0 m r \<noteq> Incomplete" by (auto simp: parse_request_bind split_beta)
    from headers_fst_more [OF this] ok m show ?thesis by (simp add: parse_request_def split_beta)
  qed (use m in \<open>auto simp: parse_request_def\<close>)
qed (use good_atD(4) [OF good_request TrueI assms] in simp)

lemma request_bounded:
  assumes "last_len \<le> length buf"
  shows "bounded (phr_parse_request sse buf max_headers last_len)"
proof -
  have "bounded (complete_loop n b)" for n b by (induction n b rule: complete_loop.induct) (auto split: list.splits)
  with assms have c: "bounded (is_complete buf last_len)" by (auto simp: is_complete_def)
  have r: "bounded (snd (parse_request sse max_headers buf))" by (rule good_atD(1) [OF good_request TrueI])
  obtain n res where p: "parse_request sse max_headers buf = (n, res)" by fastforce
  with c r show ?thesis
    by (cases res rule: parse_run_cases) (auto simp: phr_parse_request_def guarded_def split: sum.splits presult.splits if_splits)
qed

text \<open>
  C17. The request parser stays inside its buffer and inside the header array: it never reads
  past the end (its only undefined behaviour is the overflow of a version number), and on success it
  consumed at least one byte and at most the input, and \<open>num_headers\<close> is the number of headers it
  filled in, at most the size of the array.
\<close>

theorem parse_request_in_bounds:
  assumes "last_len \<le> length buf"
  shows "bounded (phr_parse_request sse buf max_headers last_len) \<and>
    (\<forall>n ret req. phr_parse_request sse buf max_headers last_len = Inr (n, ret, Some req) \<longrightarrow>
       0 < ret \<and> ret \<le> int (length buf) \<and> n = length (pheaders req) \<and> n \<le> max_headers)"
proof -
  obtain n res where p: "parse_request sse max_headers buf = (n, res)" by fastforce
  show ?thesis
  proof (cases res rule: parse_run_cases)
    case (ok q b)
    from request_count [OF p [unfolded ok]] have "n = length (pheaders q)" "n \<le> max_headers" "length b < length buf" by auto
    with ok p request_bounded [OF assms] show ?thesis by (auto simp: phr_parse_request_def guarded_def split: sum.splits presult.splits if_splits)
  qed (use p request_bounded [OF assms] in \<open>auto simp: phr_parse_request_def guarded_def split: sum.splits presult.splits if_splits\<close>)
qed

theorem parse_request_in_bounds_witness:
  "bounded (phr_parse_request True ''GET / HTTP'' 100 3)"
  using parse_request_in_bounds [of 3 "''GET / HTTP''"] by simp

text \<open>
  C35. A result of the request parser is final: once it has accepted or rejected the
  input, bytes that arrive later change neither the verdict nor what was parsed.
\<close>

theorem parse_request_decided:
  assumes "phr_parse_request sse buf max_headers 0 = Inr (n, ret, req)" "ret \<noteq> -2"
  shows "phr_parse_request sse (buf @ later) max_headers 0 = Inr (n, ret, req)"
proof -
  obtain k res where p: "parse_request sse max_headers buf = (k, res)" by fastforce
  with assms have "res \<noteq> Incomplete" by (auto simp: phr_parse_request_def guarded_def)
  with request_more [of sse max_headers buf later] p have
    "parse_request sse max_headers (buf @ later) = (k, more later res)" by simp
  with p assms show ?thesis
    by (cases res rule: parse_run_cases) (auto simp: phr_parse_request_def guarded_def)
qed

definition short_request :: "byte list" where
  "short_request = ''GET / HTTP/1.1'' @ [CR, LF] @ ''Host: a'' @ [CR, LF, CR, LF]"

lemma short_request_parsed:
  "phr_parse_request False short_request 100 0 =
     Inr (1, 27, Some \<lparr>pmethod = ''GET'', ppath = ''/'', pminor = 1, pheaders = [\<lparr>hname = Some ''Host'', hvalue = ''a''\<rparr>]\<rparr>)"
  by code_simp

theorem parse_request_decided_witness:
  "\<exists>req. phr_parse_request False (short_request @ ''GET /next'') 100 0 = Inr (1, 27, Some req)"
  using parse_request_decided [OF short_request_parsed, of "''GET /next''"] by simp

section \<open>The test for a complete head\<close>

lemma line_end_LF: "line_end b = Inr (POk x r) \<Longrightarrow> \<exists>c. b = c @ LF # r"
  by (auto simp: line_end_def expect_char_def split: list.splits if_splits intro: exI [of _ "[]"] exI [of _ "[CR]"])

lemma eol_loop_LF: "eol_loop b = Inr (POk v r) \<Longrightarrow> \<exists>c. b = c @ LF # r"
proof (induction b arbitrary: v rule: eol_loop.induct)
  case (2 c cs)
  show ?case
  proof (cases "eol_ctl c")
    case True
    with 2(2) have "\<exists>x. line_end (c # cs) = Inr (POk x r)"
      by (cases "line_end (c # cs)" rule: parse_run_cases) (auto simp: found_ctl_line_end)
    then show ?thesis using line_end_LF by blast
  next
    case False
    with 2(2) obtain v' where "eol_loop cs = Inr (POk v' r)" by (cases "eol_loop cs" rule: parse_run_cases) auto
    from 2(1) [OF False this] show ?thesis by (metis append_Cons)
  qed
qed simp

lemma bind_parse_ok: "bind_parse p q = Inr (POk a r) \<longleftrightarrow> (\<exists>x b. p = Inr (POk x b) \<and> q x b = Inr (POk a r))"
  by (cases p rule: parse_run_cases) auto

definition ends_line :: "(byte list \<Rightarrow> 'a presult run) \<Rightarrow> bool" where
  "ends_line p \<longleftrightarrow> (\<forall>b a r. p b = Inr (POk a r) \<longrightarrow> (\<exists>c. b = c @ LF # r))"

lemma ends_bind: "good_at anywhere mid p \<Longrightarrow> (\<And>a. ends_line (q a)) \<Longrightarrow> ends_line (\<lambda>b. bind_parse (p b) q)"
  unfolding ends_line_def bind_parse_ok by (metis good_atD(3) append.assoc)

lemma ends_next: "ends_line q \<Longrightarrow> ends_line (\<lambda>b. case next_byte b of Inl e \<Rightarrow> Inl e | Inr b' \<Rightarrow> q b')"
  unfolding ends_line_def by (auto simp: next_byte_def split: list.splits sum.splits) (metis append_Cons)

lemma ends_ok: "ends_line p \<Longrightarrow> ends_line (\<lambda>b. bind_parse (p b) (\<lambda>a b. Inr (POk (f a) b)))"
  unfolding ends_line_def bind_parse_ok by blast

lemma ends_map: "ends_line p \<Longrightarrow> ends_line (\<lambda>b. map_parse f (p b))"
  unfolding map_parse_def by (rule ends_ok)

lemma ends_request_line: "ends_line (request_line sse)"
  unfolding request_line_def advance_token_eq
  by (intro ends_bind [OF good_skip_empty] ends_bind [OF good_token] ends_bind [OF good_version] ends_next ends_ok)
    (auto simp: ends_line_def dest: line_end_LF)

lemma ends_header: "ends_line (parse_header sse n)"
proof -
  have eol: "ends_line eol_loop" by (auto simp: ends_line_def dest: eol_loop_LF)
  have "ends_line (\<lambda>b. bind_parse (name_scan b) (\<lambda>name b.
    if name = [] then Bad
    else (case next_byte b of Inl e \<Rightarrow> Inl e
          | Inr b1 \<Rightarrow> bind_parse (skip_blanks b1) (\<lambda>_ b2. map_parse (\<lambda>v. \<lparr>hname = Some name, hvalue = v\<rparr>) (eol_loop b2)))))"
  proof (rule ends_bind [OF good_name])
    fix name
    have "ends_line (\<lambda>b. case next_byte b of Inl e \<Rightarrow> Inl e
          | Inr b1 \<Rightarrow> bind_parse (skip_blanks b1) (\<lambda>_ b2. map_parse (\<lambda>v. \<lparr>hname = Some name, hvalue = v\<rparr>) (eol_loop b2)))"
      by (intro ends_next ends_bind [OF good_blanks] ends_map eol)
    then show "ends_line (\<lambda>b. if name = [] then Bad
      else (case next_byte b of Inl e \<Rightarrow> Inl e
          | Inr b1 \<Rightarrow> bind_parse (skip_blanks b1) (\<lambda>_ b2. map_parse (\<lambda>v. \<lparr>hname = Some name, hvalue = v\<rparr>) (eol_loop b2))))"
      by (cases "name = []") (auto simp: ends_line_def)
  qed
  moreover have "ends_line (\<lambda>b. map_parse (\<lambda>v. \<lparr>hname = None, hvalue = v\<rparr>) (eol_loop b))" by (rule ends_map [OF eol])
  ultimately show ?thesis unfolding ends_line_def parse_header_def scanner_eqs
    by (intro allI) (case_tac b; simp only: list.case split: if_split; blast)
qed

lemma newline_end:
  assumes "headers_of sse n l b = Inr (POk hs r)" "b \<noteq> []" "hd b = CR \<or> hd b = LF"
  shows "\<exists>u e. b = u @ e @ r \<and> (e = [LF] \<or> e = [CR, LF]) \<and> (u = [] \<or> last u = LF)"
proof -
  from assms(1) headers_of_newline [OF assms(2,3), of sse n l] obtain x where "line_end b = Inr (POk x r)"
    by (auto simp: map_parse_def bind_parse_ok)
  then have "b = [] @ [LF] @ r \<or> b = [] @ [CR, LF] @ r" by (auto simp: line_end_def expect_char_def split: list.splits if_splits)
  then show ?thesis by blast
qed

lemma headers_end:
  "headers_of sse n l b = Inr (POk hs r) \<Longrightarrow> \<exists>u e. b = u @ e @ r \<and> (e = [LF] \<or> e = [CR, LF]) \<and> (u = [] \<or> last u = LF)"
proof (induction l arbitrary: n b hs)
  case 0
  then have "b \<noteq> [] \<and> (hd b = CR \<or> hd b = LF)" by (cases b) (auto split: if_splits)
  with newline_end [OF 0] show ?case by blast
next
  case (Suc l)
  show ?case
  proof (cases "b \<noteq> [] \<and> hd b \<noteq> CR \<and> hd b \<noteq> LF")
    case True
    then obtain c cs where b: "b = c # cs" "c \<noteq> CR" "c \<noteq> LF" by (cases b) auto
    with Suc.prems obtain h r1 hs' where h: "parse_header sse n b = Inr (POk h r1)" "headers_of sse (n + 1) l r1 = Inr (POk hs' r)"
      by (auto simp: headers_of_Suc bind_parse_ok map_parse_def simp del: parse_headers.simps)
    from ends_header h(1) obtain k where k: "b = k @ LF # r1" unfolding ends_line_def by blast
    from Suc.IH [OF h(2)] obtain u e where u: "r1 = u @ e @ r" "e = [LF] \<or> e = [CR, LF]" "u = [] \<or> last u = LF" by blast
    have "b = (k @ LF # u) @ e @ r" "last (k @ LF # u) = LF" using k u(1,3) by auto
    with u(2) show ?thesis by blast
  next
    case False
    with Suc.prems have "b \<noteq> [] \<and> (hd b = CR \<or> hd b = LF)" by auto
    with newline_end [OF Suc.prems] show ?thesis by blast
  qed
qed

text \<open>A successful parse read a head: lines with proper ends, and an empty line last.\<close>

lemma request_head:
  assumes "snd (parse_request sse m b) = Inr (POk q r)"
  shows "\<exists>w e. b = w @ LF # e @ r \<and> (e = [LF] \<or> e = [CR, LF]) \<and> crlf (w @ LF # e)"
proof -
  from assms obtain x r1 hs where l: "request_line sse b = Inr (POk x r1)" "headers_of sse 0 m r1 = Inr (POk hs r)"
    by (auto simp: parse_request_bind bind_parse_ok map_parse_def)
  from ends_request_line l(1) obtain c where c: "b = c @ LF # r1" unfolding ends_line_def by blast
  from headers_end [OF l(2)] obtain u e where u: "r1 = u @ e @ r" "e = [LF] \<or> e = [CR, LF]" "u = [] \<or> last u = LF" by blast
  let ?v = "c @ LF # u"
  have "last ?v = LF" using u(3) by auto
  then have v: "?v = butlast ?v @ [LF]" by (metis append_butlast_last_id append_is_Nil_conv list.distinct(1))
  with c u(1) have b: "b = butlast ?v @ LF # e @ r" by (metis append.assoc append_Cons append_Nil)
  moreover from good_atD(3) [OF good_request TrueI assms] obtain d where "b = d @ r" "crlf d" by blast
  with b have "crlf (butlast ?v @ LF # e)" by (metis append.assoc append_Cons append_same_eq)
  ultimately show ?thesis using u(2) by blast
qed

lemma complete_loop_head:
  assumes "crlf (w @ [LF])" "e = [LF] \<or> e = [CR, LF]" "n < 2"
  shows "\<exists>b. complete_loop n (w @ LF # e @ r) = Inr (POk () b)"
  using assms
proof (induction "length w" arbitrary: w n rule: less_induct)
  case less
  show ?case
  proof (cases w)
    case Nil
    with less.prems show ?thesis by (cases "n = 1") auto
  next
    case (Cons c cs)
    show ?thesis
    proof (cases "c = CR")
      case False
      from less.prems(1) Cons have "crlf (cs @ [LF])" by (metis append_Cons append_Nil crlf_drop)
      with less.hyps [of cs] Cons less.prems(2,3) False show ?thesis by (cases "c = LF"; cases "n = 1") auto
    next
      case True
      show ?thesis
      proof (cases cs)
        case Nil
        with Cons True less.prems show ?thesis by (cases "n = 1") auto
      next
        case (Cons d ds)
        with \<open>w = c # cs\<close> True less.prems(1) have d: "d = LF" "crlf (ds @ [LF])"
          using crlf_drop [of "[c, d]" "ds @ [LF]"] by auto
        with less.hyps [of ds] \<open>w = c # cs\<close> Cons True less.prems(2,3) show ?thesis by (cases "n = 1") auto
      qed
    qed
  qed
qed

lemma request_strict:
  assumes "snd (parse_request sse m b) = Incomplete" "snd (parse_request sse m (b @ t)) = Inr (POk q r)"
  shows "length r < length t"
proof -
  from assms(2) obtain x r1 hs where l: "request_line sse (b @ t) = Inr (POk x r1)" "headers_of sse 0 m r1 = Inr (POk hs r)"
    by (auto simp: parse_request_bind bind_parse_ok map_parse_def)
  show ?thesis
  proof (cases "request_line sse b" rule: parse_run_cases)
    case (ok x0 r0)
    with good_atD(4) [OF good_request_line TrueI, of sse b t] l(1) have r1: "r1 = r0 @ t" "x0 = x" by auto
    from assms(1) ok have "headers_of sse 0 m r0 = Incomplete"
      by (cases "headers_of sse 0 m r0" rule: parse_run_cases) (auto simp: parse_request_bind split_beta)
    from headers_strict [OF this] l(2) r1 show ?thesis by blast
  next
    case (fail i)
    with assms(1) have "request_line sse b = Incomplete" by (simp add: parse_request_bind)
    from good_atD(5) [OF good_request_line TrueI this l(1)] have "length r1 \<le> length t" .
    with headers_count [of sse 0 m r1 "fst (parse_headers sse 0 m r1)" hs r] l(2) show ?thesis by (simp add: prod_eq_iff)
  qed (use assms(1) in \<open>simp add: parse_request_bind\<close>)
qed

lemma is_complete_head:
  assumes s: "snd (parse_request sse m (buf @ later)) = Inr (POk q r)" and i: "snd (parse_request sse m buf) = Incomplete"
  shows "\<exists>b. is_complete (buf @ later) (length buf) = Inr (POk () b)"
proof -
  let ?s = "buf @ later"
  from request_head [OF s] obtain w e where h: "?s = w @ LF # e @ r" "e = [LF] \<or> e = [CR, LF]" "crlf (w @ LF # e)" by blast
  from request_strict [OF i s] h(1) have "length r < length later" "length buf + length later = length w + 1 + length e + length r"
    by (metis, metis length_append length_Cons add.assoc add_Suc_right add_Suc plus_1_eq_Suc add.commute)
  with h(2) have k: "length buf - 3 \<le> length w" by auto
  let ?d = "if length buf < 3 then 0 else length buf - 3"
  from k have d: "drop ?d ?s = drop ?d w @ LF # e @ r" unfolding h(1) by simp
  from h(3) have "crlf (w @ [LF])" by (rule crlf_upto)
  then have "crlf (drop ?d w @ [LF])" by (metis append.assoc append_take_drop_id crlf_drop)
  from complete_loop_head [OF this h(2), of 0 r] d obtain b where "complete_loop 0 (drop ?d ?s) = Inr (POk () b)" by auto
  then have "is_complete ?s (length buf) = Inr (POk () b)" by (auto simp: is_complete_def split: if_splits)
  then show ?thesis ..
qed



section \<open>Printing and parsing\<close>

text \<open>
  Requests as a client prints them. A token has no blank and no control character, a name is a
  non-empty string of token characters, and a value has no control character besides tabs and
  does not begin with a blank.
\<close>

definition token_ok :: "string \<Rightarrow> bool" where
  "token_ok s \<longleftrightarrow> list_all (\<lambda>c. c \<noteq> CHR '' '' \<and> \<not> token_ctl c) s"

definition name_ok :: "string \<Rightarrow> bool" where
  "name_ok s \<longleftrightarrow> s \<noteq> [] \<and> list_all (\<lambda>c. c \<noteq> CHR '':'' \<and> token_char c) s"

definition value_ok :: "string \<Rightarrow> bool" where
  "value_ok s \<longleftrightarrow> list_all (\<lambda>c. \<not> eol_ctl c) s \<and> (s = [] \<or> \<not> is_blank (hd s))"

definition print_header :: "string \<times> string \<Rightarrow> byte list" where
  "print_header h = fst h @ '': '' @ snd h @ [CR, LF]"

definition print_request :: "string \<Rightarrow> string \<Rightarrow> nat \<Rightarrow> (string \<times> string) list \<Rightarrow> byte list" where
  "print_request meth path minor hs =
     meth @ '' '' @ path @ '' HTTP/1.'' @ [char_of (48 + minor)] @ [CR, LF] @ concat (map print_header hs) @ [CR, LF]"

lemma token_scan_print: "token_ok s \<Longrightarrow> token_scan (s @ CHR '' '' # b) = Inr (POk s (CHR '' '' # b))"
  using token_loop_prefix [of s "CHR '' '' # b"] by (simp add: token_scan_def token_ok_def list_all_iff)

lemma name_scan_print: "name_ok s \<Longrightarrow> name_scan (s @ CHR '':'' # b) = Inr (POk s (CHR '':'' # b))"
  using name_loop_prefix [of s "CHR '':'' # b"] by (simp add: name_scan_def name_ok_def list_all_iff)

lemma eol_print: "value_ok s \<Longrightarrow> eol_loop (s @ CR # LF # b) = Inr (POk s b)"
  using eol_loop_prefix [of s "CR # LF # b"] by (simp add: value_ok_def list_all_iff found_ctl_def expect_char_def)

lemma blanks_print: "value_ok s \<Longrightarrow> skip_blanks (CHR '' '' # s @ CR # b) = Inr (POk () (s @ CR # b))"
  by (cases s) (auto simp: value_ok_def)

lemma token_char_first: "token_char c \<Longrightarrow> \<not> is_blank c \<and> c \<noteq> CR \<and> c \<noteq> LF"
proof -
  have "token_char_map ! 32 = 0" "token_char_map ! 9 = 0" "token_char_map ! 13 = 0" "token_char_map ! 10 = 0" by code_simp+
  then have "\<not> token_char (CHR '' '')" "\<not> token_char (CHR 0x09)" "\<not> token_char CR" "\<not> token_char LF"
    by (simp_all add: token_char_def)
  then show "token_char c \<Longrightarrow> ?thesis" by auto
qed

lemma header_print:
  assumes "name_ok (fst h)" "value_ok (snd h)"
  shows "parse_header sse n (print_header h @ b) = Inr (POk \<lparr>hname = Some (fst h), hvalue = snd h\<rparr> b)"
proof -
  from assms(1) obtain c cs where h: "fst h = c # cs" "token_char c" by (cases "fst h") (auto simp: name_ok_def)
  have "print_header h @ b = fst h @ CHR '':'' # CHR '' '' # snd h @ CR # LF # b" by (simp add: print_header_def)
  with h token_char_first [OF h(2)] name_scan_print [OF assms(1)] blanks_print [OF assms(2)] eol_print [OF assms(2)] show ?thesis
    unfolding parse_header_def scanner_eqs by (simp add: next_byte_def)
qed

lemma headers_print:
  "list_all (\<lambda>h. name_ok (fst h) \<and> value_ok (snd h)) hs \<Longrightarrow> length hs \<le> l \<Longrightarrow>
   parse_headers sse n l (concat (map print_header hs) @ CR # LF # b) =
     (n + length hs, Inr (POk (map (\<lambda>h. \<lparr>hname = Some (fst h), hvalue = snd h\<rparr>) hs) b))"
proof (induction hs arbitrary: n l)
  case (Cons h hs)
  then obtain l' where l: "l = Suc l'" by (cases l) auto
  let ?b = "concat (map print_header hs) @ CR # LF # b"
  from Cons.prems(1) obtain c cs where h: "fst h = c # cs" "token_char c" by (cases "fst h") (auto simp: name_ok_def)
  then have p: "print_header h @ ?b = c # tl (print_header h @ ?b)" "c \<noteq> CR" "c \<noteq> LF"
    using token_char_first by (auto simp: print_header_def)
  have "parse_header sse n (print_header h @ ?b) = Inr (POk \<lparr>hname = Some (fst h), hvalue = snd h\<rparr> ?b)"
    using header_print Cons.prems(1) by simp
  with p have "parse_headers sse n l (print_header h @ ?b) =
      (case parse_headers sse (n + 1) l' ?b of (n', r) \<Rightarrow> (n', map_parse ((#) \<lparr>hname = Some (fst h), hvalue = snd h\<rparr>) r))"
    using parse_headers.simps(2) [of sse n l c "tl (print_header h @ ?b)"] l by simp
  with Cons l show ?case by simp
qed (simp add: expect_char_def)

text \<open>More headers than the array holds.\<close>

lemma headers_too_many:
  "list_all (\<lambda>h. name_ok (fst h) \<and> value_ok (snd h)) hs \<Longrightarrow> l < length hs \<Longrightarrow>
   headers_of sse n l (concat (map print_header hs) @ b) = Bad"
proof (induction hs arbitrary: n l)
  case (Cons h hs)
  let ?b = "concat (map print_header hs) @ b"
  from Cons.prems(1) obtain c cs where h: "fst h = c # cs" "token_char c" by (cases "fst h") (auto simp: name_ok_def)
  then have p: "print_header h @ ?b = c # tl (print_header h @ ?b)" "c \<noteq> CR" "c \<noteq> LF"
    using token_char_first by (auto simp: print_header_def)
  show ?case
  proof (cases l)
    case 0
    with p show ?thesis using parse_headers.simps(2) [of sse n l c "tl (print_header h @ ?b)"] by simp
  next
    case (Suc l')
    have "parse_header sse n (print_header h @ ?b) = Inr (POk \<lparr>hname = Some (fst h), hvalue = snd h\<rparr> ?b)"
      using header_print Cons.prems(1) by simp
    with p Suc Cons headers_of_Suc [of c sse n l' "tl (print_header h @ ?b)"] show ?thesis by simp
  qed
qed simp

lemma version_print: "minor < 10 \<Longrightarrow> parse_http_version (''HTTP/1.'' @ char_of (48 + minor) # CR # b) = Inr (POk (int minor) (CR # b))"
  by (simp add: parse_http_version_def expect_char_def parse_int_def)

lemma request_line_print:
  assumes "token_ok meth" "token_ok path" "minor < 10"
  shows "request_line sse (print_request meth path minor hs @ body) =
    Inr (POk (meth, path, int minor) (concat (map print_header hs) @ CR # LF # body))"
proof -
  let ?hs = "concat (map print_header hs) @ CR # LF # body"
  have r: "print_request meth path minor hs @ body =
      meth @ CHR '' '' # path @ CHR '' '' # ''HTTP/1.'' @ char_of (48 + minor) # CR # LF # ?hs" by (simp add: print_request_def)
  have first: "skip_empty_line (meth @ CHR '' '' # b) = Inr (POk () (meth @ CHR '' '' # b))" for b
    using assms(1) by (cases meth) (auto simp: skip_empty_line_def token_ok_def token_ctl_def IS_PRINTABLE_ASCII_def)
  show ?thesis
    unfolding r request_line_def advance_token_eq first
    by (simp only: bind_parse.simps token_scan_print [OF assms(1)] token_scan_print [OF assms(2)] next_byte_def list.case sum.case version_print [OF assms(3)])
      (simp add: line_end_def expect_char_def)
qed

lemma print_parse:
  assumes "token_ok meth" "token_ok path" "minor < 10" "length hs \<le> max_headers"
    and "list_all (\<lambda>h. name_ok (fst h) \<and> value_ok (snd h)) hs"
  shows "phr_parse_request sse (print_request meth path minor hs @ body) max_headers 0 =
    Inr (length hs, int (length (print_request meth path minor hs)),
      Some \<lparr>pmethod = meth, ppath = path, pminor = int minor, pheaders = map (\<lambda>h. \<lparr>hname = Some (fst h), hvalue = snd h\<rparr>) hs\<rparr>)"
proof -
  have "parse_request sse max_headers (print_request meth path minor hs @ body) = (length hs, Inr (POk \<lparr>pmethod = meth, ppath = path, pminor = int minor,
       pheaders = map (\<lambda>h. \<lparr>hname = Some (fst h), hvalue = snd h\<rparr>) hs\<rparr> body))"
    using request_line_print [OF assms(1-3), of sse hs body] headers_print [OF assms(5,4), of sse 0 body] by (simp add: parse_request_def)
  then show ?thesis by (simp add: phr_parse_request_def guarded_def)
qed

lemma print_too_many:
  assumes "token_ok meth" "token_ok path" "minor < 10" "list_all (\<lambda>h. name_ok (fst h) \<and> value_ok (snd h)) hs" "m < length hs"
  shows "snd (parse_request sse m (print_request meth path minor hs @ body)) = Bad"
  using request_line_print [OF assms(1-3), of sse hs body] headers_too_many [OF assms(4,5), of sse 0 "CR # LF # body"]
  by (simp add: parse_request_def split_beta)


text \<open>
  C4. Parsing undoes printing: every well-formed request head with at most \<open>max_headers\<close>
  headers is accepted, followed by any bytes, with its method, path, version and headers, and
  the return value is its length.
\<close>

theorem parse_request_roundtrip:
  assumes "token_ok meth" "token_ok path" "minor < 10" "length hs \<le> max_headers"
    and "list_all (\<lambda>h. name_ok (fst h) \<and> value_ok (snd h)) hs"
  shows "phr_parse_request sse (print_request meth path minor hs @ body) max_headers 0 =
    Inr (length hs, int (length (print_request meth path minor hs)),
      Some \<lparr>pmethod = meth, ppath = path, pminor = int minor, pheaders = map (\<lambda>h. \<lparr>hname = Some (fst h), hvalue = snd h\<rparr>) hs\<rparr>)"
  using assms by (rule print_parse)

theorem parse_request_roundtrip_witness:
  "\<exists>req. phr_parse_request True (print_request ''GET'' ''/rows'' 1 [(''host'', ''db'')] @ ''body'') 100 0 = Inr (1, 32, Some req)"
proof -
  have "token_ok ''GET''" "token_ok ''/rows''" "list_all (\<lambda>h. name_ok (fst h) \<and> value_ok (snd h)) [(''host'', ''db'')]" by code_simp+
  moreover have "length (print_request ''GET'' ''/rows'' 1 [(''host'', ''db'')]) = 32" by (simp add: print_request_def print_header_def)
  ultimately show ?thesis using parse_request_roundtrip [of "''GET''" "''/rows''" 1 "[(''host'', ''db'')]" 100] by simp
qed

end
