(* ===== verification/HttpV1.thy ===== *)
theory HttpV1
  imports Conn Conf HttpHead Memory HeaderTokens Strings
begin

text \<open>
  The life of a request on a connection, \<^verbatim>\<open>src/pg_rest_http_request.c\<close> and \<^verbatim>\<open>src/pg_rest_http_v1.c\<close>:
  reading and parsing the head, the body with a length or in chunks, and the ends of a
  request (close, keep-alive, lingering close). The state is one connection of the pool with its
  buffer and its request. \<open>req->header_in\<close> and \<open>conn->buffer\<close> are the same object and one
  component here. A request that has been freed is None, and each access to it is
  \<open>Freed\<close>. Strings of the request are kept as values and not as pointers into the buffer.
\<close>

section \<open>The state\<close>

record headers_in =
  hi_headers :: "(string \<times> string) list"
  hi_host :: "string option"
  hi_content_length :: "string option"
  hi_transfer_encoding :: "string option"
  hi_expect :: "string option"
  hi_keep_alive :: "string option"
  hi_server :: string
  hi_content_length_n :: int
  hi_keep_alive_n :: int
  hi_connection_type :: nat
  hi_chunked :: bool

text \<open>\<open>rb->buffer\<close>: null, the buffer of the connection, or one of its own.\<close>

datatype body_buffer = NoBuffer | HeaderIn | Own pgrest_buffer

record request_body =
  rb_buffer :: body_buffer
  rb_entity :: "byte list"
  rb_rest :: int
  rb_chunked :: "phr_chunked_decoder option"
  rb_decode_length :: nat
  rb_split :: bool

record http_request =
  http_version :: int
  rmethod :: int
  rpath :: string
  headers :: headers_in
  out_status :: int
  request_body :: "request_body option"
  rlingering_time :: int
  http_conf :: "conf_http_server option"
  request_length :: nat
  rcount :: nat
  pipeline :: bool
  header_only :: bool
  rkeepalive :: bool
  rlingering :: bool
  expect_tested :: bool
  processed :: nat                 \<comment> \<open>calls of \<open>pgrest_http_process_request\<close>, which is empty\<close>

datatype rev_handler = InitHandler | HeaderHandler | EntityHandler | KeepaliveHandler | LingeringHandler | V2Handler

text \<open>What the peer does next: bytes (none for an end of file), or an error of \<open>recv\<close>.\<close>

datatype rx = Rx "byte list" | RxFail errno

record http_state =
  hpool :: conn_pool
  ci :: nat
  hbuf :: "pgrest_buffer option"
  pool_alive :: bool                \<comment> \<open>the memory pool of the connection\<close>
  timedout :: bool
  cerror :: bool
  destroyed :: bool
  cidle :: bool
  rhandler :: rev_handler
  default_server :: conf_http_server
  prev_size :: nat
  hparse :: bool
  hreq :: "http_request option"
  rxs :: "rx list"
  hsent :: "byte list"

record v1_env =
  v_sse :: bool
  v_ok :: "nat \<Rightarrow> bool"               \<comment> \<open>answers of libevent\<close>
  v_et :: bool                       \<comment> \<open>edge-triggered events\<close>
  v_mem :: buf_env
  v_alloc :: bool                    \<comment> \<open>small allocations from a pool\<close>
  v_sends :: "sys_result list"
  v_shutdown :: bool
  v_sockopt :: bool
  v_now :: int
  v_terminate :: bool
  v_nodelay_and_nopush :: bool

abbreviation conn_of :: "http_state \<Rightarrow> pgrest_connection" where
  "conn_of s \<equiv> conns (hpool s) ! ci s"

abbreviation upd_hconn :: "(pgrest_connection \<Rightarrow> pgrest_connection) \<Rightarrow> http_state \<Rightarrow> http_state" where
  "upd_hconn f s \<equiv> s\<lparr>hpool := upd_conn (ci s) f (hpool s)\<rparr>"

definition with_req :: "http_state \<Rightarrow> (http_request \<Rightarrow> 'a run) \<Rightarrow> 'a run" where
  "with_req s k = (case hreq s of None \<Rightarrow> Inl Freed | Some r \<Rightarrow> k r)"

abbreviation upd_req :: "(http_request \<Rightarrow> http_request) \<Rightarrow> http_state \<Rightarrow> http_state" where
  "upd_req f s \<equiv> s\<lparr>hreq := map_option f (hreq s)\<rparr>"

definition add_rev :: "v1_env \<Rightarrow> http_state \<Rightarrow> (bool \<times> http_state) run" where
  "add_rev env s =
     map_sum id (\<lambda>(ok, pend). (ok, s\<lparr>hpool := (hpool s)\<lparr>pending := pend\<rparr>\<rparr>)) (pgrest_event_add (v_ok env) (rev_ev (conn_of s)) (pending (hpool s)))"

definition del_wev :: "v1_env \<Rightarrow> http_state \<Rightarrow> (bool \<times> http_state) run" where
  "del_wev env s =
     map_sum id (\<lambda>(ok, pend). (ok, s\<lparr>hpool := (hpool s)\<lparr>pending := pend\<rparr>\<rparr>)) (pgrest_event_del (v_ok env) (wev_ev (conn_of s)) (pending (hpool s)))"

section \<open>Receiving\<close>

text \<open>
  A call of \<open>pgrest_conn_recv\<close> for \<open>sz\<close> bytes: bytes that do not fit wait for the next call, and
  a peer that does nothing is \<open>EAGAIN\<close>.
\<close>

fun rx_results :: "nat \<Rightarrow> rx list \<Rightarrow> sys_result list" where
  "rx_results sz [] = [Fail EAGAIN]"
| "rx_results sz (Rx bs # rs) = Done (length (take sz bs)) # rx_results sz rs"
| "rx_results sz (RxFail e # rs) = Fail e # rx_results sz rs"

fun rx_take :: "nat \<Rightarrow> rx list \<Rightarrow> byte list \<times> rx list" where
  "rx_take sz [] = ([], [])"
| "rx_take sz (Rx bs # rs) = (take sz bs, if length bs \<le> sz then rs else Rx (drop sz bs) # rs)"
| "rx_take sz (RxFail e # rs) = (if e = EINTR then rx_take sz rs else ([], rs))"

definition http_recv :: "v1_env \<Rightarrow> nat \<Rightarrow> http_state \<Rightarrow> (int \<times> byte list \<times> http_state) run" where
  "http_recv env sz s =
     (case pgrest_conn_recv (v_et env) sz (rx_results sz (rxs s)) (conn_of s) of
        None \<Rightarrow> Inl NoReturn
      | Some (n, c) \<Rightarrow> (case rx_take sz (rxs s) of (bs, rs) \<Rightarrow> Inr (n, bs, upd_hconn (\<lambda>_. c) (s\<lparr>rxs := rs\<rparr>))))"

text \<open>Storing received bytes behind the data of a buffer, and \<open>size += n\<close>.\<close>

definition store_bytes :: "byte list \<Rightarrow> pgrest_buffer \<Rightarrow> pgrest_buffer" where
  "store_bytes bs b =
     b\<lparr>b_start := take (b_pos b + b_size b) (b_start b) @ bs @ drop (b_pos b + b_size b + length bs) (b_start b),
       b_size := b_size b + length bs\<rparr>"

section \<open>The ends of a request\<close>

text \<open>Destroying the pool of the connection frees the request, whose pool is a child, and the buffer.\<close>

definition pgrest_http_conn_close :: "v1_env \<Rightarrow> http_state \<Rightarrow> http_state run" where
  "pgrest_http_conn_close env s =
     bind_ub (pgrest_conn_close (v_ok env) (ci s) (hpool s)) (\<lambda>(_, p).
       if \<not> pool_alive s then Inl Freed
       else Inr (s\<lparr>destroyed := True, hpool := p, pool_alive := False, hreq := None, hbuf := None\<rparr>))"

definition pgrest_http_free_request :: "v1_env \<Rightarrow> int \<Rightarrow> http_state \<Rightarrow> http_state run" where
  "pgrest_http_free_request env rc s =
     with_req s (\<lambda>r.
       if timedout s \<and> http_conf r = None then Inl NullDeref
       else Inr (s\<lparr>destroyed := True, hreq := None\<rparr>))"

definition pgrest_http_close_request :: "v1_env \<Rightarrow> int \<Rightarrow> http_state \<Rightarrow> http_state run" where
  "pgrest_http_close_request env rc s =
     with_req s (\<lambda>r.
       let n = (rcount r + 65535) mod 65536 in
       if n \<noteq> 0 then Inr (upd_req (rcount_update (\<lambda>_. n)) s)
       else bind_ub (pgrest_http_free_request env rc s) (pgrest_http_conn_close env))"

definition zero_headers_in :: headers_in where
  "zero_headers_in = \<lparr>hi_headers = [], hi_host = None, hi_content_length = None, hi_transfer_encoding = None, hi_expect = None,
     hi_keep_alive = None, hi_server = [], hi_content_length_n = -1, hi_keep_alive_n = -1, hi_connection_type = 0, hi_chunked = False\<rparr>"

definition PGREST_HTTP_UNKNOWN :: int where "PGREST_HTTP_UNKNOWN = 1"
definition PGREST_HTTP_TRACE :: int where "PGREST_HTTP_TRACE = 0x8000"
definition PGREST_HTTP_VERSION_10 :: int where "PGREST_HTTP_VERSION_10 = 1000"
definition PGREST_HTTP_VERSION_11 :: int where "PGREST_HTTP_VERSION_11 = 1001"
definition PGREST_HTTP_CONNECTION_KEEP_ALIVE :: nat where "PGREST_HTTP_CONNECTION_KEEP_ALIVE = 2"

text \<open>\<^verbatim>\<open>pgrest_http_create_request\<close>; the event base is read through \<open>conn->rev\<close>. \<open>http_conf\<close> stays null.\<close>

definition pgrest_http_create_request :: "v1_env \<Rightarrow> http_state \<Rightarrow> http_request option run" where
  "pgrest_http_create_request env s =
     (if \<not> v_alloc env then Inr None
      else if rev_ev (conn_of s) = None then Inl NullDeref
      else Inr (Some \<lparr>http_version = PGREST_HTTP_VERSION_10, rmethod = PGREST_HTTP_UNKNOWN, rpath = [], headers = zero_headers_in,
        out_status = 0, request_body = None, rlingering_time = 0, http_conf = None, request_length = 0, rcount = 1, pipeline = False,
        header_only = False, rkeepalive = False, rlingering = False, expect_tested = False, processed = 0\<rparr>))"

text \<open>The first test of \<^verbatim>\<open>pgrest_http_buffer_left\<close> chooses the connection's buffer; otherwise the body has its own.\<close>

definition pgrest_http_buffer_left :: "http_request \<Rightarrow> pgrest_buffer \<Rightarrow> (nat \<times> http_request \<times> pgrest_buffer) run" where
  "pgrest_http_buffer_left r b =
     (if header_only r \<or> (case request_body r of None \<Rightarrow> False | Some rb \<Rightarrow> \<not> rb_split rb)
      then let b' = pgrest_buffer_consume b (request_length r) in Inr (b_size b', r, b')
      else (case request_body r of
              None \<Rightarrow> Inl NullDeref
            | Some rb \<Rightarrow>
                (case rb_buffer rb of
                   Own ob \<Rightarrow>
                     let ob' = pgrest_buffer_consume ob (length (rb_entity rb)) in
                     Inr (b_size ob', r\<lparr>request_body := Some (rb\<lparr>rb_buffer := Own ob'\<rparr>)\<rparr>, pgrest_buffer_reset b)
                 | _ \<Rightarrow> Inl NullDeref)))"

definition PGREST_TCP_NOPUSH_SET :: nat where "PGREST_TCP_NOPUSH_SET = 1"
definition PGREST_TCP_NODELAY_SET :: nat where "PGREST_TCP_NODELAY_SET = 1"

text \<open>
  The end of \<^verbatim>\<open>pgrest_http_set_keepalive\<close>, after the pipelined case. An activated event (\<open>event_active\<close>) is
  the next call of the read handler by the event loop and is not part of the state.
\<close>

definition keepalive_idle :: "v1_env \<Rightarrow> conf_http_server \<Rightarrow> http_state \<Rightarrow> http_state run" where
  "keepalive_idle env conf s0 =
     bind_ub (if \<not> v_et env then del_wev env (s0\<lparr>rhandler := KeepaliveHandler\<rparr>) else Inr (True, s0\<lparr>rhandler := KeepaliveHandler\<rparr>)) (\<lambda>(ok, s).
     if \<not> ok then pgrest_http_conn_close env s
     else if tcp_nopush (conn_of s) = PGREST_TCP_NOPUSH_SET \<and> \<not> v_sockopt env then pgrest_http_conn_close env s
     else
       let push = tcp_nopush (conn_of s) = PGREST_TCP_NOPUSH_SET;
           s1 = (if push then upd_hconn (tcp_nopush_update (\<lambda>_. 0)) s else s);
           nodelay = (\<not> push \<or> v_nodelay_and_nopush env) \<and> conf_http_server.tcp_nodelay conf \<and> tcp_nodelay (conn_of s1) = 0 in
       if nodelay \<and> \<not> v_sockopt env then pgrest_http_conn_close env s1
       else
         let s2 = (if nodelay then upd_hconn (tcp_nodelay_update (\<lambda>_. PGREST_TCP_NODELAY_SET)) s1 else s1);
             s3 = s2\<lparr>cidle := True, hpool := pgrest_conn_reusable (ci s2) True (hpool s2)\<rparr> in
         bind_ub (add_rev env s3) (\<lambda>(ok, s4). if \<not> ok then pgrest_http_conn_close env s4 else Inr s4))"

definition pgrest_http_set_keepalive :: "v1_env \<Rightarrow> http_state \<Rightarrow> http_state run" where
  "pgrest_http_set_keepalive env s =
     with_req s (\<lambda>r.
     bind_ub (deref (hbuf s)) (\<lambda>b.
     bind_ub (pgrest_http_buffer_left r b) (\<lambda>(left, r1, b1).
     bind_ub
       (if left > 0 then
          (case request_body r1 of
             Some rb \<Rightarrow>
               (case (rb_split rb, rb_buffer rb) of
                  (True, Own ob) \<Rightarrow>
                    bind_ub (pgrest_buffer_reserve (v_mem env) b1 left) (\<lambda>(iov, b2).
                      if iov = None then Inr None else Inr (Some (store_bytes (take left (buf_data ob)) b2)))
                | _ \<Rightarrow> Inr (Some b1))
           | None \<Rightarrow> Inr (Some b1))
        else Inr (Some b1)) (\<lambda>ob.
     case ob of
       None \<Rightarrow> pgrest_http_close_request env 0 (s\<lparr>hreq := Some r1, prev_size := 0\<rparr>)
     | Some b2 \<Rightarrow>
         bind_ub (pgrest_http_free_request env 0 (s\<lparr>hreq := Some (r1\<lparr>rkeepalive := False\<rparr>), prev_size := 0, hparse := left > 0, hbuf := Some b2\<rparr>)) (\<lambda>s1.
         if left > 0 then
           bind_ub (pgrest_http_create_request env s1) (\<lambda>nr.
           case nr of
             None \<Rightarrow> pgrest_http_conn_close env s1
           | Some r2 \<Rightarrow>
               Inr (upd_hconn (sent_update (\<lambda>_. 0)) (s1\<lparr>hreq := Some (r2\<lparr>pipeline := True\<rparr>), destroyed := False, rhandler := HeaderHandler\<rparr>)))
         else bind_ub (deref (http_conf r)) (\<lambda>conf. keepalive_idle env conf s1))))))"

text \<open>
  The loop of \<^verbatim>\<open>pgrest_http_lingering_close_handler\<close>: it discards what arrives. The bound is the
  number of answers and bytes left, so it is never reached (each round takes at least one).
\<close>

definition PGREST_HTTP_LINGERING_BUFFER_SIZE :: nat where "PGREST_HTTP_LINGERING_BUFFER_SIZE = 4096"

fun rx_size :: "rx list \<Rightarrow> nat" where
  "rx_size [] = 0"
| "rx_size (Rx bs # rs) = Suc (length bs) + rx_size rs"
| "rx_size (RxFail e # rs) = Suc (rx_size rs)"

fun linger_loop :: "v1_env \<Rightarrow> nat \<Rightarrow> http_state \<Rightarrow> (bool \<times> http_state) run" where
  "linger_loop env 0 s = Inl NoReturn"
| "linger_loop env (Suc fuel) s =
     bind_ub (http_recv env PGREST_HTTP_LINGERING_BUFFER_SIZE s) (\<lambda>(n, _, s1).
       if n = PGREST_ERROR \<or> n = 0 then Inr (False, s1)
       else if ready (conn_of s1) then linger_loop env fuel s1
       else Inr (True, s1))"

text \<open>
  The clock is \<open>v_now\<close>; \<open>timer\<close> is computed on unsigned words, and its value as a signed
  word decides. Timeouts only matter to libevent and are left out.
\<close>

definition pgrest_http_lingering_close_handler :: "v1_env \<Rightarrow> bool \<Rightarrow> http_state \<Rightarrow> http_state run" where
  "pgrest_http_lingering_close_handler env timeout s =
     with_req s (\<lambda>r.
       if timeout \<or> rlingering_time r \<le> v_now env then pgrest_http_close_request env 0 s
       else
         bind_ub (linger_loop env (Suc (rx_size (rxs s))) s) (\<lambda>(go, s1).
           if \<not> go then pgrest_http_close_request env 0 s1
           else if http_conf r = None then Inl NullDeref
           else bind_ub (add_rev env s1) (\<lambda>(ok, s2). if \<not> ok then pgrest_http_close_request env 0 s2 else Inr s2)))"

text \<open>
  \<^verbatim>\<open>pgrest_http_set_lingering_close\<close> goes on after it has closed the request on a failure of the
  first two calls; the third call ends the function.
\<close>

definition pgrest_http_set_lingering_close :: "v1_env \<Rightarrow> http_state \<Rightarrow> http_state run" where
  "pgrest_http_set_lingering_close env s =
     with_req s (\<lambda>r.
     bind_ub (deref (http_conf r)) (\<lambda>conf.
     let s0 = upd_req (rlingering_time_update (\<lambda>_. v_now env + lingering_time conf div 1000)) (s\<lparr>rhandler := LingeringHandler\<rparr>) in
     bind_ub (add_rev env s0) (\<lambda>(ok, s1).
     bind_ub (if \<not> ok then pgrest_http_close_request env 0 s1 else Inr s1) (\<lambda>s2.
     bind_ub (if \<not> v_et env then del_wev env s2 else Inr (True, s2)) (\<lambda>(ok, s3).
     bind_ub (if \<not> ok then pgrest_http_close_request env 0 s3 else Inr s3) (\<lambda>s4.
       if cfd (conn_of s4) = None \<or> \<not> v_shutdown env then pgrest_http_close_request env 0 s4
       else if ready (conn_of s4) then pgrest_http_lingering_close_handler env False s4
       else Inr s4))))))"

definition pgrest_http_finalize_connection :: "v1_env \<Rightarrow> http_state \<Rightarrow> http_state run" where
  "pgrest_http_finalize_connection env s =
     with_req s (\<lambda>r.
       if rcount r \<noteq> 1 then pgrest_http_close_request env 0 s
       else bind_ub (if \<not> v_terminate env \<and> rkeepalive r then map_sum id (\<lambda>c. keepalive_timeout c > 0) (deref (http_conf r)) else Inr False) (\<lambda>keep.
         if keep then pgrest_http_set_keepalive env s
         else bind_ub (deref (http_conf r)) (\<lambda>conf.
           if lingering_close conf = PGREST_HTTP_LINGERING_ALWAYS then pgrest_http_set_lingering_close env s
           else if lingering_close conf = PGREST_HTTP_LINGERING_ON then
             (if rlingering r then pgrest_http_set_lingering_close env s
              else bind_ub (deref (hbuf s)) (\<lambda>b.
                bind_ub (pgrest_http_buffer_left r b) (\<lambda>(left, r1, b1).
                  let s1 = s\<lparr>hreq := Some r1, hbuf := Some b1\<rparr> in
                  if left > 0 \<or> ready (conn_of s1) then pgrest_http_set_lingering_close env s1
                  else pgrest_http_close_request env 0 s1)))
           else pgrest_http_close_request env 0 s)))"

text \<open>\<^verbatim>\<open>pgrest_http_finalize_request\<close> ignores the status.\<close>

definition pgrest_http_finalize_request :: "v1_env \<Rightarrow> int \<Rightarrow> http_state \<Rightarrow> http_state run" where
  "pgrest_http_finalize_request env rc s = pgrest_http_finalize_connection env s"

section \<open>Reading\<close>

datatype which = Head | Body

text \<open>The buffer a reader works on.\<close>

definition reader_buffer :: "which \<Rightarrow> http_state \<Rightarrow> pgrest_buffer run" where
  "reader_buffer w s =
     (case w of
        Head \<Rightarrow> deref (hbuf s)
      | Body \<Rightarrow>
          with_req s (\<lambda>r. bind_ub (deref (request_body r)) (\<lambda>rb.
            case rb_buffer rb of NoBuffer \<Rightarrow> Inl NullDeref | HeaderIn \<Rightarrow> deref (hbuf s) | Own b \<Rightarrow> Inr b)))"

definition set_reader_buffer :: "which \<Rightarrow> pgrest_buffer \<Rightarrow> http_state \<Rightarrow> http_state" where
  "set_reader_buffer w b s =
     (case w of
        Head \<Rightarrow> s\<lparr>hbuf := Some b\<rparr>
      | Body \<Rightarrow>
          (case hreq s of
             Some r \<Rightarrow>
               (case request_body r of
                  Some rb \<Rightarrow>
                    (case rb_buffer rb of
                       Own _ \<Rightarrow> s\<lparr>hreq := Some (r\<lparr>request_body := Some (rb\<lparr>rb_buffer := Own b\<rparr>)\<rparr>)\<rparr>
                     | _ \<Rightarrow> s\<lparr>hbuf := Some b\<rparr>)
                | None \<Rightarrow> s)
           | None \<Rightarrow> s))"

definition pgrest_http_read :: "v1_env \<Rightarrow> which \<Rightarrow> http_state \<Rightarrow> (int \<times> http_state) run" where
  "pgrest_http_read env w s =
     bind_ub (reader_buffer w s) (\<lambda>b.
       if hparse s then Inr (int (b_size b), s\<lparr>hparse := False\<rparr>)
       else
         bind_ub (if ready (conn_of s) then http_recv env (pgrest_buffer_free_size b) s else Inr (PGREST_AGAIN, [], s)) (\<lambda>(n, bs, s1).
           if n = PGREST_AGAIN then
             bind_ub (add_rev env s1) (\<lambda>(ok, s2).
               if \<not> ok then map_sum id (Pair PGREST_ERROR) (pgrest_http_close_request env 500 s2)
               else Inr (PGREST_AGAIN, s2))
           else if n = 0 \<or> n = PGREST_ERROR then
             map_sum id (Pair PGREST_ERROR) (pgrest_http_finalize_request env 400 (s1\<lparr>cerror := True\<rparr>))
           else Inr (n, set_reader_buffer w (store_bytes bs b) s1)))"

definition pgrest_http_extend_header_buffer :: "v1_env \<Rightarrow> http_state \<Rightarrow> (int \<times> http_state) run" where
  "pgrest_http_extend_header_buffer env s =
     bind_ub (deref (hbuf s)) (\<lambda>b.
       if int (b_size b) > client_max_header_size (default_server s) then Inr (PGREST_DECLINED, s)
       else
         let size = (if b_size b > b_capacity b div 2 then nat ALLOCSET_BUFFER_MINSIZE else b_capacity b div 2 - b_size b) in
         bind_ub (pgrest_buffer_reserve (v_mem env) b size) (\<lambda>(iov, b').
           if iov = None then Inr (PGREST_ERROR, s\<lparr>hbuf := Some b'\<rparr>) else Inr (PGREST_OK, s\<lparr>hbuf := Some b'\<rparr>)))"

text \<open>The second component says whether the buffer moved.\<close>

definition pgrest_http_extend_body_buffer :: "v1_env \<Rightarrow> http_state \<Rightarrow> (int \<times> bool \<times> http_state) run" where
  "pgrest_http_extend_body_buffer env s =
     bind_ub (reader_buffer Body s) (\<lambda>b.
     bind_ub (pgrest_buffer_reserve (v_mem env) b (nat ALLOCSET_BUFFER_MINSIZE)) (\<lambda>(iov, b').
       if iov = None then Inr (PGREST_ERROR, False, s)
       else Inr (PGREST_OK, b_capacity b' \<noteq> b_capacity b, set_reader_buffer Body b' s)))"

section \<open>Headers\<close>

text \<open>
  \<^verbatim>\<open>pgrest_http_process_host\<close>, with \<open>pgrest_http_validate_host\<close> and \<open>pgrest_http_set_virtual_server\<close>, which
  accept everything.
\<close>

definition pgrest_http_process_host :: "string \<Rightarrow> headers_in \<Rightarrow> headers_in" where
  "pgrest_http_process_host v h =
     (let h1 = (if hi_host h = None then h\<lparr>hi_host := Some v\<rparr> else h) in
      if hi_server h1 \<noteq> [] then h1 else h1\<lparr>hi_server := v\<rparr>)"

fun run_header_handler :: "header_handler \<Rightarrow> string \<Rightarrow> headers_in \<Rightarrow> headers_in" where
  "run_header_handler Process_host v h = pgrest_http_process_host v h"

text \<open>The loop of \<^verbatim>\<open>pgrest_http_init_headers\<close>; a continuation line has an empty name.\<close>

fun init_headers_loop :: "phr_header list \<Rightarrow> headers_in \<Rightarrow> headers_in" where
  "init_headers_loop [] h = h"
| "init_headers_loop (p # ps) h =
     (let key = pgrest_strtolower (case hname p of Some n \<Rightarrow> n | None \<Rightarrow> []);
          h1 = h\<lparr>hi_headers := hi_headers h @ [(key, hvalue p)]\<rparr>;
          h2 = (case pgrest_http_header_find_token key of
                  None \<Rightarrow> h1
                | Some i \<Rightarrow> (case handler (pgrest_header_tokens ! i) of None \<Rightarrow> h1 | Some f \<Rightarrow> run_header_handler f (hvalue p) h1))
      in init_headers_loop ps h2)"

definition pgrest_http_init_headers :: "v1_env \<Rightarrow> phr_header list \<Rightarrow> http_state \<Rightarrow> (bool \<times> http_state) run" where
  "pgrest_http_init_headers env hs s =
     (if \<not> v_alloc env then map_sum id (Pair False) (pgrest_http_close_request env 500 s)
      else with_req s (\<lambda>r. Inr (True, upd_req (headers_update (init_headers_loop hs)) s)))"

abbreviation nocase :: "string \<Rightarrow> string \<Rightarrow> bool" where
  "nocase v w \<equiv> pgrest_strtolower v = w"

definition pgrest_http_process_header :: "v1_env \<Rightarrow> phr_header list \<Rightarrow> http_state \<Rightarrow> (bool \<times> http_state) run" where
  "pgrest_http_process_header env hs s =
     bind_ub (pgrest_http_init_headers env hs s) (\<lambda>(ok, s1).
       if \<not> ok then Inr (False, s1)
       else with_req s1 (\<lambda>r.
         let h = headers r; refuse = (\<lambda>rc s'. map_sum id (Pair False) (pgrest_http_finalize_request env rc s')) in
         if hi_host h = None \<and> http_version r > PGREST_HTTP_VERSION_10 then refuse 400 s1
         else
           let h1 = (case hi_content_length h of None \<Rightarrow> h | Some v \<Rightarrow> h\<lparr>hi_content_length_n := pgrest_atoof v\<rparr>);
               s2 = upd_req (headers_update (\<lambda>_. h1)) s1 in
           if hi_content_length h \<noteq> None \<and> hi_content_length_n h1 = PGREST_ERROR then refuse 400 s2
           else if rmethod r = PGREST_HTTP_TRACE then refuse 405 s2
           else
             (case (case hi_transfer_encoding h1 of
                      None \<Rightarrow> Some h1
                    | Some v \<Rightarrow>
                        if nocase v ''chunked'' then Some (h1\<lparr>hi_content_length := None, hi_content_length_n := -1, hi_chunked := True\<rparr>)
                        else if nocase v ''identity'' then Some h1 else None) of
                None \<Rightarrow> refuse 501 s2
              | Some h2 \<Rightarrow>
                  let h3 = (if hi_connection_type h2 = PGREST_HTTP_CONNECTION_KEEP_ALIVE
                            then (case hi_keep_alive h2 of None \<Rightarrow> h2 | Some v \<Rightarrow> h2\<lparr>hi_keep_alive_n := pgrest_atotm v\<rparr>) else h2) in
                  Inr (True, upd_req (headers_update (\<lambda>_. h3)) s2))))"

definition continue_line :: "byte list" where
  "continue_line = ''HTTP/1.1 100 Continue'' @ [CR, LF, CR, LF]"

definition pgrest_http_test_expect :: "v1_env \<Rightarrow> http_state \<Rightarrow> (bool \<times> http_state) run" where
  "pgrest_http_test_expect env s =
     with_req s (\<lambda>r.
       case hi_expect (headers r) of
         None \<Rightarrow> Inr (True, s)
       | Some v \<Rightarrow>
           if expect_tested r \<or> http_version r < PGREST_HTTP_VERSION_11 then Inr (True, s)
           else
             let s1 = upd_req (expect_tested_update (\<lambda>_. True)) s in
             if \<not> nocase v ''100-continue'' then Inr (True, s1)
             else
               (case pgrest_conn_send (v_sends env) (conn_of s1) of
                  None \<Rightarrow> Inl NoReturn
                | Some (n, c) \<Rightarrow>
                    let s2 = upd_hconn (\<lambda>_. c) (s1\<lparr>hsent := hsent s1 @ take (nat n) continue_line\<rparr>) in
                    if n = int (length continue_line) then Inr (True, s2)
                    else map_sum id (Pair False) (pgrest_http_close_request env 500 s2)))"

definition pgrest_http_process_request :: "http_state \<Rightarrow> http_state run" where
  "pgrest_http_process_request s = with_req s (\<lambda>r. Inr (upd_req (\<lambda>r. r\<lparr>processed := processed r + 1\<rparr>) s))"

section \<open>The body\<close>

text \<open>The body and its buffer, for the two parsers. The result is a return code.\<close>

definition with_body :: "which \<Rightarrow> http_state \<Rightarrow> (http_request \<Rightarrow> request_body \<Rightarrow> pgrest_buffer \<Rightarrow> 'a run) \<Rightarrow> 'a run" where
  "with_body w s k = with_req s (\<lambda>r. bind_ub (deref (request_body r)) (\<lambda>rb. bind_ub (reader_buffer w s) (\<lambda>b. k r rb b)))"

abbreviation set_body :: "request_body \<Rightarrow> http_state \<Rightarrow> http_state" where
  "set_body rb s \<equiv> upd_req (request_body_update (\<lambda>_. Some rb)) s"

definition body_size :: "http_request \<Rightarrow> request_body \<Rightarrow> pgrest_buffer \<Rightarrow> nat" where
  "body_size r rb b = (if rb_split rb then b_size b else usub (b_size b) (request_length r))"

definition body_bytes :: "http_request \<Rightarrow> request_body \<Rightarrow> pgrest_buffer \<Rightarrow> nat \<Rightarrow> byte list" where
  "body_bytes r rb b n = take n (drop (b_pos b + (if rb_split rb then 0 else request_length r)) (b_start b))"

text \<open>
  The test of the size in \<^verbatim>\<open>pgrest_http_body_chunked\<close> is the condition of C: the comparison
  belongs to the third operand of the conditional expression.
\<close>

definition chunked_too_large :: "conf_http_server \<Rightarrow> http_request \<Rightarrow> request_body \<Rightarrow> pgrest_buffer \<Rightarrow> bool" where
  "chunked_too_large conf r rb b =
     (if rb_split rb then b_size b \<noteq> 0 else int (usub (b_size b) (request_length r)) \<ge> client_max_body_size conf)"

text \<open>One call of the decoder on the bytes not yet decoded, and what follows it.\<close>

definition decode_step ::
  "v1_env \<Rightarrow> which \<Rightarrow> http_request \<Rightarrow> request_body \<Rightarrow> pgrest_buffer \<Rightarrow> phr_chunked_decoder \<Rightarrow> http_state \<Rightarrow> (int \<times> http_state) run" where
  "decode_step env w r rb b d s =
     (let off = b_pos b + rb_decode_length rb; size = usub (b_size b) (rb_decode_length rb) in
      case phr_decode_chunked d (take size (drop off (b_start b))) of
        (n, d', data, size') \<Rightarrow>
          let b1 = b\<lparr>b_start := take off (b_start b) @ data @ drop (off + size) (b_start b)\<rparr> in
          if n = PGREST_ERROR then
            map_sum id (Pair PGREST_ERROR) (pgrest_http_finalize_request env 400 (set_reader_buffer w b1 (set_body (rb\<lparr>rb_chunked := Some d'\<rparr>) s)))
          else
            let rb2 = rb\<lparr>rb_chunked := Some d', rb_decode_length := rb_decode_length rb + size'\<rparr>;
                b2 = b1\<lparr>b_size := rb_decode_length rb2\<rparr>;
                s2 = set_reader_buffer w b2 (set_body rb2 s) in
            bind_ub (if rb_split rb2 then Inr (b_size b2 \<noteq> 0) else map_sum id (\<lambda>conf. chunked_too_large conf r rb2 b2) (deref (http_conf r))) (\<lambda>large.
            if large then map_sum id (Pair PGREST_ERROR) (pgrest_http_finalize_request env 413 s2)
            else if n = PGREST_AGAIN then Inr (PGREST_AGAIN, s2)
            else
              let entity = body_bytes r rb2 b2 (body_size r rb2 b2);
                  rb3 = rb2\<lparr>rb_rest := 0, rb_entity := entity\<rparr>;
                  r3 = r\<lparr>headers := (headers r)\<lparr>hi_content_length_n := int (length entity)\<rparr>,
                         request_length := request_length r + length entity, request_body := Some rb3\<rparr> in
              Inr (PGREST_OK, set_reader_buffer w (b2\<lparr>b_size := b_size b2 + nat n\<rparr>) (s2\<lparr>hreq := Some r3\<rparr>))))"

definition pgrest_http_body_chunked :: "v1_env \<Rightarrow> which \<Rightarrow> http_state \<Rightarrow> (int \<times> http_state) run" where
  "pgrest_http_body_chunked env w s0 =
     with_body w s0 (\<lambda>r0 rb0 b.
     let first = rb_rest rb0 = -1;
         rb1 = (if first then rb0\<lparr>rb_chunked := Some decoder0, rb_rest := 3, rb_decode_length := (if rb_split rb0 then 0 else request_length r0)\<rparr> else rb0);
         r1 = (if first then r0\<lparr>headers := (headers r0)\<lparr>hi_content_length_n := 0\<rparr>\<rparr> else r0);
         s1 = s0\<lparr>hreq := Some (r1\<lparr>request_body := Some rb1\<rparr>)\<rparr> in
     if first \<and> \<not> v_alloc env then map_sum id (Pair PGREST_ERROR) (pgrest_http_finalize_request env 500 s0)
     else if usub (b_size b) (rb_decode_length rb1) = 0 then Inr (PGREST_AGAIN, s1)
     else bind_ub (deref (rb_chunked rb1)) (\<lambda>d. decode_step env w r1 rb1 b d s1))"

definition pgrest_http_body_length :: "v1_env \<Rightarrow> which \<Rightarrow> http_state \<Rightarrow> (int \<times> http_state) run" where
  "pgrest_http_body_length env w s =
     with_body w s (\<lambda>r rb b.
     bind_ub (deref (http_conf r)) (\<lambda>conf.
       let size = body_size r rb b; cl = hi_content_length_n (headers r) in
       if client_max_body_size conf < int size then map_sum id (Pair PGREST_ERROR) (pgrest_http_finalize_request env 413 s)
       else
         let rb1 = (if rb_rest rb = -1 then rb\<lparr>rb_rest := cl\<rparr> else rb) in
         if int size < rb_rest rb1 then Inr (PGREST_AGAIN, set_body rb1 s)
         else
           let rb2 = rb1\<lparr>rb_rest := 0, rb_entity := body_bytes r rb1 b (nat cl)\<rparr> in
           Inr (PGREST_OK, s\<lparr>hreq := Some (r\<lparr>request_body := Some rb2, request_length := request_length r + nat cl\<rparr>)\<rparr>)))"

definition pgrest_http_body_parser :: "v1_env \<Rightarrow> which \<Rightarrow> http_state \<Rightarrow> (int \<times> http_state) run" where
  "pgrest_http_body_parser env w s =
     with_req s (\<lambda>r. if hi_chunked (headers r) then pgrest_http_body_chunked env w s else pgrest_http_body_length env w s)"

section \<open>Progress of the input\<close>

lemma with_req_Inr: "with_req s f = Inr z \<longleftrightarrow> (\<exists>r. hreq s = Some r \<and> f r = Inr z)"
  by (simp add: with_req_def split: option.split)

lemmas run_Inr = bind_ub_Inr map_sum_Inr with_req_Inr

lemma rx_take_size: "rx_size (snd (rx_take sz rs)) \<le> rx_size rs"
  by (induction sz rs rule: rx_take.induct) (auto simp: min_def)

lemma recv_loop_size:
  "recv_loop et sz (rx_results sz rs) = Some (n, k) \<Longrightarrow> 0 < n \<Longrightarrow>
     n = int (length (fst (rx_take sz rs))) \<and> rx_size (snd (rx_take sz rs)) < rx_size rs"
  by (induction sz rs rule: rx_take.induct)
    (auto simp: ERR_RW_RETRIABLE_def PGREST_ERROR_def PGREST_AGAIN_def less_Suc_eq_le split: if_splits)

lemma recv_loop_values:
  "recv_loop et sz (rx_results sz rs) = Some (n, k) \<Longrightarrow> n = PGREST_ERROR \<or> n = PGREST_AGAIN \<or> 0 \<le> n"
  by (induction sz rs rule: rx_take.induct) (auto simp: ERR_RW_RETRIABLE_def split: if_splits)

lemma http_recv_size:
  assumes "http_recv env sz s = Inr (n, bs, s')" "0 < n"
  shows "n = int (length bs) \<and> rx_size (rxs s') < rx_size (rxs s) \<and> hparse s' = hparse s \<and> hbuf s' = hbuf s \<and> hreq s' = hreq s"
  using assms recv_loop_size [of "v_et env" sz "rxs s" n]
  by (auto simp: http_recv_def pgrest_conn_recv_def split: option.splits prod.splits)

lemma http_recv_values: "http_recv env sz s = Inr (n, bs, s') \<Longrightarrow> n = PGREST_ERROR \<or> n = PGREST_AGAIN \<or> 0 \<le> n"
  using recv_loop_values [of "v_et env" sz "rxs s"]
  by (auto simp: http_recv_def pgrest_conn_recv_def split: option.splits prod.splits)

definition input_left :: "http_state \<Rightarrow> nat" where
  "input_left s = 2 * rx_size (rxs s) + (if hparse s then 1 else 0)"

lemma set_reader_buffer_keeps [simp]:
  "rxs (set_reader_buffer w b s) = rxs s" "hparse (set_reader_buffer w b s) = hparse s"
  by (simp_all add: set_reader_buffer_def split: which.split option.split body_buffer.split)

text \<open>A read that returns data has used up some of the input.\<close>

lemma http_read_progress:
  assumes "pgrest_http_read env w s = Inr (n, s')" "n \<noteq> PGREST_AGAIN" "n \<noteq> PGREST_ERROR"
  shows "input_left s' < input_left s"
proof (cases "hparse s")
  case True
  with assms show ?thesis by (auto simp: pgrest_http_read_def run_Inr input_left_def)
next
  case False
  with assms obtain b bs s1 where "http_recv env (pgrest_buffer_free_size b) s = Inr (n, bs, s1)" "n \<noteq> 0" "s' = set_reader_buffer w (store_bytes bs b) s1"
    by (auto simp: pgrest_http_read_def run_Inr split: if_splits)
  moreover from this(1,2) assms(2,3) have "0 < n" using http_recv_values by force
  ultimately show ?thesis using http_recv_size False by (fastforce simp: input_left_def)
qed

lemma extend_header_progress: "pgrest_http_extend_header_buffer env s = Inr (rc, s') \<Longrightarrow> input_left s' = input_left s"
  by (auto simp: pgrest_http_extend_header_buffer_def run_Inr input_left_def Let_def split: if_splits)

section \<open>The handlers\<close>

lemma input_left_simps [simp]:
  "input_left (s\<lparr>hreq := r\<rparr>) = input_left s" "input_left (s\<lparr>prev_size := n\<rparr>) = input_left s" "input_left (set_reader_buffer w b s) = input_left s"
  by (simp_all add: input_left_def)

lemma decode_step_progress:
  assumes "decode_step env w r rb b d s = Inr (PGREST_AGAIN, s')"
  shows "input_left s' = input_left s"
proof -
  let ?size = "usub (b_size b) (rb_decode_length rb)"
  obtain n d' data size' where dec: "phr_decode_chunked d (take ?size (drop (b_pos b + rb_decode_length rb) (b_start b))) = (n, d', data, size')"
    by (metis prod_cases4)
  show ?thesis using assms unfolding decode_step_def Let_def dec
    by (auto simp: run_Inr PGREST_AGAIN_def PGREST_ERROR_def PGREST_OK_def split: if_splits)
qed

lemma body_chunked_progress:
  "pgrest_http_body_chunked env w s = Inr (PGREST_AGAIN, s') \<Longrightarrow> input_left s' = input_left s"
  by (auto simp: pgrest_http_body_chunked_def with_body_def run_Inr Let_def PGREST_AGAIN_def PGREST_ERROR_def
      dest!: decode_step_progress [unfolded PGREST_AGAIN_def] split: if_splits)

lemma body_length_progress:
  "pgrest_http_body_length env w s = Inr (PGREST_AGAIN, s') \<Longrightarrow> input_left s' = input_left s"
  by (auto simp: pgrest_http_body_length_def with_body_def run_Inr input_left_def Let_def PGREST_AGAIN_def PGREST_ERROR_def PGREST_OK_def
      split: if_splits)

lemma body_parser_progress:
  "pgrest_http_body_parser env w s = Inr (PGREST_AGAIN, s') \<Longrightarrow> input_left s' = input_left s"
  by (auto simp: pgrest_http_body_parser_def run_Inr dest: body_chunked_progress body_length_progress split: if_splits)

lemma extend_body_progress: "pgrest_http_extend_body_buffer env s = Inr (rc, m, s') \<Longrightarrow> input_left s' = input_left s"
  by (auto simp: pgrest_http_extend_body_buffer_def run_Inr input_left_def split: if_splits)

text \<open>
  The loop of \<^verbatim>\<open>pgrest_http_entity_handler\<close>. The pointer \<open>buf\<close> is read before the loop, and
  \<open>buf_freed\<close> says that the object it points to has been replaced since.
\<close>

function entity_loop :: "v1_env \<Rightarrow> bool \<Rightarrow> http_state \<Rightarrow> http_state run" where
  "entity_loop env buf_freed s =
     bind_ub (pgrest_http_read env Body s) (\<lambda>(n, s1).
       if n = PGREST_AGAIN \<or> n = PGREST_ERROR then Inr s1
       else bind_ub (pgrest_http_body_parser env Body s1) (\<lambda>(rc, s2).
         if rc = PGREST_OK then pgrest_http_process_request s2
         else if rc = PGREST_ERROR then Inr s2
         else if rc \<noteq> PGREST_AGAIN then Inr s2
         else if buf_freed then Inl Freed
         else bind_ub (reader_buffer Body s2) (\<lambda>b.
           if b_size b = b_capacity b then
             bind_ub (pgrest_http_extend_body_buffer env s2) (\<lambda>(rc, moved, s3).
               if rc = PGREST_ERROR then pgrest_http_finalize_request env 500 s3
               else entity_loop env moved s3)
           else entity_loop env False s2)))"
  by pat_completeness auto
termination
  by (relation "measure (\<lambda>(env, f, s). input_left s)")
    (auto dest!: http_read_progress body_parser_progress extend_body_progress)

declare entity_loop.simps [simp del]

definition pgrest_http_entity_handler :: "v1_env \<Rightarrow> bool \<Rightarrow> http_state \<Rightarrow> http_state run" where
  "pgrest_http_entity_handler env timeout s =
     with_req s (\<lambda>r.
       if timeout then pgrest_http_finalize_request env 408 (s\<lparr>timedout := True\<rparr>)
       else if request_body r = None then Inl NullDeref
       else if http_conf r = None then Inl NullDeref
       else entity_loop env False s)"

definition body0 :: request_body where
  "body0 = \<lparr>rb_buffer = NoBuffer, rb_entity = [], rb_rest = -1, rb_chunked = None, rb_decode_length = 0, rb_split = False\<rparr>"

text \<open>
  \<^verbatim>\<open>pgrest_http_process_entity\<close> after the first look at the bytes that came with the head:
  \<open>left\<close> is the number of bytes still to come, as far as it is known.
\<close>

definition prepare_body :: "v1_env \<Rightarrow> nat \<Rightarrow> nat \<Rightarrow> http_state \<Rightarrow> http_state run" where
  "prepare_body env preread left s =
     with_req s (\<lambda>r. bind_ub (deref (request_body r)) (\<lambda>rb. bind_ub (deref (hbuf s)) (\<lambda>b.
       if left \<noteq> 0 \<and> left \<le> pgrest_buffer_free_size b then
         pgrest_http_entity_handler env False (set_body (rb\<lparr>rb_buffer := HeaderIn, rb_split := False\<rparr>) (s\<lparr>rhandler := EntityHandler\<rparr>))
       else bind_ub (deref (http_conf r)) (\<lambda>conf.
         case pgrest_buffer_create (v_mem env) (nat (client_body_buffer_size conf)) of
           None \<Rightarrow> pgrest_http_finalize_request env 500 s
         | Some nb \<Rightarrow>
             if preread = 0 then
               pgrest_http_entity_handler env False (set_body (rb\<lparr>rb_buffer := Own nb, rb_split := True\<rparr>) (s\<lparr>rhandler := EntityHandler\<rparr>))
             else
               bind_ub (pgrest_buffer_reserve (v_mem env) nb preread) (\<lambda>(iov, nb1).
                 if iov = None then pgrest_http_finalize_request env 500 (set_body (rb\<lparr>rb_buffer := Own nb1\<rparr>) s)
                 else
                   let nb2 = store_bytes (take preread (drop (b_pos b + request_length r) (b_start b))) (nb1\<lparr>b_size := 0\<rparr>);
                       b1 = b\<lparr>b_size := request_length r\<rparr> in
                   pgrest_http_entity_handler env False
                     (set_body (rb\<lparr>rb_buffer := Own nb2, rb_split := True\<rparr>) (s\<lparr>rhandler := EntityHandler, hbuf := Some b1\<rparr>)))))))"

text \<open>\<open>PGREST_OK\<close> falls through to the \<open>return\<close> of \<open>PGREST_ERROR\<close>.\<close>

definition pgrest_http_process_entity :: "v1_env \<Rightarrow> http_state \<Rightarrow> http_state run" where
  "pgrest_http_process_entity env s0 =
     with_req s0 (\<lambda>r.
       if \<not> v_alloc env then pgrest_http_finalize_request env 500 s0
       else bind_ub (deref (hbuf s0)) (\<lambda>b.
         let s = set_body body0 s0; preread = usub (b_size b) (request_length r);
             todo = (\<lambda>s'. case hreq s' of None \<Rightarrow> 0 | Some r' \<Rightarrow> nat (hi_content_length_n (headers r') mod 2 ^ 64)) in
         if preread \<noteq> 0 then
           bind_ub (pgrest_http_body_parser env Head s) (\<lambda>(rc, s1).
             if rc = PGREST_OK then pgrest_http_process_request s1
             else if rc = PGREST_ERROR then Inr s1
             else prepare_body env preread (if \<not> hi_chunked (headers r) then usub (todo s1) preread else 0) s1)
         else prepare_body env preread (if \<not> hi_chunked (headers r) then todo s else 0) s))"

definition http2_preface :: "byte list" where "http2_preface = ''PRI * HTTP/2''"

definition PGREST_HTTP_MAX_HEADERS :: nat where "PGREST_HTTP_MAX_HEADERS = 20"

text \<open>A complete head: the code behind \<open>default\<close> in the switch of \<^verbatim>\<open>pgrest_http_header_handler\<close>.\<close>

definition head_complete :: "v1_env \<Rightarrow> nat \<Rightarrow> phr_request \<Rightarrow> http_state \<Rightarrow> http_state run" where
  "head_complete env n q s =
     bind_ub (pgrest_http_process_header env (pheaders q)
       (upd_req (\<lambda>r. r\<lparr>rpath := ppath q, request_length := n, http_version := (if pminor q \<noteq> 0 then 0x101 else 0x100)\<rparr>) s)) (\<lambda>(ok, s1).
       if \<not> ok then Inr s1
       else with_req s1 (\<lambda>r.
         if hi_content_length_n (headers r) \<noteq> -1 \<or> hi_chunked (headers r) then
           bind_ub (pgrest_http_test_expect env s1) (\<lambda>(ok, s2). if \<not> ok then Inr s2 else pgrest_http_process_entity env s2)
         else pgrest_http_process_request (upd_req (header_only_update (\<lambda>_. True)) s1)))"

text \<open>
  The loop of \<^verbatim>\<open>pgrest_http_header_handler\<close>. \<open>num\<close> is the variable \<open>num_headers\<close>, which each call
  of the parser reads as the size of the array and overwrites.
\<close>

function header_loop :: "v1_env \<Rightarrow> nat \<Rightarrow> http_state \<Rightarrow> http_state run" where
  "header_loop env num s =
     bind_ub (pgrest_http_read env Head s) (\<lambda>(n, s1).
       if n = PGREST_AGAIN \<or> n = PGREST_ERROR then Inr s1
       else bind_ub (deref (hbuf s1)) (\<lambda>b.
         bind_ub (phr_parse_request (v_sse env) (buf_data b) num (prev_size s1)) (\<lambda>(num', result, q).
           let s2 = s1\<lparr>prev_size := b_size b\<rparr> in
           case q of
             Some q \<Rightarrow> head_complete env (nat result) q s2
           | None \<Rightarrow>
               if result = PGREST_AGAIN then
                 (if pgrest_buffer_free_size b < 1 then
                    bind_ub (pgrest_http_extend_header_buffer env s2) (\<lambda>(rv, s3).
                      if rv = PGREST_ERROR then pgrest_http_close_request env 500 s3
                      else if rv = PGREST_DECLINED then pgrest_http_finalize_request env 494 (upd_req (rlingering_update (\<lambda>_. True)) s3)
                      else header_loop env num' s3)
                  else header_loop env num' s2)
               else if take (length http2_preface) (buf_data b) = http2_preface then Inr s2
               else pgrest_http_finalize_request env 400 s2)))"
  by pat_completeness auto
termination
  by (relation "measure (\<lambda>(env, num, s). input_left s)") (auto dest!: http_read_progress extend_header_progress)

declare header_loop.simps [simp del]

definition pgrest_http_header_handler :: "v1_env \<Rightarrow> bool \<Rightarrow> http_state \<Rightarrow> http_state run" where
  "pgrest_http_header_handler env timeout s =
     with_req s (\<lambda>r.
       if timeout then pgrest_http_close_request env 408 (s\<lparr>timedout := True\<rparr>)
       else header_loop env PGREST_HTTP_MAX_HEADERS s)"

text \<open>
  \<^verbatim>\<open>pgrest_http_init_handler\<close>: the first bytes of a connection. It marks the connection as reusable
  also when it has just closed it.
\<close>

definition first_bytes :: "v1_env \<Rightarrow> http_state \<Rightarrow> http_state run" where
  "first_bytes env s =
     bind_ub (pgrest_http_create_request env s) (\<lambda>nr.
       case nr of
         None \<Rightarrow> pgrest_http_conn_close env s
       | Some r \<Rightarrow> pgrest_http_header_handler env False (s\<lparr>hreq := Some r, hparse := True, rhandler := HeaderHandler\<rparr>))"

definition pgrest_http_init_handler :: "v1_env \<Rightarrow> bool \<Rightarrow> http_state \<Rightarrow> http_state run" where
  "pgrest_http_init_handler env timeout s =
     (if timeout \<or> cclose (conn_of s) then pgrest_http_conn_close env s
      else
        let sz = nat (client_header_buffer_size (default_server s)) in
        case (case hbuf s of None \<Rightarrow> pgrest_buffer_create (v_mem env) sz | Some b \<Rightarrow> Some b) of
          None \<Rightarrow> pgrest_http_conn_close env s
        | Some b \<Rightarrow>
            bind_ub (http_recv env sz (s\<lparr>hbuf := Some b\<rparr>)) (\<lambda>(n, bs, s1).
              if n = PGREST_AGAIN then
                bind_ub (add_rev env s1) (\<lambda>(ok, s2).
                bind_ub (if \<not> ok then pgrest_http_conn_close env s2 else Inr s2) (\<lambda>s3.
                  Inr (s3\<lparr>hpool := pgrest_conn_reusable (ci s3) True (hpool s3)\<rparr>)))
              else if n = PGREST_ERROR \<or> n = 0 then pgrest_http_conn_close env s1
              else first_bytes env (s1\<lparr>hbuf := Some (store_bytes bs b), hpool := pgrest_conn_reusable (ci s1) False (hpool s1)\<rparr>)))"

text \<open>\<^verbatim>\<open>pgrest_http_keepalive_handler\<close> leaves \<open>hconn->parse\<close> as it is.\<close>

definition pgrest_http_keepalive_handler :: "v1_env \<Rightarrow> bool \<Rightarrow> http_state \<Rightarrow> http_state run" where
  "pgrest_http_keepalive_handler env timeout s =
     (if timeout \<or> cclose (conn_of s) then pgrest_http_conn_close env s
      else bind_ub (deref (hbuf s)) (\<lambda>b.
        bind_ub (http_recv env (b_capacity b) s) (\<lambda>(n, bs, s1).
          if n = PGREST_AGAIN then
            bind_ub (add_rev env s1) (\<lambda>(ok, s2). if \<not> ok then pgrest_http_conn_close env s2 else Inr s2)
          else if n = PGREST_ERROR \<or> n = 0 then pgrest_http_conn_close env s1
          else
            let s2 = s1\<lparr>hbuf := Some (store_bytes bs b), cidle := False, hpool := pgrest_conn_reusable (ci s1) False (hpool s1)\<rparr> in
            bind_ub (pgrest_http_create_request env s2) (\<lambda>nr.
              case nr of
                None \<Rightarrow> pgrest_http_conn_close env s2
              | Some r \<Rightarrow>
                  pgrest_http_header_handler env False
                    (upd_hconn (sent_update (\<lambda>_. 0)) (s2\<lparr>hreq := Some r, destroyed := False, rhandler := HeaderHandler\<rparr>))))))"

text \<open>
  \<^verbatim>\<open>pgrest_http_conn_init\<close>: the server of the local address; the last address of a port is the
  wildcard. \<open>pas\<close> are the addresses of the port with their server and the flag \<open>http2\<close>.
\<close>

definition same_ip :: "sockaddr \<Rightarrow> sockaddr \<Rightarrow> bool" where
  "same_ip x y = (case (x, y) of (AF_INET _ a, AF_INET _ b) \<Rightarrow> a = b | (AF_INET6 _ a, AF_INET6 _ b) \<Rightarrow> a = b | _ \<Rightarrow> False)"

fun pick_addr :: "sockaddr \<Rightarrow> (sockaddr \<times> 'c) list \<Rightarrow> 'c option" where
  "pick_addr sa [] = None"
| "pick_addr sa [(a, c)] = Some c"
| "pick_addr sa ((a, c) # rest) = (if same_ip a sa then Some c else pick_addr sa rest)"

text \<open>The end of the function, behind the choice of the server: reading at once or waiting for the first bytes.\<close>

definition conn_start :: "v1_env \<Rightarrow> bool \<Rightarrow> bool \<Rightarrow> http_state \<Rightarrow> http_state run" where
  "conn_start env deferred http2 s =
     (if deferred then
        (if http2 then Inr (upd_hconn (ready_update (\<lambda>_. True)) s)
         else pgrest_http_init_handler env False (upd_hconn (ready_update (\<lambda>_. True)) s))
      else
        let s1 = s\<lparr>hpool := pgrest_conn_reusable (ci s) True (hpool s)\<rparr> in
        if wev_ev (conn_of s1) = None then Inl NullDeref
        else bind_ub (add_rev env s1) (\<lambda>(ok, s2). if \<not> ok then pgrest_http_conn_close env s2 else Inr s2))"

definition conn_server :: "v1_env \<Rightarrow> (sockaddr \<times> conf_http_server \<times> bool) list \<Rightarrow> bool \<Rightarrow> pgrest_connection \<Rightarrow> http_state \<Rightarrow> http_state run" where
  "conn_server env pas deferred c s =
     bind_ub (deref (local_sockaddr c)) (\<lambda>sa.
     bind_ub (deref (if length pas > 1 then pick_addr sa pas else map_option snd (case pas of [] \<Rightarrow> None | a # _ \<Rightarrow> Some a))) (\<lambda>(conf, http2).
       conn_start env deferred http2 (s\<lparr>default_server := conf, prev_size := 0, hparse := False, rhandler := (if http2 then V2Handler else InitHandler)\<rparr>)))"

definition pgrest_http_conn_init ::
  "v1_env \<Rightarrow> inet_lib \<Rightarrow> (sockaddr \<times> nat) option \<Rightarrow> (sockaddr \<times> conf_http_server \<times> bool) list \<Rightarrow> bool \<Rightarrow> http_state \<Rightarrow> http_state run" where
  "pgrest_http_conn_init env lib getsockname pas deferred s =
     (if \<not> v_alloc env then pgrest_http_conn_close env s
      else if rev_ev (conn_of s) = None then Inl NullDeref
      else
        bind_ub (if length pas > 1 then pgrest_conn_local_sockaddr lib getsockname (v_alloc env) None False (conn_of s)
                 else Inr (True, None, conn_of s)) (\<lambda>(ok, _, c).
          let s1 = upd_hconn (\<lambda>_. c) s in
          if \<not> ok then pgrest_http_conn_close env s1
          else conn_server env pas deferred c s1))"

text \<open>The handler behind \<open>pgrest_http_read_handler\<close>, which first sets \<open>ready\<close>.\<close>

fun run_rev_handler :: "rev_handler \<Rightarrow> v1_env \<Rightarrow> bool \<Rightarrow> http_state \<Rightarrow> http_state run" where
  "run_rev_handler InitHandler env t s = pgrest_http_init_handler env t s"
| "run_rev_handler HeaderHandler env t s = pgrest_http_header_handler env t s"
| "run_rev_handler EntityHandler env t s = pgrest_http_entity_handler env t s"
| "run_rev_handler KeepaliveHandler env t s = pgrest_http_keepalive_handler env t s"
| "run_rev_handler LingeringHandler env t s = pgrest_http_lingering_close_handler env t s"
| "run_rev_handler V2Handler env t s = Inr s"

definition pgrest_http_read_handler :: "v1_env \<Rightarrow> bool \<Rightarrow> http_state \<Rightarrow> http_state run" where
  "pgrest_http_read_handler env timeout s = run_rev_handler (rhandler s) env timeout (upd_hconn (ready_update (\<lambda>_. True)) s)"

end
