(* ===== verification/HttpServe.thy ===== *)
theory HttpServe
  imports HttpV1 ConfInv
begin

text \<open>
  What happens to a request from the first bytes of a connection on: a well-formed head is parsed
  and handed to the request processing, a malformed one and a head that arrives in several
  reads are not handled the way the code means to.
\<close>

section \<open>The first read\<close>

text \<open>A new connection: the pool entry has its events, nothing is buffered, and the allocations succeed.\<close>

definition new_connection :: "v1_env \<Rightarrow> http_state \<Rightarrow> bool" where
  "new_connection env s \<longleftrightarrow> ci s < length (conns (hpool s)) \<and> \<not> cclose (conn_of s) \<and> rev_ev (conn_of s) \<noteq> None \<and>
     hbuf s = None \<and> prev_size s = 0 \<and> v_alloc env \<and> alloc_limit (be_mem (v_mem env)) \<and>
     client_header_buffer_size (default_server s) < 2 ^ 63 \<and>
     pgrest_util_alloc (be_mem (v_mem env)) (uadd buffer_header (nat (client_header_buffer_size (default_server s))))"

lemma http_recv_data:
  assumes "rxs s = Rx bs # rest" "bs \<noteq> []" "length bs \<le> sz"
  shows "\<exists>c. http_recv env sz s = Inr (int (length bs), bs, upd_hconn (\<lambda>_. c) (s\<lparr>rxs := rest\<rparr>)) \<and>
    (c = conn_of s \<or> c = (conn_of s)\<lparr>ready := False\<rparr>)"
proof -
  let ?c = "if length bs < sz \<and> \<not> v_et env then (conn_of s)\<lparr>ready := False\<rparr> else conn_of s"
  have "pgrest_conn_recv (v_et env) sz (rx_results sz (rxs s)) (conn_of s) = Some (int (length bs), ?c)"
    using assms by (simp add: pgrest_conn_recv_def)
  moreover have "rx_take sz (rxs s) = (bs, rest)" using assms by simp
  ultimately have "http_recv env sz s = Inr (int (length bs), bs, upd_hconn (\<lambda>_. ?c) (s\<lparr>rxs := rest\<rparr>))"
    by (simp add: http_recv_def)
  then show ?thesis by (intro exI [of _ ?c]) simp
qed

lemma store_bytes_data:
  assumes "buffer_wf b" "b_pos b + b_size b + length bs \<le> b_capacity b"
  shows "buf_data (store_bytes bs b) = buf_data b @ bs \<and> buffer_wf (store_bytes bs b) \<and> b_size (store_bytes bs b) = b_size b + length bs"
proof -
  from assms have l: "length (take (b_pos b + b_size b) (b_start b)) = b_pos b + b_size b" by (simp add: buffer_wf_def)
  have "buf_data (store_bytes bs b) = take (b_size b + length bs) (drop (b_pos b) (take (b_pos b + b_size b) (b_start b)) @ bs @ drop (b_pos b + b_size b + length bs) (b_start b))"
    using l by (simp add: buf_data_def store_bytes_def)
  moreover have "length (drop (b_pos b) (take (b_pos b + b_size b) (b_start b))) = b_size b" using l by simp
  ultimately have "buf_data (store_bytes bs b) = buf_data b @ bs" by (simp add: buf_data_def drop_take)
  with assms show ?thesis by (auto simp: store_bytes_def buffer_wf_def)
qed

lemma reusable_rev [simp]:
  "i < length (conns p) \<Longrightarrow> rev_ev (conns (pgrest_conn_reusable i r p) ! i) = rev_ev (conns p ! i)"
  by (simp add: pgrest_conn_reusable_def Let_def)

text \<open>What the first read leaves for the header handler.\<close>

definition first_read :: "byte list \<Rightarrow> http_state \<Rightarrow> bool" where
  "first_read bs s \<longleftrightarrow> hparse s \<and> prev_size s = 0 \<and>
     (\<exists>b. hbuf s = Some b \<and> buf_data b = bs \<and> b_size b = length bs) \<and>
     (\<exists>r. hreq s = Some r \<and> headers r = zero_headers_in \<and> http_conf r = None \<and> rcount r = 1 \<and> rmethod r = PGREST_HTTP_UNKNOWN \<and>
        processed r = 0 \<and> \<not> rkeepalive r \<and> request_body r = None)"

lemma http_recv_full:
  assumes "rxs s = Rx (bs @ more_bs) # rest" "length bs = sz" "bs \<noteq> []" "more_bs \<noteq> []"
  shows "http_recv env sz s = Inr (int (length bs), bs, s\<lparr>rxs := Rx more_bs # rest\<rparr>)"
proof -
  have "0 < sz" using assms(2,3) by auto
  with assms show ?thesis by (simp add: http_recv_def pgrest_conn_recv_def)
qed

text \<open>The state in which the first read calls the header handler.\<close>

lemma init_handler_reads:
  assumes new: "new_connection env s" and sz: "sz = nat (client_header_buffer_size (default_server s))" "0 < length bs" "length bs \<le> sz"
    and recv: "\<And>b. http_recv env sz (s\<lparr>hbuf := Some b\<rparr>) = Inr (int (length bs), bs, upd_hconn (\<lambda>_. c) (s\<lparr>hbuf := Some b, rxs := rest\<rparr>))"
    and c: "rev_ev c = rev_ev (conn_of s)"
  shows "\<exists>s'. pgrest_http_init_handler env False s = header_loop env PGREST_HTTP_MAX_HEADERS s' \<and> first_read bs s' \<and> rxs s' = rest \<and>
    (\<exists>b. hbuf s' = Some b \<and> buffer_wf b \<and> b_capacity b = sz \<and> b_fd b = None \<and> b_pos b = 0) \<and> ready (conn_of s') = ready c \<and> pool_alive s' = pool_alive s"
proof -
  from new sz(1) obtain b where b: "pgrest_buffer_create (v_mem env) sz = Some b" "b_pos b = 0" "b_size b = 0" "b_fd b = None"
    by (auto simp: new_connection_def pgrest_buffer_create_def)
  have "client_header_buffer_size (default_server s) < 2 ^ 63" using new by (simp add: new_connection_def)
  then have "sz < 2 ^ 63" unfolding sz(1) by (cases "0 \<le> client_header_buffer_size (default_server s)") (simp_all add: nat_less_iff)
  with create_spec [OF b(1)] new have wf: "buffer_wf b" "buf_data b = []" "b_capacity b = sz" by (simp_all add: new_connection_def)
  from store_bytes_data [OF wf(1), of bs] b wf sz(3) have st: "buf_data (store_bytes bs b) = bs" "b_size (store_bytes bs b) = length bs"
    "buffer_wf (store_bytes bs b)" by simp_all
  have st': "b_capacity (store_bytes bs b) = sz" "b_fd (store_bytes bs b) = None" "b_pos (store_bytes bs b) = 0"
    using b wf by (simp_all add: store_bytes_def)
  let ?s1 = "upd_hconn (\<lambda>_. c) (s\<lparr>hbuf := Some b, rxs := rest\<rparr>)"
  let ?s2 = "?s1\<lparr>hbuf := Some (store_bytes bs b), hpool := pgrest_conn_reusable (ci ?s1) False (hpool ?s1)\<rparr>"
  have n: "int (length bs) \<noteq> PGREST_AGAIN" "int (length bs) \<noteq> PGREST_ERROR" "int (length bs) \<noteq> 0"
    using sz(2) by (simp_all add: PGREST_AGAIN_def PGREST_ERROR_def)
  from new have "pgrest_http_init_handler env False s = first_bytes env ?s2"
    using recv [of b] b(1) n unfolding sz(1) by (simp add: pgrest_http_init_handler_def new_connection_def Let_def)
  moreover have "rev_ev (conn_of ?s2) \<noteq> None" using new c by (auto simp: new_connection_def)
  then obtain r where r: "pgrest_http_create_request env ?s2 = Inr (Some r)" "headers r = zero_headers_in \<and> http_conf r = None \<and> rcount r = 1 \<and> rmethod r = PGREST_HTTP_UNKNOWN \<and>
        processed r = 0 \<and> \<not> rkeepalive r \<and> request_body r = None"
    using new by (simp add: pgrest_http_create_request_def new_connection_def)
  let ?s3 = "?s2\<lparr>hreq := Some r, hparse := True, rhandler := HeaderHandler\<rparr>"
  from calculation r(1) have "pgrest_http_init_handler env False s = header_loop env PGREST_HTTP_MAX_HEADERS ?s3"
    by (simp add: first_bytes_def pgrest_http_header_handler_def with_req_def)
  moreover have "first_read bs ?s3" using r(2) st new by (simp add: first_read_def new_connection_def)
  moreover have "ready (conn_of ?s3) = ready c" using new by (simp add: new_connection_def pgrest_conn_reusable_def Let_def)
  ultimately show ?thesis using st st' by (intro exI [of _ ?s3]) simp
qed

lemma init_handler_first:
  assumes "new_connection env s" "rxs s = Rx bs # rest" "bs \<noteq> []" "length bs \<le> nat (client_header_buffer_size (default_server s))"
  shows "\<exists>s'. pgrest_http_init_handler env False s = header_loop env PGREST_HTTP_MAX_HEADERS s' \<and> first_read bs s'"
proof -
  let ?sz = "nat (client_header_buffer_size (default_server s))"
  obtain c where c: "\<And>b. http_recv env ?sz (s\<lparr>hbuf := Some b\<rparr>) = Inr (int (length bs), bs, upd_hconn (\<lambda>_. c) (s\<lparr>hbuf := Some b, rxs := rest\<rparr>))"
      "rev_ev c = rev_ev (conn_of s)"
  proof
    let ?c = "if length bs < ?sz \<and> \<not> v_et env then (conn_of s)\<lparr>ready := False\<rparr> else conn_of s"
    show "http_recv env ?sz (s\<lparr>hbuf := Some b\<rparr>) = Inr (int (length bs), bs, upd_hconn (\<lambda>_. ?c) (s\<lparr>hbuf := Some b, rxs := rest\<rparr>))" for b
      using assms(2-4) by (simp add: http_recv_def pgrest_conn_recv_def)
  qed simp
  from init_handler_reads [OF assms(1) refl _ assms(4) c] assms(3) show ?thesis by auto
qed

text \<open>The first round of the loop parses what the first read brought.\<close>

lemma header_loop_first:
  assumes "first_read bs s"
  shows "header_loop env num s =
    (case phr_parse_request (v_sse env) bs num 0 of
       Inl e \<Rightarrow> Inl e
     | Inr (num', result, q) \<Rightarrow>
         let s2 = s\<lparr>hparse := False, prev_size := length bs\<rparr> in
         (case q of
            Some q \<Rightarrow> head_complete env (nat result) q s2
          | None \<Rightarrow>
              if result = PGREST_AGAIN then
                (if pgrest_buffer_free_size (the (hbuf s)) < 1 then
                   bind_ub (pgrest_http_extend_header_buffer env s2) (\<lambda>(rv, s3).
                     if rv = PGREST_ERROR then pgrest_http_close_request env 500 s3
                     else if rv = PGREST_DECLINED then pgrest_http_finalize_request env 494 (upd_req (rlingering_update (\<lambda>_. True)) s3)
                     else header_loop env num' s3)
                 else header_loop env num' s2)
              else if take (length http2_preface) bs = http2_preface then Inr s2
              else pgrest_http_finalize_request env 400 s2))"
proof -
  from assms obtain b where b: "hbuf s = Some b" "buf_data b = bs" "b_size b = length bs" "hparse s" "prev_size s = 0"
    by (auto simp: first_read_def)
  then have "pgrest_http_read env Head s = Inr (int (length bs), s\<lparr>hparse := False\<rparr>)"
    by (simp add: pgrest_http_read_def reader_buffer_def deref_def)
  then show ?thesis using b
    by (cases "phr_parse_request (v_sse env) bs num 0")
      (auto simp: header_loop.simps [of env num s] PGREST_AGAIN_def PGREST_ERROR_def deref_def Let_def split: option.splits)
qed

section \<open>Requests are served without their body\<close>

lemma init_headers_no_handler:
  "init_headers_loop hs h = h\<lparr>hi_headers := hi_headers h @ map (\<lambda>p. (pgrest_strtolower (case hname p of Some n \<Rightarrow> n | None \<Rightarrow> []), hvalue p)) hs\<rparr>"
proof (induction hs h rule: init_headers_loop.induct)
  case (2 p ps h)
  then show ?case
    by (cases "pgrest_http_header_find_token (pgrest_strtolower (case hname p of Some n \<Rightarrow> n | None \<Rightarrow> []))")
      (simp_all add: Let_def header_table_has_no_handler)
qed simp

lemma process_header_passes:
  assumes "hreq s = Some r" "headers r = zero_headers_in" "rmethod r = PGREST_HTTP_UNKNOWN" "http_version r < 1000" "v_alloc env"
  shows "pgrest_http_process_header env hs s = Inr (True, s\<lparr>hreq := Some (r\<lparr>headers := init_headers_loop hs zero_headers_in\<rparr>)\<rparr>)"
proof -
  let ?s1 = "s\<lparr>hreq := Some (r\<lparr>headers := init_headers_loop hs zero_headers_in\<rparr>)\<rparr>"
  have i: "pgrest_http_init_headers env hs s = Inr (True, ?s1)"
    using assms by (simp add: pgrest_http_init_headers_def with_req_def)
  have h: "hi_host (init_headers_loop hs zero_headers_in) = None" "hi_content_length (init_headers_loop hs zero_headers_in) = None"
    "hi_transfer_encoding (init_headers_loop hs zero_headers_in) = None" "hi_connection_type (init_headers_loop hs zero_headers_in) = 0"
    by (simp_all add: init_headers_no_handler zero_headers_in_def)
  show ?thesis unfolding pgrest_http_process_header_def i
    using assms h by (simp add: with_req_def Let_def PGREST_HTTP_VERSION_10_def PGREST_HTTP_UNKNOWN_def PGREST_HTTP_TRACE_def PGREST_HTTP_CONNECTION_KEEP_ALIVE_def)
qed

lemma head_complete_served:
  assumes "hreq s = Some r" "headers r = zero_headers_in" "rmethod r = PGREST_HTTP_UNKNOWN" "v_alloc env"
  shows "\<exists>r'. head_complete env n q s = Inr (s\<lparr>hreq := Some r'\<rparr>) \<and> processed r' = processed r + 1 \<and> header_only r' \<and> rpath r' = ppath q \<and>
    request_length r' = n \<and> request_body r' = request_body r \<and>
    hi_headers (headers r') = map (\<lambda>p. (pgrest_strtolower (case hname p of Some n \<Rightarrow> n | None \<Rightarrow> []), hvalue p)) (pheaders q)"
proof -
  let ?r = "r\<lparr>rpath := ppath q, request_length := n, http_version := (if pminor q \<noteq> 0 then 0x101 else 0x100)\<rparr>"
  have "pgrest_http_process_header env (pheaders q) (s\<lparr>hreq := Some ?r\<rparr>) =
      Inr (True, s\<lparr>hreq := Some (?r\<lparr>headers := init_headers_loop (pheaders q) zero_headers_in\<rparr>)\<rparr>)"
    using process_header_passes [of "s\<lparr>hreq := Some ?r\<rparr>" ?r env "pheaders q"] assms by simp
  with assms show ?thesis
    by (intro exI [of _ "?r\<lparr>headers := init_headers_loop (pheaders q) zero_headers_in, header_only := True, processed := processed r + 1\<rparr>"])
      (simp add: head_complete_def with_req_def init_headers_no_handler zero_headers_in_def pgrest_http_process_request_def)
qed

text \<open>
  C11. A request reaches the request processing: if the first read of a new connection brings a
  well-formed head with at most 20 headers, it is parsed, its header names are put in lower case,
  and it is processed once. It is always processed without a body, whatever its
  headers say, since no row of the header table has a handler that would set the length.
\<close>

theorem request_served_without_body:
  assumes "new_connection env s" "rxs s = Rx (print_request meth path minor hs @ body) # rest"
    and "length (print_request meth path minor hs @ body) \<le> nat (client_header_buffer_size (default_server s))"
    and "token_ok meth" "token_ok path" "minor < 10" "length hs \<le> 20"
    and "list_all (\<lambda>h. name_ok (fst h) \<and> value_ok (snd h)) hs"
  shows "\<exists>s' r. pgrest_http_init_handler env False s = Inr s' \<and> hreq s' = Some r \<and> processed r = 1 \<and> header_only r \<and>
    rpath r = path \<and> request_length r = length (print_request meth path minor hs) \<and> request_body r = None \<and>
    hi_headers (headers r) = map (\<lambda>h. (pgrest_strtolower (fst h), snd h)) hs"
proof -
  let ?p = "print_request meth path minor hs"
  have "?p @ body \<noteq> []" by (simp add: print_request_def)
  from init_handler_first [OF assms(1,2) this assms(3)] obtain s1 where
    s1: "pgrest_http_init_handler env False s = header_loop env PGREST_HTTP_MAX_HEADERS s1" "first_read (?p @ body) s1" by blast
  let ?q = "\<lparr>pmethod = meth, ppath = path, pminor = int minor, pheaders = map (\<lambda>h. \<lparr>hname = Some (fst h), hvalue = snd h\<rparr>) hs\<rparr>"
  have "phr_parse_request (v_sse env) (?p @ body) PGREST_HTTP_MAX_HEADERS 0 = Inr (length hs, int (length ?p), Some ?q)"
    using print_parse [OF assms(4-6) _ assms(8), of PGREST_HTTP_MAX_HEADERS] assms(7) by (simp add: PGREST_HTTP_MAX_HEADERS_def)
  with header_loop_first [OF s1(2), of env PGREST_HTTP_MAX_HEADERS] s1(1) have
    h: "pgrest_http_init_handler env False s = head_complete env (length ?p) ?q (s1\<lparr>hparse := False, prev_size := length (?p @ body)\<rparr>)"
    by (simp add: Let_def)
  from s1(2) obtain r where r: "hreq s1 = Some r" "headers r = zero_headers_in" "rmethod r = PGREST_HTTP_UNKNOWN" "processed r = 0" "request_body r = None"
    by (auto simp: first_read_def)
  have "v_alloc env" using assms(1) by (simp add: new_connection_def)
  from head_complete_served [of "s1\<lparr>hparse := False, prev_size := length (?p @ body)\<rparr>" r env "length ?p" ?q] r this h show ?thesis
    by (auto simp: comp_def)
qed

section \<open>A request without a configuration\<close>

text \<open>\<open>req->http_conf\<close> is never assigned, so that ending a request on an error dereferences a null pointer.\<close>

lemma finalize_without_conf:
  "hreq s = Some r \<Longrightarrow> rcount r = 1 \<Longrightarrow> http_conf r = None \<Longrightarrow> pgrest_http_finalize_request env rc s = Inl NullDeref"
  by (simp add: pgrest_http_finalize_request_def pgrest_http_finalize_connection_def with_req_def deref_def)

text \<open>
  C21. A malformed request crashes the worker: if the first read of a new connection brings bytes that
  the parser rejects and that do not begin with the preface of HTTP/2, the handler
  dereferences the null pointer \<open>req->http_conf\<close> when it ends the request.
\<close>

theorem malformed_request_crashes:
  assumes "new_connection env s" "rxs s = Rx bs # rest" "length bs \<le> nat (client_header_buffer_size (default_server s))"
    and "phr_parse_request (v_sse env) bs 20 0 = Inr (n, -1, None)" "take 12 bs \<noteq> ''PRI * HTTP/2''"
  shows "pgrest_http_init_handler env False s = Inl NullDeref"
proof -
  have "phr_parse_request (v_sse env) [] 20 0 = Inr (0, -2, None)"
    by (simp add: phr_parse_request_def guarded_def parse_request_def request_line_def skip_empty_line_def)
  with assms(4) have "bs \<noteq> []" by auto
  from init_handler_first [OF assms(1,2) this assms(3)] obtain s1 where
    s1: "pgrest_http_init_handler env False s = header_loop env PGREST_HTTP_MAX_HEADERS s1" "first_read bs s1" by blast
  from s1(2) obtain r where r: "hreq s1 = Some r" "rcount r = 1" "http_conf r = None" by (auto simp: first_read_def)
  have "take (length http2_preface) bs \<noteq> http2_preface" using assms(5) by (simp add: http2_preface_def numeral_eq_Suc)
  with header_loop_first [OF s1(2), of env PGREST_HTTP_MAX_HEADERS] s1(1) assms(4) show ?thesis
    using finalize_without_conf [of "s1\<lparr>hparse := False, prev_size := length bs\<rparr>" r env 400] r
    by (simp add: PGREST_HTTP_MAX_HEADERS_def PGREST_AGAIN_def Let_def)
qed

section \<open>A head in two reads\<close>

text \<open>The second round of the header loop: a read that completes a head, parsed with the header count of the first round.\<close>

lemma header_loop_second:
  assumes b: "hbuf s = Some b" "buffer_wf b" "buf_data b = bs1" "b_pos b + b_size b + length bs2 \<le> b_capacity b"
    and s: "\<not> hparse s" "ready (conn_of s)" "rxs s = Rx bs2 # rest" "bs2 \<noteq> []" "prev_size s = length bs1"
    and r: "hreq s = Some r" "rcount r = 1" "http_conf r = None"
    and bad: "phr_parse_request (v_sse env) (bs1 @ bs2) num (length bs1) = Inr (k, -1, None)"
    and http2: "take (length http2_preface) (bs1 @ bs2) \<noteq> http2_preface"
  shows "header_loop env num s = Inl NullDeref"
proof -
  have len: "length bs2 \<le> pgrest_buffer_free_size b" using b(2,4) by (simp add: free_size_exact)
  obtain c where c: "http_recv env (pgrest_buffer_free_size b) s = Inr (int (length bs2), bs2, upd_hconn (\<lambda>_. c) (s\<lparr>rxs := rest\<rparr>))"
    using http_recv_data [OF s(3,4) len] by blast
  let ?s1 = "(upd_hconn (\<lambda>_. c) (s\<lparr>rxs := rest\<rparr>))\<lparr>hbuf := Some (store_bytes bs2 b)\<rparr>"
  have n: "int (length bs2) \<noteq> PGREST_AGAIN" "int (length bs2) \<noteq> PGREST_ERROR" "int (length bs2) \<noteq> 0"
    using s(4) by (simp_all add: PGREST_AGAIN_def PGREST_ERROR_def)
  from c b(1) s(1,2) n have read: "pgrest_http_read env Head s = Inr (int (length bs2), ?s1)"
    by (simp add: pgrest_http_read_def reader_buffer_def deref_def set_reader_buffer_def)
  have d: "buf_data (store_bytes bs2 b) = bs1 @ bs2" using store_bytes_data [OF b(2,4)] b(3) by simp
  let ?s2 = "?s1\<lparr>prev_size := b_size (store_bytes bs2 b)\<rparr>"
  have "header_loop env num s = pgrest_http_finalize_request env 400 ?s2"
    unfolding header_loop.simps [of env num s] read using n(1,2) d s(5) bad http2
    by (simp add: deref_def Let_def PGREST_AGAIN_def)
  also have "\<dots> = Inl NullDeref" by (rule finalize_without_conf [OF _ r(2,3)]) (simp add: r(1))
  finally show ?thesis .
qed

lemma close_request_ends:
  assumes "hreq s = Some r" "rcount r = 1" "pool_alive s"
  shows "case pgrest_http_close_request env rc s of Inl e \<Rightarrow> e = NullDeref | Inr s' \<Rightarrow> hreq s' = None"
proof -
  have "case pgrest_conn_close ok i p of Inl e \<Rightarrow> e = NullDeref | Inr _ \<Rightarrow> True" for ok i p
    by (auto simp: pgrest_conn_close_def pgrest_event_del_def split: option.splits if_splits)
  from this [of "v_ok env" "ci s" "hpool s"] show ?thesis using assms
    by (auto simp: pgrest_http_close_request_def with_req_def pgrest_http_free_request_def pgrest_http_conn_close_def split: sum.splits)
qed

text \<open>
  C22. A valid request that does not fit into the first read is never processed: if the first read
  fills the header buffer with \<open>bs1\<close>, the parser has seen \<open>k\<close> headers, and the
  request has more than \<open>k\<close>, then the handler either crashes on a null pointer or closes
  the request. The loop passes \<open>num_headers\<close>, which the first call of the parser has set to \<open>k\<close>, to the
  second call as the size of the header array.
\<close>

theorem split_head_refused:
  assumes "new_connection env s" "ready (conn_of s)" "pool_alive s" "rxs s = Rx (bs1 @ bs2) # rest"
    and "length bs1 = nat (client_header_buffer_size (default_server s))" "0 < length bs1" "length bs1 < 2 ^ 61" "0 < length bs2" "length bs2 \<le> 4096"
    and "bs1 @ bs2 = print_request meth path minor hs" "take 12 (bs1 @ bs2) \<noteq> ''PRI * HTTP/2''"
    and "token_ok meth" "token_ok path" "minor < 10" "list_all (\<lambda>h. name_ok (fst h) \<and> value_ok (snd h)) hs" "length hs \<le> 20"
    and "phr_parse_request (v_sse env) bs1 20 0 = Inr (k, -2, None)" "k < length hs"
  shows "case pgrest_http_init_handler env False s of Inl e \<Rightarrow> e = NullDeref | Inr s' \<Rightarrow> hreq s' = None"
proof -
  let ?sz = "nat (client_header_buffer_size (default_server s))"
  have ne: "bs1 \<noteq> []" "bs2 \<noteq> []" using assms(6,8) by auto
  have recv: "http_recv env ?sz (s\<lparr>hbuf := Some b\<rparr>) = Inr (int (length bs1), bs1, upd_hconn (\<lambda>_. conn_of s) (s\<lparr>hbuf := Some b, rxs := Rx bs2 # rest\<rparr>))" for b
    using http_recv_full [of "s\<lparr>hbuf := Some b\<rparr>" bs1 bs2 rest ?sz env] assms(4,5) ne by simp
  from init_handler_reads [OF assms(1) refl assms(6) _ recv] assms(2,3,5) obtain s1 b where
    s1: "pgrest_http_init_handler env False s = header_loop env PGREST_HTTP_MAX_HEADERS s1" "first_read bs1 s1" "rxs s1 = Rx bs2 # rest"
      "ready (conn_of s1)" "pool_alive s1" and b: "hbuf s1 = Some b" "buffer_wf b" "b_capacity b = ?sz" "b_fd b = None" "b_pos b = 0" by auto
  from s1(2) b(1) obtain r where r: "buf_data b = bs1" "b_size b = length bs1" "hreq s1 = Some r" "rcount r = 1" "http_conf r = None"
    by (auto simp: first_read_def)
  let ?s2 = "s1\<lparr>hparse := False, prev_size := length bs1\<rparr>"
  have full: "pgrest_buffer_free_size b < 1" using b r assms(5) by (simp add: free_size_exact)
  have loop: "header_loop env PGREST_HTTP_MAX_HEADERS s1 =
      bind_ub (pgrest_http_extend_header_buffer env ?s2) (\<lambda>(rv, s3).
        if rv = PGREST_ERROR then pgrest_http_close_request env 500 s3
        else if rv = PGREST_DECLINED then pgrest_http_finalize_request env 494 (upd_req (rlingering_update (\<lambda>_. True)) s3)
        else header_loop env k s3)"
    unfolding header_loop_first [OF s1(2)] using assms(17) full b(1) by (simp add: PGREST_HTTP_MAX_HEADERS_def PGREST_AGAIN_def Let_def)
  have c: "0 < b_capacity b" "b_capacity b < 2 ^ 62" "b_size b + nat ALLOCSET_BUFFER_MINSIZE < 2 ^ 62" "b_size b > b_capacity b div 2"
    using b(3) r(2) assms(5,6,7) by (simp_all add: ALLOCSET_BUFFER_MINSIZE_def)
  show ?thesis
  proof (cases "int (length bs1) > client_max_header_size (default_server s1)")
    case True
    then have "pgrest_http_extend_header_buffer env ?s2 = Inr (PGREST_DECLINED, ?s2)"
      using b(1) r(2) by (simp add: pgrest_http_extend_header_buffer_def deref_def)
    moreover have "pgrest_http_finalize_request env 494 (upd_req (rlingering_update (\<lambda>_. True)) ?s2) = Inl NullDeref"
      by (rule finalize_without_conf [where r = "r\<lparr>rlingering := True\<rparr>"]) (use r in simp_all)
    ultimately show ?thesis using s1(1) loop by (simp add: PGREST_DECLINED_def PGREST_ERROR_def)
  next
    case False
    have ext: "pgrest_http_extend_header_buffer env ?s2 =
        bind_ub (pgrest_buffer_reserve (v_mem env) b (nat ALLOCSET_BUFFER_MINSIZE)) (\<lambda>(iov, b').
           if iov = None then Inr (PGREST_ERROR, ?s2\<lparr>hbuf := Some b'\<rparr>) else Inr (PGREST_OK, ?s2\<lparr>hbuf := Some b'\<rparr>))"
      using False b(1) r(2) c(4) by (simp add: pgrest_http_extend_header_buffer_def deref_def)
    from reserve_cases [OF b(2) c(1-3) refl, of "v_mem env"] b(4)
    consider "pgrest_buffer_reserve (v_mem env) b (nat ALLOCSET_BUFFER_MINSIZE) = Inl NullDeref"
      | "pgrest_buffer_reserve (v_mem env) b (nat ALLOCSET_BUFFER_MINSIZE) = Inr (None, b)"
      | b' where "pgrest_buffer_reserve (v_mem env) b (nat ALLOCSET_BUFFER_MINSIZE) = Inr (Some (buffer_tail b'), b')"
          "reserve_ok b (nat ALLOCSET_BUFFER_MINSIZE) (buffer_tail b') b'" by auto
    then show ?thesis
    proof cases
      case 1
      with ext loop s1(1) show ?thesis by simp
    next
      case 2
      with ext loop s1(1) close_request_ends [of "?s2\<lparr>hbuf := Some b\<rparr>" r env 500] r s1(5) show ?thesis by simp
    next
      case 3
      from 3(2) r(1) have b': "buffer_wf b'" "buf_data b' = bs1" "b_pos b' + b_size b' + 4096 \<le> b_capacity b'"
        by (auto simp: reserve_ok_def ALLOCSET_BUFFER_MINSIZE_def)
      from 3(1) ext loop s1(1) have "pgrest_http_init_handler env False s = header_loop env k (?s2\<lparr>hbuf := Some b'\<rparr>)"
        by (simp add: PGREST_OK_def PGREST_ERROR_def PGREST_DECLINED_def)
      also have "\<dots> = Inl NullDeref"
      proof (rule header_loop_second [where b = b' and r = r])
        have i: "snd (parse_request (v_sse env) 20 bs1) = Incomplete"
          using assms(17) by (auto simp: phr_parse_request_def guarded_def split: prod.splits sum.splits presult.splits)
        have "phr_parse_request (v_sse env) (bs1 @ bs2) 20 0 = Inr (length hs, int (length (bs1 @ bs2)),
            Some \<lparr>pmethod = meth, ppath = path, pminor = int minor, pheaders = map (\<lambda>h. \<lparr>hname = Some (fst h), hvalue = snd h\<rparr>) hs\<rparr>)"
          using print_parse [OF assms(12-14,16,15), of "v_sse env" "[]"] assms(10) by simp
        then obtain q x where "snd (parse_request (v_sse env) 20 (bs1 @ bs2)) = Inr (POk q x)"
          by (auto simp: phr_parse_request_def guarded_def split: prod.splits sum.splits presult.splits)
        from is_complete_head [OF this i] obtain y where y: "is_complete (bs1 @ bs2) (length bs1) = Inr (POk () y)" ..
        have "snd (parse_request (v_sse env) k (bs1 @ bs2)) = Bad"
          using print_too_many [OF assms(12-15,18), of "v_sse env" "[]"] assms(10) by simp
        with y assms(6) show "phr_parse_request (v_sse env) (bs1 @ bs2) k (length bs1) = Inr (fst (parse_request (v_sse env) k (bs1 @ bs2)), -1, None)"
          by (cases "parse_request (v_sse env) k (bs1 @ bs2)") (simp add: phr_parse_request_def guarded_def)
        show "take (length http2_preface) (bs1 @ bs2) \<noteq> http2_preface" using assms(11) by (simp add: http2_preface_def numeral_eq_Suc)
      qed (use b' s1 r assms(8,9) in auto)
      finally show ?thesis by simp
    qed
  qed
qed

text \<open>Concrete connections.\<close>

definition venv0 :: v1_env where
  "venv0 = \<lparr>v_sse = False, v_ok = (\<lambda>_. True), v_et = False,
     v_mem = \<lparr>be_mem = pg_mem_ok, be_junk = CHR 0x00, be_mkstemp = None, be_fallocate = (\<lambda>_. True), be_mmap = (\<lambda>_. True), be_pagesize = 4096\<rparr>,
     v_alloc = True, v_sends = [], v_shutdown = True, v_sockopt = True, v_now = 0, v_terminate = False, v_nodelay_and_nopush = False\<rparr>"

definition state0 :: "conf_http_server \<Rightarrow> rx list \<Rightarrow> http_state" where
  "state0 conf inp = \<lparr>hpool = \<lparr>conns = [zero_conn\<lparr>rev_ev := Some 0, wev_ev := Some 1, cfd := Some 7, ready := True\<rparr>], free_conns = None, free_noconn = 0,
       reuse_conns = [], pending = {}\<rparr>,
     ci = 0, hbuf = None, pool_alive = True, timedout = False, cerror = False, destroyed = False, cidle = False, rhandler = InitHandler,
     default_server = conf, prev_size = 0, hparse = False, hreq = None, rxs = inp, hsent = []\<rparr>"

definition conf0 :: "int \<Rightarrow> conf_http_server" where
  "conf0 n = (default_http_server null_array)\<lparr>client_header_buffer_size := n\<rparr>"

section \<open>Witnesses\<close>

lemma new_connection0: "n \<in> {20, 2048} \<Longrightarrow> new_connection venv0 (state0 (conf0 n) inp)"
  by (auto simp: new_connection_def conf0_def venv0_def state0_def zero_conn_def default_http_server_def ALLOCSET_BUFFER_MINSIZE_def
      pgrest_util_alloc_def pg_mem_ok_def alloc_limit_def MaxAllocSize_def uadd_def buffer_header_def WORD_MOD_def)

lemma buffer_size0: "nat (client_header_buffer_size (default_server (state0 (conf0 n) inp))) = nat n"
  by (simp add: state0_def conf0_def)

theorem split_head_refused_witness:
  "case pgrest_http_init_handler venv0 False (state0 (conf0 20) [Rx (print_request ''GET'' ''/'' 1 [(''Host'', ''a'')])]) of
     Inl e \<Rightarrow> e = NullDeref | Inr s' \<Rightarrow> hreq s' = None"
proof -
  let ?p = "print_request ''GET'' ''/'' 1 [(''Host'', ''a'')]"
  have p: "?p = take 20 ?p @ drop 20 ?p" "length ?p = 27" by (simp_all add: print_request_def print_header_def)
  have n: "new_connection venv0 (state0 (conf0 20) [Rx ?p])" by (rule new_connection0) simp
  have s: "ready (conn_of (state0 (conf0 20) [Rx ?p]))" "pool_alive (state0 (conf0 20) [Rx ?p])"
    "rxs (state0 (conf0 20) [Rx ?p]) = Rx (take 20 ?p @ drop 20 ?p) # []" by (simp_all add: state0_def)
  have l: "length (take 20 ?p) = nat (client_header_buffer_size (default_server (state0 (conf0 20) [Rx ?p])))"
    unfolding buffer_size0 using p(2) by simp
  have t: "token_ok ''GET''" "token_ok ''/''" "list_all (\<lambda>h. name_ok (fst h) \<and> value_ok (snd h)) [(''Host'', ''a'')]" by code_simp+
  have "phr_parse_request False (take 20 ?p) 20 0 = Inr (0, -2, None)" by code_simp
  then have q: "phr_parse_request (v_sse venv0) (take 20 ?p) 20 0 = Inr (0, -2, None)" by (simp add: venv0_def)
  have h: "take 12 (take 20 ?p @ drop 20 ?p) \<noteq> ''PRI * HTTP/2''" by code_simp
  show ?thesis
    by (rule split_head_refused [OF n s l _ _ _ _ p(1) [symmetric] h t(1,2) _ t(3) _ q]) (use p(2) in simp_all)
qed

theorem request_served_without_body_witness:
  "\<exists>s' r. pgrest_http_init_handler venv0 False
      (state0 (conf0 2048) [Rx (print_request ''POST'' ''/rows'' 1 [(''Content-Length'', ''2'')] @ ''ab'')]) = Inr s' \<and>
    hreq s' = Some r \<and> header_only r \<and> request_body r = None \<and> hi_headers (headers r) = [(''content-length'', ''2'')]"
proof -
  let ?s = "state0 (conf0 2048) [Rx (print_request ''POST'' ''/rows'' 1 [(''Content-Length'', ''2'')] @ ''ab'')]"
  have "token_ok ''POST''" "token_ok ''/rows''" "list_all (\<lambda>h. name_ok (fst h) \<and> value_ok (snd h)) [(''Content-Length'', ''2'')]"
    "pgrest_strtolower ''Content-Length'' = ''content-length''" by code_simp+
  moreover have "rxs ?s = [Rx (print_request ''POST'' ''/rows'' 1 [(''Content-Length'', ''2'')] @ ''ab'')]" by (simp add: state0_def)
  moreover have "length (print_request ''POST'' ''/rows'' 1 [(''Content-Length'', ''2'')] @ ''ab'') \<le> 2048"
    by (simp add: print_request_def print_header_def)
  ultimately show ?thesis
    using request_served_without_body [OF new_connection0 [of 2048], where rest = "[]" and meth = "''POST''" and path = "''/rows''" and minor = 1
        and hs = "[(''Content-Length'', ''2'')]" and body = "''ab''"] unfolding buffer_size0 by fastforce
qed

theorem malformed_request_crashes_witness:
  "pgrest_http_init_handler venv0 False (state0 (conf0 2048) [Rx ''GET / HTTQ'']) = Inl NullDeref"
proof -
  have "phr_parse_request False ''GET / HTTQ'' 20 0 = Inr (0, -1, None)" by code_simp
  then have "phr_parse_request (v_sse venv0) ''GET / HTTQ'' 20 0 = Inr (0, -1, None)" by (simp add: venv0_def)
  moreover have "take 12 ''GET / HTTQ'' \<noteq> ''PRI * HTTP/2''" by code_simp
  ultimately show ?thesis
    using malformed_request_crashes [OF new_connection0 [of 2048], where bs = "''GET / HTTQ''" and rest = "[]" and n = 0] unfolding buffer_size0
    by (simp add: state0_def)
qed

section \<open>More defects of the handlers\<close>

text \<open>
  \<^verbatim>\<open>pgrest_http_set_lingering_close\<close> goes on after it has closed the request: if the read event cannot
  be added, it uses the freed request again.
\<close>

lemma lingering_close_twice:
  assumes "hreq s = Some r" "http_conf r = Some conf" "rcount r = 1" "\<not> timedout s" "pool_alive s" "ci s < length (conns (hpool s))"
    and "rev_ev (conn_of s) = Some i" "wev_ev (conn_of s) = Some j" "cfd (conn_of s) = Some d" "i \<notin> pending (hpool s)" "\<not> v_ok env i"
    and "v_et env" "j \<notin> pending (hpool s)"
  shows "pgrest_http_set_lingering_close env s = Inl Freed"
proof -
  let ?r = "r\<lparr>rlingering_time := v_now env + lingering_time conf div 1000\<rparr>"
  let ?s0 = "s\<lparr>rhandler := LingeringHandler, hreq := Some ?r\<rparr>"
  have a: "add_rev env ?s0 = Inr (False, ?s0)" using assms by (simp add: add_rev_def pgrest_event_add_def)
  have f: "pgrest_http_free_request env 0 ?s0 = Inr (?s0\<lparr>destroyed := True, hreq := None\<rparr>)"
    using assms by (simp add: pgrest_http_free_request_def with_req_def)
  obtain p where p: "pgrest_conn_close (v_ok env) (ci s) (hpool s) = Inr (Some d, p)" "cfd (conns p ! ci s) = None"
    using assms by (simp add: pgrest_conn_close_def pgrest_event_del_def pgrest_conn_free_def pgrest_conn_reusable_def Let_def)
  have c: "pgrest_http_close_request env 0 ?s0 =
      Inr (?s0\<lparr>destroyed := True, hpool := p, pool_alive := False, hreq := None, hbuf := None\<rparr>)"
    using assms(3,5) f p(1) by (simp add: pgrest_http_close_request_def with_req_def pgrest_http_conn_close_def)
  show ?thesis using assms(1,2,12) a c p(2)
    by (simp add: pgrest_http_set_lingering_close_def with_req_def deref_def Let_def pgrest_http_close_request_def)
qed

text \<open>
  \<^verbatim>\<open>pgrest_http_init_handler\<close> closes the connection when the read event cannot be added, and
  then marks it as reusable: it is at the head of the free list and of the list of idle connections.
\<close>

lemma closed_connection_reusable:
  assumes "hbuf s = Some b" "rxs s = []" "\<not> cclose (conn_of s)" "ci s < length (conns (hpool s))" "pool_alive s"
    and "rev_ev (conn_of s) = Some i" "wev_ev (conn_of s) = Some j" "cfd (conn_of s) = Some d" "i \<notin> pending (hpool s)" "j \<notin> pending (hpool s)" "\<not> v_ok env i"
    and "\<not> creusable (conn_of s)"
  shows "\<exists>s'. pgrest_http_init_handler env False s = Inr s' \<and> free_conns (hpool s') = Some (ci s) \<and> ci s \<in> set (reuse_conns (hpool s'))"
  using assms
  by (simp add: pgrest_http_init_handler_def http_recv_def pgrest_conn_recv_def ERR_RW_RETRIABLE_def PGREST_AGAIN_def add_rev_def pgrest_event_add_def
      pgrest_http_conn_close_def pgrest_conn_close_def pgrest_event_del_def pgrest_conn_free_def pgrest_conn_reusable_def Let_def)

text \<open>
  \<^verbatim>\<open>pgrest_http_keepalive_handler\<close> does not set \<open>parse\<close>: a second request on a connection stays in the
  buffer unparsed until more bytes arrive.
\<close>

lemma keepalive_request_waits:
  assumes "hbuf s = Some b" "rxs s = [Rx bs]" "bs \<noteq> []" "length bs < b_capacity b" "\<not> v_et env" "\<not> hparse s" "v_alloc env"
    and "\<not> cclose (conn_of s)" "ci s < length (conns (hpool s))" "rev_ev (conn_of s) = Some i" "v_ok env i"
  shows "\<exists>s' r. pgrest_http_keepalive_handler env False s = Inr s' \<and> hreq s' = Some r \<and> processed r = 0 \<and> hbuf s' = Some (store_bytes bs b)"
proof -
  let ?c = "(conn_of s)\<lparr>ready := False\<rparr>"
  let ?s1 = "upd_hconn (\<lambda>_. ?c) (s\<lparr>rxs := []\<rparr>)"
  have r: "http_recv env (b_capacity b) s = Inr (int (length bs), bs, ?s1)"
    using assms by (simp add: http_recv_def pgrest_conn_recv_def)
  let ?s2 = "?s1\<lparr>hbuf := Some (store_bytes bs b), cidle := False, hpool := pgrest_conn_reusable (ci ?s1) False (hpool ?s1)\<rparr>"
  have c: "rev_ev (conn_of ?s2) = Some i" "\<not> ready (conn_of ?s2)" "ci s < length (conns (hpool ?s2))"
    using assms by (simp_all add: pgrest_conn_reusable_def Let_def)
  obtain q where q: "pgrest_http_create_request env ?s2 = Inr (Some q)" "processed q = 0"
    using assms(7) c(1) by (simp add: pgrest_http_create_request_def)
  let ?s3 = "upd_hconn (sent_update (\<lambda>_. 0)) (?s2\<lparr>hreq := Some q, destroyed := False, rhandler := HeaderHandler\<rparr>)"
  have "\<exists>s4. pgrest_http_read env Head ?s3 = Inr (PGREST_AGAIN, s4) \<and> hreq s4 = Some q \<and> hbuf s4 = Some (store_bytes bs b)"
    using assms(6,11) c by (auto simp: pgrest_http_read_def reader_buffer_def deref_def add_rev_def pgrest_event_add_def)
  then obtain s4 where read: "pgrest_http_read env Head ?s3 = Inr (PGREST_AGAIN, s4)" and s4: "hreq s4 = Some q" "hbuf s4 = Some (store_bytes bs b)"
    by blast
  have "header_loop env PGREST_HTTP_MAX_HEADERS ?s3 = Inr s4"
    unfolding header_loop.simps [of env PGREST_HTTP_MAX_HEADERS ?s3] read by simp
  moreover have "int (length bs) \<noteq> PGREST_AGAIN" "int (length bs) \<noteq> PGREST_ERROR" "int (length bs) \<noteq> 0"
    using assms(3) by (simp_all add: PGREST_AGAIN_def PGREST_ERROR_def)
  ultimately have "pgrest_http_keepalive_handler env False s = Inr s4"
    using assms(1,8) r q(1) by (simp add: pgrest_http_keepalive_handler_def deref_def Let_def pgrest_http_header_handler_def with_req_def)
  then show ?thesis using q(2) s4 by simp
qed

end
