(* ===== verification/HttpLife.thy ===== *)
theory HttpLife
  imports HttpServe
begin

text \<open>
  A connection over its whole life: whatever the peer sends and in whatever pieces, and whatever
  the system calls and the allocations answer, each handler returns, and none reads or writes
  outside the buffer of the connection.
\<close>

section \<open>Runs that return and stay inside their buffers\<close>

definition ends_in :: "('a \<Rightarrow> bool) \<Rightarrow> 'a run \<Rightarrow> bool" where
  "ends_in P x \<longleftrightarrow> (case x of Inl e \<Rightarrow> e \<noteq> NoReturn \<and> e \<noteq> OutOfBounds | Inr a \<Rightarrow> P a)"

lemma ends_in_simps [simp]:
  "ends_in P (Inr a) \<longleftrightarrow> P a" "ends_in P (Inl e) \<longleftrightarrow> e \<noteq> NoReturn \<and> e \<noteq> OutOfBounds"
  by (simp_all add: ends_in_def)

lemma ends_in_bind: "ends_in Q x \<Longrightarrow> (\<And>a. x = Inr a \<Longrightarrow> Q a \<Longrightarrow> ends_in P (f a)) \<Longrightarrow> ends_in P (bind_ub x f)"
  by (cases x) auto

lemma ends_in_map: "ends_in (\<lambda>a. P (f a)) x \<Longrightarrow> ends_in P (map_sum id f x)"
  by (cases x) auto

lemma ends_in_mono: "ends_in Q x \<Longrightarrow> (\<And>a. Q a \<Longrightarrow> P a) \<Longrightarrow> ends_in P x"
  by (cases x) auto

lemma ends_in_deref: "(\<And>a. x = Some a \<Longrightarrow> P a) \<Longrightarrow> ends_in P (deref x)"
  by (cases x) (auto simp: deref_def)

lemma ends_in_with_req: "(\<And>r. hreq s = Some r \<Longrightarrow> ends_in P (k r)) \<Longrightarrow> ends_in P (with_req s k)"
  by (cases "hreq s") (auto simp: with_req_def)

section \<open>The invariant of a connection\<close>

text \<open>
  A request in the life of a connection: no code sets its configuration, its method or a body, and
  no header handler sets a field of its headers.
\<close>

definition plain_headers :: "headers_in \<Rightarrow> bool" where
  "plain_headers h \<longleftrightarrow> hi_host h = None \<and> hi_content_length h = None \<and> hi_transfer_encoding h = None \<and>
     hi_connection_type h = 0 \<and> hi_content_length_n h = -1 \<and> \<not> hi_chunked h"

definition plain_request :: "http_request \<Rightarrow> bool" where
  "plain_request r \<longleftrightarrow> http_conf r = None \<and> rcount r = 1 \<and> request_body r = None \<and> rmethod r = PGREST_HTTP_UNKNOWN \<and>
     http_version r \<le> PGREST_HTTP_VERSION_10 \<and> plain_headers (headers r)"

definition head_buffer :: "http_state \<Rightarrow> pgrest_buffer \<Rightarrow> bool" where
  "head_buffer s b \<longleftrightarrow> buffer_wf b \<and> b_pos b = 0 \<and> 0 < b_capacity b \<and> b_capacity b < 2 ^ 34 \<and> prev_size s \<le> b_size b \<and>
     (rhandler s = InitHandler \<longrightarrow> b_size b = 0 \<and> b_capacity b = nat (client_header_buffer_size (default_server s)))"

definition http_ok :: "http_state \<Rightarrow> bool" where
  "http_ok s \<longleftrightarrow> rhandler s \<in> {InitHandler, HeaderHandler, V2Handler} \<and>
     server_ok (default_server s) \<and>
     (\<forall>b. hbuf s = Some b \<longrightarrow> head_buffer s b) \<and> (rhandler s = InitHandler \<longrightarrow> prev_size s = 0) \<and>
     (\<forall>r. hreq s = Some r \<longrightarrow> plain_request r)"

lemma http_ok_pool [simp]:
  "http_ok (s\<lparr>hpool := p\<rparr>) = http_ok s" "http_ok (s\<lparr>rxs := x\<rparr>) = http_ok s" "http_ok (s\<lparr>hparse := b\<rparr>) = http_ok s"
  "http_ok (s\<lparr>timedout := t\<rparr>) = http_ok s" "http_ok (s\<lparr>cerror := t\<rparr>) = http_ok s" "http_ok (s\<lparr>destroyed := t\<rparr>) = http_ok s"
  by (simp_all add: http_ok_def head_buffer_def)

section \<open>The ends of a request\<close>

lemma event_ends:
  "ends_in (\<lambda>_. True) (pgrest_event_add ok ev pend)" "ends_in (\<lambda>_. True) (pgrest_event_del ok ev pend)"
  by (simp_all add: pgrest_event_add_def pgrest_event_del_def split: option.split)

lemma add_rev_ends: "http_ok s \<Longrightarrow> ends_in (\<lambda>(ok, s'). http_ok s' \<and> rhandler s' = rhandler s \<and> hreq s' = hreq s) (add_rev env s)"
  unfolding add_rev_def by (rule ends_in_map, rule ends_in_mono [OF event_ends(1)]) auto

lemma pool_close_ends: "ends_in (\<lambda>_. True) (pgrest_conn_close ok i p)"
  using event_ends(2) [of ok "rev_ev (conns p ! i)" "pending p"]
  by (auto simp: pgrest_conn_close_def ends_in_def pgrest_event_del_def split: option.splits sum.splits if_splits)

lemma conn_close_ends': "http_ok (s\<lparr>hbuf := None, hreq := None\<rparr>) \<Longrightarrow> ends_in http_ok (pgrest_http_conn_close env s)"
  unfolding pgrest_http_conn_close_def
  by (rule ends_in_bind [OF pool_close_ends]) (auto simp: http_ok_def head_buffer_def)

lemma conn_close_ends: "http_ok s \<Longrightarrow> ends_in http_ok (pgrest_http_conn_close env s)"
  by (rule conn_close_ends') (simp add: http_ok_def)

lemma free_request_ends: "http_ok s \<Longrightarrow> ends_in http_ok (pgrest_http_free_request env rc s)"
  unfolding pgrest_http_free_request_def by (rule ends_in_with_req) (auto simp: http_ok_def head_buffer_def)

lemma close_request_ends':
  assumes "http_ok s"
  shows "ends_in http_ok (pgrest_http_close_request env rc s)"
  unfolding pgrest_http_close_request_def
proof (rule ends_in_with_req)
  fix r assume "hreq s = Some r"
  with assms have "rcount r = 1" by (simp add: http_ok_def plain_request_def)
  then show "ends_in http_ok (let n = (rcount r + 65535) mod 65536 in if n \<noteq> 0 then Inr (upd_req (rcount_update (\<lambda>_. n)) s)
      else bind_ub (pgrest_http_free_request env rc s) (pgrest_http_conn_close env))"
    by (simp add: ends_in_bind [OF free_request_ends [OF assms] conn_close_ends])
qed

lemma finalize_request_ends: "http_ok s \<Longrightarrow> ends_in P (pgrest_http_finalize_request env rc s)"
  by (cases "hreq s") (auto simp: pgrest_http_finalize_request_def pgrest_http_finalize_connection_def with_req_def deref_def http_ok_def plain_request_def)

section \<open>Reading and parsing the head\<close>

lemma recv_loop_some: "\<exists>x. recv_loop et sz (rx_results sz rs) = Some x"
  by (induction sz rs rule: rx_take.induct) (auto simp: ERR_RW_RETRIABLE_def)

lemma recv_ends:
  "ends_in (\<lambda>(n, bs, s'). n = PGREST_ERROR \<or> n = PGREST_AGAIN \<or> n = 0 \<or> 0 < n \<and> n = int (length bs) \<and> length bs \<le> sz) (http_recv env sz s)"
proof -
  obtain bs rs where t: "rx_take sz (rxs s) = (bs, rs)" by fastforce
  from recv_loop_some obtain n k where "recv_loop (v_et env) sz (rx_results sz (rxs s)) = Some (n, k)" by fastforce
  with t obtain s' where r: "http_recv env sz s = Inr (n, bs, s')" by (simp add: http_recv_def pgrest_conn_recv_def)
  have "length (fst (rx_take sz xs)) \<le> sz" for xs by (induction sz xs rule: rx_take.induct) auto
  from this [of "rxs s"] have "length bs \<le> sz" by (simp add: t)
  with http_recv_values [OF r] http_recv_size [OF r] show ?thesis by (auto simp: r order_le_less)
qed

lemma recv_keeps: "http_recv env sz s = Inr (n, bs, s') \<Longrightarrow> \<exists>p x. s' = s\<lparr>rxs := x, hpool := p\<rparr>"
  by (auto simp: http_recv_def split: option.splits prod.splits)

lemma store_head:
  assumes "head_buffer s b" "rhandler s \<noteq> InitHandler" "length bs \<le> pgrest_buffer_free_size b"
  shows "head_buffer s (store_bytes bs b)"
proof -
  from assms free_size_exact [of b] have "b_pos b + b_size b + length bs \<le> b_capacity b" by (auto simp: head_buffer_def buffer_wf_def)
  with store_bytes_data [of b bs] assms show ?thesis by (auto simp: head_buffer_def) (auto simp: store_bytes_def)
qed

lemma head_buffer_conn [simp]: "head_buffer (s\<lparr>hpool := p\<rparr>) = head_buffer s" "head_buffer (s\<lparr>rxs := x\<rparr>) = head_buffer s"
    "head_buffer (s\<lparr>hbuf := x'\<rparr>) = head_buffer s" "head_buffer (s\<lparr>hreq := r\<rparr>) = head_buffer s" "head_buffer (s\<lparr>hparse := h\<rparr>) = head_buffer s"
  by (auto simp: head_buffer_def fun_eq_iff)

lemma http_ok_set_buffer: "http_ok s \<Longrightarrow> head_buffer s b \<Longrightarrow> http_ok (s\<lparr>hbuf := Some b\<rparr>)"
  by (simp add: http_ok_def)

lemma read_ends:
  assumes ok: "http_ok s" and h: "rhandler s \<noteq> InitHandler"
  shows "ends_in (\<lambda>(n, s'). http_ok s' \<and> (n \<noteq> PGREST_AGAIN \<longrightarrow> n \<noteq> PGREST_ERROR \<longrightarrow> rhandler s' = rhandler s)) (pgrest_http_read env Head s)"
    (is "ends_in ?P _")
  unfolding pgrest_http_read_def reader_buffer_def which.case
proof (rule ends_in_bind [OF ends_in_deref], assumption)
  fix b assume b: "hbuf s = Some b"
  let ?recv = "if ready (conn_of s) then http_recv env (pgrest_buffer_free_size b) s else Inr (PGREST_AGAIN, [], s)"
  let ?f = "\<lambda>(n, bs, s1).
       if n = PGREST_AGAIN then
         bind_ub (add_rev env s1) (\<lambda>(ok, s2). if \<not> ok then map_sum id (Pair PGREST_ERROR) (pgrest_http_close_request env 500 s2) else Inr (PGREST_AGAIN, s2))
       else if n = 0 \<or> n = PGREST_ERROR then map_sum id (Pair PGREST_ERROR) (pgrest_http_finalize_request env 400 (s1\<lparr>cerror := True\<rparr>))
       else Inr (n, set_reader_buffer Head (store_bytes bs b) s1)"
  have recv: "ends_in (\<lambda>(n, bs, s'). (n = PGREST_ERROR \<or> n = PGREST_AGAIN \<or> n = 0 \<or> length bs \<le> pgrest_buffer_free_size b) \<and> (\<exists>p x. s' = s\<lparr>rxs := x, hpool := p\<rparr>)) ?recv"
  proof (cases "ready (conn_of s)")
    case True
    with recv_ends [of "pgrest_buffer_free_size b" env s] recv_keeps [of env "pgrest_buffer_free_size b" s] show ?thesis
      by (cases "http_recv env (pgrest_buffer_free_size b) s") auto
  next
    case False
    have "\<exists>p x. s = s\<lparr>rxs := x, hpool := p\<rparr>" by (intro exI [of _ "hpool s"] exI [of _ "rxs s"]) simp
    with False show ?thesis by simp
  qed
  show "ends_in ?P
    (if hparse s then Inr (int (b_size b), s\<lparr>hparse := False\<rparr>)
     else bind_ub ?recv ?f)"
  proof (cases "hparse s")
    case False
    have step: "ends_in ?P (?f (n, bs, s1))"
      if nb: "n = PGREST_ERROR \<or> n = PGREST_AGAIN \<or> n = 0 \<or> length bs \<le> pgrest_buffer_free_size b" and s1: "s1 = s\<lparr>rxs := x, hpool := p\<rparr>" for n bs s1 p x
    proof -
      have ok1: "http_ok s1" using ok s1 by simp
      consider (again) "n = PGREST_AGAIN" | (bad) "n \<noteq> PGREST_AGAIN" "n = 0 \<or> n = PGREST_ERROR"
        | (data) "n \<noteq> PGREST_AGAIN" "n \<noteq> 0" "n \<noteq> PGREST_ERROR" "length bs \<le> pgrest_buffer_free_size b" using nb by blast
      then show ?thesis
      proof cases
        case again
        then show ?thesis
          by (auto intro!: ends_in_bind [OF add_rev_ends [OF ok1]] ends_in_map ends_in_mono [OF close_request_ends'])
      next
        case bad
        have "ends_in Q (pgrest_http_finalize_request env 400 (s1\<lparr>cerror := True\<rparr>))" for Q by (rule finalize_request_ends) (use ok1 in simp)
        with bad show ?thesis by (auto intro: ends_in_map)
      next
        case data
        from ok b have "head_buffer s b" by (simp add: http_ok_def)
        with store_head [OF this h data(4)] ok1 s1 data h show ?thesis by (simp add: set_reader_buffer_def http_ok_def)
      qed
    qed
    show ?thesis unfolding if_not_P [OF False]
    proof (rule ends_in_bind [OF recv])
      fix a :: "int \<times> byte list \<times> http_state" assume "case a of (n, bs, s') \<Rightarrow> (n = PGREST_ERROR \<or> n = PGREST_AGAIN \<or> n = 0 \<or> length bs \<le> pgrest_buffer_free_size b) \<and> (\<exists>p x. s' = s\<lparr>rxs := x, hpool := p\<rparr>)"
      moreover obtain n bs s1 where a: "a = (n, bs, s1)" by (cases a)
      ultimately obtain p x where "n = PGREST_ERROR \<or> n = PGREST_AGAIN \<or> n = 0 \<or> length bs \<le> pgrest_buffer_free_size b" "s1 = s\<lparr>rxs := x, hpool := p\<rparr>"
        by (simp only: prod.case) blast
      from step [OF this] show "ends_in ?P (?f a)" by (simp only: a)
    qed
  qed (use ok in simp)
qed

lemma extend_ends:
  assumes ok: "http_ok s" and h: "rhandler s \<noteq> InitHandler" and b: "hbuf s = Some b" and full: "pgrest_buffer_free_size b < 1"
  shows "ends_in (\<lambda>(rv, s'). http_ok s' \<and> rhandler s' = rhandler s) (pgrest_http_extend_header_buffer env s)"
proof -
  from ok b have hb: "buffer_wf b" "b_pos b = 0" "0 < b_capacity b" "b_capacity b < 2 ^ 34" "prev_size s \<le> b_size b"
    by (simp_all add: http_ok_def head_buffer_def)
  with full have sz: "b_size b = b_capacity b" by (simp add: free_size_exact buffer_wf_def)
  show ?thesis
  proof (cases "int (b_size b) > client_max_header_size (default_server s)")
    case False
    with ok have small: "b_size b < 2 ^ 31" by (simp add: http_ok_def server_ok_def)
    obtain r where r: "pgrest_buffer_reserve (v_mem env) b 4096 = r" by blast
    have "b_capacity b div 2 < b_size b" using sz hb(3) by simp
    then have n: "(if b_size b > b_capacity b div 2 then nat ALLOCSET_BUFFER_MINSIZE else b_capacity b div 2 - b_size b) = 4096"
      by (simp add: ALLOCSET_BUFFER_MINSIZE_def)
    have "http_ok (s\<lparr>hbuf := Some b'\<rparr>)" if "r = Inr (x, b')" "buffer_wf b'" for x b'
    proof -
      have r': "pgrest_buffer_reserve (v_mem env) b 4096 = Inr (x, b')" using r that(1) by simp
      from reserve_capacity [OF hb(1) hb(3) _ _ r'] small sz have "b_capacity b \<le> b_capacity b'" "b_capacity b' < 2 ^ 34" "b_size b' = b_size b" "b_pos b' = 0"
        using hb(2) by (auto simp: max_def split: if_splits)
      with that(2) hb h have "head_buffer s b'" by (simp add: head_buffer_def)
      then show ?thesis using ok by (rule http_ok_set_buffer [rotated])
    qed
    moreover have "pgrest_http_extend_header_buffer env s =
        bind_ub r (\<lambda>(iov, b'). if iov = None then Inr (PGREST_ERROR, s\<lparr>hbuf := Some b'\<rparr>) else Inr (PGREST_OK, s\<lparr>hbuf := Some b'\<rparr>))"
      unfolding pgrest_http_extend_header_buffer_def b deref_def option.case bind_ub.simps if_not_P [OF False] n Let_def r ..
    ultimately show ?thesis using reserve_cases [OF hb(1,3) _ _ r] hb(1,2) small sz by (auto simp: reserve_ok_def)
  qed (use ok in \<open>simp add: pgrest_http_extend_header_buffer_def b deref_def\<close>)
qed

lemma init_headers_plain: "plain_headers h \<Longrightarrow> plain_headers (init_headers_loop hs h)"
  by (simp add: init_headers_no_handler plain_headers_def)

lemma set_request_ok: "http_ok s \<Longrightarrow> plain_request r \<Longrightarrow> http_ok (s\<lparr>hreq := Some r\<rparr>)"
  by (simp add: http_ok_def)

lemma process_header_ends:
  assumes ok: "http_ok s"
  shows "ends_in (\<lambda>(ok, s'). http_ok s') (pgrest_http_process_header env hs s)"
proof (cases "v_alloc env")
  case False
  with close_request_ends' [OF ok, of env 500] show ?thesis
    by (cases "pgrest_http_close_request env 500 s") (auto simp: pgrest_http_process_header_def pgrest_http_init_headers_def)
next
  case True
  show ?thesis
  proof (cases "hreq s")
    case None
    with True show ?thesis by (simp add: pgrest_http_process_header_def pgrest_http_init_headers_def with_req_def)
  next
    case (Some r)
    let ?r = "r\<lparr>headers := init_headers_loop hs (headers r)\<rparr>"
    from ok Some have "plain_request r" by (simp add: http_ok_def)
    then have p: "plain_request ?r" "plain_headers (headers ?r)" by (auto simp: plain_request_def init_headers_plain)
    have i: "pgrest_http_init_headers env hs s = Inr (True, s\<lparr>hreq := Some ?r\<rparr>)"
      using True Some by (simp add: pgrest_http_init_headers_def with_req_def)
    have "pgrest_http_process_header env hs s = Inr (True, s\<lparr>hreq := Some ?r\<rparr>)"
      unfolding pgrest_http_process_header_def i
      using p by (simp add: with_req_def Let_def plain_request_def plain_headers_def PGREST_HTTP_UNKNOWN_def PGREST_HTTP_TRACE_def PGREST_HTTP_CONNECTION_KEEP_ALIVE_def)
    then show ?thesis using set_request_ok [OF ok p(1)] by simp
  qed
qed

lemma head_complete_ends:
  assumes ok: "http_ok s"
  shows "ends_in http_ok (head_complete env n q s)"
  unfolding head_complete_def
proof (rule ends_in_bind [OF process_header_ends])
  let ?u = "\<lambda>r. r\<lparr>rpath := ppath q, request_length := n, http_version := (if pminor q \<noteq> 0 then 0x101 else 0x100)\<rparr>"
  have "plain_request (?u r)" if "plain_request r" for r using that by (auto simp: plain_request_def PGREST_HTTP_VERSION_10_def)
  with ok show "http_ok (upd_req ?u s)" by (auto simp: http_ok_def)
next
  fix a :: "bool \<times> http_state" assume "case a of (ok, s') \<Rightarrow> http_ok s'"
  then obtain g s1 where a: "a = (g, s1)" and ok1: "http_ok s1" by (cases a) simp
  have "plain_request (r\<lparr>header_only := True, processed := k\<rparr>)" if "plain_request r" for r k using that by (simp add: plain_request_def)
  with ok1 have "ends_in http_ok (pgrest_http_process_request (upd_req (header_only_update (\<lambda>_. True)) s1))"
    by (auto simp: pgrest_http_process_request_def with_req_def http_ok_def split: option.split)
  moreover have "hi_content_length_n (headers r) = -1 \<and> \<not> hi_chunked (headers r)" if "hreq s1 = Some r" for r
    using ok1 that by (simp add: http_ok_def plain_request_def plain_headers_def)
  ultimately show "ends_in http_ok (case a of (ok, s1) \<Rightarrow> if \<not> ok then Inr s1
       else with_req s1 (\<lambda>r.
         if hi_content_length_n (headers r) \<noteq> -1 \<or> hi_chunked (headers r) then
           bind_ub (pgrest_http_test_expect env s1) (\<lambda>(ok, s2). if \<not> ok then Inr s2 else pgrest_http_process_entity env s2)
         else pgrest_http_process_request (upd_req (header_only_update (\<lambda>_. True)) s1)))"
    using ok1 by (auto simp: a intro!: ends_in_with_req)
qed

lemma parse_ends:
  assumes "head_buffer s b"
  shows "ends_in (\<lambda>_. True) (phr_parse_request sse (buf_data b) num (prev_size s))"
proof -
  from assms have "prev_size s \<le> length (buf_data b)" by (simp add: head_buffer_def length_buf_data)
  from request_bounded [OF this, of sse num] show ?thesis by (cases "phr_parse_request sse (buf_data b) num (prev_size s)") auto
qed

lemma parsed_ok: "http_ok s \<Longrightarrow> rhandler s \<noteq> InitHandler \<Longrightarrow> hbuf s = Some b \<Longrightarrow> http_ok (s\<lparr>prev_size := b_size b\<rparr>)"
  by (simp add: http_ok_def head_buffer_def)

text \<open>One round of the loop, after a read that returned data.\<close>

lemma header_round_ends:
  assumes rd: "pgrest_http_read env Head s = Inr (n, s1)" "n \<noteq> PGREST_AGAIN" "n \<noteq> PGREST_ERROR"
    and s1: "http_ok s1" "rhandler s1 \<noteq> InitHandler" "hbuf s1 = Some b"
    and ih: "\<And>num s'. input_left s' = input_left s1 \<Longrightarrow> http_ok s' \<Longrightarrow> rhandler s' \<noteq> InitHandler \<Longrightarrow> ends_in http_ok (header_loop env num s')"
  shows "ends_in http_ok (header_loop env num s)"
proof (cases "phr_parse_request (v_sse env) (buf_data b) num (prev_size s1)")
  case (Inl e)
  from s1 have "head_buffer s1 b" by (simp add: http_ok_def)
  from parse_ends [OF this, of "v_sse env" num] Inl rd s1(3) show ?thesis by (simp add: header_loop.simps [of env num s] deref_def)
next
  case (Inr x)
  let ?s2 = "s1\<lparr>prev_size := b_size b\<rparr>"
  note ok2 = parsed_ok [OF s1]
  obtain num' result q where x: "x = (num', result, q)" by (cases x)
  note h = header_loop.simps [of env num s, unfolded rd(1) s1(3) deref_def option.case bind_ub.simps prod.case Inr x]
  consider (complete) q' where "q = Some q'" | (bad) "q = None" "result \<noteq> PGREST_AGAIN"
    | (more_room) "q = None" "result = PGREST_AGAIN" "\<not> pgrest_buffer_free_size b < 1"
    | (full) "q = None" "result = PGREST_AGAIN" "pgrest_buffer_free_size b < 1" by blast
  then show ?thesis
  proof cases
    case complete
    with rd(2,3) head_complete_ends [OF ok2] show ?thesis by (simp add: h deref_def s1 Inr x)
  next
    case bad
    with rd ok2 finalize_request_ends [OF ok2] show ?thesis by (simp add: h deref_def s1 Inr x Let_def)
  next
    case more_room
    with rd ih [of ?s2 num'] ok2 s1(2) show ?thesis by (simp add: h deref_def s1 Inr x Let_def)
  next
    case full
    have "http_ok (upd_req (rlingering_update (\<lambda>_. True)) s3)" if "http_ok s3" for s3
      using that by (auto simp: http_ok_def plain_request_def)
    moreover have "ends_in (\<lambda>(rv, s'). http_ok s' \<and> rhandler s' = rhandler ?s2) (pgrest_http_extend_header_buffer env ?s2)"
      using extend_ends [OF ok2 _ _ full(3)] s1 by simp
    moreover note extend_header_progress [of env ?s2]
    ultimately show ?thesis using full rd s1(2) ih
      by (auto simp: h deref_def s1 Inr x Let_def intro!: ends_in_bind close_request_ends' finalize_request_ends)
  qed
qed

lemma header_loop_ends:
  assumes "http_ok s" "rhandler s \<noteq> InitHandler"
  shows "ends_in http_ok (header_loop env num s)"
  using assms
proof (induction "input_left s" arbitrary: num s rule: less_induct)
  case less
  from read_ends [OF less(2,3), of env] consider (stop) e where "pgrest_http_read env Head s = Inl e" "e \<noteq> NoReturn" "e \<noteq> OutOfBounds"
    | (wait) n s1 where "pgrest_http_read env Head s = Inr (n, s1)" "http_ok s1" "n = PGREST_AGAIN \<or> n = PGREST_ERROR"
    | (null) n s1 where "pgrest_http_read env Head s = Inr (n, s1)" "n \<noteq> PGREST_AGAIN" "n \<noteq> PGREST_ERROR" "hbuf s1 = None"
    | (data) n s1 b where "pgrest_http_read env Head s = Inr (n, s1)" "n \<noteq> PGREST_AGAIN" "n \<noteq> PGREST_ERROR" "http_ok s1" "rhandler s1 \<noteq> InitHandler" "hbuf s1 = Some b"
    using less(3) by (cases "pgrest_http_read env Head s") fastforce+
  then show ?case
  proof cases
    case data
    from http_read_progress [OF data(1,2,3)] less(1) show ?thesis by (intro header_round_ends [OF data]) simp
  qed (simp_all add: header_loop.simps [of env num s] deref_def)
qed

section \<open>The handlers\<close>

lemma header_handler_ends:
  assumes "http_ok s" "rhandler s \<noteq> InitHandler"
  shows "ends_in http_ok (pgrest_http_header_handler env timeout s)"
  unfolding pgrest_http_header_handler_def
  by (rule ends_in_with_req) (use assms in \<open>auto intro: header_loop_ends close_request_ends'\<close>)

lemma create_request_ends: "ends_in (\<lambda>nr. \<forall>r. nr = Some r \<longrightarrow> plain_request r) (pgrest_http_create_request env s)"
  by (simp add: pgrest_http_create_request_def plain_request_def plain_headers_def zero_headers_in_def)

lemma create_head_buffer:
  assumes "pgrest_buffer_create (v_mem env) (nat (client_header_buffer_size (default_server s))) = Some b" "http_ok s" "rhandler s = InitHandler"
  shows "head_buffer s b \<and> b_size b = 0"
proof -
  from assms(2) have "nat (client_header_buffer_size (default_server s)) < 2 ^ 31" by (auto simp: http_ok_def server_ok_def)
  with assms show ?thesis by (auto simp: pgrest_buffer_create_def head_buffer_def buffer_wf_def http_ok_def server_ok_def split: if_splits)
qed

text \<open>The first bytes of a connection, behind \<open>n\<close> bytes in a buffer of the configured size.\<close>

lemma first_bytes_ends:
  assumes "http_ok s" "rhandler s = InitHandler" "head_buffer s b" "length bs \<le> b_capacity b"
  shows "ends_in http_ok (first_bytes env (s\<lparr>hbuf := Some (store_bytes bs b), hpool := p\<rparr>))" (is "ends_in _ (first_bytes _ ?s)")
  unfolding first_bytes_def
proof (rule ends_in_bind [OF create_request_ends])
  fix nr assume nr: "\<forall>r. nr = Some r \<longrightarrow> plain_request r"
  have close: "http_ok (?s\<lparr>hbuf := None, hreq := None\<rparr>)" using assms(1) by (simp add: http_ok_def)
  have "head_buffer (s\<lparr>rhandler := HeaderHandler\<rparr>) b" using assms(3) by (simp add: head_buffer_def)
  moreover have "b_size b = 0" "buffer_wf b" "b_pos b = 0" using assms(2,3) by (simp_all add: head_buffer_def)
  ultimately have "head_buffer (s\<lparr>rhandler := HeaderHandler\<rparr>) (store_bytes bs b)"
    using assms(4) by (intro store_head) (simp_all add: free_size_exact)
  with assms(1) nr have "http_ok (?s\<lparr>hreq := Some r, hparse := True, rhandler := HeaderHandler\<rparr>)" if "nr = Some r" for r
    using that by (simp add: http_ok_def head_buffer_def)
  with close show "ends_in http_ok (case nr of
         None \<Rightarrow> pgrest_http_conn_close env ?s
       | Some r \<Rightarrow> pgrest_http_header_handler env False (?s\<lparr>hreq := Some r, hparse := True, rhandler := HeaderHandler\<rparr>))"
    by (auto intro!: conn_close_ends' header_handler_ends split: option.split)
qed

lemma init_handler_ends:
  assumes ok: "http_ok s" and h: "rhandler s = InitHandler"
  shows "ends_in http_ok (pgrest_http_init_handler env timeout s)"
proof (cases "timeout \<or> cclose (conn_of s)")
  case True
  with conn_close_ends [OF ok] show ?thesis by (simp add: pgrest_http_init_handler_def)
next
  case False
  let ?sz = "nat (client_header_buffer_size (default_server s))"
  let ?b = "case hbuf s of None \<Rightarrow> pgrest_buffer_create (v_mem env) ?sz | Some b \<Rightarrow> Some b"
  note d = pgrest_http_init_handler_def [of env timeout s, unfolded if_not_P [OF False] Let_def]
  show ?thesis
  proof (cases ?b)
    case None
    with conn_close_ends [OF ok] show ?thesis by (simp add: d)
  next
    case (Some b)
    have hb: "head_buffer s b" using Some create_head_buffer [of env s b] ok h by (auto simp: http_ok_def split: option.splits)
    then have cap: "b_capacity b = ?sz" using h by (simp add: head_buffer_def)
    let ?s = "s\<lparr>hbuf := Some b\<rparr>"
    show ?thesis unfolding d Some option.case
    proof (rule ends_in_bind [OF recv_ends])
      fix a :: "int \<times> byte list \<times> http_state" assume r: "http_recv env ?sz ?s = Inr a"
      assume len: "case a of (n, bs, s') \<Rightarrow> n = PGREST_ERROR \<or> n = PGREST_AGAIN \<or> n = 0 \<or> 0 < n \<and> n = int (length bs) \<and> length bs \<le> ?sz"
      obtain n bs s1 where a: "a = (n, bs, s1)" by (cases a)
      from recv_keeps [OF r [unfolded a]] obtain p x where s1: "s1 = ?s\<lparr>rxs := x, hpool := p\<rparr>" by blast
      with ok hb have ok1: "http_ok s1" "rhandler s1 = InitHandler" "head_buffer s1 b" using h by (simp_all add: http_ok_set_buffer)
      have "ends_in http_ok (bind_ub (add_rev env s1) (\<lambda>(ok, s2).
                bind_ub (if \<not> ok then pgrest_http_conn_close env s2 else Inr s2) (\<lambda>s3.
                  Inr (s3\<lparr>hpool := pgrest_conn_reusable (ci s3) True (hpool s3)\<rparr>))))"
        by (auto intro!: ends_in_bind [OF add_rev_ends [OF ok1(1)]] ends_in_bind [OF conn_close_ends])
      with conn_close_ends [OF ok1(1)] first_bytes_ends [OF ok1, of bs] len a cap show "ends_in http_ok (case a of (n, bs, s1) \<Rightarrow>
          if n = PGREST_AGAIN then
            bind_ub (add_rev env s1) (\<lambda>(ok, s2).
            bind_ub (if \<not> ok then pgrest_http_conn_close env s2 else Inr s2) (\<lambda>s3.
              Inr (s3\<lparr>hpool := pgrest_conn_reusable (ci s3) True (hpool s3)\<rparr>)))
          else if n = PGREST_ERROR \<or> n = 0 then pgrest_http_conn_close env s1
          else first_bytes env (s1\<lparr>hbuf := Some (store_bytes bs b), hpool := pgrest_conn_reusable (ci s1) False (hpool s1)\<rparr>))"
        by auto
    qed
  qed
qed

lemma read_handler_ends:
  assumes "http_ok s"
  shows "ends_in http_ok (pgrest_http_read_handler env timeout s)"
proof -
  from assms have h: "rhandler s \<in> {InitHandler, HeaderHandler, V2Handler}" by (simp add: http_ok_def)
  then show ?thesis unfolding pgrest_http_read_handler_def
    by (elim insertE emptyE; simp; auto intro!: init_handler_ends header_handler_ends simp: assms)
qed

section \<open>From accept to the end\<close>

text \<open>
  A connection as the event loop drives it: the handler of each read event, with the answers of the
  system for this event, whether it is a timeout, and what the peer has sent since the last one.
\<close>

fun serve :: "(v1_env \<times> bool \<times> rx list) list \<Rightarrow> http_state \<Rightarrow> http_state run" where
  "serve [] s = Inr s"
| "serve ((env, timeout, arrived) # es) s = bind_ub (pgrest_http_read_handler env timeout (s\<lparr>rxs := rxs s @ arrived\<rparr>)) (serve es)"

lemma serve_ends: "http_ok s \<Longrightarrow> ends_in http_ok (serve events s)"
  by (induction events s rule: serve.induct) (auto intro!: ends_in_bind [OF read_handler_ends])

lemma local_sockaddr_ends: "ends_in (\<lambda>_. True) (pgrest_conn_local_sockaddr lib gs al room with_port c)"
  by (auto simp: pgrest_conn_local_sockaddr_def Let_def split: option.split)

lemma pick_addr_in: "pick_addr sa pas = Some c \<Longrightarrow> c \<in> snd ` set pas"
  by (induction sa pas rule: pick_addr.induct) (auto split: if_splits)

lemma conn_start_ends:
  assumes "http_ok s" "rhandler s = (if http2 then V2Handler else InitHandler)"
  shows "ends_in http_ok (conn_start env deferred http2 s)"
  using assms by (auto simp: conn_start_def Let_def intro!: init_handler_ends ends_in_bind [OF add_rev_ends] conn_close_ends)

lemma conn_server_ends:
  assumes s: "hbuf s = None" "hreq s = None" "http_ok s" and conf: "\<forall>(a, conf, http2) \<in> set pas. server_ok conf"
  shows "ends_in http_ok (conn_server env pas deferred c (s\<lparr>hpool := p\<rparr>))"
proof (cases "local_sockaddr c")
  case (Some sa)
  let ?pick = "if length pas > 1 then pick_addr sa pas else map_option snd (case pas of [] \<Rightarrow> None | a # _ \<Rightarrow> Some a)"
  note d = conn_server_def [of env pas deferred c, unfolded Some deref_def option.case bind_ub.simps]
  show ?thesis
  proof (cases ?pick)
    case (Some x)
    obtain cs http2 where x: "x = (cs, http2)" by (cases x)
    with Some pick_addr_in [of sa pas x] conf have "server_ok cs" by (auto split: if_splits list.splits)
    with s have "http_ok (s\<lparr>hpool := p, default_server := cs, prev_size := 0, hparse := False, rhandler := (if http2 then V2Handler else InitHandler)\<rparr>)"
      by (simp add: http_ok_def)
    from conn_start_ends [OF this] show ?thesis unfolding d Some x by simp
  qed (simp add: d del: map_option_is_None)
qed (simp add: conn_server_def deref_def)

lemma conn_init_ends:
  assumes "hbuf s = None" "hreq s = None" "http_ok s" "\<forall>(a, conf, http2) \<in> set pas. server_ok conf"
  shows "ends_in http_ok (pgrest_http_conn_init env lib gs pas deferred s)"
proof -
  show ?thesis
  proof (cases "v_alloc env \<and> rev_ev (conn_of s) \<noteq> None")
    case True
    then have "pgrest_http_conn_init env lib gs pas deferred s =
        bind_ub (if length pas > 1 then pgrest_conn_local_sockaddr lib gs (v_alloc env) None False (conn_of s) else Inr (True, None, conn_of s))
          (\<lambda>(ok, _, c). if \<not> ok then pgrest_http_conn_close env (upd_hconn (\<lambda>_. c) s) else conn_server env pas deferred c (upd_hconn (\<lambda>_. c) s))"
      unfolding pgrest_http_conn_init_def Let_def by (simp only: simp_thms if_True if_False)
    then show ?thesis using assms conn_server_ends [OF assms, of env deferred "conn_of s" "hpool s"]
      by (auto intro!: ends_in_bind [OF local_sockaddr_ends] conn_close_ends conn_server_ends)
  qed (use assms conn_close_ends in \<open>auto simp: pgrest_http_conn_init_def\<close>)
qed


definition conf1 :: conf_http_server where "conf1 = default_http_server null_array"

definition peer1 :: "byte list" where "peer1 = print_request ''GET'' [SLASH] 1 [(''Host'', ''a'')]"


end
