(* ===== verification/Ipc.thy ===== *)
theory Ipc
  imports Conn Memory "HOL-Library.Sublist"
begin

text \<open>
  The messages between workers, \<^verbatim>\<open>src/pg_rest_ipc.c\<close>: a socket pair per worker, made by the postmaster; a worker
  keeps the writing ends of the other workers and the reading end of its own. A message is one byte, queued in
  the buffer of the connection of the writing end.
\<close>

section \<open>State\<close>

record pgrest_ipc_data =
  ipc_sock0 :: nat
  ipc_sock1 :: nat
  ipc_conn :: "nat option"

text \<open>\<open>ipc_buf\<close> is the field \<open>buffer\<close> of the connections, \<open>ipc_closed\<close> the descriptors closed so far, the last first.\<close>

record ipc_state =
  ipc_pool :: conn_pool
  ipc_data :: "pgrest_ipc_data list"
  ipc_buf :: "nat \<Rightarrow> pgrest_buffer option"
  ipc_closed :: "nat list"

text \<open>The answers of the system: memory pools by worker, the allocator of the buffers, \<open>event_assign\<close>, \<open>event_add\<close>.\<close>

record ipc_env =
  ie_mpool :: "nat \<Rightarrow> bool"
  ie_buf :: buf_env
  ie_aok :: "nat \<Rightarrow> bool"
  ie_ok :: "nat \<Rightarrow> bool"

definition PGREST_IPC_CMD_MAX :: nat where "PGREST_IPC_CMD_MAX = 3"

type_synonym 'h msg_handlers = "'h option list"

definition no_handlers :: "'h msg_handlers" where "no_handlers = replicate PGREST_IPC_CMD_MAX None"

definition pgrest_ipc_setup_msg_handler :: "nat \<Rightarrow> 'h \<Rightarrow> 'h msg_handlers \<Rightarrow> 'h msg_handlers run" where
  "pgrest_ipc_setup_msg_handler command h hs = (if command < length hs then Inr (hs[command := Some h]) else Inl OutOfBounds)"

abbreviation set_buf :: "nat \<Rightarrow> pgrest_buffer option \<Rightarrow> ipc_state \<Rightarrow> ipc_state" where
  "set_buf i b st \<equiv> st\<lparr>ipc_buf := (ipc_buf st)(i := b)\<rparr>"

abbreviation set_pending :: "nat set \<Rightarrow> ipc_state \<Rightarrow> ipc_state" where
  "set_pending pend st \<equiv> st\<lparr>ipc_pool := (ipc_pool st)\<lparr>pending := pend\<rparr>\<rparr>"

section \<open>Sending\<close>

text \<open>\<open>*iovec.base = command; conn->buffer->size++\<close>\<close>

definition put_byte :: "nat \<Rightarrow> byte \<Rightarrow> pgrest_buffer \<Rightarrow> pgrest_buffer run" where
  "put_byte off c b = (if off < length (b_start b) then Inr (b\<lparr>b_start := (b_start b)[off := c], b_size := uadd (b_size b) 1\<rparr>) else Inl OutOfBounds)"

text \<open>The write is scheduled on the read event of the connection; the result of \<open>pgrest_event_add\<close> is ignored.\<close>

definition schedule :: "ipc_env \<Rightarrow> nat \<Rightarrow> ipc_state \<Rightarrow> ipc_state run" where
  "schedule env i st =
     bind_ub (pgrest_event_add (ie_ok env) (rev_ev (conns (ipc_pool st) ! i)) (pending (ipc_pool st))) (\<lambda>(_, pend). Inr (set_pending pend st))"

definition pgrest_ipc_send_notify :: "ipc_env \<Rightarrow> nat \<Rightarrow> byte \<Rightarrow> ipc_state \<Rightarrow> (bool \<times> ipc_state) run" where
  "pgrest_ipc_send_notify env dest command st =
     (if dest \<ge> length (ipc_data st) then Inl OutOfBounds
      else
        (case ipc_conn (ipc_data st ! dest) of
           None \<Rightarrow> Inr (False, st)
         | Some i \<Rightarrow>
             bind_ub (deref (ipc_buf st i)) (\<lambda>b.
             bind_ub (pgrest_buffer_reserve (ie_buf env) b 1) (\<lambda>(iovec, b1).
               case iovec of
                 None \<Rightarrow> Inr (False, set_buf i (Some b1) st)
               | Some (off, _) \<Rightarrow>
                   bind_ub (put_byte off command b1) (\<lambda>b2.
                   map_sum id (Pair True) (schedule env i (set_buf i (Some b2) st)))))))"

fun clear_conn :: "nat \<Rightarrow> pgrest_ipc_data list \<Rightarrow> pgrest_ipc_data list" where
  "clear_conn i [] = []"
| "clear_conn i (d # ds) = (if ipc_conn d = Some i then d\<lparr>ipc_conn := None\<rparr> # ds else d # clear_conn i ds)"

definition pgrest_ipc_set_conn :: "nat \<Rightarrow> ipc_state \<Rightarrow> ipc_state" where
  "pgrest_ipc_set_conn i st = st\<lparr>ipc_data := clear_conn i (ipc_data st)\<rparr>"

text \<open>The label \<open>fail\<close> of both handlers.\<close>

definition close_conn :: "ipc_env \<Rightarrow> nat \<Rightarrow> ipc_state \<Rightarrow> ipc_state run" where
  "close_conn env i st =
     bind_ub (pgrest_conn_close (ie_ok env) i (ipc_pool st)) (\<lambda>(s, p).
       Inr (st\<lparr>ipc_pool := p, ipc_closed := (case s of None \<Rightarrow> [] | Some x \<Rightarrow> [x]) @ ipc_closed st\<rparr>))"

definition ipc_fail :: "ipc_env \<Rightarrow> nat \<Rightarrow> ipc_state \<Rightarrow> ipc_state run" where
  "ipc_fail env i st = map_sum id (pgrest_ipc_set_conn i) (close_conn env i st)"

text \<open>
  \<^verbatim>\<open>pgrest_ipc_write_handler\<close>; the answers \<open>rs\<close> of the successive calls of \<open>send\<close> are used up when the result is
  None. The result has the bytes that were sent.
\<close>

definition pgrest_ipc_write_handler :: "ipc_env \<Rightarrow> sys_result list \<Rightarrow> nat \<Rightarrow> ipc_state \<Rightarrow> (byte list \<times> ipc_state) run option" where
  "pgrest_ipc_write_handler env rs i st =
     (case ipc_buf st i of
        None \<Rightarrow> Some (Inl NullDeref)
      | Some b \<Rightarrow>
          if b_size b = 0 then
            Some (bind_ub (pgrest_event_del (ie_ok env) (wev_ev (conns (ipc_pool st) ! i)) (pending (ipc_pool st)))
              (\<lambda>(_, pend). Inr ([], set_pending pend st)))
          else
            (case pgrest_conn_send rs (conns (ipc_pool st) ! i) of
               None \<Rightarrow> None
             | Some (result, c) \<Rightarrow>
                 let st1 = st\<lparr>ipc_pool := upd_conn i (\<lambda>_. c) (ipc_pool st)\<rparr> in
                 Some
                   (if result = PGREST_ERROR then map_sum id (Pair []) (ipc_fail env i st1)
                    else
                      let n = (if result = 0 \<or> result = PGREST_AGAIN then 0 else nat result);
                          b1 = (if result = 0 \<or> result = PGREST_AGAIN then b else pgrest_buffer_consume b n);
                          st2 = set_buf i (Some b1) st1 in
                      if b_size b1 \<noteq> 0 then map_sum id (Pair (take n (buf_data b))) (schedule env i st2)
                      else Inr (take n (buf_data b), st2))))"

section \<open>Receiving\<close>

text \<open>The handlers called for the bytes of one \<open>recv\<close>, in order; the code of a command indexes the table.\<close>

fun ipc_dispatch :: "'h msg_handlers \<Rightarrow> byte list \<Rightarrow> 'h list run" where
  "ipc_dispatch hs [] = Inr []"
| "ipc_dispatch hs (c # cs) =
     (if code c < length hs then map_sum id (\<lambda>calls. (case hs ! code c of None \<Rightarrow> calls | Some h \<Rightarrow> h # calls)) (ipc_dispatch hs cs)
      else Inl OutOfBounds)"

text \<open>
  The loop of \<^verbatim>\<open>pgrest_ipc_read_handler\<close>. A round is the answers of one call of \<^verbatim>\<open>pgrest_conn_recv\<close> and the bytes it
  puts into the array of 128 bytes; the flag of the result says that the loop ended with \<open>PGREST_AGAIN\<close>.
\<close>

fun ipc_read_loop :: "bool \<Rightarrow> 'h msg_handlers \<Rightarrow> (sys_result list \<times> byte list) list \<Rightarrow> pgrest_connection \<Rightarrow> (bool \<times> 'h list \<times> pgrest_connection) run option" where
  "ipc_read_loop et hs [] c = None"
| "ipc_read_loop et hs ((rs, bytes) # rounds) c =
     (case pgrest_conn_recv et 128 rs c of
        None \<Rightarrow> None
      | Some (result, c1) \<Rightarrow>
          if result = 0 \<or> result = PGREST_ERROR then Some (Inr (False, [], c1))
          else if result = PGREST_AGAIN then Some (Inr (True, [], c1))
          else
            (case ipc_dispatch hs (take (nat result) bytes) of
               Inl e \<Rightarrow> Some (Inl e)
             | Inr calls \<Rightarrow> map_option (map_sum id (\<lambda>(again, calls', c2). (again, calls @ calls', c2))) (ipc_read_loop et hs rounds c1)))"

definition pgrest_ipc_read_handler ::
  "ipc_env \<Rightarrow> bool \<Rightarrow> 'h msg_handlers \<Rightarrow> (sys_result list \<times> byte list) list \<Rightarrow> nat \<Rightarrow> ipc_state \<Rightarrow> ('h list \<times> ipc_state) run option" where
  "pgrest_ipc_read_handler env et hs rounds i st =
     map_option (\<lambda>r. bind_ub r (\<lambda>(again, calls, c).
         let st1 = st\<lparr>ipc_pool := upd_conn i (\<lambda>_. c) (ipc_pool st)\<rparr> in
         map_sum id (Pair calls) (if again then Inr st1 else ipc_fail env i st1)))
       (ipc_read_loop et hs rounds (conns (ipc_pool st) ! i))"

section \<open>Setting up and closing\<close>

definition pgrest_ipc_setup_handler :: "ipc_env \<Rightarrow> nat \<Rightarrow> nat \<Rightarrow> bool \<Rightarrow> ipc_state \<Rightarrow> (bool \<times> ipc_state) run" where
  "pgrest_ipc_setup_handler env w s rd st =
     (case pgrest_conn_get (Some s) (ipc_pool st) of
        (None, p) \<Rightarrow> Inr (False, st\<lparr>ipc_pool := p\<rparr>)
      | (Some i, p) \<Rightarrow>
          let st1 = st\<lparr>ipc_pool := upd_conn i (\<lambda>c. c\<lparr>channel := True\<rparr>) p\<rparr> in
          if \<not> ie_mpool env w then Inr (False, st1)
          else
            let st2 = st1\<lparr>ipc_pool := upd_conn i (\<lambda>c. c\<lparr>cpool := True\<rparr>) (ipc_pool st1)\<rparr> in
            (case pgrest_buffer_create (ie_buf env) 1024 of
               None \<Rightarrow> Inr (False, set_buf i None st2)
             | Some b \<Rightarrow>
                 let st3 = set_buf i (Some b) st2; c = conns (ipc_pool st3) ! i; ev = (if rd then rev_ev c else wev_ev c) in
                 bind_ub (deref ev) (\<lambda>e.
                   if \<not> ie_aok env e then Inr (False, st3)
                   else
                     bind_ub (if rd then pgrest_event_add (ie_ok env) ev (pending (ipc_pool st3)) else Inr (True, pending (ipc_pool st3))) (\<lambda>(_, pend).
                       let st4 = set_pending pend st3 in
                       if w < length (ipc_data st4) then Inr (True, st4\<lparr>ipc_data := (ipc_data st4)[w := (ipc_data st4 ! w)\<lparr>ipc_conn := Some i\<rparr>]\<rparr>)
                       else Inl OutOfBounds))))"

text \<open>\<^verbatim>\<open>pgrest_ipc_close_channel\<close> closes both ends.\<close>

definition pgrest_ipc_close_channel :: "pgrest_ipc_data \<Rightarrow> nat list" where
  "pgrest_ipc_close_channel d = [ipc_sock1 d, ipc_sock0 d]"

text \<open>The loop of \<^verbatim>\<open>pgrest_ipc_worker_init\<close> over the workers from \<open>i\<close>, \<open>n\<close> of them left.\<close>

fun worker_init_loop :: "ipc_env \<Rightarrow> nat \<Rightarrow> nat \<Rightarrow> nat \<Rightarrow> ipc_state \<Rightarrow> (bool \<times> ipc_state) run" where
  "worker_init_loop env me i 0 st = Inr (True, st)"
| "worker_init_loop env me i (Suc n) st =
     (if i = me then worker_init_loop env me (i + 1) n st
      else if i \<ge> length (ipc_data st) then Inl OutOfBounds
      else
        let d = ipc_data st ! i in
        bind_ub (pgrest_ipc_setup_handler env i (ipc_sock0 d) False (st\<lparr>ipc_closed := ipc_sock1 d # ipc_closed st\<rparr>)) (\<lambda>(ok, st1).
          if \<not> ok then Inr (False, st1) else worker_init_loop env me (i + 1) n st1))"

definition pgrest_ipc_worker_init :: "ipc_env \<Rightarrow> nat \<Rightarrow> nat \<Rightarrow> ipc_state \<Rightarrow> (bool \<times> ipc_state) run" where
  "pgrest_ipc_worker_init env me n st =
     bind_ub (worker_init_loop env me 0 n st) (\<lambda>(ok, st1).
       if \<not> ok then Inr (False, st1)
       else if me \<ge> length (ipc_data st1) then Inl OutOfBounds
       else
         let d = ipc_data st1 ! me in
         pgrest_ipc_setup_handler env me (ipc_sock1 d) True (st1\<lparr>ipc_closed := ipc_sock0 d # ipc_closed st1\<rparr>))"

fun pgrest_ipc_worker_exit :: "ipc_env \<Rightarrow> pgrest_ipc_data list \<Rightarrow> ipc_state \<Rightarrow> ipc_state run" where
  "pgrest_ipc_worker_exit env [] st = Inr st"
| "pgrest_ipc_worker_exit env (d # ds) st =
     (case ipc_conn d of
        None \<Rightarrow> pgrest_ipc_worker_exit env ds st
      | Some i \<Rightarrow> bind_ub (close_conn env i st) (pgrest_ipc_worker_exit env ds))"

definition pgrest_ipc_close :: "ipc_state \<Rightarrow> ipc_state" where
  "pgrest_ipc_close st = st\<lparr>ipc_closed := concat (map pgrest_ipc_close_channel (rev (ipc_data st))) @ ipc_closed st\<rparr>"

text \<open>
  \<^verbatim>\<open>pgrest_ipc_channel_init\<close>: per worker the socket pair, if it can be made, and the answers of the four calls that set its
  flags. The result has the channels and the descriptors that are open afterwards; a failure closes only the last pair.
\<close>

type_synonym pair_calls = "(nat \<times> nat) option \<times> bool \<times> bool \<times> bool \<times> bool"

fun pgrest_ipc_channel_init :: "pair_calls list \<Rightarrow> bool \<times> pgrest_ipc_data list \<times> nat list" where
  "pgrest_ipc_channel_init [] = (True, [], [])"
| "pgrest_ipc_channel_init ((None, _) # ws) = (False, [], [])"
| "pgrest_ipc_channel_init ((Some (a, b), n0, n1, c0, c1) # ws) =
     (if n0 \<and> n1 \<and> c0 \<and> c1 then
        (case pgrest_ipc_channel_init ws of (ok, ds, fds) \<Rightarrow> (ok, \<lparr>ipc_sock0 = a, ipc_sock1 = b, ipc_conn = None\<rparr> # ds, a # b # fds))
      else (False, [], []))"

section \<open>A channel in use\<close>

text \<open>
  What happens to a writing end: messages, and calls of its write handler with the answers of \<open>send\<close>, which accepts at most what it is
  given. The result has the bytes sent and the messages accepted. A handler that still waits for an answer changes nothing.
\<close>

datatype channel_op = Notify byte | Writable "sys_result list"

definition send_at_most :: "nat \<Rightarrow> sys_result \<Rightarrow> sys_result" where
  "send_at_most k r = (case r of Done n \<Rightarrow> Done (min n k) | Fail e \<Rightarrow> Fail e)"

definition queued :: "nat \<Rightarrow> ipc_state \<Rightarrow> byte list" where
  "queued i st = (case ipc_buf st i of None \<Rightarrow> [] | Some b \<Rightarrow> buf_data b)"

fun channel_run :: "ipc_env \<Rightarrow> nat \<Rightarrow> nat \<Rightarrow> channel_op list \<Rightarrow> ipc_state \<Rightarrow> (byte list \<times> byte list \<times> ipc_state) run" where
  "channel_run env d i [] st = Inr ([], [], st)"
| "channel_run env d i (Notify c # ops) st =
     bind_ub (pgrest_ipc_send_notify env d c st) (\<lambda>(ok, st1).
       map_sum id (\<lambda>(out, acc, st2). (out, if ok then c # acc else acc, st2)) (channel_run env d i ops st1))"
| "channel_run env d i (Writable rs # ops) st =
     (if ipc_conn (ipc_data st ! d) \<noteq> Some i then channel_run env d i ops st
      else
        (case pgrest_ipc_write_handler env (map (send_at_most (length (queued i st))) rs) i st of
           None \<Rightarrow> channel_run env d i ops st
         | Some r \<Rightarrow>
             bind_ub r (\<lambda>(out, st1). map_sum id (\<lambda>(out', acc, st2). (out @ out', acc, st2)) (channel_run env d i ops st1))))"

text \<open>
  A channel that is open: its connection has both events, and its buffer is on the heap and has room for \<open>k\<close> more messages
  below the limit of mapped buffers.
\<close>

definition channel_ready :: "nat \<Rightarrow> nat \<Rightarrow> nat \<Rightarrow> ipc_state \<Rightarrow> bool" where
  "channel_ready d i k st \<longleftrightarrow> d < length (ipc_data st) \<and> ipc_conn (ipc_data st ! d) = Some i \<and>
     (\<forall>j < d. ipc_conn (ipc_data st ! j) \<noteq> Some i) \<and> i < length (conns (ipc_pool st)) \<and> rev_ev (conns (ipc_pool st) ! i) \<noteq> None \<and>
     wev_ev (conns (ipc_pool st) ! i) \<noteq> None \<and>
     (\<exists>b. ipc_buf st i = Some b \<and> buffer_wf b \<and> b_fd b = None \<and> 0 < b_capacity b \<and> b_capacity b < 2 ^ 20 \<and> b_size b + k < 2 ^ 18)"

definition channel_closed :: "nat \<Rightarrow> ipc_state \<Rightarrow> bool" where
  "channel_closed d st \<longleftrightarrow> d < length (ipc_data st) \<and> ipc_conn (ipc_data st ! d) = None"

text \<open>The allocator serves the sizes of the buffers.\<close>

definition buffers_served :: "ipc_env \<Rightarrow> bool" where
  "buffers_served env \<longleftrightarrow> (\<forall>m \<le> 2 ^ 20 + buffer_header. pgrest_util_alloc (be_mem (ie_buf env)) m)"

lemma reserve_one:
  assumes "buffer_wf b" "b_fd b = None" "0 < b_capacity b" "b_capacity b < 2 ^ 20" "b_size b + 1 < 2 ^ 18" "buffers_served env"
  obtains off room b' where "pgrest_buffer_reserve (ie_buf env) b 1 = Inr (Some (off, room), b')" "buffer_wf b'" "buf_data b' = buf_data b"
    "off = b_pos b' + b_size b'" "off < b_capacity b'" "b_fd b' = None" "b_capacity b' < 2 ^ 20" "0 < b_capacity b'"
proof -
  have small: "b_capacity b < 2 ^ 62" "b_size b + 1 < 2 ^ 62" using assms by simp_all
  have d: "umul (uadd (b_size b) 1) 2 = (b_size b + 1) * 2" "b_size b \<le> b_capacity b"
    using assms(1,5) by (simp_all add: umul_exact uadd_exact WORD_MOD_def buffer_wf_def)
  have g: "grow_capacity 65 (b_capacity b) (b_size b) 1 = Some (b_capacity b * 2)"
    using assms(3,4) d(2) by (simp add: grow_capacity_numeral umul_exact usub_exact WORD_MOD_def)
  have fit: "b_capacity b * 2 \<le> PGREST_BUFFER_LIMIT_SIZE" if "\<not> (b_size b + 1) * 2 \<le> b_capacity b"
    using that assms(5) by (simp add: PGREST_BUFFER_LIMIT_SIZE_def)
  have alloc: "pgrest_util_alloc (be_mem (ie_buf env)) (buffer_header + b_capacity b * 2)" if "\<not> (b_size b + 1) * 2 \<le> b_capacity b"
    using fit [OF that] assms(6) by (simp add: buffers_served_def PGREST_BUFFER_LIMIT_SIZE_def)
  have "\<exists>off room b'. pgrest_buffer_reserve (ie_buf env) b 1 = Inr (Some (off, room), b') \<and> b_fd b' = None \<and> b_capacity b' < 2 ^ 20"
    using assms(2,4) fit alloc d(1) assms(5) unfolding pgrest_buffer_reserve_def g buffer_tail_def Let_def
    by (auto simp: buffer_copy_to_def)
  then obtain off room b' where r: "pgrest_buffer_reserve (ie_buf env) b 1 = Inr (Some (off, room), b')" "b_fd b' = None" "b_capacity b' < 2 ^ 20" by blast
  from reserve_cases [OF assms(1,3) small r(1)] assms(2)
  have "buffer_wf b' \<and> buf_data b' = buf_data b \<and> off = b_pos b' + b_size b' \<and> 1 \<le> room \<and> off + room = b_capacity b'" by (auto simp: reserve_ok_def prod_eq_iff)
  with r show thesis by (intro that) auto
qed

lemma put_byte_ok:
  assumes "buffer_wf b" "off = b_pos b + b_size b" "off < b_capacity b"
  obtains b' where "put_byte off c b = Inr b'" "buffer_wf b'" "buf_data b' = buf_data b @ [c]" "b_fd b' = b_fd b" "b_capacity b' = b_capacity b"
    "b_size b' = b_size b + 1"
proof -
  let ?b = "b\<lparr>b_start := (b_start b)[off := c], b_size := b_size b + 1\<rparr>"
  have l: "length (b_start b) = b_capacity b" "b_capacity b < 2 ^ 63" using assms(1) by (simp_all add: buffer_wf_def)
  have "take (b_size b + 1) (drop (b_pos b) ((b_start b)[off := c])) = take (b_size b) (drop (b_pos b) (b_start b)) @ [c]"
    using assms l by (simp add: drop_update_swap take_update_last)
  moreover have "uadd (b_size b) 1 = b_size b + 1" using assms l by (simp add: uadd_exact WORD_MOD_def)
  ultimately show thesis using assms l by (intro that [of ?b]) (auto simp: put_byte_def buf_data_def buffer_wf_def)
qed

lemma schedule_ok:
  assumes "rev_ev (conns (ipc_pool st) ! i) = Some r"
  obtains pend where "schedule env i st = Inr (set_pending pend st)" "pend \<subseteq> insert r (pending (ipc_pool st))"
proof -
  from assms have "schedule env i st = Inr (set_pending (if r \<in> pending (ipc_pool st) \<or> \<not> ie_ok env r then pending (ipc_pool st) else insert r (pending (ipc_pool st))) st)"
    by (simp add: schedule_def pgrest_event_add_def)
  then show thesis by (rule that) auto
qed

lemma ready_pending [simp]: "channel_ready d i k (set_pending pend st) = channel_ready d i k st" "queued i (st\<lparr>ipc_pool := p\<rparr>) = queued i st"
  by (simp_all add: channel_ready_def queued_def)

lemma queued_set_buf [simp]: "queued i (set_buf i (Some b) st) = buf_data b"
  by (simp add: queued_def)

lemma notify_ready:
  assumes ready: "channel_ready d i (Suc k) st" and env: "buffers_served env"
  shows "\<exists>st'. pgrest_ipc_send_notify env d c st = Inr (True, st') \<and> channel_ready d i k st' \<and> queued i st' = queued i st @ [c]"
proof -
  from ready obtain b r where b: "ipc_buf st i = Some b" "buffer_wf b" "b_fd b = None" "0 < b_capacity b" "b_capacity b < 2 ^ 20" "b_size b + Suc k < 2 ^ 18"
    and r: "rev_ev (conns (ipc_pool st) ! i) = Some r" by (auto simp: channel_ready_def)
  from b have "b_size b + 1 < 2 ^ 18" by simp
  from reserve_one [OF b(2-5) this env] obtain off room b1 where b1: "pgrest_buffer_reserve (ie_buf env) b 1 = Inr (Some (off, room), b1)" "buffer_wf b1"
    "buf_data b1 = buf_data b" "off = b_pos b1 + b_size b1" "off < b_capacity b1" "b_fd b1 = None" "b_capacity b1 < 2 ^ 20" "0 < b_capacity b1" by metis
  from put_byte_ok [OF b1(2,4,5), of c] obtain b2 where b2: "put_byte off c b1 = Inr b2" "buffer_wf b2" "buf_data b2 = buf_data b1 @ [c]" "b_fd b2 = b_fd b1"
    "b_capacity b2 = b_capacity b1" "b_size b2 = b_size b1 + 1" by metis
  have "b_size b1 = b_size b" using length_buf_data [OF b1(2)] length_buf_data [OF b(2)] b1(3) by simp
  with b b1 b2 ready have "channel_ready d i k (set_buf i (Some b2) st)" by (auto simp: channel_ready_def)
  moreover from r have "rev_ev (conns (ipc_pool (set_buf i (Some b2) st)) ! i) = Some r" by simp
  from schedule_ok [OF this, of env] obtain pend where "schedule env i (set_buf i (Some b2) st) = Inr (set_pending pend (set_buf i (Some b2) st))" by blast
  moreover have "queued i st = buf_data b" using b(1) by (simp add: queued_def)
  ultimately show ?thesis using ready b(1) b1(1,3) b2(1,3) by (simp add: pgrest_ipc_send_notify_def channel_ready_def deref_def)
qed

lemma length_clear_conn [simp]: "length (clear_conn i ds) = length ds"
  by (induction ds) auto

lemma clear_conn_nth:
  "d < length ds \<Longrightarrow> ipc_conn (ds ! d) = Some i \<Longrightarrow> \<forall>j < d. ipc_conn (ds ! j) \<noteq> Some i \<Longrightarrow> ipc_conn (clear_conn i ds ! d) = None"
proof (induction ds arbitrary: d)
  case (Cons x ds)
  show ?case
  proof (cases d)
    case (Suc e)
    with Cons.prems(3) have "ipc_conn ((x # ds) ! 0) \<noteq> Some i" "\<forall>j < e. ipc_conn ((x # ds) ! Suc j) \<noteq> Some i" by blast+
    with Suc Cons.prems(1,2) Cons.IH [of e] show ?thesis by simp
  qed (use Cons.prems in simp)
qed simp

lemma fail_ready:
  assumes "channel_ready d i k st"
  shows "\<exists>st'. ipc_fail env i st = Inr st' \<and> channel_closed d st'"
proof -
  from assms obtain r w where "rev_ev (conns (ipc_pool st) ! i) = Some r" "wev_ev (conns (ipc_pool st) ! i) = Some w" by (auto simp: channel_ready_def)
  then have "\<exists>x p. pgrest_conn_close (ie_ok env) i (ipc_pool st) = Inr (x, p)"
    by (simp add: pgrest_conn_close_def pgrest_event_del_def split: option.split)
  then obtain x p where c: "pgrest_conn_close (ie_ok env) i (ipc_pool st) = Inr (x, p)" by blast
  from assms have "ipc_conn (clear_conn i (ipc_data st) ! d) = None" "d < length (ipc_data st)"
    using clear_conn_nth [of d "ipc_data st" i] by (simp_all add: channel_ready_def)
  with c show ?thesis by (simp add: ipc_fail_def close_conn_def pgrest_ipc_set_conn_def channel_closed_def)
qed

lemma send_bounded:
  assumes "pgrest_conn_send (map (send_at_most k) rs) c = Some (n, c')"
  shows "rev_ev c' = rev_ev c" "wev_ev c' = wev_ev c" "n = PGREST_ERROR \<or> n = PGREST_AGAIN \<or> 0 \<le> n \<and> n \<le> int k"
  using assms by (induction rs) (auto simp: send_at_most_def split: sys_result.splits if_splits)

lemma ready_conn:
  assumes "channel_ready d i k st" "rev_ev c = rev_ev (conns (ipc_pool st) ! i)" "wev_ev c = wev_ev (conns (ipc_pool st) ! i)"
  shows "channel_ready d i k (st\<lparr>ipc_pool := upd_conn i (\<lambda>_. c) (ipc_pool st)\<rparr>)"
  using assms by (simp add: channel_ready_def)

lemma writable_ready:
  assumes ready: "channel_ready d i k st" and w: "pgrest_ipc_write_handler env (map (send_at_most (length (queued i st))) rs) i st = Some r"
  shows "\<exists>out st'. r = Inr (out, st') \<and> (channel_ready d i k st' \<and> queued i st = out @ queued i st' \<or> channel_closed d st' \<and> out = [])"
proof -
  from ready obtain b where b: "ipc_buf st i = Some b" "buffer_wf b" "b_fd b = None" "0 < b_capacity b" "b_capacity b < 2 ^ 20" "b_size b + k < 2 ^ 18"
    by (auto simp: channel_ready_def)
  have q: "queued i st = buf_data b" "length (queued i st) = b_size b" using b(1,2) by (simp_all add: queued_def length_buf_data)
  show ?thesis
  proof (cases "b_size b = 0")
    case True
    from ready obtain e where "wev_ev (conns (ipc_pool st) ! i) = Some e" by (auto simp: channel_ready_def)
    with w b(1) True have "r = Inr ([], set_pending (if e \<in> pending (ipc_pool st) \<and> ie_ok env e then pending (ipc_pool st) - {e} else pending (ipc_pool st)) st)"
      by (auto simp: pgrest_ipc_write_handler_def pgrest_event_del_def split: if_splits)
    with ready show ?thesis by auto
  next
    case False
    let ?rs = "map (send_at_most (length (queued i st))) rs"
    from w b(1) False obtain result c where s: "pgrest_conn_send ?rs (conns (ipc_pool st) ! i) = Some (result, c)"
      by (auto simp: pgrest_ipc_write_handler_def split: option.splits)
    let ?st1 = "st\<lparr>ipc_pool := upd_conn i (\<lambda>_. c) (ipc_pool st)\<rparr>"
    note sb = send_bounded [OF s, unfolded q(2)]
    have ready1: "channel_ready d i k ?st1" by (rule ready_conn [OF ready sb(1,2)])
    show ?thesis
    proof (cases "result = PGREST_ERROR")
      case True
      from fail_ready [OF ready1, of env] obtain st' where "ipc_fail env i ?st1 = Inr st'" "channel_closed d st'" by blast
      with True w b(1) False s show ?thesis by (auto simp: pgrest_ipc_write_handler_def Let_def)
    next
      case no_error: False
      define n where "n = (if result = 0 \<or> result = PGREST_AGAIN then 0 else nat result)"
      define b1 where "b1 = (if result = 0 \<or> result = PGREST_AGAIN then b else pgrest_buffer_consume b n)"
      have n: "n \<le> b_size b" using sb(3) no_error by (auto simp: n_def)
      have b1: "buffer_wf b1" "buf_data b1 = drop n (buf_data b)" using consume_spec [OF b(2) n] b(2) by (auto simp: b1_def n_def)
      have meta: "b_fd b1 = None" "b_capacity b1 = b_capacity b" using b(3) by (simp_all add: b1_def pgrest_buffer_consume_def pgrest_buffer_reset_def)
      have "b_size b1 \<le> b_size b" using length_buf_data [OF b1(1)] length_buf_data [OF b(2)] b1(2) by simp
      define st2 where "st2 = set_buf i (Some b1) ?st1"
      from \<open>b_size b1 \<le> b_size b\<close> ready1 b b1 meta have ready2: "channel_ready d i k st2" by (auto simp: channel_ready_def st2_def)
      then obtain e where "rev_ev (conns (ipc_pool st2) ! i) = Some e" by (auto simp: channel_ready_def)
      from schedule_ok [OF this, of env] obtain pend where p: "schedule env i st2 = Inr (set_pending pend st2)" by blast
      have q2: "queued i st2 = buf_data b1" by (simp add: st2_def queued_def)
      have "r = (if b_size b1 \<noteq> 0 then map_sum id (Pair (take n (buf_data b))) (schedule env i st2) else Inr (take n (buf_data b), st2))"
        using w b(1) False s no_error by (auto simp: pgrest_ipc_write_handler_def Let_def n_def b1_def st2_def split: if_splits)
      then have "r = Inr (take n (buf_data b), st2) \<or> r = Inr (take n (buf_data b), set_pending pend st2)" by (simp add: p)
      with ready2 q2 b1(2) q(1) show ?thesis by (elim disjE) simp_all
    qed
  qed
qed

definition notified :: "channel_op list \<Rightarrow> byte list" where
  "notified ops = concat (map (\<lambda>x. case x of Notify c \<Rightarrow> [c] | Writable _ \<Rightarrow> []) ops)"

lemma notified_simps [simp]: "notified [] = []" "notified (Notify c # ops) = c # notified ops" "notified (Writable rs # ops) = notified ops"
  by (simp_all add: notified_def)

lemma closed_run: "channel_closed d st \<Longrightarrow> channel_run env d i ops st = Inr ([], [], st)"
proof (induction ops)
  case (Cons x ops)
  then show ?case by (cases x) (simp_all add: channel_closed_def pgrest_ipc_send_notify_def)
qed simp

lemma channel_keeps:
  assumes "channel_ready d i (length (notified ops)) st" "buffers_served env"
  shows "\<exists>out acc st'. channel_run env d i ops st = Inr (out, acc, st') \<and> prefix acc (notified ops) \<and>
    (channel_ready d i 0 st' \<and> acc = notified ops \<and> queued i st @ acc = out @ queued i st' \<or> channel_closed d st' \<and> prefix out (queued i st @ acc))"
  using assms
proof (induction ops arbitrary: st)
  case Nil
  then show ?case by simp
next
  case (Cons x ops)
  show ?case
  proof (cases x)
    case (Notify c)
    from Cons.prems Notify have "channel_ready d i (Suc (length (notified ops))) st" by simp
    from notify_ready [OF this Cons.prems(2), of c] obtain st1 where s: "pgrest_ipc_send_notify env d c st = Inr (True, st1)"
      "channel_ready d i (length (notified ops)) st1" "queued i st1 = queued i st @ [c]" by blast
    from Cons.IH [OF s(2) Cons.prems(2)] s(1,3) Notify show ?thesis by auto
  next
    case (Writable rs)
    have open': "ipc_conn (ipc_data st ! d) = Some i" and k: "channel_ready d i (length (notified ops)) st" using Cons.prems(1) Writable by (simp_all add: channel_ready_def)
    show ?thesis
    proof (cases "pgrest_ipc_write_handler env (map (send_at_most (length (queued i st))) rs) i st")
      case None
      with Cons.IH [OF k Cons.prems(2)] Writable open' show ?thesis by simp
    next
      case (Some r)
      from writable_ready [OF k Some] obtain out st1 where r: "r = Inr (out, st1)"
        "channel_ready d i (length (notified ops)) st1 \<and> queued i st = out @ queued i st1 \<or> channel_closed d st1 \<and> out = []" by blast
      from r(2) show ?thesis
      proof
        assume "channel_ready d i (length (notified ops)) st1 \<and> queued i st = out @ queued i st1"
        with Cons.IH [of st1] Cons.prems(2) Some Writable open' r(1) show ?thesis by fastforce
      next
        assume "channel_closed d st1 \<and> out = []"
        with Some Writable open' r(1) closed_run [of d st1 env i ops] show ?thesis by simp
      qed
    qed
  qed
qed

text \<open>A channel whose write event is not pending.\<close>

definition quiet :: "nat \<Rightarrow> nat \<Rightarrow> nat \<Rightarrow> ipc_state \<Rightarrow> bool" where
  "quiet i r w st \<longleftrightarrow> i < length (conns (ipc_pool st)) \<and> rev_ev (conns (ipc_pool st) ! i) = Some r \<and> wev_ev (conns (ipc_pool st) ! i) = Some w \<and>
     r \<noteq> w \<and> w \<notin> pending (ipc_pool st)"

lemma quiet_buf [simp]: "quiet i r w (st\<lparr>ipc_buf := f\<rparr>) = quiet i r w st" "quiet i r w (st\<lparr>ipc_data := ds\<rparr>) = quiet i r w st"
  "quiet i r w (st\<lparr>ipc_closed := cs\<rparr>) = quiet i r w st"
  by (simp_all add: quiet_def)

lemma quiet_schedule: "quiet i r w st \<Longrightarrow> schedule env i st = Inr st' \<Longrightarrow> quiet i r w st'"
  by (auto simp: schedule_def pgrest_event_add_def quiet_def split: if_splits)

lemma quiet_notify:
  assumes "quiet i r w st" "ipc_conn (ipc_data st ! d) = Some i \<or> ipc_conn (ipc_data st ! d) = None" "pgrest_ipc_send_notify env d c st = Inr (ok, st')"
  shows "quiet i r w st' \<and> ipc_data st' = ipc_data st"
proof -
  have "ipc_data st' = ipc_data st" if "schedule env j st0 = Inr st'" "ipc_data st0 = ipc_data st" for j st0
    using that by (auto simp: schedule_def bind_ub_Inr)
  moreover have "quiet i r w st'" if "schedule env i (set_buf i b st) = Inr st'" for b
    using quiet_schedule [OF _ that] assms(1) by simp
  ultimately show ?thesis
    using assms
    by (auto simp: pgrest_ipc_send_notify_def bind_ub_Inr map_sum_Inr split: if_splits option.splits prod.splits)
qed

lemma quiet_send: "quiet i r w st \<Longrightarrow> pgrest_conn_send rs (conns (ipc_pool st) ! i) = Some (n, c) \<Longrightarrow> quiet i r w (st\<lparr>ipc_pool := upd_conn i (\<lambda>_. c) (ipc_pool st)\<rparr>)"
proof -
  assume q: "quiet i r w st" and s: "pgrest_conn_send rs (conns (ipc_pool st) ! i) = Some (n, c)"
  have "rev_ev c = rev_ev (conns (ipc_pool st) ! i) \<and> wev_ev c = wev_ev (conns (ipc_pool st) ! i)"
    using s by (induction rs) (auto split: sys_result.splits if_splits)
  with q show ?thesis by (simp add: quiet_def)
qed

lemma quiet_fail:
  assumes "quiet i r w st" "ipc_fail env i st = Inr st'"
  shows "quiet i r w st'"
proof -
  from assms(2) obtain s p where c: "pgrest_conn_close (ie_ok env) i (ipc_pool st) = Inr (s, p)" "ipc_pool st' = p"
    by (auto simp: ipc_fail_def close_conn_def pgrest_ipc_set_conn_def bind_ub_Inr map_sum_Inr)
  from assms(1) c(1) have "i < length (conns p)" "rev_ev (conns p ! i) = Some r" "wev_ev (conns p ! i) = Some w" "w \<notin> pending p"
    by (auto simp: quiet_def pgrest_conn_close_def pgrest_event_del_def pgrest_conn_free_def pgrest_conn_reusable_def Let_def split: option.splits if_splits)
  with c(2) assms(1) show ?thesis by (simp add: quiet_def)
qed

lemma clear_conn_still: "ipc_conn (ds ! d) = Some i \<or> ipc_conn (ds ! d) = None \<Longrightarrow> d < length ds \<Longrightarrow> ipc_conn (clear_conn i ds ! d) = Some i \<or> ipc_conn (clear_conn i ds ! d) = None"
  by (induction ds arbitrary: d) (auto simp: nth_Cons split: nat.splits)

lemma quiet_write:
  assumes q: "quiet i r w st" and w: "pgrest_ipc_write_handler env rs i st = Some (Inr (out, st'))"
  shows "quiet i r w st' \<and> (ipc_data st' = ipc_data st \<or> ipc_data st' = clear_conn i (ipc_data st))"
proof -
  have s: "ipc_data st2 = ipc_data st1" if "schedule env j st1 = Inr st2" for j st1 st2
    using that by (auto simp: schedule_def bind_ub_Inr)
  have f: "ipc_data st2 = clear_conn i (ipc_data st1)" if "ipc_fail env i st1 = Inr st2" for st1 st2
    using that by (auto simp: ipc_fail_def close_conn_def pgrest_ipc_set_conn_def bind_ub_Inr map_sum_Inr)
  from w obtain b where b: "ipc_buf st i = Some b" by (auto simp: pgrest_ipc_write_handler_def split: option.splits)
  show ?thesis
  proof (cases "b_size b = 0")
    case True
    with w b q show ?thesis by (auto simp: pgrest_ipc_write_handler_def pgrest_event_del_def quiet_def split: if_splits)
  next
    case False
    with w b obtain n c where c: "pgrest_conn_send rs (conns (ipc_pool st) ! i) = Some (n, c)" by (auto simp: pgrest_ipc_write_handler_def split: option.splits)
    let ?st1 = "st\<lparr>ipc_pool := upd_conn i (\<lambda>_. c) (ipc_pool st)\<rparr>"
    note q1 = quiet_send [OF q c]
    show ?thesis
    proof (cases "n = PGREST_ERROR")
      case True
      with w b False c have "ipc_fail env i ?st1 = Inr st'" by (auto simp: pgrest_ipc_write_handler_def Let_def map_sum_Inr)
      from quiet_fail [OF q1 this] f [OF this] show ?thesis by simp
    next
      case no: False
      with w b False c obtain b1 where "st' = set_buf i (Some b1) ?st1 \<or> schedule env i (set_buf i (Some b1) ?st1) = Inr st'"
        by (auto simp: pgrest_ipc_write_handler_def Let_def map_sum_Inr split: if_splits)
      then show ?thesis
      proof
        assume "st' = set_buf i (Some b1) ?st1"
        with q1 show ?thesis by (simp only: quiet_buf) simp
      next
        assume h: "schedule env i (set_buf i (Some b1) ?st1) = Inr st'"
        have "quiet i r w (set_buf i (Some b1) ?st1)" using q1 by (simp only: quiet_buf)
        from quiet_schedule [OF this h] s [OF h] show ?thesis by simp
      qed
    qed
  qed
qed

lemma quiet_run:
  assumes "quiet i r w st" "ipc_conn (ipc_data st ! d) = Some i \<or> ipc_conn (ipc_data st ! d) = None" "d < length (ipc_data st)"
    and "channel_run env d i ops st = Inr (out, acc, st')"
  shows "quiet i r w st'"
  using assms
proof (induction ops arbitrary: st out acc)
  case (Cons x ops)
  show ?case
  proof (cases x)
    case (Notify c)
    with Cons.prems(4) obtain ok st1 out1 acc1 where n: "pgrest_ipc_send_notify env d c st = Inr (ok, st1)" "channel_run env d i ops st1 = Inr (out1, acc1, st')"
      by (auto simp: bind_ub_Inr map_sum_Inr split: if_splits)
    from quiet_notify [OF Cons.prems(1,2) n(1)] Cons.IH [OF _ _ _ n(2)] Cons.prems(2,3) show ?thesis by simp
  next
    case (Writable rs)
    show ?thesis
    proof (cases "ipc_conn (ipc_data st ! d) = Some i \<and> pgrest_ipc_write_handler env (map (send_at_most (length (queued i st))) rs) i st \<noteq> None")
      case True
      with Cons.prems(4) Writable obtain out0 st1 out1 acc1 where n: "pgrest_ipc_write_handler env (map (send_at_most (length (queued i st))) rs) i st = Some (Inr (out0, st1))"
        "channel_run env d i ops st1 = Inr (out1, acc1, st')" by (auto simp: bind_ub_Inr map_sum_Inr)
      from quiet_write [OF Cons.prems(1) n(1)] clear_conn_still [OF Cons.prems(2,3)] Cons.prems(2,3) Cons.IH [OF _ _ _ n(2)] show ?thesis by auto
    next
      case False
      with Cons.prems(4) Writable have "channel_run env d i ops st = Inr (out, acc, st')" by (auto split: if_splits)
      from Cons.IH [OF Cons.prems(1-3) this] show ?thesis .
    qed
  qed
qed simp

section \<open>Properties\<close>

text \<open>
  C14. Messages arrive in the order in which they were sent: whatever calls of the write handler come between the notifications, and whatever
  part of the queue each \<open>send\<close> takes, nothing undefined happens, and the bytes written to the socket are a prefix of the accepted messages;
  as long as the channel is open, every message is accepted, and what was not sent yet is in the buffer.
\<close>

theorem ipc_messages_in_order:
  assumes "channel_ready d i (length (notified ops)) st" "queued i st = []" "buffers_served env"
  shows "\<exists>out acc st'. channel_run env d i ops st = Inr (out, acc, st') \<and> prefix out acc \<and> prefix acc (notified ops) \<and>
    (ipc_conn (ipc_data st' ! d) \<noteq> None \<longrightarrow> acc = notified ops \<and> acc = out @ queued i st')"
proof -
  from channel_keeps [OF assms(1,3)] assms(2) obtain out acc st' where "channel_run env d i ops st = Inr (out, acc, st')" "prefix acc (notified ops)"
    "channel_ready d i 0 st' \<and> acc = notified ops \<and> acc = out @ queued i st' \<or> channel_closed d st' \<and> prefix out acc" by auto
  then show ?thesis by (auto simp: channel_closed_def)
qed

text \<open>A channel with an empty buffer, and a system that serves every request, for concrete runs.\<close>

definition ipc_env0 :: ipc_env where
  "ipc_env0 = \<lparr>ie_mpool = (\<lambda>_. True), ie_buf = env_ok, ie_aok = (\<lambda>_. True), ie_ok = (\<lambda>_. True)\<rparr>"

definition ipc0 :: ipc_state where
  "ipc0 = \<lparr>ipc_pool = \<lparr>conns = [zero_conn\<lparr>rev_ev := Some 0, wev_ev := Some 1\<rparr>], free_conns = None, free_noconn = 0, reuse_conns = [], pending = {}\<rparr>,
     ipc_data = [\<lparr>ipc_sock0 = 3, ipc_sock1 = 4, ipc_conn = Some 0\<rparr>], ipc_buf = (\<lambda>_. pgrest_buffer_create env_ok 1024), ipc_closed = []\<rparr>"

lemma ipc0_ready: "k < 2 ^ 17 \<Longrightarrow> channel_ready 0 0 k ipc0" "queued 0 ipc0 = []" "buffers_served ipc_env0" "quiet 0 0 1 ipc0"
  by (simp_all add: channel_ready_def ipc0_def queued_def buffers_served_def ipc_env0_def env_ok_def pg_mem_ok_def pgrest_util_alloc_def MaxAllocSize_def
      pgrest_buffer_create_def buffer_header_def uadd_def WORD_MOD_def buffer_wf_def buf_data_def zero_conn_def quiet_def)

theorem ipc_messages_in_order_witness:
  "\<exists>out acc st'. channel_run ipc_env0 0 0 [Notify CHR 0x01, Writable [Fail EINTR, Done 1], Notify CHR 0x02] ipc0 = Inr (out, acc, st') \<and>
     prefix acc [CHR 0x01, CHR 0x02]"
proof -
  have "channel_ready 0 0 (length (notified [Notify CHR 0x01, Writable [Fail EINTR, Done 1], Notify CHR 0x02])) ipc0" by (simp add: ipc0_ready(1))
  from ipc_messages_in_order [OF this ipc0_ready(2,3)] show ?thesis by auto
qed

text \<open>
  C39. No message ever leaves a worker: messages, and what the write handler leaves, are scheduled on the read event of the connection, so
  its write event, the one the write handler was assigned to, is never pending, and the event loop never calls this handler.
\<close>

theorem ipc_write_never_scheduled:
  assumes "quiet i r w st" "ipc_conn (ipc_data st ! d) = Some i" "d < length (ipc_data st)" "channel_run env d i ops st = Inr (out, acc, st')"
  shows "w \<notin> pending (ipc_pool st')"
  using quiet_run [OF assms(1) _ assms(3,4)] assms(2) by (simp add: quiet_def)

theorem ipc_write_never_scheduled_witness:
  "\<exists>out acc st'. channel_run ipc_env0 0 0 [Notify CHR 0x01] ipc0 = Inr (out, acc, st') \<and> 1 \<notin> pending (ipc_pool st')"
proof -
  have "channel_ready 0 0 (length (notified [Notify CHR 0x01])) ipc0" by (simp add: ipc0_ready(1))
  from channel_keeps [OF this ipc0_ready(3)] obtain out acc st' where r: "channel_run ipc_env0 0 0 [Notify CHR 0x01] ipc0 = Inr (out, acc, st')" by blast
  from ipc_write_never_scheduled [OF ipc0_ready(4) _ _ r] have "1 \<notin> pending (ipc_pool st')" by (simp add: ipc0_def)
  with r show ?thesis by blast
qed

text \<open>The reading end calls the handlers of the messages in order, however the bytes are cut into reads.\<close>

lemma dispatch_all:
  assumes "\<forall>b \<in> set bs. code b < length hs"
  shows "ipc_dispatch hs bs = Inr (List.map_filter (\<lambda>b. hs ! code b) bs)"
  using assms by (induction bs) (auto simp: List.map_filter_simps split: option.splits)

lemma reader_in_order:
  assumes "\<forall>b \<in> set (concat chunks). code b < length hs" "[] \<notin> set chunks"
  shows "\<exists>c'. ipc_read_loop et hs (map (\<lambda>b. ([Done (length b)], b)) chunks @ [([Fail EAGAIN], [])]) c =
    Some (Inr (True, List.map_filter (\<lambda>b. hs ! code b) (concat chunks), c'))"
  using assms
proof (induction chunks arbitrary: c)
  case Nil
  then show ?case by (simp add: pgrest_conn_recv_def ERR_RW_RETRIABLE_def PGREST_AGAIN_def PGREST_ERROR_def List.map_filter_simps)
next
  case (Cons x chunks)
  obtain c1 where r: "pgrest_conn_recv et 128 [Done (length x)] c = Some (int (length x), c1)" using Cons.prems(2) by (auto simp: pgrest_conn_recv_def)
  from Cons.prems Cons.IH [of c1] obtain c2 where "ipc_read_loop et hs (map (\<lambda>b. ([Done (length b)], b)) chunks @ [([Fail EAGAIN], [])]) c1 =
    Some (Inr (True, List.map_filter (\<lambda>b. hs ! code b) (concat chunks), c2))" by auto
  moreover have "int (length x) \<noteq> PGREST_ERROR" "int (length x) \<noteq> PGREST_AGAIN" by (simp_all add: PGREST_ERROR_def PGREST_AGAIN_def)
  ultimately show ?case using r Cons.prems by (auto simp: dispatch_all List.map_filter_def)
qed

text \<open>No worker sets up its channels: the connections it takes from the pool have lost their events.\<close>

lemma setup_never: "ipc_pool st = pgrest_conn_worker_init k \<Longrightarrow> 0 < k \<Longrightarrow> pgrest_ipc_setup_handler env w s rd st \<noteq> Inr (True, st')"
  by (auto simp: pgrest_ipc_setup_handler_def pgrest_conn_get_def pgrest_conn_worker_init_def zero_conn_def Let_def deref_def split: option.splits if_splits)

lemma worker_init_loop_never:
  "ipc_pool st = pgrest_conn_worker_init k \<Longrightarrow> 0 < k \<Longrightarrow> worker_init_loop env me i n st = Inr (True, st') \<Longrightarrow> st' = st"
proof (induction n arbitrary: i)
  case (Suc n)
  have "pgrest_ipc_setup_handler env i s False (st\<lparr>ipc_closed := cs\<rparr>) \<noteq> Inr (True, st1)" for s cs st1
    by (rule setup_never [of _ k]) (use Suc.prems in simp_all)
  with Suc show ?case by (auto simp: bind_ub_Inr Let_def split: if_splits)
qed simp

lemma ipc_worker_init_fails:
  assumes "0 < k" "ipc_pool st = pgrest_conn_worker_init k"
  shows "pgrest_ipc_worker_init env me n st \<noteq> Inr (True, st')"
proof
  assume "pgrest_ipc_worker_init env me n st = Inr (True, st')"
  then obtain st1 s cs where "worker_init_loop env me 0 n st = Inr (True, st1)" and s: "pgrest_ipc_setup_handler env me s True (st1\<lparr>ipc_closed := cs\<rparr>) = Inr (True, st')"
    by (auto simp: pgrest_ipc_worker_init_def bind_ub_Inr Let_def split: if_splits)
  from worker_init_loop_never [OF assms(2,1) this(1)] setup_never [of "st1\<lparr>ipc_closed := cs\<rparr>" k env me s True st'] s assms show False by simp
qed

text \<open>The pairs before the one that fails stay open.\<close>

lemma channel_init_leaks: "pgrest_ipc_channel_init [(Some (5, 6), True, True, True, True), (None, True, True, True, True)] = (False, [\<lparr>ipc_sock0 = 5, ipc_sock1 = 6, ipc_conn = None\<rparr>], [5, 6])"
  by simp

end
