(* ===== verification/Slab.thy ===== *)
theory Slab
  imports Prelude
begin

unbundle bit_operations_syntax

text \<open>
  The allocator of the shared memory segments, \<^verbatim>\<open>src/pg_rest_slab.c\<close>, for a 64-bit build. A pool is a store of
  page structures: the head of the free list (\<open>pool->free\<close>), the slots and the array \<open>pool->pages\<close>.
  A pointer to a structure is an \<open>sref option\<close>. The word \<open>prev\<close> holds a pointer and,
  in its two low bits, the type of the page; here they are two components. The words of a page that
  the allocator itself uses, the bitmap at its start, are the component \<open>bitmap\<close>. Addresses are
  numbers. The lock that each public operation holds makes the operations sequential.
\<close>

section \<open>The pool\<close>

type_synonym uintptr = "64 word"

datatype sref = RFree | RSlot nat | RPage nat

record slab_page =
  pslab :: uintptr
  pnext :: "sref option"
  pprev :: "sref option"
  ptype :: nat

record slab_pool =
  page_shift :: nat                \<comment> \<open>\<open>pgrest_pagesize_shift\<close>\<close>
  min_shift :: nat
  npages :: nat                    \<comment> \<open>\<open>last - pages\<close>\<close>
  sstart :: nat
  send :: nat
  pg :: "sref \<Rightarrow> slab_page"
  bitmap :: "nat \<Rightarrow> nat \<Rightarrow> uintptr"

definition PGREST_SLAB_PAGE :: nat where "PGREST_SLAB_PAGE = 0"
definition PGREST_SLAB_BIG :: nat where "PGREST_SLAB_BIG = 1"
definition PGREST_SLAB_EXACT :: nat where "PGREST_SLAB_EXACT = 2"
definition PGREST_SLAB_SMALL :: nat where "PGREST_SLAB_SMALL = 3"
definition PGREST_SLAB_PAGE_FREE :: uintptr where "PGREST_SLAB_PAGE_FREE = 0"
definition PGREST_SLAB_PAGE_BUSY :: uintptr where "PGREST_SLAB_PAGE_BUSY = 0xffffffffffffffff"
definition PGREST_SLAB_PAGE_START :: uintptr where "PGREST_SLAB_PAGE_START = 0x8000000000000000"
definition PGREST_SLAB_SHIFT_MASK :: uintptr where "PGREST_SLAB_SHIFT_MASK = 0x000000000000000f"
definition PGREST_SLAB_MAP_MASK :: uintptr where "PGREST_SLAB_MAP_MASK = 0xffffffff00000000"
definition PGREST_SLAB_MAP_SHIFT :: nat where "PGREST_SLAB_MAP_SHIFT = 32"
definition PGREST_SLAB_BUSY :: uintptr where "PGREST_SLAB_BUSY = 0xffffffffffffffff"

definition pagesize :: "slab_pool \<Rightarrow> nat" where "pagesize P = 2 ^ page_shift P"
definition slab_max_size :: "slab_pool \<Rightarrow> nat" where "slab_max_size P = pagesize P div 2"
definition slab_exact_size :: "slab_pool \<Rightarrow> nat" where "slab_exact_size P = pagesize P div (8 * 8)"

fun log_loop :: "nat \<Rightarrow> nat \<Rightarrow> nat" where
  "log_loop n acc = (if n div 2 = 0 then acc else log_loop (n div 2) (acc + 1))"

declare log_loop.simps [simp del]

definition slab_exact_shift :: "slab_pool \<Rightarrow> nat" where "slab_exact_shift P = log_loop (slab_exact_size P) 0"

definition nslots :: "slab_pool \<Rightarrow> nat" where "nslots P = page_shift P - min_shift P"

text \<open>Access to a structure. Structures outside the arrays are \<open>OutOfBounds\<close>.\<close>

fun valid :: "slab_pool \<Rightarrow> sref \<Rightarrow> bool" where
  "valid P RFree = True"
| "valid P (RSlot i) = (i < nslots P)"
| "valid P (RPage i) = (i < npages P)"

definition rd :: "sref \<Rightarrow> slab_pool \<Rightarrow> slab_page run" where
  "rd r P = (if valid P r then Inr (pg P r) else Inl OutOfBounds)"

definition wr :: "sref \<Rightarrow> (slab_page \<Rightarrow> slab_page) \<Rightarrow> slab_pool \<Rightarrow> slab_pool run" where
  "wr r f P = (if valid P r then Inr (P\<lparr>pg := (pg P)(r := f (pg P r))\<rparr>) else Inl OutOfBounds)"

definition zero_page :: slab_page where "zero_page = \<lparr>pslab = 0, pnext = None, pprev = None, ptype = 0\<rparr>"

text \<open>
  \<^verbatim>\<open>pgrest_slab_init\<close> on the segment from \<open>addr\<close> to \<open>end\<close>; 96 and 24 are the sizes of the two structures.
\<close>

definition align :: "nat \<Rightarrow> nat \<Rightarrow> nat" where "align n a = (n + a - 1) div a * a"

definition pgrest_slab_init :: "nat \<Rightarrow> nat \<Rightarrow> nat \<Rightarrow> nat \<Rightarrow> slab_pool" where
  "pgrest_slab_init pshift mshift addr end_addr =
     (let size = usub end_addr (addr + 96);
          n = pshift - mshift;
          pages = size div (2 ^ pshift + 24);
          start = align (addr + 96 + n * 24 + pages * 24) (2 ^ pshift);
          m = int pages - int (usub end_addr start div 2 ^ pshift);
          pages' = (if m > 0 then pages - nat m else pages) in
      \<lparr>page_shift = pshift, min_shift = mshift, npages = pages', sstart = start, send = end_addr,
       pg = (\<lambda>r. case r of
               RFree \<Rightarrow> zero_page\<lparr>pnext := Some (RPage 0)\<rparr>
             | RSlot i \<Rightarrow> zero_page\<lparr>pnext := Some (RSlot i)\<rparr>
             | RPage i \<Rightarrow> if i = 0 then \<lparr>pslab = of_nat pages', pnext = Some RFree, pprev = Some RFree, ptype = 0\<rparr> else zero_page),
       bitmap = (\<lambda>_ _. 0)\<rparr>)"

section \<open>Runs of pages\<close>

text \<open>\<open>prev->next = page->next; page->next->prev = page->prev\<close>\<close>

definition unlink :: "sref \<Rightarrow> slab_pool \<Rightarrow> slab_pool run" where
  "unlink x P =
     bind_ub (rd x P) (\<lambda>p.
     bind_ub (deref (pprev p)) (\<lambda>r.
     bind_ub (wr r (\<lambda>q. q\<lparr>pnext := pnext p\<rparr>) P) (\<lambda>P1.
     bind_ub (rd x P1) (\<lambda>p1.
     bind_ub (deref (pnext p1)) (\<lambda>n. wr n (\<lambda>q. q\<lparr>pprev := pprev p1, ptype := ptype p1\<rparr>) P1)))))"

fun wr_range :: "nat \<Rightarrow> nat \<Rightarrow> slab_page \<Rightarrow> slab_pool \<Rightarrow> slab_pool run" where
  "wr_range i 0 q P = Inr P"
| "wr_range i (Suc k) q P = bind_ub (wr (RPage i) (\<lambda>_. q) P) (wr_range (Suc i) k q)"

text \<open>The body of the loop of \<^verbatim>\<open>pgrest_slab_alloc_pages\<close> for the run that is taken.\<close>

definition take_run :: "nat \<Rightarrow> nat \<Rightarrow> slab_pool \<Rightarrow> slab_pool run" where
  "take_run i n P =
     bind_ub (rd (RPage i) P) (\<lambda>p.
     let k = unat (pslab p) in
     bind_ub
       (if k > n then
          bind_ub (wr (RPage (i + k - 1)) (\<lambda>q. q\<lparr>pprev := Some (RPage (i + n)), ptype := 0\<rparr>) P) (\<lambda>P1.
          bind_ub (rd (RPage i) P1) (\<lambda>p1.
          bind_ub (wr (RPage (i + n)) (\<lambda>q. q\<lparr>pslab := of_nat (k - n), pnext := pnext p1, pprev := pprev p1, ptype := ptype p1\<rparr>) P1) (\<lambda>P2.
          bind_ub (deref (pprev p1)) (\<lambda>r.
          bind_ub (wr r (\<lambda>q. q\<lparr>pnext := Some (RPage (i + n))\<rparr>) P2) (\<lambda>P3.
          bind_ub (deref (pnext p1)) (\<lambda>x. wr x (\<lambda>q. q\<lparr>pprev := Some (RPage (i + n)), ptype := 0\<rparr>) P3))))))
        else unlink (RPage i) P) (\<lambda>P4.
     bind_ub (wr (RPage i) (\<lambda>_. \<lparr>pslab = of_nat n OR PGREST_SLAB_PAGE_START, pnext = None, pprev = None, ptype = PGREST_SLAB_PAGE\<rparr>) P4)
       (wr_range (i + 1) (n - 1) \<lparr>pslab = PGREST_SLAB_PAGE_BUSY, pnext = None, pprev = None, ptype = PGREST_SLAB_PAGE\<rparr>)))"

text \<open>
  The walk along the free list. The list of a well-formed pool has at most \<open>npages\<close> runs, so the
  bound is not reached there.
\<close>

fun alloc_loop :: "nat \<Rightarrow> sref option \<Rightarrow> nat \<Rightarrow> slab_pool \<Rightarrow> (nat option \<times> slab_pool) run" where
  "alloc_loop 0 page n P = Inl NoReturn"
| "alloc_loop (Suc fuel) page n P =
     bind_ub (deref page) (\<lambda>r.
       case r of
         RFree \<Rightarrow> Inr (None, P)
       | RSlot _ \<Rightarrow> Inl OutOfBounds
       | RPage i \<Rightarrow>
           bind_ub (rd r P) (\<lambda>p.
             if unat (pslab p) \<ge> n then map_sum id (Pair (Some i)) (take_run i n P)
             else alloc_loop fuel (pnext p) n P))"

definition pgrest_slab_alloc_pages :: "nat \<Rightarrow> slab_pool \<Rightarrow> (nat option \<times> slab_pool) run" where
  "pgrest_slab_alloc_pages n P = alloc_loop (Suc (npages P)) (pnext (pg P RFree)) n P"

text \<open>
  \<^verbatim>\<open>pgrest_slab_free_pages\<close>: joining with the run behind, then with the run in front. The number is
  the variable \<open>pages\<close>, the length of the run less one.
\<close>

definition join_next :: "nat \<Rightarrow> nat \<Rightarrow> slab_pool \<Rightarrow> (nat \<times> slab_pool) run" where
  "join_next i pages P =
     bind_ub (rd (RPage i) P) (\<lambda>p.
     let j = i + unat (pslab p) in
     if j < npages P then
       bind_ub (rd (RPage j) P) (\<lambda>q.
         if ptype q = PGREST_SLAB_PAGE \<and> pnext q \<noteq> None then
           bind_ub (wr (RPage i) (\<lambda>p. p\<lparr>pslab := pslab p + pslab q\<rparr>) P) (\<lambda>P1.
           bind_ub (unlink (RPage j) P1) (\<lambda>P2.
           map_sum id (Pair (pages + unat (pslab q))) (wr (RPage j) (\<lambda>_. \<lparr>pslab = PGREST_SLAB_PAGE_FREE, pnext = None, pprev = None, ptype = PGREST_SLAB_PAGE\<rparr>) P2)))
         else Inr (pages, P))
     else Inr (pages, P))"

definition join_prev :: "nat \<Rightarrow> nat \<Rightarrow> slab_pool \<Rightarrow> (nat \<times> nat \<times> slab_pool) run" where
  "join_prev i pages P =
     (if i > 0 then
        bind_ub (rd (RPage (i - 1)) P) (\<lambda>q.
          if ptype q \<noteq> PGREST_SLAB_PAGE then Inr (i, pages, P)
          else
            bind_ub (if pslab q = PGREST_SLAB_PAGE_FREE then deref (pprev q) else Inr (RPage (i - 1))) (\<lambda>jr.
            bind_ub (rd jr P) (\<lambda>jp.
              if pnext jp = None then Inr (i, pages, P)
              else
                bind_ub (rd (RPage i) P) (\<lambda>p.
                bind_ub (wr jr (\<lambda>q. q\<lparr>pslab := pslab q + pslab p\<rparr>) P) (\<lambda>P1.
                bind_ub (unlink jr P1) (\<lambda>P2.
                bind_ub (wr (RPage i) (\<lambda>_. \<lparr>pslab = PGREST_SLAB_PAGE_FREE, pnext = None, pprev = None, ptype = PGREST_SLAB_PAGE\<rparr>) P2) (\<lambda>P3.
                  case jr of RPage j \<Rightarrow> Inr (j, pages + unat (pslab jp), P3) | _ \<Rightarrow> Inl OutOfBounds)))))))
      else Inr (i, pages, P))"

definition put_free :: "nat \<Rightarrow> nat \<Rightarrow> slab_pool \<Rightarrow> slab_pool run" where
  "put_free i pages P =
     bind_ub (if pages \<noteq> 0 then wr (RPage (i + pages)) (\<lambda>q. q\<lparr>pprev := Some (RPage i), ptype := 0\<rparr>) P else Inr P) (\<lambda>P1.
     bind_ub (wr (RPage i) (\<lambda>p. p\<lparr>pprev := Some RFree, ptype := 0, pnext := pnext (pg P1 RFree)\<rparr>) P1) (\<lambda>P2.
     bind_ub (deref (pnext (pg P2 (RPage i)))) (\<lambda>x.
     bind_ub (wr x (\<lambda>q. q\<lparr>pprev := Some (RPage i), ptype := 0\<rparr>) P2) (wr RFree (\<lambda>q. q\<lparr>pnext := Some (RPage i)\<rparr>)))))"

definition pgrest_slab_free_pages :: "nat \<Rightarrow> nat \<Rightarrow> slab_pool \<Rightarrow> slab_pool run" where
  "pgrest_slab_free_pages i n P =
     bind_ub (wr (RPage i) (\<lambda>p. p\<lparr>pslab := of_nat n\<rparr>) P) (\<lambda>P1.
     bind_ub (wr_range (i + 1) (n - 1) zero_page P1) (\<lambda>P2.
     bind_ub (rd (RPage i) P2) (\<lambda>p.
     bind_ub (if pnext p \<noteq> None then unlink (RPage i) P2 else Inr P2) (\<lambda>P3.
     bind_ub (join_next i (n - 1) P3) (\<lambda>(pages, P4).
     bind_ub (join_prev i pages P4) (\<lambda>(j, pages', P5). put_free j pages' P5))))))"

section \<open>Chunks\<close>

text \<open>The address of an offset in a page.\<close>

definition page_addr :: "slab_pool \<Rightarrow> nat \<Rightarrow> nat \<Rightarrow> nat" where
  "page_addr P i off = i * pagesize P + off + sstart P"

definition first_clear :: "uintptr \<Rightarrow> nat option" where
  "first_clear w = List.find (\<lambda>i. \<not> bit w i) [0..<64]"

text \<open>A page whose chunks are all in use leaves the list of its slot.\<close>

definition leave_slot :: "nat \<Rightarrow> nat \<Rightarrow> slab_pool \<Rightarrow> slab_pool run" where
  "leave_slot i ty P = bind_ub (unlink (RPage i) P) (wr (RPage i) (\<lambda>q. q\<lparr>pnext := None, pprev := None, ptype := ty\<rparr>))"

definition map_words :: "slab_pool \<Rightarrow> nat \<Rightarrow> nat" where
  "map_words P shift = 2 ^ (page_shift P - shift) div 64"

text \<open>Taking a chunk from page \<open>i\<close>: None when the page has none, otherwise the offset of the chunk.\<close>

definition take_small :: "nat \<Rightarrow> nat \<Rightarrow> slab_pool \<Rightarrow> (nat \<times> slab_pool) option run" where
  "take_small shift i P =
     (let bm = bitmap P i; words = map_words P shift in
      case List.find (\<lambda>n. bm n \<noteq> PGREST_SLAB_BUSY) [0..<words] of
        None \<Rightarrow> Inr None
      | Some n \<Rightarrow>
          (case first_clear (bm n) of
             None \<Rightarrow> Inr None
           | Some b \<Rightarrow>
               let bm' = bm(n := bm n OR push_bit b 1);
                   P1 = P\<lparr>bitmap := (bitmap P)(i := bm')\<rparr>;
                   off = (n * 64 + b) * 2 ^ shift in
               if bm' n = PGREST_SLAB_BUSY \<and> list_all (\<lambda>k. bm' k = PGREST_SLAB_BUSY) [n + 1..<words]
               then map_sum id (\<lambda>P2. Some (off, P2)) (leave_slot i PGREST_SLAB_SMALL P1)
               else Inr (Some (off, P1))))"

definition take_exact :: "nat \<Rightarrow> nat \<Rightarrow> slab_pool \<Rightarrow> (nat \<times> slab_pool) option run" where
  "take_exact shift i P =
     bind_ub (rd (RPage i) P) (\<lambda>p.
       if pslab p = PGREST_SLAB_BUSY then Inr None
       else
         (case first_clear (pslab p) of
            None \<Rightarrow> Inr None
          | Some b \<Rightarrow>
              let w = pslab p OR push_bit b 1 in
              bind_ub (wr (RPage i) (\<lambda>q. q\<lparr>pslab := w\<rparr>) P) (\<lambda>P1.
              map_sum id (\<lambda>P2. Some (b * 2 ^ shift, P2)) (if w = PGREST_SLAB_BUSY then leave_slot i PGREST_SLAB_EXACT P1 else Inr P1))))"

text \<open>The mask of the pages of a slot of large chunks, from the shift stored in one of them.\<close>

definition big_mask :: "slab_pool \<Rightarrow> uintptr \<Rightarrow> uintptr" where
  "big_mask P slab = push_bit PGREST_SLAB_MAP_SHIFT (mask (2 ^ (page_shift P - unat (slab AND PGREST_SLAB_SHIFT_MASK))))"

definition take_big :: "uintptr \<Rightarrow> nat \<Rightarrow> nat \<Rightarrow> slab_pool \<Rightarrow> (nat \<times> slab_pool) option run" where
  "take_big msk shift i P =
     bind_ub (rd (RPage i) P) (\<lambda>p.
       if pslab p AND PGREST_SLAB_MAP_MASK = msk then Inr None
       else
         (case List.find (\<lambda>b. \<not> bit (pslab p) (PGREST_SLAB_MAP_SHIFT + b)) (takeWhile (\<lambda>b. bit msk (PGREST_SLAB_MAP_SHIFT + b)) [0..<32]) of
            None \<Rightarrow> Inr None
          | Some b \<Rightarrow>
              let w = pslab p OR push_bit (PGREST_SLAB_MAP_SHIFT + b) 1 in
              bind_ub (wr (RPage i) (\<lambda>q. q\<lparr>pslab := w\<rparr>) P) (\<lambda>P1.
              map_sum id (\<lambda>P2. Some (b * 2 ^ shift, P2)) (if w AND PGREST_SLAB_MAP_MASK = msk then leave_slot i PGREST_SLAB_BIG P1 else Inr P1))))"

text \<open>The walk along the pages of a slot, which ends only at a null pointer or with a chunk.\<close>

fun slot_loop :: "nat \<Rightarrow> (nat \<Rightarrow> slab_pool \<Rightarrow> (nat \<times> slab_pool) option run) \<Rightarrow> sref option \<Rightarrow> slab_pool \<Rightarrow> ((nat \<times> nat) option \<times> slab_pool) run" where
  "slot_loop 0 tk page P = Inl NoReturn"
| "slot_loop (Suc fuel) tk page P =
     (case page of
        None \<Rightarrow> Inr (None, P)
      | Some (RPage i) \<Rightarrow>
          bind_ub (tk i P) (\<lambda>r.
            case r of
              Some (off, P1) \<Rightarrow> Inr (Some (i, off), P1)
            | None \<Rightarrow> bind_ub (rd (RPage i) P) (\<lambda>p. slot_loop fuel tk (pnext p) P))
      | Some _ \<Rightarrow> Inl OutOfBounds)"

text \<open>The first chunk of a new page of a slot.\<close>

definition bitmap_chunks :: "slab_pool \<Rightarrow> nat \<Rightarrow> nat" where
  "bitmap_chunks P shift = (let n = 2 ^ (page_shift P - shift) div 8 div 2 ^ shift in if n = 0 then 1 else n)"

definition new_page :: "nat \<Rightarrow> nat \<Rightarrow> nat \<Rightarrow> slab_pool \<Rightarrow> (nat \<times> slab_pool) run" where
  "new_page shift slot i P =
     (let put = (\<lambda>w ty P. bind_ub (wr (RPage i) (\<lambda>_. \<lparr>pslab = w, pnext = Some (RSlot slot), pprev = Some (RSlot slot), ptype = ty\<rparr>) P)
                   (wr (RSlot slot) (\<lambda>q. q\<lparr>pnext := Some (RPage i)\<rparr>))) in
      if shift < slab_exact_shift P then
        let n = bitmap_chunks P shift;
            bm = (\<lambda>k. if k = 0 then push_bit n 2 - 1 else if k < map_words P shift then 0 else bitmap P i k) in
        map_sum id (Pair (n * 2 ^ shift)) (put (of_nat shift) PGREST_SLAB_SMALL (P\<lparr>bitmap := (bitmap P)(i := bm)\<rparr>))
      else if shift = slab_exact_shift P then map_sum id (Pair 0) (put 1 PGREST_SLAB_EXACT P)
      else map_sum id (Pair 0) (put (push_bit PGREST_SLAB_MAP_SHIFT 1 OR of_nat shift) PGREST_SLAB_BIG P))"

definition chunk_shift :: "slab_pool \<Rightarrow> nat \<Rightarrow> nat" where
  "chunk_shift P sz = (if sz > 2 ^ min_shift P then log_loop (sz - 1) 1 else min_shift P)"

definition from_slot :: "nat \<Rightarrow> nat \<Rightarrow> slab_pool \<Rightarrow> ((nat \<times> nat) option \<times> slab_pool) run" where
  "from_slot shift slot P =
     bind_ub (rd (RSlot slot) P) (\<lambda>s.
     bind_ub (deref (pnext s)) (\<lambda>r.
     bind_ub (rd r P) (\<lambda>p.
       if pnext p = Some r then Inr (None, P)
       else if shift < slab_exact_shift P then slot_loop (Suc (npages P)) (take_small shift) (Some r) P
       else if shift = slab_exact_shift P then slot_loop (Suc (npages P)) (take_exact shift) (Some r) P
       else slot_loop (Suc (npages P)) (take_big (big_mask P (pslab p)) shift) (Some r) P)))"

definition pgrest_slab_do_alloc :: "nat \<Rightarrow> slab_pool \<Rightarrow> (nat option \<times> slab_pool) run" where
  "pgrest_slab_do_alloc sz P =
     (if sz > slab_max_size P then
        map_sum id (\<lambda>(page, P1). (map_option (\<lambda>i. page_addr P1 i 0) page, P1))
          (pgrest_slab_alloc_pages (sz div pagesize P + (if sz mod pagesize P \<noteq> 0 then 1 else 0)) P)
      else
        let shift = chunk_shift P sz; slot = shift - min_shift P in
        bind_ub (from_slot shift slot P) (\<lambda>(c, P1).
          case c of
            Some (i, off) \<Rightarrow> Inr (Some (page_addr P1 i off), P1)
          | None \<Rightarrow>
              bind_ub (pgrest_slab_alloc_pages 1 P1) (\<lambda>(page, P2).
                case page of
                  None \<Rightarrow> Inr (None, P2)
                | Some i \<Rightarrow> map_sum id (\<lambda>(off, P3). (Some (page_addr P3 i off), P3)) (new_page shift slot i P2))))"

text \<open>
  \<^verbatim>\<open>pgrest_slab_do_free\<close>; the flag is False for the pointers that only give a warning.
\<close>

definition enter_slot :: "nat \<Rightarrow> nat \<Rightarrow> nat \<Rightarrow> slab_pool \<Rightarrow> slab_pool run" where
  "enter_slot i slot ty P =
     bind_ub (rd (RSlot slot) P) (\<lambda>s.
     bind_ub (wr (RPage i) (\<lambda>q. q\<lparr>pnext := pnext s\<rparr>) P) (\<lambda>P1.
     bind_ub (wr (RSlot slot) (\<lambda>q. q\<lparr>pnext := Some (RPage i)\<rparr>) P1) (\<lambda>P2.
     bind_ub (wr (RPage i) (\<lambda>q. q\<lparr>pprev := Some (RSlot slot), ptype := ty\<rparr>) P2) (\<lambda>P3.
     bind_ub (deref (pnext (pg P3 (RPage i)))) (\<lambda>n. wr n (\<lambda>q. q\<lparr>pprev := Some (RPage i), ptype := ty\<rparr>) P3)))))"

definition free_small :: "nat \<Rightarrow> nat \<Rightarrow> slab_page \<Rightarrow> slab_pool \<Rightarrow> (bool \<times> slab_pool) run" where
  "free_small a i p P =
     (let shift = unat (pslab p AND PGREST_SLAB_SHIFT_MASK);
          c = a mod pagesize P div 2 ^ shift; n = c div 64; b = c mod 64 in
      if a mod 2 ^ shift \<noteq> 0 then Inr (False, P)
      else if \<not> bit (bitmap P i n) b then Inr (False, P)
      else
        bind_ub (if pnext p = None then enter_slot i (shift - min_shift P) PGREST_SLAB_SMALL P else Inr P) (\<lambda>P1.
          let bm = (bitmap P1 i)(n := bitmap P1 i n AND NOT (push_bit b 1));
              P2 = P1\<lparr>bitmap := (bitmap P1)(i := bm)\<rparr> in
          if bm 0 AND NOT (mask (bitmap_chunks P shift)) \<noteq> 0 then Inr (True, P2)
          else if \<not> list_all (\<lambda>k. bm k = 0) [1..<map_words P shift] then Inr (True, P2)
          else map_sum id (Pair True) (pgrest_slab_free_pages i 1 P2)))"

definition free_exact :: "nat \<Rightarrow> nat \<Rightarrow> slab_page \<Rightarrow> slab_pool \<Rightarrow> (bool \<times> slab_pool) run" where
  "free_exact a i p P =
     (let b = a mod pagesize P div 2 ^ slab_exact_shift P in
      if a mod slab_exact_size P \<noteq> 0 then Inr (False, P)
      else if \<not> bit (pslab p) b then Inr (False, P)
      else
        bind_ub (if pslab p = PGREST_SLAB_BUSY then enter_slot i (slab_exact_shift P - min_shift P) PGREST_SLAB_EXACT P else Inr P) (\<lambda>P1.
        bind_ub (wr (RPage i) (\<lambda>q. q\<lparr>pslab := pslab q AND NOT (push_bit b 1)\<rparr>) P1) (\<lambda>P2.
          if pslab (pg P2 (RPage i)) \<noteq> 0 then Inr (True, P2) else map_sum id (Pair True) (pgrest_slab_free_pages i 1 P2))))"

definition free_big :: "nat \<Rightarrow> nat \<Rightarrow> slab_page \<Rightarrow> slab_pool \<Rightarrow> (bool \<times> slab_pool) run" where
  "free_big a i p P =
     (let shift = unat (pslab p AND PGREST_SLAB_SHIFT_MASK);
          b = a mod pagesize P div 2 ^ shift + PGREST_SLAB_MAP_SHIFT in
      if a mod 2 ^ shift \<noteq> 0 then Inr (False, P)
      else if \<not> bit (pslab p) b then Inr (False, P)
      else
        bind_ub (if pnext p = None then enter_slot i (shift - min_shift P) PGREST_SLAB_BIG P else Inr P) (\<lambda>P1.
        bind_ub (wr (RPage i) (\<lambda>q. q\<lparr>pslab := pslab q AND NOT (push_bit b 1)\<rparr>) P1) (\<lambda>P2.
          if pslab (pg P2 (RPage i)) AND PGREST_SLAB_MAP_MASK \<noteq> 0 then Inr (True, P2) else map_sum id (Pair True) (pgrest_slab_free_pages i 1 P2))))"

definition free_run :: "nat \<Rightarrow> nat \<Rightarrow> slab_page \<Rightarrow> slab_pool \<Rightarrow> (bool \<times> slab_pool) run" where
  "free_run a i p P =
     (if a mod pagesize P \<noteq> 0 then Inr (False, P)
      else if pslab p = PGREST_SLAB_PAGE_FREE then Inr (False, P)
      else if pslab p = PGREST_SLAB_PAGE_BUSY then Inr (False, P)
      else map_sum id (Pair True) (pgrest_slab_free_pages i (unat (pslab p AND NOT PGREST_SLAB_PAGE_START)) P))"

definition pgrest_slab_do_free :: "nat \<Rightarrow> slab_pool \<Rightarrow> (bool \<times> slab_pool) run" where
  "pgrest_slab_do_free a P =
     (if a < sstart P \<or> a > send P then Inr (False, P)
      else
        let i = (a - sstart P) div pagesize P in
        bind_ub (rd (RPage i) P) (\<lambda>p.
          if ptype p = PGREST_SLAB_SMALL then free_small a i p P
          else if ptype p = PGREST_SLAB_EXACT then free_exact a i p P
          else if ptype p = PGREST_SLAB_BIG then free_big a i p P
          else free_run a i p P))"

end
