(* ===== verification/SlabPages.thy ===== *)
theory SlabPages
  imports Slab
begin

text \<open>
  The pages of a slab pool: what the free list and the page structures say is a division of the pool
  into runs of pages, free or in use. Taking and giving back runs keeps this division, and
  neighbouring free runs are always joined.
\<close>

section \<open>Linked lists of pages\<close>

type_synonym page_store = "sref \<Rightarrow> slab_page"

fun seg :: "page_store \<Rightarrow> sref \<Rightarrow> nat list \<Rightarrow> sref \<Rightarrow> bool" where
  "seg f r [] t \<longleftrightarrow> pnext (f r) = Some t"
| "seg f r (x # xs) t \<longleftrightarrow> pnext (f r) = Some (RPage x) \<and> pprev (f (RPage x)) = Some r \<and> seg f (RPage x) xs t"

definition last_of :: "sref \<Rightarrow> nat list \<Rightarrow> sref" where
  "last_of r xs = (if xs = [] then r else RPage (last xs))"

definition head_of :: "nat list \<Rightarrow> sref \<Rightarrow> sref" where
  "head_of xs t = (case xs of [] \<Rightarrow> t | x # _ \<Rightarrow> RPage x)"

lemma last_of_simps [simp]: "last_of r [] = r" "last_of r (x # xs) = last_of (RPage x) xs" "last_of r (xs @ [x]) = RPage x"
  by (simp_all add: last_of_def)

lemma head_of_simps [simp]: "head_of [] t = t" "head_of (x # xs) t = RPage x"
  by (simp_all add: head_of_def)

lemma last_of_in: "last_of r xs \<in> insert r (RPage ` set xs)"
  by (simp add: last_of_def)

lemma seg_append: "seg f r (xs @ y # ys) t \<longleftrightarrow> seg f r xs (RPage y) \<and> pprev (f (RPage y)) = Some (last_of r xs) \<and> seg f (RPage y) ys t"
  by (induction xs arbitrary: r) auto

lemma seg_next: "seg f r xs t \<Longrightarrow> pnext (f r) = Some (head_of xs t)"
  by (cases xs) auto

lemma seg_last: "seg f r xs t \<Longrightarrow> pnext (f (last_of r xs)) = Some t"
  by (induction xs arbitrary: r) auto

lemma seg_cong:
  "seg f r xs t \<Longrightarrow> (\<And>q. q \<in> insert r (RPage ` set xs) \<Longrightarrow> pnext (g q) = pnext (f q)) \<Longrightarrow>
    (\<And>x. x \<in> set xs \<Longrightarrow> pprev (g (RPage x)) = pprev (f (RPage x))) \<Longrightarrow> seg g r xs t"
  by (induction xs arbitrary: r) auto

lemma seg_retarget:
  "seg f r xs t \<Longrightarrow> pnext (g (last_of r xs)) = Some t' \<Longrightarrow> (\<And>q. q \<in> insert r (RPage ` set xs) \<Longrightarrow> q \<noteq> last_of r xs \<Longrightarrow> pnext (g q) = pnext (f q)) \<Longrightarrow>
    (\<And>x. x \<in> set xs \<Longrightarrow> pprev (g (RPage x)) = pprev (f (RPage x))) \<Longrightarrow> distinct xs \<Longrightarrow> r \<notin> RPage ` set xs \<Longrightarrow> seg g r xs t'"
proof (induction xs arbitrary: r)
  case (Cons x xs)
  have "RPage x \<notin> RPage ` set xs" using Cons.prems(5) by auto
  moreover have "r \<noteq> last_of (RPage x) xs" using Cons.prems(6) by (auto simp: last_of_def)
  ultimately show ?case using Cons by auto
qed simp

text \<open>The list without one of its members.\<close>

lemma seg_remove:
  assumes "seg f r (xs @ x # ys) t" "distinct (xs @ x # ys)" "r \<notin> RPage ` set (xs @ x # ys)" "t \<notin> RPage ` set (xs @ x # ys)"
    and "pnext (g (last_of r xs)) = Some (head_of ys t)" "ys \<noteq> [] \<Longrightarrow> pprev (g (RPage (hd ys))) = Some (last_of r xs)"
    and "\<And>q. q \<in> insert r (RPage ` (set xs \<union> set ys)) \<Longrightarrow> q \<noteq> last_of r xs \<Longrightarrow> pnext (g q) = pnext (f q)"
    and "\<And>y. y \<in> set xs \<union> set (tl ys) \<Longrightarrow> pprev (g (RPage y)) = pprev (f (RPage y))"
  shows "seg g r (xs @ ys) t"
proof -
  from assms(1) have s: "seg f r xs (RPage x)" "seg f (RPage x) ys t" by (simp_all add: seg_append)
  have front: "seg g r xs (head_of ys t)"
    using assms by (intro seg_retarget [OF s(1)]) auto
  show ?thesis
  proof (cases ys)
    case (Cons y zs)
    with s(2) have "seg f (RPage y) zs t" by simp
    moreover have "RPage y \<noteq> last_of r xs" "\<And>z. z \<in> set zs \<Longrightarrow> RPage z \<noteq> last_of r xs"
      using assms(2,3) Cons last_of_in [of r xs] by auto
    ultimately have "seg g (RPage y) zs t" using assms(7,8) Cons by (intro seg_cong [of f "RPage y" zs t g]) auto
    with front assms(6) Cons show ?thesis by (simp add: seg_append)
  qed (use front in simp)
qed

text \<open>The list with one of its members replaced by a new one.\<close>

lemma seg_replace:
  assumes "seg f r (xs @ x # ys) t" "distinct (xs @ x # ys)" "r \<notin> RPage ` set (xs @ x # ys)" "z \<notin> set xs \<union> set ys" "r \<noteq> RPage z"
    and "pnext (g (last_of r xs)) = Some (RPage z)" "pprev (g (RPage z)) = Some (last_of r xs)"
    and "pnext (g (RPage z)) = Some (head_of ys t)" "ys \<noteq> [] \<Longrightarrow> pprev (g (RPage (hd ys))) = Some (RPage z)"
    and "\<And>q. q \<in> insert r (RPage ` (set xs \<union> set ys)) \<Longrightarrow> q \<noteq> last_of r xs \<Longrightarrow> pnext (g q) = pnext (f q)"
    and "\<And>y. y \<in> set xs \<union> set (tl ys) \<Longrightarrow> pprev (g (RPage y)) = pprev (f (RPage y))"
  shows "seg g r (xs @ z # ys) t"
proof -
  from assms(1) have s: "seg f r xs (RPage x)" "seg f (RPage x) ys t" by (simp_all add: seg_append)
  have front: "seg g r xs (RPage z)" using assms by (intro seg_retarget [OF s(1)]) auto
  have "seg g (RPage z) ys t"
  proof (cases ys)
    case (Cons y zs)
    with s(2) have "seg f (RPage y) zs t" by simp
    moreover have "RPage y \<noteq> last_of r xs" "\<And>z. z \<in> set zs \<Longrightarrow> RPage z \<noteq> last_of r xs"
      using assms(2,3) Cons last_of_in [of r xs] by auto
    ultimately have "seg g (RPage y) zs t" using assms(10,11) Cons by (intro seg_cong [of f "RPage y" zs t g]) auto
    with assms(8,9) Cons show ?thesis by simp
  qed (use assms(8) in simp)
  with front assms(7) show ?thesis by (simp add: seg_append)
qed

text \<open>A new member at the front.\<close>

lemma seg_push:
  assumes "seg f r xs t" "distinct xs" "r \<notin> RPage ` set xs" "z \<notin> set xs" "r \<noteq> RPage z"
    and "pnext (g r) = Some (RPage z)" "pprev (g (RPage z)) = Some r" "pnext (g (RPage z)) = Some (head_of xs t)"
    and "xs \<noteq> [] \<Longrightarrow> pprev (g (RPage (hd xs))) = Some (RPage z)"
    and "\<And>y. y \<in> set xs \<Longrightarrow> pnext (g (RPage y)) = pnext (f (RPage y))" "\<And>y. y \<in> set (tl xs) \<Longrightarrow> pprev (g (RPage y)) = pprev (f (RPage y))"
  shows "seg g r (z # xs) t"
proof (cases xs)
  case (Cons y ys)
  with assms(1) have "seg f (RPage y) ys t" by simp
  then have "seg g (RPage y) ys t" using assms(10,11) Cons by (intro seg_cong [of f "RPage y" ys t g]) auto
  with assms Cons show ?thesis by simp
qed (use assms in simp)

section \<open>The division of the pool\<close>

text \<open>
  A run is free, handed out as pages, a page that is cut into chunks, or just being given back. The last page of a free run
  points back to its first, except at the end of the pool, where nobody looks for it.
\<close>

datatype kind = KFree | KRun | KSlab | KBack

type_synonym page_run = "nat \<times> nat \<times> kind"

fun tiles :: "nat \<Rightarrow> page_run list \<Rightarrow> nat \<Rightarrow> bool" where
  "tiles a [] b \<longleftrightarrow> a = b"
| "tiles a ((s, k, q) # rs) b \<longleftrightarrow> s = a \<and> 0 < k \<and> tiles (a + k) rs b"

definition dead :: "page_store \<Rightarrow> nat \<Rightarrow> bool" where
  "dead f j \<longleftrightarrow> pslab (f (RPage j)) = 0 \<and> pnext (f (RPage j)) = None \<and> ptype (f (RPage j)) = 0"

definition run_page :: "uintptr \<Rightarrow> slab_page" where
  "run_page w = \<lparr>pslab = w, pnext = None, pprev = None, ptype = PGREST_SLAB_PAGE\<rparr>"

fun run_ok :: "nat \<Rightarrow> page_store \<Rightarrow> page_run \<Rightarrow> bool" where
  "run_ok N f (s, k, KFree) \<longleftrightarrow> pslab (f (RPage s)) = of_nat k \<and> ptype (f (RPage s)) = 0 \<and> (\<forall>j \<in> {s<..<s + k}. dead f j) \<and>
     (1 < k \<longrightarrow> s + k < N \<longrightarrow> pprev (f (RPage (s + k - 1))) = Some (RPage s))"
| "run_ok N f (s, k, KRun) \<longleftrightarrow> f (RPage s) = run_page (of_nat k OR PGREST_SLAB_PAGE_START) \<and> (\<forall>j \<in> {s<..<s + k}. f (RPage j) = run_page PGREST_SLAB_PAGE_BUSY)"
| "run_ok N f (s, k, KSlab) \<longleftrightarrow> k = 1 \<and> ptype (f (RPage s)) \<noteq> 0"
| "run_ok N f (s, k, KBack) \<longleftrightarrow> pslab (f (RPage s)) = of_nat k \<and> (\<forall>j \<in> {s<..<s + k}. dead f j)"

definition not_both_free :: "page_run \<Rightarrow> page_run \<Rightarrow> bool" where
  "not_both_free x y \<longleftrightarrow> \<not> (snd (snd x) = KFree \<and> snd (snd y) = KFree)"

definition pool_inv :: "slab_pool \<Rightarrow> page_run list \<Rightarrow> nat list \<Rightarrow> bool" where
  "pool_inv P rs xs \<longleftrightarrow> tiles 0 rs (npages P) \<and> npages P < 2 ^ 63 \<and> list_all (run_ok (npages P) (pg P)) rs \<and> successively not_both_free rs \<and>
     distinct xs \<and> set xs = {s. \<exists>k. (s, k, KFree) \<in> set rs} \<and> seg (pg P) RFree xs RFree"

lemma tiles_append: "tiles a (xs @ (s, k, q) # ys) b \<longleftrightarrow> tiles a xs s \<and> 0 < k \<and> tiles (s + k) ys b"
  by (induction a xs b rule: tiles.induct) auto

lemma tiles_le: "tiles a rs b \<Longrightarrow> a \<le> b"
  by (induction a rs b rule: tiles.induct) auto

lemma tiles_bounds: "tiles a rs b \<Longrightarrow> (s, k, q) \<in> set rs \<Longrightarrow> a \<le> s \<and> s + k \<le> b \<and> 0 < k"
  by (induction a rs b rule: tiles.induct) (auto dest: tiles_le)

lemma tiles_apart:
  assumes "tiles a (as @ (s, k, q) # bs) b"
  shows "(s', k', q') \<in> set as \<Longrightarrow> s' + k' \<le> s" "(s', k', q') \<in> set bs \<Longrightarrow> s + k \<le> s'"
  using assms by (auto simp: tiles_append dest: tiles_bounds)

lemma tiles_unique:
  assumes "tiles a rs b" "(s, k, q) \<in> set rs" "(s', k', q') \<in> set rs" "j \<in> {s..<s + k}" "j \<in> {s'..<s' + k'}"
  shows "(s', k', q') = (s, k, q)"
proof -
  from assms(2) obtain as bs where rs: "rs = as @ (s, k, q) # bs" by (meson split_list)
  with assms(3) consider "(s', k', q') \<in> set as" | "(s', k', q') \<in> set bs" | "(s', k', q') = (s, k, q)" by auto
  then show ?thesis using tiles_apart [OF assms(1) [unfolded rs]] assms(4,5) by cases fastforce+
qed

section \<open>Frames\<close>

text \<open>
  An operation changes the pages of \<open>A\<close> in any way and, of the pages of \<open>H\<close>, the first pages of free runs,
  only the links.
\<close>

definition same_outside :: "nat set \<Rightarrow> nat set \<Rightarrow> page_store \<Rightarrow> page_store \<Rightarrow> bool" where
  "same_outside A H f g \<longleftrightarrow> (\<forall>j. j \<notin> A \<longrightarrow> j \<notin> H \<longrightarrow> g (RPage j) = f (RPage j)) \<and>
     (\<forall>j. j \<notin> A \<longrightarrow> pslab (g (RPage j)) = pslab (f (RPage j)) \<and> ptype (g (RPage j)) = ptype (f (RPage j)))"

lemma run_ok_frame:
  assumes "run_ok N f (s, k, q)" "same_outside A H f g" "{s..<s + k} \<inter> A = {}" "\<And>j. j \<in> H \<Longrightarrow> j \<in> {s..<s + k} \<Longrightarrow> j = s \<and> q = KFree" "0 < k"
  shows "run_ok N g (s, k, q)"
proof -
  have inner: "g (RPage j) = f (RPage j)" if "j \<in> {s<..<s + k}" for j
  proof -
    from that have "j \<in> {s..<s + k}" "j \<noteq> s" by auto
    with assms(3,4) have "j \<notin> A" "j \<notin> H" by auto
    with assms(2) show ?thesis by (simp add: same_outside_def)
  qed
  have "s \<in> {s..<s + k}" using assms(5) by simp
  with assms(3) have "s \<notin> A" by blast
  with assms(2) have head: "pslab (g (RPage s)) = pslab (f (RPage s))" "ptype (g (RPage s)) = ptype (f (RPage s))" by (simp_all add: same_outside_def)
  have whole: "g (RPage s) = f (RPage s)" if "q \<noteq> KFree"
    using assms(2) assms(4) [of s] \<open>s \<in> {s..<s + k}\<close> \<open>s \<notin> A\<close> that by (auto simp: same_outside_def)
  have lastp: "1 < k \<Longrightarrow> g (RPage (s + k - 1)) = f (RPage (s + k - 1))" using inner [of "s + k - 1"] by simp
  show ?thesis
    using assms(1) inner head whole lastp by (cases q) (auto simp: dead_def)
qed

lemma runs_frame:
  assumes "list_all (run_ok N f) rs" "same_outside A H f g" "\<And>s k q. (s, k, q) \<in> set rs \<Longrightarrow> {s..<s + k} \<inter> A = {} \<and> 0 < k"
    and "\<And>s k q j. (s, k, q) \<in> set rs \<Longrightarrow> j \<in> H \<Longrightarrow> j \<in> {s..<s + k} \<Longrightarrow> j = s \<and> q = KFree"
  shows "list_all (run_ok N g) rs"
  unfolding list_all_iff
proof
  fix r assume "r \<in> set rs"
  moreover obtain s k q where "r = (s, k, q)" by (cases r)
  ultimately have m: "(s, k, q) \<in> set rs" and r: "r = (s, k, q)" by simp_all
  from assms(1) m have "run_ok N f (s, k, q)" by (simp add: list_all_iff)
  then show "run_ok N g r" unfolding r using assms(2) assms(3) [OF m] assms(4) [OF m] by (intro run_ok_frame [of N f s k q A H g]) simp_all
qed

section \<open>Evaluation of the steps\<close>

lemma rd_page [simp]: "i < npages P \<Longrightarrow> rd (RPage i) P = Inr (pg P (RPage i))"
  by (simp add: rd_def)

lemma wr_valid: "valid P r \<Longrightarrow> wr r u P = Inr (P\<lparr>pg := (pg P)(r := u (pg P r))\<rparr>)"
  by (simp add: wr_def)

lemma valid_update [simp]: "valid (P\<lparr>pg := f\<rparr>) r = valid P r"
  by (cases r) (simp_all add: nslots_def)

lemma wr_range_eq:
  "i + k \<le> npages P \<Longrightarrow> wr_range i k q P = Inr (P\<lparr>pg := (\<lambda>r. if r \<in> RPage ` {i..<i + k} then q else pg P r)\<rparr>)"
proof (induction i k q P rule: wr_range.induct)
  case (2 i k q P)
  then have "wr_range i (Suc k) q P = Inr (P\<lparr>pg := (\<lambda>r. if r \<in> RPage ` {Suc i..<Suc i + k} then q else ((pg P)(RPage i := q)) r)\<rparr>)"
    by (simp add: wr_valid cong: if_cong)
  moreover have "(\<lambda>r. if r \<in> RPage ` {Suc i..<Suc i + k} then q else ((pg P)(RPage i := q)) r) = (\<lambda>r. if r \<in> RPage ` {i..<i + Suc k} then q else pg P r)"
    by (auto simp: fun_eq_iff)
  ultimately show ?case by simp
qed simp

text \<open>\<open>r->next = a\<close> and \<open>n->prev = b\<close>, the latter with a type.\<close>

definition set_links :: "sref \<Rightarrow> sref \<Rightarrow> sref \<Rightarrow> sref \<Rightarrow> nat \<Rightarrow> page_store \<Rightarrow> page_store" where
  "set_links r a n b ty f = (let f1 = f(r := (f r)\<lparr>pnext := Some a\<rparr>) in f1(n := (f1 n)\<lparr>pprev := Some b, ptype := ty\<rparr>))"

lemma set_links_simps [simp]:
  "pslab (set_links r a n b ty f q) = pslab (f q)"
  "pnext (set_links r a n b ty f q) = (if q = r then Some a else pnext (f q))"
  "pprev (set_links r a n b ty f q) = (if q = n then Some b else pprev (f q))"
  "ptype (set_links r a n b ty f q) = (if q = n then ty else ptype (f q))"
  "q \<noteq> r \<Longrightarrow> q \<noteq> n \<Longrightarrow> set_links r a n b ty f q = f q"
  by (simp_all add: set_links_def Let_def)

lemma set_links_cong: "f q = f' q \<Longrightarrow> set_links r a n b ty f q = set_links r a n b ty f' q"
  by (auto simp: set_links_def Let_def)

abbreviation relink :: "sref \<Rightarrow> sref \<Rightarrow> nat \<Rightarrow> page_store \<Rightarrow> page_store" where
  "relink r n ty f \<equiv> set_links r n n r ty f"

lemma unlink_eq:
  assumes "x < npages P" "pprev (pg P (RPage x)) = Some r" "pnext (pg P (RPage x)) = Some n" "r \<noteq> RPage x" "valid P r" "valid P n"
  shows "unlink (RPage x) P = Inr (P\<lparr>pg := relink r n (ptype (pg P (RPage x))) (pg P)\<rparr>)"
  using assms by (simp add: unlink_def deref_def wr_valid set_links_def Let_def)

section \<open>Taking a run\<close>

lemma tiles_app: "tiles a (xs @ ys) b \<longleftrightarrow> (\<exists>c. tiles a xs c \<and> tiles c ys b)"
  by (induction a xs b rule: tiles.induct) auto

lemma inv_head:
  assumes "pool_inv P rs xs" "x \<in> set xs"
  shows "\<exists>k. (x, k, KFree) \<in> set rs" "x < npages P" "(s, k, q) \<in> set rs \<Longrightarrow> x \<in> {s..<s + k} \<Longrightarrow> x = s \<and> q = KFree"
proof -
  from assms show ex: "\<exists>k. (x, k, KFree) \<in> set rs" by (auto simp: pool_inv_def)
  then obtain j where j: "(x, j, KFree) \<in> set rs" by blast
  from assms have t: "tiles 0 rs (npages P)" by (simp add: pool_inv_def)
  from tiles_bounds [OF t j] show "x < npages P" by simp
  show "x = s \<and> q = KFree" if "(s, k, q) \<in> set rs" "x \<in> {s..<s + k}"
    using tiles_unique [OF t j that(1), of x] tiles_bounds [OF t j] that(2) by auto
qed

text \<open>Changing some runs of the division and the links of the free list.\<close>

lemma inv_replace:
  assumes inv: "pool_inv P (as @ os @ bs) xs" and t: "tiles 0 as s" "tiles s os e" "tiles e bs (npages P)"
    and out: "same_outside {s..<e} H (pg P) g" and H: "H \<subseteq> set xs"
    and ms: "tiles s ms e" "list_all (run_ok (npages P) g) ms" "successively not_both_free (as @ ms @ bs)"
    and xs': "distinct xs'" "set xs' = {x. \<exists>k. (x, k, KFree) \<in> set (as @ ms @ bs)}" "seg g RFree xs' RFree"
  shows "pool_inv (P\<lparr>pg := g\<rparr>) (as @ ms @ bs) xs'"
proof -
  from inv have ok: "list_all (run_ok (npages P) (pg P)) (as @ bs)" by (simp add: pool_inv_def)
  have "list_all (run_ok (npages P) g) (as @ bs)"
  proof (rule runs_frame [OF ok out])
    fix s' k' q' assume m: "(s', k', q') \<in> set (as @ bs)"
    with tiles_bounds [OF t(1), of s' k' q'] tiles_bounds [OF t(3), of s' k' q'] show "{s'..<s' + k'} \<inter> {s..<e} = {} \<and> 0 < k'" by auto
    show "j = s' \<and> q' = KFree" if "j \<in> H" "j \<in> {s'..<s' + k'}" for j
      using inv_head(3) [OF inv, of j s' k' q'] m that H by auto
  qed
  moreover from t ms(1) have "tiles 0 (as @ ms @ bs) (npages P)" by (auto simp: tiles_app)
  ultimately show ?thesis using inv ms xs' by (simp add: pool_inv_def)
qed

lemma inv_tiles: "pool_inv P (as @ (s, k, q) # bs) xs \<Longrightarrow> tiles 0 as s \<and> 0 < k \<and> tiles (s + k) bs (npages P)"
  by (simp add: pool_inv_def tiles_append)

text \<open>What the invariant says of a run of the free list.\<close>

lemma inv_free_run:
  assumes inv: "pool_inv P (as @ (s, k, KFree) # bs) (us @ s # vs)"
  shows "pnext (pg P (RPage s)) = Some (head_of vs RFree)" "pprev (pg P (RPage s)) = Some (last_of RFree us)"
    "pslab (pg P (RPage s)) = of_nat k" "unat (of_nat k :: uintptr) = k" "ptype (pg P (RPage s)) = 0"
    "\<And>j. j \<in> {s<..<s + k} \<Longrightarrow> dead (pg P) j" "s + k \<le> npages P" "0 < k"
    "valid P (head_of vs RFree)" "valid P (last_of RFree us)"
    "\<And>x. x \<in> set us \<union> set vs \<Longrightarrow> x \<notin> {s..<s + k}" "distinct (us @ s # vs)"
    "\<And>j. j \<in> {s..<s + k} \<Longrightarrow> head_of vs RFree \<noteq> RPage j" "\<And>j. j \<in> {s..<s + k} \<Longrightarrow> last_of RFree us \<noteq> RPage j"
proof -
  from inv have sg: "seg (pg P) RFree (us @ s # vs) RFree" and d: "distinct (us @ s # vs)" and t: "tiles 0 (as @ (s, k, KFree) # bs) (npages P)"
    and ok: "run_ok (npages P) (pg P) (s, k, KFree)" and N: "npages P < 2 ^ 63" by (simp_all add: pool_inv_def)
  show "distinct (us @ s # vs)" by (fact d)
  from sg show "pnext (pg P (RPage s)) = Some (head_of vs RFree)" "pprev (pg P (RPage s)) = Some (last_of RFree us)"
    by (auto simp: seg_append dest: seg_next)
  from ok show "pslab (pg P (RPage s)) = of_nat k" "ptype (pg P (RPage s)) = 0" by simp_all
  show "dead (pg P) j" if "j \<in> {s<..<s + k}" for j using ok that by simp
  from tiles_bounds [OF t, of s k KFree] show b: "s + k \<le> npages P" "0 < k" by simp_all
  from b N show "unat (of_nat k :: uintptr) = k" by (simp add: unat_of_nat take_bit_nat_eq_self)
  show out: "x \<notin> {s..<s + k}" if "x \<in> set us \<union> set vs" for x
    using inv_head(3) [OF inv, of x s k KFree] that d by auto
  show "valid P (head_of vs RFree)" using inv_head(2) [OF inv] by (cases vs) auto
  show "valid P (last_of RFree us)" using inv_head(2) [OF inv] by (auto simp: last_of_def)
  show "head_of vs RFree \<noteq> RPage j" if "j \<in> {s..<s + k}" for j using out that by (cases vs) auto
  show "last_of RFree us \<noteq> RPage j" if "j \<in> {s..<s + k}" for j using out [of "last us"] that by (auto simp: last_of_def)
qed

lemma successively_middle:
  "successively Q (xs @ y # ys) \<longleftrightarrow> successively Q xs \<and> successively Q ys \<and> (xs \<noteq> [] \<longrightarrow> Q (last xs) y) \<and> (ys \<noteq> [] \<longrightarrow> Q y (hd ys))"
  by (cases ys) (auto simp: successively_append_iff)

lemma not_both_free_run [simp]: "q \<noteq> KFree \<Longrightarrow> not_both_free (s, k, q) y" "q \<noteq> KFree \<Longrightarrow> not_both_free y (s, k, q)"
  by (simp_all add: not_both_free_def)

lemma inv_head_type: "pool_inv P rs xs \<Longrightarrow> x \<in> set xs \<Longrightarrow> ptype (pg P (RPage x)) = 0"
  using inv_head(1) [of P rs xs x] by (auto simp: pool_inv_def list_all_iff)

lemma last_of_cases: "last_of RFree us = RFree \<or> (\<exists>j \<in> set us. last_of RFree us = RPage j)"
  by (auto simp: last_of_def)

lemma head_of_cases: "head_of vs RFree = RFree \<or> (\<exists>j \<in> set vs. head_of vs RFree = RPage j)"
  by (cases vs) auto

text \<open>The first pages of the free runs other than a given one.\<close>

lemma inv_other_heads:
  assumes "pool_inv P (as @ (s, k, KFree) # bs) (us @ s # vs)"
  shows "set (us @ vs) = {x. \<exists>k. (x, k, KFree) \<in> set (as @ bs)}"
proof -
  from assms have t: "tiles 0 (as @ (s, k, KFree) # bs) (npages P)" and d: "distinct (us @ s # vs)"
    and e: "set (us @ s # vs) = {x. \<exists>j. (x, j, KFree) \<in> set (as @ (s, k, KFree) # bs)}" by (simp_all add: pool_inv_def)
  have "(s, j, KFree) \<notin> set (as @ bs)" for j
    using tiles_apart [OF t, of s j KFree] tiles_bounds [OF t, of s j KFree] tiles_bounds [OF t, of s k KFree] by auto
  then have "s \<notin> {x. \<exists>j. (x, j, KFree) \<in> set (as @ bs)}" by blast
  moreover have "insert s (set (us @ vs)) = insert s {x. \<exists>j. (x, j, KFree) \<in> set (as @ bs)}" using e by auto
  moreover have "s \<notin> set (us @ vs)" using d by simp
  ultimately show ?thesis by (metis (no_types, lifting) insert_ident)
qed

text \<open>Away from some pages, an operation on the free list only changes the links of two neighbours there.\<close>

lemma links_outside:
  assumes inv: "pool_inv P rs xs" and us: "set (us @ vs) \<subseteq> set xs"
    and away_all: "\<forall>q. q \<notin> RPage ` A \<longrightarrow> g q = set_links (last_of RFree us) a (head_of vs RFree) b 0 (pg P) q"
    and A: "\<forall>x \<in> set us \<union> set vs. x \<notin> A"
  shows "same_outside A (set (us @ vs)) (pg P) g" "g (RSlot i) = pg P (RSlot i)"
    "x \<in> set (us @ vs) \<Longrightarrow> g (RPage x) = set_links (last_of RFree us) a (head_of vs RFree) b 0 (pg P) (RPage x)"
    "g RFree = set_links (last_of RFree us) a (head_of vs RFree) b 0 (pg P) RFree"
    "g (last_of RFree us) = set_links (last_of RFree us) a (head_of vs RFree) b 0 (pg P) (last_of RFree us)"
proof -
  note away = away_all [rule_format]
  let ?r = "last_of RFree us" and ?n = "head_of vs RFree" and ?f = "pg P"
  let ?h = "set_links ?r a ?n b 0 ?f"
  have hh: "?h (RPage j) = ?f (RPage j)" if "j \<notin> set (us @ vs)" for j
  proof -
    have "RPage j \<noteq> ?r" "RPage j \<noteq> ?n" using last_of_cases [of us] head_of_cases [of vs] that by auto
    then show ?thesis by simp
  qed
  have ty: "ptype (?h (RPage j)) = ptype (?f (RPage j))" for j
    using inv_head_type [OF inv, of j] us head_of_cases [of vs] by auto
  show "same_outside A (set (us @ vs)) ?f g"
    unfolding same_outside_def by (simp add: away hh ty image_iff del: set_links_simps(4))
  have "RSlot i \<noteq> ?r" "RSlot i \<noteq> ?n" using last_of_cases [of us] head_of_cases [of vs] by auto
  moreover have "g (RSlot i) = ?h (RSlot i)" by (rule away) auto
  ultimately show "g (RSlot i) = ?f (RSlot i)" by simp
  have "RPage x \<notin> RPage ` A" if "x \<in> set (us @ vs)" for x using A that by auto
  with away show ax: "g (RPage x) = ?h (RPage x)" if "x \<in> set (us @ vs)" for x using that by blast
  show af: "g RFree = ?h RFree" by (rule away) auto
  from ax af last_of_cases [of us] show "g ?r = ?h ?r" by auto
qed

lemma seg_unlinked:
  assumes inv: "pool_inv P (as @ (s, k, KFree) # bs) (us @ s # vs)"
    and g: "\<And>x. x \<in> set (us @ vs) \<Longrightarrow> g (RPage x) = relink (last_of RFree us) (head_of vs RFree) 0 (pg P) (RPage x)"
      "g RFree = relink (last_of RFree us) (head_of vs RFree) 0 (pg P) RFree"
      "g (last_of RFree us) = relink (last_of RFree us) (head_of vs RFree) 0 (pg P) (last_of RFree us)"
  shows "seg g RFree (us @ vs) RFree"
proof (rule seg_remove [where f = "pg P" and x = s])
  note fr = inv_free_run [OF inv]
  show "seg (pg P) RFree (us @ s # vs) RFree" using inv by (simp add: pool_inv_def)
  show "distinct (us @ s # vs)" by (fact fr(12))
  show "vs \<noteq> [] \<Longrightarrow> pprev (g (RPage (hd vs))) = Some (last_of RFree us)" by (cases vs) (simp_all add: g(1))
  show "pnext (g q) = pnext (pg P q)" if "q \<in> insert RFree (RPage ` (set us \<union> set vs))" "q \<noteq> last_of RFree us" for q
    using that g(1,2) by auto
  show "pprev (g (RPage y)) = pprev (pg P (RPage y))" if "y \<in> set us \<union> set (tl vs)" for y
  proof -
    from that fr(12) have "RPage y \<noteq> head_of vs RFree" "y \<in> set (us @ vs)" by (cases vs; auto)+
    then show ?thesis by (simp add: g(1))
  qed
qed (auto simp: g(3))

lemma take_whole_run:
  assumes inv: "pool_inv P (as @ (s, k, KFree) # bs) (us @ s # vs)"
  shows "\<exists>g. take_run s k P = Inr (P\<lparr>pg := g\<rparr>) \<and> pool_inv (P\<lparr>pg := g\<rparr>) (as @ (s, k, KRun) # bs) (us @ vs) \<and>
    same_outside {s..<s + k} (set (us @ vs)) (pg P) g \<and> (\<forall>i. g (RSlot i) = pg P (RSlot i))"
proof -
  let ?r = "last_of RFree us" and ?n = "head_of vs RFree" and ?f = "pg P"
  let ?h = "relink ?r ?n 0 ?f"
  note fr = inv_free_run [OF inv]
  define g where "g = (\<lambda>r. if r \<in> RPage ` {s + 1..<s + 1 + (k - 1)} then run_page PGREST_SLAB_PAGE_BUSY else (?h(RPage s := run_page (of_nat k OR PGREST_SLAB_PAGE_START))) r)"
  have s: "s \<in> {s..<s + k}" using fr(8) by simp
  have u: "unlink (RPage s) P = Inr (P\<lparr>pg := ?h\<rparr>)"
    using fr(7,8) unlink_eq [OF _ fr(2) fr(1) fr(14) [OF s] fr(10,9)] by (simp add: fr(5))
  have e: "take_run s k P = Inr (P\<lparr>pg := g\<rparr>)"
    using fr(3,4,7,8) u by (simp add: take_run_def wr_valid wr_range_eq g_def run_page_def PGREST_SLAB_PAGE_def cong: if_cong)
  have away: "g q = ?h q" if "q \<notin> RPage ` {s..<s + k}" for q using that s by (auto simp: g_def)
  have sub: "set (us @ vs) \<subseteq> set (us @ s # vs)" by auto
  have "\<forall>q. q \<notin> RPage ` {s..<s + k} \<longrightarrow> g q = ?h q" "\<forall>x \<in> set us \<union> set vs. x \<notin> {s..<s + k}" using away fr(11) by blast+
  note o = links_outside [OF inv sub this]
  note sg = seg_unlinked [OF inv o(3-5)]
  have "pool_inv (P\<lparr>pg := g\<rparr>) (as @ [(s, k, KRun)] @ bs) (us @ vs)"
  proof (rule inv_replace [where os = "[(s, k, KFree)]" and xs = "us @ s # vs", OF _ _ _ _ o(1)])
    have "\<forall>j \<in> {s<..<s + k}. g (RPage j) = run_page PGREST_SLAB_PAGE_BUSY" by (auto simp: g_def)
    then show "list_all (run_ok (npages P) g) [(s, k, KRun)]" by (auto simp: g_def)
    show "set (us @ vs) = {x. \<exists>j. (x, j, KFree) \<in> set (as @ [(s, k, KRun)] @ bs)}" using inv_other_heads [OF inv] by simp
    show "successively not_both_free (as @ [(s, k, KRun)] @ bs)" using inv by (simp add: pool_inv_def successively_middle)
  qed (use fr(8,12) sg inv inv_tiles [OF inv] in auto)
  with e o(1,2) show ?thesis by auto
qed

lemma take_part_of_run:
  assumes inv: "pool_inv P (as @ (s, k, KFree) # bs) (us @ s # vs)" and n: "0 < n" "n < k"
  shows "\<exists>g. take_run s n P = Inr (P\<lparr>pg := g\<rparr>) \<and> pool_inv (P\<lparr>pg := g\<rparr>) (as @ [(s, n, KRun), (s + n, k - n, KFree)] @ bs) (us @ (s + n) # vs) \<and>
    same_outside {s..<s + k} (set (us @ vs)) (pg P) g \<and> (\<forall>i. g (RSlot i) = pg P (RSlot i))"
proof -
  let ?r = "last_of RFree us" and ?n = "head_of vs RFree" and ?f = "pg P" and ?z = "RPage (s + n)"
  let ?h = "set_links ?r ?z ?n ?z 0 ?f"
  note fr = inv_free_run [OF inv]
  define f2 where "f2 = (let f1 = ?f(RPage (s + k - 1) := (?f (RPage (s + k - 1)))\<lparr>pprev := Some ?z, ptype := 0\<rparr>) in
    f1(?z := (f1 ?z)\<lparr>pslab := of_nat (k - n), pnext := Some ?n, pprev := Some ?r, ptype := 0\<rparr>))"
  define g where "g = (\<lambda>r. if r \<in> RPage ` {s + 1..<s + 1 + (n - 1)} then run_page PGREST_SLAB_PAGE_BUSY
    else ((set_links ?r ?z ?n ?z 0 f2)(RPage s := run_page (of_nat n OR PGREST_SLAB_PAGE_START))) r)"
  have in1: "s \<in> {s..<s + k}" "s + n \<in> {s..<s + k}" "s + k - 1 \<in> {s..<s + k}" using n by auto
  have ne: "?r \<noteq> RPage s" "?n \<noteq> RPage s" "?r \<noteq> ?z" "?n \<noteq> ?z" "?r \<noteq> RPage (s + k - 1)" "?n \<noteq> RPage (s + k - 1)"
    using fr(13,14) in1 by blast+
  have e: "take_run s n P = Inr (P\<lparr>pg := g\<rparr>)"
    using n fr(1-5,7-10) ne by (simp add: take_run_def wr_valid wr_range_eq deref_def g_def f2_def set_links_def run_page_def PGREST_SLAB_PAGE_def Let_def cong: if_cong)
  have away: "g q = ?h q" if "q \<notin> RPage ` {s..<s + k}" for q
  proof -
    from that in1 n have "g q = set_links ?r ?z ?n ?z 0 f2 q" by (auto simp: g_def)
    moreover from that in1 have "q \<noteq> ?z" "q \<noteq> RPage (s + k - 1)" by blast+
    then have "f2 q = ?f q" by (simp add: f2_def Let_def)
    ultimately show ?thesis by (simp add: set_links_cong [of f2 q ?f])
  qed
  have sub: "set (us @ vs) \<subseteq> set (us @ s # vs)" by auto
  have "\<forall>q. q \<notin> RPage ` {s..<s + k} \<longrightarrow> g q = ?h q" "\<forall>x \<in> set us \<union> set vs. x \<notin> {s..<s + k}" using away fr(11) by blast+
  note o = links_outside [OF inv sub this]
  have inner: "g (RPage j) = f2 (RPage j)" if "j \<in> {s + n..<s + k}" for j
  proof -
    have "RPage j \<noteq> ?r" "RPage j \<noteq> ?n" using fr(13) [of j] fr(14) [of j] that by auto
    with that n show ?thesis by (auto simp: g_def)
  qed
  have z: "pslab (g ?z) = of_nat (k - n)" "pnext (g ?z) = Some ?n" "pprev (g ?z) = Some ?r" "ptype (g ?z) = 0"
    using inner [of "s + n"] n by (simp_all add: f2_def Let_def)
  have "seg g RFree (us @ (s + n) # vs) RFree"
  proof (rule seg_replace [where f = ?f and x = s])
    show "seg ?f RFree (us @ s # vs) RFree" using inv by (simp add: pool_inv_def)
    show "distinct (us @ s # vs)" by (fact fr(12))
    show "s + n \<notin> set us \<union> set vs" using fr(11) in1(2) by blast
    show "vs \<noteq> [] \<Longrightarrow> pprev (g (RPage (hd vs))) = Some ?z" by (cases vs) (simp_all add: o(3))
    show "pnext (g q) = pnext (?f q)" if "q \<in> insert RFree (RPage ` (set us \<union> set vs))" "q \<noteq> ?r" for q
      using that o(3,4) by auto
    show "pprev (g (RPage y)) = pprev (?f (RPage y))" if "y \<in> set us \<union> set (tl vs)" for y
    proof -
      from that fr(12) have "RPage y \<noteq> ?n" "y \<in> set (us @ vs)" by (cases vs; auto)+
      then show ?thesis by (simp add: o(3))
    qed
  qed (auto simp: o(5) z)
  moreover have "dead g j" if "j \<in> {s + n<..<s + k}" for j
    using inner [of j] fr(6) [of j] that n by (auto simp: f2_def Let_def dead_def)
  then have "list_all (run_ok (npages P) g) [(s, n, KRun), (s + n, k - n, KFree)]"
    using z n inner [of "s + k - 1"] by (auto simp: g_def f2_def Let_def)
  moreover have "set (us @ (s + n) # vs) = {x. \<exists>j. (x, j, KFree) \<in> set (as @ [(s, n, KRun), (s + n, k - n, KFree)] @ bs)}"
    using inv_other_heads [OF inv] by auto
  moreover have "distinct (us @ (s + n) # vs)" using fr(11) [of "s + n"] in1(2) fr(12) by auto
  moreover have "successively not_both_free (as @ (s, k, KFree) # bs)" using inv by (simp add: pool_inv_def)
  then have "successively not_both_free (as @ [(s, n, KRun), (s + n, k - n, KFree)] @ bs)"
    by (cases bs) (auto simp: successively_middle not_both_free_def)
  moreover have "set (us @ vs) \<subseteq> set (us @ s # vs)" "tiles s [(s, n, KRun), (s + n, k - n, KFree)] (s + k)" using n by auto
  ultimately have "pool_inv (P\<lparr>pg := g\<rparr>) (as @ [(s, n, KRun), (s + n, k - n, KFree)] @ bs) (us @ (s + n) # vs)"
    using inv inv_tiles [OF inv] by (intro inv_replace [where os = "[(s, k, KFree)]" and xs = "us @ s # vs", OF _ _ _ _ o(1)]) simp_all
  with e o(1,2) show ?thesis by auto
qed

definition remainder :: "nat \<Rightarrow> nat \<Rightarrow> nat \<Rightarrow> page_run list" where
  "remainder s k n = (if k = n then [] else [(s + n, k - n, KFree)])"

lemma take_run_ok:
  assumes inv: "pool_inv P (as @ (s, k, KFree) # bs) xs" and n: "0 < n" "n \<le> k"
  shows "\<exists>g xs'. take_run s n P = Inr (P\<lparr>pg := g\<rparr>) \<and> pool_inv (P\<lparr>pg := g\<rparr>) (as @ (s, n, KRun) # remainder s k n @ bs) xs' \<and>
    same_outside {s..<s + k} (set xs) (pg P) g \<and> (\<forall>i. g (RSlot i) = pg P (RSlot i))"
proof -
  have "s \<in> set xs" using inv by (auto simp: pool_inv_def)
  then obtain us vs where xs: "xs = us @ s # vs" by (meson split_list)
  have w: "same_outside A (set (us @ vs)) f g \<Longrightarrow> same_outside A (set xs) f g" for A f g by (auto simp: same_outside_def xs)
  show ?thesis
  proof (cases "n = k")
    case True
    with take_whole_run [OF inv [unfolded xs]] w show ?thesis by (auto simp: remainder_def)
  next
    case False
    with n have "n < k" by simp
    from take_part_of_run [OF inv [unfolded xs] n(1) this] w False show ?thesis by (auto simp: remainder_def)
  qed
qed

definition run_len :: "slab_pool \<Rightarrow> nat \<Rightarrow> nat" where "run_len P x = unat (pslab (pg P (RPage x)))"

lemma alloc_loop_find:
  assumes "seg (pg P) r xs RFree" "length xs < fuel" "\<And>x. x \<in> set xs \<Longrightarrow> x < npages P"
  shows "alloc_loop fuel (pnext (pg P r)) n P =
    (case List.find (\<lambda>x. n \<le> run_len P x) xs of None \<Rightarrow> Inr (None, P) | Some x \<Rightarrow> map_sum id (Pair (Some x)) (take_run x n P))"
  using assms
proof (induction xs arbitrary: r fuel)
  case Nil
  then show ?case by (cases fuel) (auto simp: deref_def)
next
  case (Cons x xs)
  then obtain fuel' where f: "fuel = Suc fuel'" by (cases fuel) auto
  from Cons.prems have "alloc_loop fuel' (pnext (pg P (RPage x))) n P =
      (case List.find (\<lambda>x. n \<le> run_len P x) xs of None \<Rightarrow> Inr (None, P) | Some x \<Rightarrow> map_sum id (Pair (Some x)) (take_run x n P))"
    by (intro Cons.IH) (auto simp: f)
  with Cons.prems show ?case by (simp add: f deref_def run_len_def)
qed

lemma inv_run_len: "pool_inv P rs xs \<Longrightarrow> (s, k, KFree) \<in> set rs \<Longrightarrow> run_len P s = k"
proof -
  assume inv: "pool_inv P rs xs" and m: "(s, k, KFree) \<in> set rs"
  then have "tiles 0 rs (npages P)" "npages P < 2 ^ 63" "pslab (pg P (RPage s)) = of_nat k"
    by (auto simp: pool_inv_def list_all_iff)
  with tiles_bounds [OF this(1) m] show ?thesis by (simp add: run_len_def unat_of_nat take_bit_nat_eq_self)
qed

lemma inv_length: "pool_inv P rs xs \<Longrightarrow> length xs \<le> npages P"
proof -
  assume inv: "pool_inv P rs xs"
  then have "set xs \<subseteq> {..<npages P}" using inv_head(2) by auto
  then have "card (set xs) \<le> npages P" using card_mono [of "{..<npages P}"] by simp
  moreover have "distinct xs" using inv by (simp add: pool_inv_def)
  ultimately show ?thesis by (simp add: distinct_card)
qed

text \<open>
  \<^verbatim>\<open>pgrest_slab_alloc_pages\<close> always returns: either no free run is long enough and nothing changes, or the
  front of a free run becomes a run in use.
\<close>

lemma alloc_pages_ok:
  assumes inv: "pool_inv P rs xs" and n: "0 < n"
  shows "pgrest_slab_alloc_pages n P = Inr (None, P) \<and> (\<forall>s k. (s, k, KFree) \<in> set rs \<longrightarrow> k < n) \<or>
    (\<exists>as s k bs g xs'. rs = as @ (s, k, KFree) # bs \<and> n \<le> k \<and> pgrest_slab_alloc_pages n P = Inr (Some s, P\<lparr>pg := g\<rparr>) \<and>
       pool_inv (P\<lparr>pg := g\<rparr>) (as @ (s, n, KRun) # remainder s k n @ bs) xs' \<and>
       same_outside {s..<s + k} (set xs) (pg P) g \<and> (\<forall>i. g (RSlot i) = pg P (RSlot i)))"
proof -
  have e: "pgrest_slab_alloc_pages n P =
      (case List.find (\<lambda>x. n \<le> run_len P x) xs of None \<Rightarrow> Inr (None, P) | Some x \<Rightarrow> map_sum id (Pair (Some x)) (take_run x n P))"
    unfolding pgrest_slab_alloc_pages_def
    using inv inv_length [OF inv] inv_head(2) [OF inv] by (intro alloc_loop_find) (auto simp: pool_inv_def)
  show ?thesis
  proof (cases "List.find (\<lambda>x. n \<le> run_len P x) xs")
    case None
    have "k < n" if "(s, k, KFree) \<in> set rs" for s k
    proof -
      from inv that have "s \<in> set xs" by (auto simp: pool_inv_def)
      with None inv_run_len [OF inv that] show ?thesis by (auto simp: find_None_iff)
    qed
    with None e show ?thesis by simp
  next
    case (Some x)
    then have x: "x \<in> set xs" "n \<le> run_len P x" by (auto simp: find_Some_iff)
    from inv_head(1) [OF inv x(1)] obtain k where k: "(x, k, KFree) \<in> set rs" by blast
    then obtain as bs where rs: "rs = as @ (x, k, KFree) # bs" by (meson split_list)
    have "n \<le> k" using inv_run_len [OF inv k] x(2) by simp
    from take_run_ok [OF inv [unfolded rs] n this] obtain g xs' where t: "take_run x n P = Inr (P\<lparr>pg := g\<rparr>)"
      "pool_inv (P\<lparr>pg := g\<rparr>) (as @ (x, n, KRun) # remainder x k n @ bs) xs'" "same_outside {x..<x + k} (set xs) (pg P) g" "\<forall>i. g (RSlot i) = pg P (RSlot i)"
      by blast
    from e Some t(1) have "pgrest_slab_alloc_pages n P = Inr (Some x, P\<lparr>pg := g\<rparr>)" by simp
    with rs \<open>n \<le> k\<close> t(2-4) show ?thesis by blast
  qed
qed

end
