(* ===== verification/SlabFree.thy ===== *)
theory SlabFree
  imports SlabPages
begin

text \<open>
  Giving runs of pages back to a slab pool: the run is marked, joined with a free run behind it and with one
  in front of it, and put at the head of the free list.
\<close>

section \<open>The run that is given back\<close>

lemma back_start:
  assumes inv: "pool_inv P (as @ (s, n, KRun) # bs) xs"
  shows "\<exists>g. bind_ub (wr (RPage s) (\<lambda>p. p\<lparr>pslab := of_nat n\<rparr>) P) (wr_range (s + 1) (n - 1) zero_page) = Inr (P\<lparr>pg := g\<rparr>) \<and>
    pool_inv (P\<lparr>pg := g\<rparr>) (as @ (s, n, KBack) # bs) xs \<and> pnext (g (RPage s)) = None"
proof -
  let ?f = "pg P"
  define g where "g = (\<lambda>r. if r \<in> RPage ` {s + 1..<s + 1 + (n - 1)} then zero_page else (?f(RPage s := (?f (RPage s))\<lparr>pslab := of_nat n\<rparr>)) r)"
  from inv have t: "tiles 0 (as @ (s, n, KRun) # bs) (npages P)" and ok: "run_ok (npages P) ?f (s, n, KRun)" by (simp_all add: pool_inv_def)
  from tiles_bounds [OF t, of s n KRun] have b: "s + n \<le> npages P" "0 < n" by simp_all
  have e: "bind_ub (wr (RPage s) (\<lambda>p. p\<lparr>pslab := of_nat n\<rparr>) P) (wr_range (s + 1) (n - 1) zero_page) = Inr (P\<lparr>pg := g\<rparr>)"
    using b by (simp add: wr_valid wr_range_eq g_def cong: if_cong)
  have away: "g q = ?f q" if "q \<notin> RPage ` {s..<s + n}" for q using that b by (auto simp: g_def)
  have heads: "x \<notin> {s..<s + n}" if "x \<in> set xs" for x using inv_head(3) [OF inv that, of s n KRun] by auto
  have "same_outside {s..<s + n} (set xs) ?f g" by (simp add: same_outside_def away image_iff)
  moreover have "seg g RFree xs RFree"
  proof (rule seg_cong [of ?f])
    show "seg ?f RFree xs RFree" using inv by (simp add: pool_inv_def)
    show "pnext (g q) = pnext (?f q)" if "q \<in> insert RFree (RPage ` set xs)" for q
    proof -
      from that heads have "q \<notin> RPage ` {s..<s + n}" by blast
      then show ?thesis by (simp add: away)
    qed
    show "pprev (g (RPage x)) = pprev (?f (RPage x))" if "x \<in> set xs" for x using heads [OF that] by (simp add: away image_iff)
  qed
  moreover have "dead g j" if "j \<in> {s<..<s + n}" for j using that by (auto simp: g_def dead_def zero_page_def)
  then have "list_all (run_ok (npages P) g) [(s, n, KBack)]" by (auto simp: g_def)
  moreover have "successively not_both_free (as @ [(s, n, KBack)] @ bs)" using inv by (simp add: pool_inv_def successively_middle)
  moreover have "set xs = {x. \<exists>k. (x, k, KFree) \<in> set (as @ [(s, n, KBack)] @ bs)}" "distinct xs" using inv by (simp_all add: pool_inv_def)
  ultimately have "pool_inv (P\<lparr>pg := g\<rparr>) (as @ [(s, n, KBack)] @ bs) xs"
    using inv inv_tiles [OF inv] by (intro inv_replace [where os = "[(s, n, KRun)]" and xs = xs and H = "set xs"]) simp_all
  moreover have "pnext (g (RPage s)) = None" using ok by (auto simp: g_def run_page_def)
  ultimately show ?thesis using e by auto
qed

section \<open>Joining\<close>

lemma start_nonzero: "of_nat k OR PGREST_SLAB_PAGE_START \<noteq> 0"
proof
  assume "of_nat k OR PGREST_SLAB_PAGE_START = 0"
  then have "\<not> bit (of_nat k OR PGREST_SLAB_PAGE_START) 63" by simp
  then show False by (simp add: bit_or_iff PGREST_SLAB_PAGE_START_def)
qed

lemma nat_word_add: "a + b < 2 ^ 63 \<Longrightarrow> unat (of_nat a + of_nat b :: uintptr) = a + b"
  by (simp add: unat_of_nat take_bit_nat_eq_self flip: of_nat_add)

lemma inv_back:
  assumes inv: "pool_inv P (as @ (s, n, KBack) # bs) xs"
  shows "pslab (pg P (RPage s)) = of_nat n" "unat (of_nat n :: uintptr) = n" "s + n \<le> npages P" "0 < n" "npages P < 2 ^ 63"
    "\<And>j. j \<in> {s<..<s + n} \<Longrightarrow> dead (pg P) j" "\<And>x. x \<in> set xs \<Longrightarrow> x \<notin> {s..<s + n}"
proof -
  from inv have t: "tiles 0 (as @ (s, n, KBack) # bs) (npages P)" and ok: "run_ok (npages P) (pg P) (s, n, KBack)" and N: "npages P < 2 ^ 63"
    by (simp_all add: pool_inv_def)
  from tiles_bounds [OF t, of s n KBack] show b: "s + n \<le> npages P" "0 < n" by simp_all
  from b N show "unat (of_nat n :: uintptr) = n" "npages P < 2 ^ 63" by (simp_all add: unat_of_nat take_bit_nat_eq_self)
  from ok show "pslab (pg P (RPage s)) = of_nat n" "\<And>j. j \<in> {s<..<s + n} \<Longrightarrow> dead (pg P) j" by simp_all
  show "x \<notin> {s..<s + n}" if "x \<in> set xs" for x using inv_head(3) [OF inv that, of s n KBack] by auto
qed

text \<open>The free run from \<open>t\<close> leaves the list and becomes, with a neighbour, the run of \<open>m\<close> pages from \<open>a\<close>.\<close>

lemma absorbed:
  assumes inv: "pool_inv P (as @ os @ bs) (us @ t # vs)" and rs: "as @ os @ bs = cs @ (t, k, KFree) # ds"
    and os: "tiles 0 as a" "tiles a os (a + m)" "tiles (a + m) bs (npages P)"
    and heads: "{x. \<exists>j. (x, j, KFree) \<in> set (cs @ ds)} = {x. \<exists>j. (x, j, KFree) \<in> set (as @ bs)}"
    and idle: "\<And>j. j \<in> {a<..<a + m} \<Longrightarrow> j \<noteq> b \<Longrightarrow> dead (pg P) j" and b: "b \<in> {a<..<a + m}"
    and apart: "\<And>x. x \<in> set us \<union> set vs \<Longrightarrow> x \<notin> {a..<a + m}"
    and g: "g = (relink (last_of RFree us) (head_of vs RFree) 0 ((pg P)(RPage a := (pg P (RPage a))\<lparr>pslab := of_nat m\<rparr>)))
      (RPage b := run_page PGREST_SLAB_PAGE_FREE)"
  shows "pool_inv (P\<lparr>pg := g\<rparr>) (as @ (a, m, KBack) # bs) (us @ vs)"
proof -
  let ?r = "last_of RFree us" and ?n = "head_of vs RFree" and ?f = "pg P"
  define f1 where "f1 = ?f(RPage a := (?f (RPage a))\<lparr>pslab := of_nat m\<rparr>)"
  note inv2 = inv [unfolded rs] and g1 = g [folded f1_def]
  have away: "g q = relink ?r ?n 0 ?f q" if "q \<notin> RPage ` {a..<a + m}" for q
  proof -
    from that b have "q \<noteq> RPage a" "q \<noteq> RPage b" by auto
    then have "f1 q = ?f q" "g q = relink ?r ?n 0 f1 q" by (simp_all add: g1 f1_def)
    then show ?thesis by (simp add: set_links_cong [of f1 q ?f])
  qed
  have sub: "set (us @ vs) \<subseteq> set (us @ t # vs)" by auto
  have "\<forall>q. q \<notin> RPage ` {a..<a + m} \<longrightarrow> g q = relink ?r ?n 0 ?f q" "\<forall>x \<in> set us \<union> set vs. x \<notin> {a..<a + m}" using away apart by blast+
  note o = links_outside [OF inv sub this]
  have "pool_inv (P\<lparr>pg := g\<rparr>) (as @ [(a, m, KBack)] @ bs) (us @ vs)"
  proof (rule inv_replace [where xs = "us @ t # vs", OF _ os o(1) sub])
    have ne: "RPage j \<noteq> ?r" "RPage j \<noteq> ?n" if "j \<in> {a..<a + m}" for j
      using apart last_of_cases [of us] head_of_cases [of vs] that by auto
    have "dead g j" if "j \<in> {a<..<a + m}" for j
      using idle [of j] ne [of j] that by (cases "j = b") (simp_all add: g1 f1_def dead_def run_page_def PGREST_SLAB_PAGE_FREE_def PGREST_SLAB_PAGE_def)
    moreover have "pslab (g (RPage a)) = of_nat m" using b by (simp add: g1 f1_def)
    ultimately show "list_all (run_ok (npages P) g) [(a, m, KBack)]" by simp
    show "set (us @ vs) = {x. \<exists>j. (x, j, KFree) \<in> set (as @ [(a, m, KBack)] @ bs)}" using inv_other_heads [OF inv2] heads by simp
    show "successively not_both_free (as @ [(a, m, KBack)] @ bs)" using inv by (auto simp: pool_inv_def successively_append_iff successively_Cons)
    show "seg g RFree (us @ vs) RFree" using seg_unlinked [OF inv2 o(3-5)] .
  qed (use b inv inv_free_run(12) [OF inv2] in auto)
  then show ?thesis by simp
qed

lemma join_next_free:
  assumes inv: "pool_inv P (as @ (s, n, KBack) # (s + n, k, KFree) # bs) xs"
  shows "\<exists>g xs'. join_next s c P = Inr (c + k, P\<lparr>pg := g\<rparr>) \<and> pool_inv (P\<lparr>pg := g\<rparr>) (as @ (s, n + k, KBack) # bs) xs'"
proof -
  from inv have "s + n \<in> set xs" by (auto simp: pool_inv_def)
  then obtain us vs where xs: "xs = us @ (s + n) # vs" by (meson split_list)
  have inv2: "pool_inv P ((as @ [(s, n, KBack)]) @ (s + n, k, KFree) # bs) (us @ (s + n) # vs)"
    and inv3: "pool_inv P (as @ [(s, n, KBack), (s + n, k, KFree)] @ bs) (us @ (s + n) # vs)" using inv xs by simp_all
  note fr = inv_free_run [OF inv2] and bk = inv_back [OF inv]
  let ?r = "last_of RFree us" and ?n = "head_of vs RFree" and ?f = "pg P"
  define f1 where "f1 = ?f(RPage s := (?f (RPage s))\<lparr>pslab := of_nat (n + k)\<rparr>)"
  have u: "unlink (RPage (s + n)) (P\<lparr>pg := f1\<rparr>) = Inr (P\<lparr>pg := relink ?r ?n 0 f1\<rparr>)"
    using fr(1,2,5,7,8,9,10) fr(14) [of "s + n"] bk(4) unlink_eq [of "s + n" "P\<lparr>pg := f1\<rparr>" ?r ?n] by (simp add: f1_def)
  then have "join_next s c P = Inr (c + k, P\<lparr>pg := (relink ?r ?n 0 f1)(RPage (s + n) := run_page PGREST_SLAB_PAGE_FREE)\<rparr>)"
    using fr(1-5,7,8) bk(1-5) by (simp add: join_next_def wr_valid PGREST_SLAB_PAGE_def run_page_def f1_def)
  moreover have "x \<notin> {s..<s + (n + k)}" if "x \<in> set us \<union> set vs" for x using fr(11) [OF that] bk(7) [of x] that xs by auto
  moreover have "dead ?f j" if "j \<in> {s<..<s + (n + k)}" "j \<noteq> s + n" for j using bk(6) [of j] fr(6) [of j] that by (cases "s + n < j") auto
  ultimately show ?thesis using absorbed [OF inv3, of "as @ [(s, n, KBack)]" k bs s "n + k" "s + n"] fr(8) bk(4) inv_tiles [OF inv]
    by (fastforce simp: f1_def add.assoc)
qed

definition no_back :: "page_run list \<Rightarrow> bool" where
  "no_back rs \<longleftrightarrow> list_all (\<lambda>r. snd (snd r) \<noteq> KBack) rs"

lemma no_back_simps [simp]: "no_back []" "no_back ((s, k, q) # rs) \<longleftrightarrow> q \<noteq> KBack \<and> no_back rs" "no_back (xs @ ys) \<longleftrightarrow> no_back xs \<and> no_back ys"
  by (simp_all add: no_back_def)

text \<open>The page behind a run, when it is not the first of a free run, is not on a list.\<close>

lemma join_next_busy:
  assumes inv: "pool_inv P (as @ (s, n, KBack) # bs) xs" and bs: "no_back bs" "bs = [] \<or> snd (snd (hd bs)) \<noteq> KFree"
  shows "join_next s c P = Inr (c, P)"
proof (cases bs)
  case Nil
  with inv_back [OF inv] inv_tiles [OF inv] show ?thesis by (simp add: join_next_def)
next
  case (Cons b bs')
  obtain s' k q where b: "b = (s', k, q)" by (cases b)
  with Cons inv_tiles [OF inv] have s': "s' = s + n" and k: "0 < k" by auto
  have ok: "run_ok (npages P) (pg P) (s + n, k, q)" using inv by (simp add: pool_inv_def Cons b s')
  have "q \<noteq> KFree" "q \<noteq> KBack" using bs Cons b by auto
  with ok have "ptype (pg P (RPage (s + n))) \<noteq> PGREST_SLAB_PAGE \<or> pnext (pg P (RPage (s + n))) = None"
    by (cases q) (auto simp: run_page_def PGREST_SLAB_PAGE_def)
  with inv_back [OF inv] show ?thesis by (auto simp: join_next_def Let_def)
qed

lemma join_prev_free:
  assumes inv: "pool_inv P (as @ (a, k, KFree) # (s, n, KBack) # bs) xs"
  shows "\<exists>g xs'. join_prev s c P = Inr (a, c + k, P\<lparr>pg := g\<rparr>) \<and> pool_inv (P\<lparr>pg := g\<rparr>) (as @ (a, k + n, KBack) # bs) xs'"
proof -
  have s: "s = a + k" using inv_tiles [OF inv] by simp
  from inv have "a \<in> set xs" by (auto simp: pool_inv_def)
  then obtain us vs where xs: "xs = us @ a # vs" by (meson split_list)
  have inv1: "pool_inv P ((as @ [(a, k, KFree)]) @ (s, n, KBack) # bs) xs" 
    and inv3: "pool_inv P (as @ [(a, k, KFree), (s, n, KBack)] @ bs) (us @ a # vs)" using inv xs by simp_all
  note fr = inv_free_run [OF inv [unfolded xs]] and bk = inv_back [OF inv1]
  let ?r = "last_of RFree us" and ?n = "head_of vs RFree" and ?f = "pg P"
  define f1 where "f1 = ?f(RPage a := (?f (RPage a))\<lparr>pslab := of_nat (k + n)\<rparr>)"
  have u: "unlink (RPage a) (P\<lparr>pg := f1\<rparr>) = Inr (P\<lparr>pg := relink ?r ?n 0 f1\<rparr>)"
    using fr(1,2,5,7,8,9,10) fr(14) [of a] unlink_eq [of a "P\<lparr>pg := f1\<rparr>" ?r ?n] by (simp add: f1_def)
  have apart: "x \<notin> {a..<a + (k + n)}" if "x \<in> set us \<union> set vs" for x using fr(11) [OF that] bk(7) [of x] that xs s by auto
  then have ne: "?r \<noteq> RPage s" "?n \<noteq> RPage s" using apart [of s] last_of_cases [of us] head_of_cases [of vs] bk(4) s by auto
  have k: "(of_nat k :: uintptr) \<noteq> 0" using fr(4,8) by (metis less_numeral_extra(3) unat_0)
  have lastp: "dead ?f (s - 1)" "pprev (?f (RPage (s - 1))) = Some (RPage a)" if "1 < k"
  proof -
    show "dead ?f (s - 1)" using fr(6) [of "s - 1"] that s by auto
    from inv have "run_ok (npages P) ?f (a, k, KFree)" by (simp add: pool_inv_def)
    then show "pprev (?f (RPage (s - 1))) = Some (RPage a)" using that bk(3,4) s by simp
  qed
  have "join_prev s c P = Inr (a, c + k, P\<lparr>pg := (relink ?r ?n 0 f1)(RPage s := run_page PGREST_SLAB_PAGE_FREE)\<rparr>)"
  proof (cases "k = 1")
    case True
    with k u ne bk(1,3,4) fr(1-5) show ?thesis
      by (simp add: join_prev_def s wr_valid PGREST_SLAB_PAGE_def PGREST_SLAB_PAGE_FREE_def run_page_def f1_def)
  next
    case False
    with fr(8) have "1 < k" by simp
    with lastp u ne bk(1,3,4) fr(1-5) show ?thesis
      by (simp add: join_prev_def s wr_valid PGREST_SLAB_PAGE_def PGREST_SLAB_PAGE_FREE_def run_page_def f1_def dead_def deref_def)
  qed
  moreover have "dead ?f j" if "j \<in> {a<..<a + (k + n)}" "j \<noteq> s" for j using bk(6) [of j] fr(6) [of j] that s by (cases "s < j") auto
  ultimately show ?thesis using apart absorbed [OF inv3, of as k "(s, n, KBack) # bs" a "k + n" s] fr(8) bk(4) inv_tiles [OF inv] s
    by (fastforce simp: f1_def add.assoc)
qed

lemma join_prev_busy:
  assumes inv: "pool_inv P (as @ (s, n, KBack) # bs) xs" and as: "no_back as" "as = [] \<or> snd (snd (last as)) \<noteq> KFree"
  shows "join_prev s c P = Inr (s, c, P)"
proof (cases as rule: rev_cases)
  case Nil
  with inv_tiles [OF inv] show ?thesis by (simp add: join_prev_def)
next
  case (snoc as' b)
  obtain a k q where b: "b = (a, k, q)" by (cases b)
  with snoc inv have "pool_inv P (as' @ (a, k, q) # (s, n, KBack) # bs) xs" by simp
  from inv_tiles [OF this] have s: "s = a + k" "0 < k" by auto
  have ok: "run_ok (npages P) (pg P) (a, k, q)" using inv by (simp add: pool_inv_def snoc b)
  have q: "q = KRun \<or> q = KSlab" using as snoc b by (cases q) auto
  let ?p = "pg P (RPage (s - 1))"
  have "?p = run_page (of_nat k OR PGREST_SLAB_PAGE_START) \<or> ?p = run_page PGREST_SLAB_PAGE_BUSY" if "q = KRun"
    using ok that s by (cases "k = 1") auto
  moreover have "ptype ?p \<noteq> PGREST_SLAB_PAGE" if "q = KSlab" using ok that s by (simp add: PGREST_SLAB_PAGE_def)
  ultimately have "ptype ?p \<noteq> PGREST_SLAB_PAGE \<or> pslab ?p \<noteq> PGREST_SLAB_PAGE_FREE \<and> pnext ?p = None"
    using q start_nonzero by (auto simp: run_page_def PGREST_SLAB_PAGE_FREE_def PGREST_SLAB_PAGE_BUSY_def)
  with s inv_back [OF inv] show ?thesis by (auto simp: join_prev_def)
qed

section \<open>Back on the free list\<close>

lemma put_free_ok:
  assumes inv: "pool_inv P (as @ (s, n, KBack) # bs) xs"
    and apart: "as = [] \<or> snd (snd (last as)) \<noteq> KFree" "bs = [] \<or> snd (snd (hd bs)) \<noteq> KFree"
  shows "\<exists>g. put_free s (n - 1) P = Inr (P\<lparr>pg := g\<rparr>) \<and> pool_inv (P\<lparr>pg := g\<rparr>) (as @ (s, n, KFree) # bs) (s # xs)"
proof -
  let ?f = "pg P" and ?n = "head_of xs RFree" and ?s = "RPage s"
  let ?h = "set_links RFree ?s ?n ?s 0 ?f"
  note bk = inv_back [OF inv]
  define f1 where "f1 = (if n - 1 \<noteq> 0 then ?f(RPage (s + (n - 1)) := (?f (RPage (s + (n - 1))))\<lparr>pprev := Some ?s, ptype := 0\<rparr>) else ?f)"
  define f2 where "f2 = f1(?s := (f1 ?s)\<lparr>pprev := Some RFree, ptype := 0, pnext := Some ?n\<rparr>)"
  define g where "g = set_links RFree ?s ?n ?s 0 f2"
  have sg: "seg ?f RFree xs RFree" and d: "distinct xs" using inv by (simp_all add: pool_inv_def)
  have ne: "RPage j \<noteq> ?n" if "j \<in> {s..<s + n}" for j using bk(7) head_of_cases [of xs] that by auto
  have vn: "valid P ?n" using inv_head(2) [OF inv] by (cases xs) auto
  have 1: "(if n - 1 \<noteq> 0 then wr (RPage (s + (n - 1))) (\<lambda>q. q\<lparr>pprev := Some ?s, ptype := 0\<rparr>) P else Inr P) = Inr (P\<lparr>pg := f1\<rparr>)"
    using bk(3,4) by (simp add: wr_valid f1_def)
  have 2: "wr ?s (\<lambda>p. p\<lparr>pprev := Some RFree, ptype := 0, pnext := pnext (pg (P\<lparr>pg := f1\<rparr>) RFree)\<rparr>) (P\<lparr>pg := f1\<rparr>) = Inr (P\<lparr>pg := f2\<rparr>)"
    using bk(3,4) seg_next [OF sg] by (simp add: wr_valid f2_def f1_def)
  have 3: "pnext (pg (P\<lparr>pg := f2\<rparr>) ?s) = Some ?n" by (simp add: f2_def)
  have 4: "wr ?n (\<lambda>q. q\<lparr>pprev := Some ?s, ptype := 0\<rparr>) (P\<lparr>pg := f2\<rparr>) = Inr (P\<lparr>pg := f2(?n := (f2 ?n)\<lparr>pprev := Some ?s, ptype := 0\<rparr>)\<rparr>)"
    using vn by (simp add: wr_valid)
  have 5: "(f2(?n := (f2 ?n)\<lparr>pprev := Some ?s, ptype := 0\<rparr>))(RFree := ((f2(?n := (f2 ?n)\<lparr>pprev := Some ?s, ptype := 0\<rparr>)) RFree)\<lparr>pnext := Some ?s\<rparr>) = g"
    by (rule ext) (auto simp: g_def set_links_def Let_def)
  have e: "put_free s (n - 1) P = Inr (P\<lparr>pg := g\<rparr>)"
    unfolding put_free_def 1 bind_ub.simps 2 3 deref_def option.case 4 by (simp add: wr_valid 5 del: fun_upd_apply)
  have away: "g q = ?h q" if "q \<notin> RPage ` {s..<s + n}" for q
  proof -
    from that bk(4) have "q \<noteq> ?s" "q \<noteq> RPage (s + (n - 1))" by auto
    with bk(4) have "f2 q = ?f q" by (simp add: f2_def f1_def)
    then show ?thesis by (simp add: g_def set_links_cong [of f2 q ?f])
  qed
  have "\<forall>q. q \<notin> RPage ` {s..<s + n} \<longrightarrow> g q = set_links (last_of RFree []) ?s ?n ?s 0 ?f q" "\<forall>x \<in> set [] \<union> set xs. x \<notin> {s..<s + n}" using away bk(7) by auto
  note o = links_outside [OF inv _ this, simplified append_Nil last_of_simps, OF subset_refl]
  have inner: "g (RPage j) = f2 (RPage j)" if "j \<in> {s..<s + n}" for j
    using ne [OF that] by (simp add: g_def)
  have "s \<in> {s..<s + n}" using bk(4) by simp
  note gs = inner [OF this]
  have "seg g RFree (s # xs) RFree"
  proof (rule seg_push [OF sg d])
    show "s \<notin> set xs" using bk(4) bk(7) [of s] by auto
    show "xs \<noteq> [] \<Longrightarrow> pprev (g (RPage (hd xs))) = Some ?s" by (cases xs) (simp_all add: o(3))
    show "pprev (g (RPage y)) = pprev (?f (RPage y))" if "y \<in> set (tl xs)" for y
    proof -
      from that d have "RPage y \<noteq> ?n" "y \<in> set xs" by (cases xs; auto)+
      then show ?thesis by (simp add: o(3))
    qed
  qed (auto simp: o(3,4) gs f2_def)
  moreover have "dead g j" if "j \<in> {s<..<s + n}" for j
    using inner [of j] bk(6) [of j] that by (auto simp: f2_def f1_def dead_def)
  then have "list_all (run_ok (npages P) g) [(s, n, KFree)]"
    using inner [of "s + n - 1"] gs bk(1,4) by (auto simp: f2_def f1_def)
  moreover have "set (s # xs) = {x. \<exists>j. (x, j, KFree) \<in> set (as @ [(s, n, KFree)] @ bs)}" using inv by (auto simp: pool_inv_def)
  moreover have "distinct (s # xs)" using bk(4) bk(7) [of s] d by auto
  moreover have "successively not_both_free (as @ [(s, n, KFree)] @ bs)"
    using inv apart by (cases as rule: rev_cases; cases bs) (auto simp: pool_inv_def successively_append_iff successively_Cons not_both_free_def)
  ultimately have "pool_inv (P\<lparr>pg := g\<rparr>) (as @ [(s, n, KFree)] @ bs) (s # xs)"
    using inv_tiles [OF inv] bk(4) inv
    by (intro inv_replace [where os = "[(s, n, KBack)]" and xs = xs, OF _ _ _ _ o(1)]) simp_all
  with e show ?thesis by auto
qed

text \<open>The division after a run is given back: it is free and joined with the free runs next to it.\<close>

definition give_back :: "page_run list \<Rightarrow> nat \<Rightarrow> nat \<Rightarrow> page_run list \<Rightarrow> page_run list" where
  "give_back as s n bs =
     (let (m, bs') = (case bs of (t, k, KFree) # cs \<Rightarrow> (n + k, cs) | _ \<Rightarrow> (n, bs)) in
      if as \<noteq> [] \<and> snd (snd (last as)) = KFree then butlast as @ (fst (last as), fst (snd (last as)) + m, KFree) # bs'
      else as @ (s, m, KFree) # bs')"

lemma join_next_ok:
  assumes inv: "pool_inv P (as @ (s, n, KBack) # bs) xs" and bs: "no_back bs"
  obtains g m bs' xs' where "join_next s (n - 1) P = Inr (m - 1, P\<lparr>pg := g\<rparr>)" "pool_inv (P\<lparr>pg := g\<rparr>) (as @ (s, m, KBack) # bs') xs'"
    "(m, bs') = (case bs of (t, k, KFree) # cs \<Rightarrow> (n + k, cs) | _ \<Rightarrow> (n, bs))" "no_back bs'" "bs' = [] \<or> snd (snd (hd bs')) \<noteq> KFree"
proof (cases "\<exists>k cs. bs = (s + n, k, KFree) # cs")
  case True
  then obtain k cs where b: "bs = (s + n, k, KFree) # cs" by blast
  from join_next_free [OF inv [unfolded b], of "n - 1"] obtain g xs' where
    "join_next s (n - 1) P = Inr (n - 1 + k, P\<lparr>pg := g\<rparr>)" "pool_inv (P\<lparr>pg := g\<rparr>) (as @ (s, n + k, KBack) # cs) xs'" by blast
  moreover have "n - 1 + k = n + k - 1" using inv_back(4) [OF inv] by simp
  moreover have "cs = [] \<or> snd (snd (hd cs)) \<noteq> KFree"
    using inv b by (auto simp: pool_inv_def successively_append_iff successively_Cons not_both_free_def)
  ultimately show thesis using that b bs by auto
next
  case False
  then have "bs = [] \<or> snd (snd (hd bs)) \<noteq> KFree" using inv_tiles [OF inv] by (cases bs) auto
  moreover from this have "(n, bs) = (case bs of (t, k, KFree) # cs \<Rightarrow> (n + k, cs) | _ \<Rightarrow> (n, bs))"
    by (auto split: list.splits kind.splits)
  moreover have "P\<lparr>pg := pg P\<rparr> = P" by simp
  ultimately show thesis using that [of n "pg P" bs xs] join_next_busy [OF inv bs, of "n - 1"] inv bs by simp
qed

lemma join_prev_ok:
  assumes inv: "pool_inv P (as @ (s, n, KBack) # bs) xs" and as: "no_back as"
  obtains g xs' as' t m where "join_prev s (n - 1) P = Inr (t, m - 1, P\<lparr>pg := g\<rparr>)" "pool_inv (P\<lparr>pg := g\<rparr>) (as' @ (t, m, KBack) # bs) xs'"
    "as' @ (t, m, KFree) # bs = (if as \<noteq> [] \<and> snd (snd (last as)) = KFree then butlast as @ (fst (last as), fst (snd (last as)) + n, KFree) # bs
      else as @ (s, n, KFree) # bs)" "as' = [] \<or> snd (snd (last as')) \<noteq> KFree"
proof (cases "as \<noteq> [] \<and> snd (snd (last as)) = KFree")
  case True
  then obtain as' t k where a: "as = as' @ [(t, k, KFree)]" by (metis append_butlast_last_id prod.collapse)
  from inv a have inv': "pool_inv P (as' @ (t, k, KFree) # (s, n, KBack) # bs) xs" by simp
  from join_prev_free [OF this, of "n - 1"] obtain g xs' where
    "join_prev s (n - 1) P = Inr (t, n - 1 + k, P\<lparr>pg := g\<rparr>)" "pool_inv (P\<lparr>pg := g\<rparr>) (as' @ (t, k + n, KBack) # bs) xs'" by blast
  moreover have "n - 1 + k = k + n - 1" using inv_back(4) [OF inv] by simp
  moreover have "as' = [] \<or> snd (snd (last as')) \<noteq> KFree"
    using inv' by (cases as' rule: rev_cases) (auto simp: pool_inv_def successively_append_iff not_both_free_def)
  ultimately show thesis using that a by auto
next
  case False
  moreover have "P\<lparr>pg := pg P\<rparr> = P" by simp
  ultimately show thesis using that [of s n "pg P" as xs] join_prev_busy [OF inv as, of "n - 1"] inv by auto
qed

lemma free_pages_ok:
  assumes inv: "pool_inv P (as @ (s, n, KRun) # bs) xs" and nb: "no_back as" "no_back bs"
  shows "\<exists>g xs'. pgrest_slab_free_pages s n P = Inr (P\<lparr>pg := g\<rparr>) \<and> pool_inv (P\<lparr>pg := g\<rparr>) (give_back as s n bs) xs'"
proof -
  from back_start [OF inv] obtain g1 where 1: "bind_ub (wr (RPage s) (\<lambda>p. p\<lparr>pslab := of_nat n\<rparr>) P) (wr_range (s + 1) (n - 1) zero_page) = Inr (P\<lparr>pg := g1\<rparr>)"
    "pool_inv (P\<lparr>pg := g1\<rparr>) (as @ (s, n, KBack) # bs) xs" "pnext (g1 (RPage s)) = None" by blast
  obtain g2 m bs' xs2 where 2: "join_next s (n - 1) (P\<lparr>pg := g1\<rparr>) = Inr (m - 1, P\<lparr>pg := g1, pg := g2\<rparr>)"
    "pool_inv (P\<lparr>pg := g1, pg := g2\<rparr>) (as @ (s, m, KBack) # bs') xs2" "(m, bs') = (case bs of (t, k, KFree) # cs \<Rightarrow> (n + k, cs) | _ \<Rightarrow> (n, bs))"
    "no_back bs'" "bs' = [] \<or> snd (snd (hd bs')) \<noteq> KFree" by (rule join_next_ok [OF 1(2) nb(2)])
  obtain g3 xs3 as' t m' where 3: "join_prev s (m - 1) (P\<lparr>pg := g1, pg := g2\<rparr>) = Inr (t, m' - 1, P\<lparr>pg := g1, pg := g2, pg := g3\<rparr>)"
    "pool_inv (P\<lparr>pg := g1, pg := g2, pg := g3\<rparr>) (as' @ (t, m', KBack) # bs') xs3"
    "as' @ (t, m', KFree) # bs' = (if as \<noteq> [] \<and> snd (snd (last as)) = KFree then butlast as @ (fst (last as), fst (snd (last as)) + m, KFree) # bs'
      else as @ (s, m, KFree) # bs')" "as' = [] \<or> snd (snd (last as')) \<noteq> KFree" by (rule join_prev_ok [OF 2(2) nb(1)])
  from put_free_ok [OF 3(2) 3(4) 2(5)] obtain g4 where 4: "put_free t (m' - 1) (P\<lparr>pg := g1, pg := g2, pg := g3\<rparr>) = Inr (P\<lparr>pg := g4\<rparr>)"
    "pool_inv (P\<lparr>pg := g4\<rparr>) (as' @ (t, m', KFree) # bs') (t # xs3)" by auto
  have "as' @ (t, m', KFree) # bs' = give_back as s n bs" using 3(3) by (simp add: give_back_def 2(3) [symmetric])
  moreover have "s < npages P" using inv_back(3,4) [OF 1(2)] by simp
  then have "pgrest_slab_free_pages s n P = Inr (P\<lparr>pg := g4\<rparr>)"
    using 1(1,3) 2(1) 3(1) 4(1) by (auto simp: pgrest_slab_free_pages_def wr_valid)
  ultimately show ?thesis using 4(2) by auto
qed

end
