(* ===== verification/SlabClient.thy ===== *)
theory SlabClient
  imports SlabFree
begin

text \<open>
  The slab allocator as its users see it, for blocks of more than half a page: a pool that was just set up
  serves any sequence of requests and releases.
\<close>

section \<open>A new pool\<close>

lemma init_simps [simp]:
  "page_shift (pgrest_slab_init ps ms a e) = ps" "min_shift (pgrest_slab_init ps ms a e) = ms" "send (pgrest_slab_init ps ms a e) = e"
  by (simp_all add: pgrest_slab_init_def Let_def)

lemma init_inv:
  assumes "0 < npages (pgrest_slab_init ps ms a e)" "npages (pgrest_slab_init ps ms a e) < 2 ^ 63"
  shows "pool_inv (pgrest_slab_init ps ms a e) [(0, npages (pgrest_slab_init ps ms a e), KFree)] [0]"
proof -
  let ?P = "pgrest_slab_init ps ms a e"
  have "pg ?P RFree = zero_page\<lparr>pnext := Some (RPage 0)\<rparr>"
    "pg ?P (RPage 0) = \<lparr>pslab = of_nat (npages ?P), pnext = Some RFree, pprev = Some RFree, ptype = 0\<rparr>"
    "\<And>i. 0 < i \<Longrightarrow> pg ?P (RPage i) = zero_page" by (simp_all add: pgrest_slab_init_def Let_def)
  with assms show ?thesis by (auto simp: pool_inv_def dead_def zero_page_def)
qed

lemma init_room:
  assumes "sstart (pgrest_slab_init ps ms a e) \<le> e" "e < WORD_MOD"
  shows "sstart (pgrest_slab_init ps ms a e) + npages (pgrest_slab_init ps ms a e) * 2 ^ ps \<le> e"
proof -
  let ?P = "pgrest_slab_init ps ms a e"
  have "npages ?P \<le> usub e (sstart ?P) div 2 ^ ps" by (auto simp: pgrest_slab_init_def Let_def)
  also have "usub e (sstart ?P) = e - sstart ?P" using assms by (simp add: usub_exact)
  finally have "npages ?P * 2 ^ ps \<le> e - sstart ?P" by (metis div_times_less_eq_dividend le_trans mult_le_mono1)
  with assms show ?thesis by simp
qed

lemma init_aligned: "sstart (pgrest_slab_init ps ms a e) mod 2 ^ ps = 0"
  by (simp add: pgrest_slab_init_def Let_def align_def)

section \<open>Blocks of whole pages\<close>

definition pages_for :: "slab_pool \<Rightarrow> nat \<Rightarrow> nat" where
  "pages_for P sz = sz div pagesize P + (if sz mod pagesize P \<noteq> 0 then 1 else 0)"

lemma pages_for_bounds: "sz \<le> pages_for P sz * pagesize P" "0 < sz \<Longrightarrow> 0 < pages_for P sz"
proof -
  define d q r where "d = pagesize P" and "q = sz div d" and "r = sz mod d"
  have "sz = q * d + r" "r < d" by (simp_all add: q_def r_def d_def div_mult_mod_eq pagesize_def)
  moreover have "pages_for P sz = q + (if r \<noteq> 0 then 1 else 0)" by (simp add: pages_for_def d_def q_def r_def)
  ultimately show "sz \<le> pages_for P sz * pagesize P" "0 < sz \<Longrightarrow> 0 < pages_for P sz" unfolding d_def [symmetric] by (auto simp: algebra_simps)
qed

lemma pages_for_least:
  assumes "sz \<le> m * pagesize P"
  shows "pages_for P sz \<le> m"
proof -
  define d q r where "d = pagesize P" and "q = sz div d" and "r = sz mod d"
  have e: "sz = q * d + r" "0 < d" by (simp_all add: q_def r_def d_def div_mult_mod_eq pagesize_def)
  have p: "pages_for P sz = q + (if r \<noteq> 0 then 1 else 0)" by (simp add: pages_for_def d_def q_def r_def)
  have le: "q * d + r \<le> m * d" using assms e(1) by (simp add: d_def)
  show ?thesis
  proof (cases "r = 0")
    case True
    with le e(2) p show ?thesis by simp
  next
    case False
    with le have "q * d < m * d" by linarith
    with p e(2) show ?thesis by simp
  qed
qed

lemma do_alloc_pages:
  "slab_max_size P < sz \<Longrightarrow> pgrest_slab_do_alloc sz P =
     map_sum id (\<lambda>(page, P1). (map_option (\<lambda>i. page_addr P1 i 0) page, P1)) (pgrest_slab_alloc_pages (pages_for P sz) P)"
  by (simp add: pgrest_slab_do_alloc_def pages_for_def)

lemma start_cleared: "n < 2 ^ 63 \<Longrightarrow> unat ((of_nat n OR PGREST_SLAB_PAGE_START) AND NOT PGREST_SLAB_PAGE_START) = n"
proof -
  assume n: "n < 2 ^ 63"
  then have u: "unat (of_nat n :: uintptr) = n" by (simp add: unat_of_nat take_bit_nat_eq_self)
  have s: "PGREST_SLAB_PAGE_START = 2 ^ 63" by (simp add: PGREST_SLAB_PAGE_START_def)
  have sb: "bit PGREST_SLAB_PAGE_START i \<longleftrightarrow> i = 63" for i unfolding s bit_exp_iff by auto
  have "\<not> bit (of_nat n :: uintptr) 63"
  proof -
    have "bit (of_nat n :: uintptr) 63 \<longleftrightarrow> bit (unat (of_nat n :: uintptr)) 63" by (simp add: bit_unsigned_iff)
    also have "\<dots> \<longleftrightarrow> bit n 63" unfolding u ..
    finally show ?thesis using n by (simp add: bit_iff_odd)
  qed
  then have "(of_nat n OR PGREST_SLAB_PAGE_START) AND NOT PGREST_SLAB_PAGE_START = (of_nat n :: uintptr)"
    by (intro bit_eqI) (auto simp: bit_or_iff bit_and_iff bit_not_iff sb)
  with u show ?thesis by simp
qed

lemma do_free_pages:
  assumes inv: "pool_inv P (as @ (s, n, KRun) # bs) xs" and al: "sstart P mod pagesize P = 0" and room: "sstart P + npages P * pagesize P \<le> send P"
    and N2: "npages P < 2 ^ 62"
  shows "pgrest_slab_do_free (page_addr P s 0) P = map_sum id (Pair True) (pgrest_slab_free_pages s n P)"
proof -
  from inv have t: "tiles 0 (as @ (s, n, KRun) # bs) (npages P)" and ok: "run_ok (npages P) (pg P) (s, n, KRun)" and N: "npages P < 2 ^ 63" by (simp_all add: pool_inv_def)
  from tiles_bounds [OF t, of s n KRun] have b: "s < npages P" "n < 2 ^ 63" using N by simp_all
  have pos: "0 < pagesize P" by (simp add: pagesize_def)
  have "s * pagesize P \<le> npages P * pagesize P" using b by simp
  then have "page_addr P s 0 \<le> send P" using room unfolding page_addr_def by linarith
  moreover have "(page_addr P s 0 - sstart P) div pagesize P = s" "page_addr P s 0 mod pagesize P = 0" using pos al by (auto simp: page_addr_def)
  moreover have w: "of_nat n OR PGREST_SLAB_PAGE_START \<noteq> PGREST_SLAB_PAGE_BUSY"
  proof
    assume "of_nat n OR PGREST_SLAB_PAGE_START = PGREST_SLAB_PAGE_BUSY"
    with start_cleared [OF b(2)] have "unat (PGREST_SLAB_PAGE_BUSY AND NOT PGREST_SLAB_PAGE_START) = n" by simp
    moreover have "unat (PGREST_SLAB_PAGE_BUSY AND NOT PGREST_SLAB_PAGE_START) = 2 ^ 63 - 1" by (simp add: PGREST_SLAB_PAGE_BUSY_def PGREST_SLAB_PAGE_START_def)
    ultimately show False using tiles_bounds [OF t, of s n KRun] N2 by simp
  qed
  ultimately show ?thesis
    using ok b start_nonzero [of n] start_cleared [OF b(2)]
    by (simp add: pgrest_slab_do_free_def free_run_def run_page_def page_addr_def PGREST_SLAB_PAGE_def PGREST_SLAB_SMALL_def PGREST_SLAB_EXACT_def
        PGREST_SLAB_BIG_def PGREST_SLAB_PAGE_FREE_def)
qed

section \<open>A client\<close>

text \<open>
  A client asks for blocks and gives back blocks that it holds, here by their position in the list of these.
\<close>

datatype request = Ask nat | Give nat

fun slab_client :: "request list \<Rightarrow> (nat \<times> nat) list \<Rightarrow> slab_pool \<Rightarrow> ((nat \<times> nat) list \<times> slab_pool) run" where
  "slab_client [] held P = Inr (held, P)"
| "slab_client (Ask sz # rs) held P =
     bind_ub (pgrest_slab_do_alloc sz P) (\<lambda>(a, P1). slab_client rs (case a of None \<Rightarrow> held | Some x \<Rightarrow> (x, sz) # held) P1)"
| "slab_client (Give j # rs) held P =
     (if j < length held then
        bind_ub (pgrest_slab_do_free (fst (held ! j)) P) (\<lambda>(ok, P1). slab_client rs (if ok then take j held @ drop (Suc j) held else held) P1)
      else slab_client rs held P)"

definition used :: "page_run list \<Rightarrow> (nat \<times> nat) list" where
  "used rs = map (\<lambda>(s, k, q). (s, k)) (filter (\<lambda>(s, k, q). q = KRun) rs)"

lemma used_simps [simp]: "used [] = []" "used ((s, k, q) # rs) = (if q = KRun then (s, k) # used rs else used rs)" "used (xs @ ys) = used xs @ used ys"
  by (simp_all add: used_def)

lemma used_mem: "(s, n) \<in> set (used rs) \<longleftrightarrow> (s, n, KRun) \<in> set rs"
  by (force simp: used_def)

lemma used_distinct: "tiles a rs b \<Longrightarrow> distinct (used rs)"
proof (induction a rs b rule: tiles.induct)
  case (2 a s k q rs b)
  then have "(s, k) \<notin> set (used rs)" using tiles_bounds [of "a + k" rs b s k KRun] by (auto simp: used_mem)
  with 2 show ?case by simp
qed simp

lemma used_remainder [simp]: "used (remainder s k n) = []"
  by (simp add: remainder_def)

definition whole :: "page_run list \<Rightarrow> bool" where
  "whole rs \<longleftrightarrow> list_all (\<lambda>(s, k, q). q = KFree \<or> q = KRun) rs"

lemma whole_simps [simp]: "whole []" "whole ((s, k, q) # rs) \<longleftrightarrow> (q = KFree \<or> q = KRun) \<and> whole rs" "whole (xs @ ys) \<longleftrightarrow> whole xs \<and> whole ys"
  by (simp_all add: whole_def)

lemma whole_no_back: "whole rs \<Longrightarrow> no_back rs"
  by (auto simp: whole_def no_back_def list_all_iff)

lemma whole_remainder [simp]: "whole (remainder s k n)"
  by (simp add: remainder_def)

lemma give_back_used: "used (give_back as s n bs) = used as @ used bs" "whole as \<Longrightarrow> whole bs \<Longrightarrow> whole (give_back as s n bs)"
proof -
  obtain m bs' where m: "(m, bs') = (case bs of (t, k, KFree) # cs \<Rightarrow> (n + k, cs) | _ \<Rightarrow> (n, bs))" by (metis prod.exhaust)
  then have b: "used bs' = used bs" "whole bs \<Longrightarrow> whole bs'" by (auto split: list.splits prod.splits kind.splits)
  have g: "give_back as s n bs = (if as \<noteq> [] \<and> snd (snd (last as)) = KFree then butlast as @ (fst (last as), fst (snd (last as)) + m, KFree) # bs'
      else as @ (s, m, KFree) # bs')" by (simp add: give_back_def m [symmetric])
  show "used (give_back as s n bs) = used as @ used bs" unfolding g using b by (cases as rule: rev_cases) auto
  show "whole as \<Longrightarrow> whole bs \<Longrightarrow> whole (give_back as s n bs)" unfolding g using b by (cases as rule: rev_cases) auto
qed

definition geometry :: "slab_pool \<Rightarrow> bool" where
  "geometry P \<longleftrightarrow> sstart P mod pagesize P = 0 \<and> sstart P + npages P * pagesize P \<le> send P \<and> npages P < 2 ^ 62"

definition client_inv :: "slab_pool \<Rightarrow> (nat \<times> nat) list \<Rightarrow> page_run list \<Rightarrow> nat list \<Rightarrow> bool" where
  "client_inv P held rs xs \<longleftrightarrow> pool_inv P rs xs \<and> whole rs \<and> geometry P \<and>
     mset (map (\<lambda>(a, sz). (a, pages_for P sz)) held) = mset (map (\<lambda>(s, k). (page_addr P s 0, k)) (used rs))"

lemma pg_update [simp]:
  "pages_for (P\<lparr>pg := g\<rparr>) = pages_for P" "page_addr (P\<lparr>pg := g\<rparr>) = page_addr P" "geometry (P\<lparr>pg := g\<rparr>) = geometry P"
  "slab_max_size (P\<lparr>pg := g\<rparr>) = slab_max_size P"
  by (simp_all add: fun_eq_iff pages_for_def page_addr_def geometry_def pagesize_def slab_max_size_def)

lemma client_ask:
  assumes c: "client_inv P held rs xs" and sz: "slab_max_size P < sz"
  shows "\<exists>r g rs' xs'. pgrest_slab_do_alloc sz P = Inr (r, P\<lparr>pg := g\<rparr>) \<and>
    client_inv (P\<lparr>pg := g\<rparr>) (case r of None \<Rightarrow> held | Some x \<Rightarrow> (x, sz) # held) rs' xs'"
proof -
  from c have inv: "pool_inv P rs xs" and w: "whole rs" by (simp_all add: client_inv_def)
  have n: "0 < pages_for P sz" using pages_for_bounds(2) [of sz P] sz by simp
  from alloc_pages_ok [OF inv n] consider "pgrest_slab_alloc_pages (pages_for P sz) P = Inr (None, P)"
    | as s k bs g xs' where "rs = as @ (s, k, KFree) # bs" "pgrest_slab_alloc_pages (pages_for P sz) P = Inr (Some s, P\<lparr>pg := g\<rparr>)"
      "pool_inv (P\<lparr>pg := g\<rparr>) (as @ (s, pages_for P sz, KRun) # remainder s k (pages_for P sz) @ bs) xs'" by blast
  then show ?thesis
  proof cases
    case 1
    moreover have "P\<lparr>pg := pg P\<rparr> = P" by simp
    ultimately have "pgrest_slab_do_alloc sz P = Inr (None, P\<lparr>pg := pg P\<rparr>)" using sz by (simp add: do_alloc_pages)
    moreover have "client_inv (P\<lparr>pg := pg P\<rparr>) held rs xs" using c by simp
    ultimately show ?thesis by (metis option.simps(4))
  next
    case 2
    then have "pgrest_slab_do_alloc sz P = Inr (Some (page_addr P s 0), P\<lparr>pg := g\<rparr>)" using sz by (simp add: do_alloc_pages)
    moreover have "client_inv (P\<lparr>pg := g\<rparr>) ((page_addr P s 0, sz) # held) (as @ (s, pages_for P sz, KRun) # remainder s k (pages_for P sz) @ bs) xs'"
      using 2(3) c w by (auto simp: client_inv_def 2(1))
    ultimately show ?thesis by (metis option.simps(5))
  qed
qed

lemma mset_drop_nth: "j < length xs \<Longrightarrow> add_mset (xs ! j) (mset (take j xs @ drop (Suc j) xs)) = mset xs"
  by (metis append_take_drop_id Cons_nth_drop_Suc mset.simps(2) mset_append union_mset_add_mset_right)

lemma client_give:
  assumes c: "client_inv P held rs xs" and j: "j < length held"
  shows "\<exists>g rs' xs'. pgrest_slab_do_free (fst (held ! j)) P = Inr (True, P\<lparr>pg := g\<rparr>) \<and>
    client_inv (P\<lparr>pg := g\<rparr>) (take j held @ drop (Suc j) held) rs' xs'"
proof -
  let ?f = "\<lambda>(a, sz). (a, pages_for P sz)" and ?g = "\<lambda>(s, k). (page_addr P s 0, k)"
  from c have inv: "pool_inv P rs xs" and w: "whole rs" and geo: "geometry P" and m: "mset (map ?f held) = mset (map ?g (used rs))" by (simp_all add: client_inv_def)
  have "?f (held ! j) \<in># mset (map ?f held)" using j by simp
  then have "?f (held ! j) \<in> ?g ` set (used rs)" unfolding m by simp
  then obtain s n where sn: "(s, n, KRun) \<in> set rs" "?f (held ! j) = (page_addr P s 0, n)" by (auto simp: used_mem)
  then obtain as bs where rs: "rs = as @ (s, n, KRun) # bs" by (meson split_list)
  have a: "fst (held ! j) = page_addr P s 0" using sn(2) by (simp split: prod.splits)
  have nb: "no_back as" "no_back bs" using w by (auto simp: rs intro: whole_no_back)
  from free_pages_ok [OF inv [unfolded rs] nb] obtain g xs' where f: "pgrest_slab_free_pages s n P = Inr (P\<lparr>pg := g\<rparr>)"
    "pool_inv (P\<lparr>pg := g\<rparr>) (give_back as s n bs) xs'" by blast
  have "pgrest_slab_do_free (fst (held ! j)) P = Inr (True, P\<lparr>pg := g\<rparr>)"
    using do_free_pages [OF inv [unfolded rs]] geo f(1) by (simp add: a geometry_def)
  moreover have "add_mset (?f (held ! j)) (mset (map ?f (take j held @ drop (Suc j) held))) = mset (map ?f held)"
    using arg_cong [OF mset_drop_nth [OF j], of "image_mset ?f"] by (simp only: mset_map image_mset_add_mset)
  then have "mset (map ?f (take j held @ drop (Suc j) held)) = mset (map ?g (used (give_back as s n bs)))"
    unfolding m by (simp add: sn(2) rs give_back_used(1))
  then have "client_inv (P\<lparr>pg := g\<rparr>) (take j held @ drop (Suc j) held) (give_back as s n bs) xs'"
    using f(2) geo w by (simp add: client_inv_def rs give_back_used(2))
  ultimately show ?thesis by blast
qed

lemma client_keeps:
  assumes "client_inv P held rs xs" "\<And>sz. Ask sz \<in> set reqs \<Longrightarrow> slab_max_size P < sz"
  shows "\<exists>held' g rs' xs'. slab_client reqs held P = Inr (held', P\<lparr>pg := g\<rparr>) \<and> client_inv (P\<lparr>pg := g\<rparr>) held' rs' xs'"
  using assms
proof (induction reqs arbitrary: P held rs xs)
  case Nil
  have "P\<lparr>pg := pg P\<rparr> = P" by simp
  with Nil show ?case by (metis slab_client.simps(1))
next
  case (Cons r reqs)
  have next': "\<exists>held' g' rs' xs'. slab_client reqs hs (P\<lparr>pg := g\<rparr>) = Inr (held', P\<lparr>pg := g'\<rparr>) \<and> client_inv (P\<lparr>pg := g'\<rparr>) held' rs' xs'"
    if "client_inv (P\<lparr>pg := g\<rparr>) hs rs1 xs1" for g hs rs1 xs1
    using Cons.IH [OF that] Cons.prems(2) by auto
  show ?case
  proof (cases r)
    case (Ask sz)
    with Cons.prems(2) have "slab_max_size P < sz" by simp
    from client_ask [OF Cons.prems(1) this] obtain a g rs1 xs1 where "pgrest_slab_do_alloc sz P = Inr (a, P\<lparr>pg := g\<rparr>)"
      "client_inv (P\<lparr>pg := g\<rparr>) (case a of None \<Rightarrow> held | Some x \<Rightarrow> (x, sz) # held) rs1 xs1" by blast
    with next' [OF this(2)] Ask show ?thesis by simp
  next
    case (Give j)
    show ?thesis
    proof (cases "j < length held")
      case True
      from client_give [OF Cons.prems(1) this] obtain g rs1 xs1 where "pgrest_slab_do_free (fst (held ! j)) P = Inr (True, P\<lparr>pg := g\<rparr>)"
        "client_inv (P\<lparr>pg := g\<rparr>) (take j held @ drop (Suc j) held) rs1 xs1" by blast
      with next' [OF this(2)] Give True show ?thesis by simp
    next
      case False
      with Cons.IH [OF Cons.prems(1)] Cons.prems(2) Give show ?thesis by simp
    qed
  qed
qed

lemma held_run:
  assumes "client_inv P held rs xs" "(a, sz) \<in> set held"
  shows "\<exists>s. (s, pages_for P sz, KRun) \<in> set rs \<and> a = page_addr P s 0"
proof -
  have "(a, pages_for P sz) \<in># mset (map (\<lambda>(a, sz). (a, pages_for P sz)) held)" unfolding set_mset_mset set_map by (rule image_eqI [OF _ assms(2)]) simp
  then have "(a, pages_for P sz) \<in># mset (map (\<lambda>(s, k). (page_addr P s 0, k)) (used rs))" using assms(1) by (simp only: client_inv_def)
  then show ?thesis by (auto simp: used_mem)
qed

lemma held_inside:
  assumes "client_inv P held rs xs" "(a, sz) \<in> set held"
  shows "sstart P \<le> a \<and> a + sz \<le> send P"
proof -
  from held_run [OF assms] obtain s where s: "(s, pages_for P sz, KRun) \<in> set rs" "a = page_addr P s 0" by blast
  from assms(1) have "tiles 0 rs (npages P)" and room: "sstart P + npages P * pagesize P \<le> send P" by (simp_all add: client_inv_def pool_inv_def geometry_def)
  from tiles_bounds [OF this(1) s(1)] have "(s + pages_for P sz) * pagesize P \<le> npages P * pagesize P" by simp
  then have "s * pagesize P + pages_for P sz * pagesize P \<le> npages P * pagesize P" by (simp add: distrib_right)
  with room pages_for_bounds(1) [of sz P] show ?thesis unfolding s(2) page_addr_def by linarith
qed

lemma runs_disjoint:
  assumes "tiles 0 rs N" "(s, k, q) \<in> set rs" "(t, m, q') \<in> set rs" "(s, k, q) \<noteq> (t, m, q')"
  shows "s + k \<le> t \<or> t + m \<le> s"
proof (rule ccontr)
  assume n: "\<not> (s + k \<le> t \<or> t + m \<le> s)"
  then have "max s t \<in> {s..<s + k}" "max s t \<in> {t..<t + m}" using tiles_bounds [OF assms(1,2)] tiles_bounds [OF assms(1,3)] by auto
  from tiles_unique [OF assms(1-3) this] assms(4) show False by simp
qed

lemma held_disjoint:
  assumes c: "client_inv P held rs xs" and i: "i < length held" "j < i" "held ! i = (a, x)" "held ! j = (b, y)"
  shows "a + x \<le> b \<or> b + y \<le> a"
proof -
  let ?f = "\<lambda>(a, sz). (a, pages_for P sz)" and ?g = "\<lambda>(s, k). (page_addr P s 0, k)"
  from c have t: "tiles 0 rs (npages P)" and m: "mset (map ?f held) = mset (map ?g (used rs))" by (simp_all add: client_inv_def pool_inv_def)
  have "inj ?g" by (auto simp: inj_def page_addr_def pagesize_def)
  then have "distinct (map ?g (used rs))" using used_distinct [OF t] unfolding distinct_map by (blast intro: inj_on_subset)
  with m have "distinct (map ?f held)" using mset_eq_imp_distinct_iff by blast
  with i have ne: "(a, pages_for P x) \<noteq> (b, pages_for P y)" using nth_eq_iff_index_eq [of "map ?f held" i j] by auto
  have "(a, x) \<in> set held" "(b, y) \<in> set held" using i by (metis nth_mem less_trans)+
  with held_run [OF c] obtain s s' where s: "(s, pages_for P x, KRun) \<in> set rs" "a = page_addr P s 0"
    "(s', pages_for P y, KRun) \<in> set rs" "b = page_addr P s' 0" by metis
  with ne have "s + pages_for P x \<le> s' \<or> s' + pages_for P y \<le> s" by (intro runs_disjoint [OF t s(1,3)]) auto
  then have "(s + pages_for P x) * pagesize P \<le> s' * pagesize P \<or> (s' + pages_for P y) * pagesize P \<le> s * pagesize P" by auto
  then show ?thesis
    using pages_for_bounds(1) [of x P] pages_for_bounds(1) [of y P] unfolding s(2,4) page_addr_def distrib_right by linarith
qed

text \<open>When nothing is held, the whole pool is one free run again.\<close>

lemma all_free:
  assumes "tiles a rs b" "whole rs" "used rs = []" "successively not_both_free rs" "a < b"
  shows "rs = [(a, b - a, KFree)]"
proof -
  from assms(1,5) obtain k q rs' where rs: "rs = (a, k, q) # rs'" by (cases rs) auto
  with assms have k: "q = KFree" "tiles (a + k) rs' b" by (auto split: if_splits)
  have "rs' = []"
  proof (cases rs')
    case (Cons r rs'')
    moreover obtain s m q' where "r = (s, m, q')" by (cases r)
    ultimately show ?thesis using assms(2-4) k(1) by (auto simp: rs not_both_free_def split: if_splits)
  qed simp
  with k show ?thesis by (simp add: rs)
qed

lemma nothing_held:
  assumes c: "client_inv P [] rs xs" and sz: "slab_max_size P < sz" "sz \<le> npages P * pagesize P"
  shows "\<exists>Q. pgrest_slab_do_alloc sz P = Inr (Some (sstart P), Q)"
proof -
  from c have inv: "pool_inv P rs xs" and w: "whole rs" "used rs = []" by (simp_all add: client_inv_def)
  have n: "0 < pages_for P sz" "pages_for P sz \<le> npages P" using pages_for_bounds(2) [of sz P] pages_for_least [OF sz(2)] sz(1) by simp_all
  from inv w n have rs: "rs = [(0, npages P, KFree)]" using all_free [of 0 rs "npages P"] by (simp add: pool_inv_def)
  from alloc_pages_ok [OF inv n(1)] n(2) obtain as s k bs g where a: "rs = as @ (s, k, KFree) # bs"
    "pgrest_slab_alloc_pages (pages_for P sz) P = Inr (Some s, P\<lparr>pg := g\<rparr>)" unfolding rs by (metis list.set_intros(1) not_le)
  moreover from a(1) have "s = 0" unfolding rs by (cases as) auto
  ultimately show ?thesis using sz(1) by (simp add: do_alloc_pages page_addr_def)
qed

text \<open>
  C10. A pool that was set up over a segment serves every sequence of requests for more than half a page and of
  releases without touching memory outside its structures; the blocks it has handed out lie in the segment and never
  overlap; and when all of them are back, the free pages are one run again, whatever the order of the requests: any block that
  fits into the pool can be had.
\<close>

theorem slab_serves_pages:
  assumes "3 \<le> ps" "P = pgrest_slab_init ps ms addr e" "0 < npages P" "sstart P \<le> e" "e < WORD_MOD"
    and "\<forall>sz. Ask sz \<in> set reqs \<longrightarrow> slab_max_size P < sz"
  shows "\<exists>held Q. slab_client reqs [] P = Inr (held, Q) \<and> (\<forall>(a, sz) \<in> set held. sstart P \<le> a \<and> a + sz \<le> e) \<and>
    (\<forall>i < length held. \<forall>j < i. let (a, x) = held ! i; (b, y) = held ! j in a + x \<le> b \<or> b + y \<le> a) \<and>
    (held = [] \<longrightarrow> (\<forall>sz. slab_max_size P < sz \<longrightarrow> sz \<le> npages P * pagesize P \<longrightarrow> (\<exists>Q'. pgrest_slab_do_alloc sz Q = Inr (Some (sstart P), Q'))))"
proof -
  have room: "sstart P + npages P * pagesize P \<le> e" using init_room [of ps ms addr e] assms by (simp add: pagesize_def)
  have "2 ^ 3 \<le> pagesize P" using power_increasing [OF assms(1), of "2 :: nat"] by (simp add: assms(2) pagesize_def)
  then have "npages P * 2 ^ 3 \<le> npages P * pagesize P" by (rule mult_le_mono2)
  with room assms(5) have "npages P * 2 ^ 3 < WORD_MOD" by linarith
  then have N: "npages P < 2 ^ 62" by (simp add: WORD_MOD_def)
  have "geometry P" using room N init_aligned [of ps ms addr e] by (simp add: geometry_def assms(2) pagesize_def)
  moreover have "pool_inv P [(0, npages P, KFree)] [0]" using init_inv [of ps ms addr e] assms(2,3) N by simp
  ultimately have "client_inv P [] [(0, npages P, KFree)] [0]" by (simp add: client_inv_def)
  from client_keeps [OF this, of reqs] assms(6) obtain held g rs xs where r: "slab_client reqs [] P = Inr (held, P\<lparr>pg := g\<rparr>)"
    and c: "client_inv (P\<lparr>pg := g\<rparr>) held rs xs" by blast
  from assms(2) have e: "send P = e" by simp
  have "\<forall>(a, sz) \<in> set held. sstart P \<le> a \<and> a + sz \<le> e" using held_inside [OF c] e by auto
  moreover have "\<forall>i < length held. \<forall>j < i. let (a, x) = held ! i; (b, y) = held ! j in a + x \<le> b \<or> b + y \<le> a"
    using held_disjoint [OF c] by (simp split: prod.split)
  moreover have "\<exists>Q'. pgrest_slab_do_alloc sz (P\<lparr>pg := g\<rparr>) = Inr (Some (sstart P), Q')"
    if "held = []" "slab_max_size P < sz" "sz \<le> npages P * pagesize P" for sz
    using nothing_held [of "P\<lparr>pg := g\<rparr>" rs xs sz] c that by (simp add: pagesize_def)
  ultimately show ?thesis using r by blast
qed

theorem slab_serves_pages_witness:
  "\<exists>held Q. slab_client [Ask 5000, Ask 4096, Give 1] [] (pgrest_slab_init 12 3 65536 131072) = Inr (held, Q) \<and> (\<forall>(a, sz) \<in> set held. 65536 < a \<and> a + sz \<le> 131072)"
proof -
  let ?P = "pgrest_slab_init 12 3 65536 131072"
  have n: "npages ?P = 15" "sstart ?P = 69632" by (simp_all add: pgrest_slab_init_def Let_def usub_def WORD_MOD_def align_def)
  have m: "slab_max_size ?P = 2048" by (simp add: slab_max_size_def pagesize_def)
  from slab_serves_pages [of 12 ?P 3 65536 131072 "[Ask 5000, Ask 4096, Give 1]"] show ?thesis
    by (fastforce simp: n m WORD_MOD_def)
qed

end
