(* ===== verification/Shm.thy ===== *)
theory Shm
  imports SlabClient
begin

text \<open>
  The shared memory segments, \<^verbatim>\<open>src/pg_rest_shm.c\<close>: components add named segments, the module asks PostgreSQL for
  room and locks, and the start-up hook places the segments, sets up a slab pool in those that want one, and calls their
  initialisers. \<^verbatim>\<open>ShmemInitStruct\<close> and the initialisers are parameters; an initialiser is its number.
\<close>

section \<open>Segments\<close>

record shm_seg =
  seg_addr :: "nat option"
  seg_name :: string
  seg_size :: nat
  seg_init :: "nat option"
  seg_lock :: bool
  seg_pool :: bool

text \<open>Adding a segment gives its position, None for NULL. A name that is there already keeps its segment.\<close>

fun pgrest_shm_seg_add :: "string \<Rightarrow> nat \<Rightarrow> bool \<Rightarrow> bool \<Rightarrow> shm_seg list \<Rightarrow> nat option \<times> shm_seg list" where
  "pgrest_shm_seg_add name sz lock pool [] =
     (Some 0, [\<lparr>seg_addr = None, seg_name = name, seg_size = sz, seg_init = None, seg_lock = lock, seg_pool = pool\<rparr>])"
| "pgrest_shm_seg_add name sz lock pool (s # segs) =
     (if name \<noteq> seg_name s then
        (case pgrest_shm_seg_add name sz lock pool segs of (r, segs') \<Rightarrow> (map_option Suc r, s # segs'))
      else
        let s1 = (if seg_size s = 0 then s\<lparr>seg_size := sz\<rparr> else s) in
        (if sz \<noteq> 0 \<and> sz \<noteq> seg_size s1 then None else Some 0, s1 # segs))"

definition pgrest_shm_mem_size :: "shm_seg list \<Rightarrow> nat" where
  "pgrest_shm_mem_size segs = foldl (\<lambda>n s. uadd n (seg_size s)) 0 segs"

definition pgrest_shm_lock_count :: "shm_seg list \<Rightarrow> nat" where
  "pgrest_shm_lock_count segs = foldl (\<lambda>n s. if seg_lock s then n + 1 else n) 0 segs"

text \<open>\<^verbatim>\<open>pgrest_shm_get_lock\<close> indexes the locks of the tranche, of which there are \<open>locks\<close>.\<close>

definition pgrest_shm_get_lock :: "nat \<Rightarrow> nat \<Rightarrow> (nat \<times> nat) run" where
  "pgrest_shm_get_lock locks i = (if i < locks then Inr (i, i + 1) else Inl OutOfBounds)"

section \<open>Start-up\<close>

text \<open>
  \<^verbatim>\<open>pgrest_shm_startup\<close>: the segments with their addresses, and the pools with their locks; None is the error
  of an initialiser, which leaves the function. \<open>place\<close> answers \<^verbatim>\<open>ShmemInitStruct\<close>.
\<close>

record shm_env =
  shm_place :: "string \<Rightarrow> nat \<Rightarrow> nat"
  shm_call :: "nat \<Rightarrow> shm_seg \<Rightarrow> bool"
  shm_locks :: nat
  shm_page_shift :: nat

fun shm_startup_loop :: "shm_env \<Rightarrow> nat \<Rightarrow> shm_seg list \<Rightarrow> (shm_seg list \<times> (slab_pool \<times> nat option) list) option run" where
  "shm_startup_loop env i [] = Inr (Some ([], []))"
| "shm_startup_loop env i (s # segs) =
     (let a = shm_place env (seg_name s) (seg_size s); s1 = s\<lparr>seg_addr := Some a\<rparr> in
      bind_ub
        (if seg_pool s then
           bind_ub (if seg_lock s then map_sum id (\<lambda>(l, j). (Some l, j)) (pgrest_shm_get_lock (shm_locks env) i) else Inr (None, i)) (\<lambda>(l, j).
             Inr ([(pgrest_slab_init (shm_page_shift env) 3 a (a + seg_size s), l)], j))
         else Inr ([], i)) (\<lambda>(pools, j).
        case seg_init s of
          Some f \<Rightarrow>
            if shm_call env f s1 then map_sum id (map_option (\<lambda>(ss, ps). (s1 # ss, pools @ ps))) (shm_startup_loop env j segs)
            else Inr None
        | None \<Rightarrow> map_sum id (map_option (\<lambda>(ss, ps). (s1 # ss, pools @ ps))) (shm_startup_loop env j segs)))"

definition pgrest_shm_startup :: "shm_env \<Rightarrow> shm_seg list \<Rightarrow> (shm_seg list \<times> (slab_pool \<times> nat option) list) option run" where
  "pgrest_shm_startup env segs = shm_startup_loop env 0 segs"

text \<open>
  The order of \<^verbatim>\<open>_PG_init\<close>: \<^verbatim>\<open>pgrest_acceptor_shm_init\<close>, then the requests of \<^verbatim>\<open>pgrest_shm_init\<close>, then
  \<^verbatim>\<open>pgrest_worker_stat_init\<close>. The sizes of the two structures are parameters; 128 is \<^verbatim>\<open>PG_CACHE_LINE_SIZE\<close>. The result has the bytes and
  locks asked for and the segments at start-up.
\<close>

definition add_segment :: "string \<Rightarrow> nat \<Rightarrow> nat \<Rightarrow> shm_seg list \<Rightarrow> shm_seg list option" where
  "add_segment name sz f segs =
     (case pgrest_shm_seg_add name sz False False segs of
        (None, _) \<Rightarrow> None
      | (Some i, segs') \<Rightarrow> Some (segs'[i := (segs' ! i)\<lparr>seg_init := Some f\<rparr>]))"

definition pgrest_acceptor_shm_init :: "nat \<Rightarrow> shm_seg list \<Rightarrow> shm_seg list option" where
  "pgrest_acceptor_shm_init acceptor_size segs = add_segment ''pg_rest acceptor data'' (uadd acceptor_size 128) 0 segs"

definition pgrest_worker_stat_init :: "nat \<Rightarrow> nat \<Rightarrow> shm_seg list \<Rightarrow> shm_seg list option" where
  "pgrest_worker_stat_init stat_size n segs = add_segment ''pg_rest worker stat'' (uadd (umul stat_size n) 128) 1 segs"

definition pgrest_shm_init :: "shm_seg list \<Rightarrow> nat \<times> nat" where
  "pgrest_shm_init segs = (pgrest_shm_mem_size segs, pgrest_shm_lock_count segs)"

definition module_segments :: "nat \<Rightarrow> nat \<Rightarrow> nat \<Rightarrow> ((nat \<times> nat) \<times> shm_seg list) option" where
  "module_segments acceptor_size stat_size n =
     (case pgrest_acceptor_shm_init acceptor_size [] of
        None \<Rightarrow> None
      | Some segs \<Rightarrow> map_option (Pair (pgrest_shm_init segs)) (pgrest_worker_stat_init stat_size n segs))"

section \<open>Properties\<close>

text \<open>Names are unique, and adding the same segment again gives the same segment.\<close>

lemma seg_add_names:
  "pgrest_shm_seg_add n sz l p segs = (r, segs') \<Longrightarrow> map seg_name segs' = (if n \<in> seg_name ` set segs then map seg_name segs else map seg_name segs @ [n])"
  by (induction segs arbitrary: r segs') (auto simp: Let_def split: prod.splits if_splits)

lemma seg_add_distinct: "distinct (map seg_name segs) \<Longrightarrow> pgrest_shm_seg_add n sz l p segs = (r, segs') \<Longrightarrow> distinct (map seg_name segs')"
  using seg_add_names [of n sz l p segs r segs'] by (auto simp: image_iff)

lemma seg_add_found:
  "pgrest_shm_seg_add n sz l p segs = (Some i, segs') \<Longrightarrow> i < length segs' \<and> seg_name (segs' ! i) = n \<and> (sz \<noteq> 0 \<longrightarrow> seg_size (segs' ! i) = sz)"
  by (induction segs arbitrary: i segs') (auto simp: Let_def split: prod.splits if_splits)

lemma seg_add_again:
  "pgrest_shm_seg_add n sz l p segs = (Some i, segs') \<Longrightarrow> pgrest_shm_seg_add n sz l' p' segs' = (Some i, segs')"
proof (induction segs arbitrary: i segs')
  case (Cons s segs)
  show ?case
  proof (cases "n = seg_name s")
    case True
    with Cons.prems show ?thesis by (auto simp: Let_def split: if_splits)
  next
    case False
    obtain r segs1 where r: "pgrest_shm_seg_add n sz l p segs = (r, segs1)" by fastforce
    with Cons.prems False obtain j where "r = Some j" "i = Suc j" "segs' = s # segs1" by auto
    with Cons.IH [of j segs1] r False show ?thesis by simp
  qed
qed (auto simp: Let_def)

lemma lock_count_alt: "pgrest_shm_lock_count segs = length (filter seg_lock segs)"
proof -
  have "foldl (\<lambda>n s. if seg_lock s then n + 1 else n) k segs = k + length (filter seg_lock segs)" for k
    by (induction segs arbitrary: k) auto
  then show ?thesis by (simp add: pgrest_shm_lock_count_def)
qed

text \<open>
  The start-up uses no more locks than the module asked for when it asked for all its segments, and gives every pool a lock of its own.
\<close>

definition lock_range :: "nat \<Rightarrow> nat \<Rightarrow> (slab_pool \<times> nat option) list \<Rightarrow> bool" where
  "lock_range i n ps \<longleftrightarrow> sorted_wrt (<) (List.map_filter snd ps) \<and> (\<forall>l \<in> set (List.map_filter snd ps). i \<le> l \<and> l < n)"

lemma lock_range_simps [simp]: "lock_range i n []" "lock_range i n ((p, None) # ps) = lock_range i n ps"
  "lock_range (Suc i) n ps \<Longrightarrow> i < n \<Longrightarrow> lock_range i n ((p, Some i) # ps)"
  by (auto simp: lock_range_def List.map_filter_simps)

lemma lock_range_less: "lock_range (Suc i) n ps \<Longrightarrow> lock_range i n ps"
  by (auto simp: lock_range_def)

lemma startup_locks:
  "i + length (filter seg_lock segs) \<le> shm_locks env \<Longrightarrow>
    \<exists>r. shm_startup_loop env i segs = Inr r \<and> (\<forall>ss ps. r = Some (ss, ps) \<longrightarrow> lock_range i (shm_locks env) ps \<and> length ss = length segs)"
proof (induction segs arbitrary: i)
  case (Cons s segs)
  define s1 where "s1 = s\<lparr>seg_addr := Some (shm_place env (seg_name s) (seg_size s))\<rparr>"
  define pool where "pool = pgrest_slab_init (shm_page_shift env) 3 (shm_place env (seg_name s) (seg_size s)) (shm_place env (seg_name s) (seg_size s) + seg_size s)"
  define q where "q = (if seg_pool s then [(pool, if seg_lock s then Some i else None)] else [])"
  define j where "j = (if seg_pool s \<and> seg_lock s then Suc i else i)"
  have "j + length (filter seg_lock segs) \<le> shm_locks env" using Cons.prems by (auto simp: j_def split: if_splits)
  from Cons.IH [OF this] obtain r where r: "shm_startup_loop env j segs = Inr r"
    "\<forall>ss ps. r = Some (ss, ps) \<longrightarrow> lock_range j (shm_locks env) ps \<and> length ss = length segs" by blast
  have l: "i < shm_locks env" if "seg_lock s" using Cons.prems that by simp
  have e: "shm_startup_loop env i (s # segs) =
      (if \<forall>f. seg_init s = Some f \<longrightarrow> shm_call env f s1 then map_sum id (map_option (\<lambda>(ss, ps). (s1 # ss, q @ ps))) (shm_startup_loop env j segs) else Inr None)"
    using l by (auto simp: Let_def s1_def pool_def q_def j_def pgrest_shm_get_lock_def split: option.split)
  have "lock_range i (shm_locks env) (q @ ps)" if "lock_range j (shm_locks env) ps" for ps
    using that l by (auto simp: q_def j_def intro: lock_range_less split: if_splits)
  with r(2) show ?case unfolding e r(1) by (cases r) auto
qed simp

text \<open>What the module asks for is enough for the segments it has at that time, and every pool gets a lock of its own.\<close>

lemma startup_after_request:
  assumes "shm_locks env = snd (pgrest_shm_init segs)"
  shows "\<exists>r. pgrest_shm_startup env segs = Inr r \<and> (\<forall>ss ps. r = Some (ss, ps) \<longrightarrow> lock_range 0 (shm_locks env) ps \<and> length ss = length segs)"
  using startup_locks [of 0 segs env] assms by (simp add: pgrest_shm_startup_def pgrest_shm_init_def lock_count_alt)

text \<open>
  C40. The memory that the module asks for does not hold its segments: the statistics of the workers are added after the request, so the
  segments that the start-up places are larger than what was asked for, by the size of the statistics.
\<close>

theorem shm_request_too_small:
  assumes "a + 128 < WORD_MOD" "w * n + 128 < WORD_MOD" "a + w * n + 256 < WORD_MOD"
  shows "\<exists>segs. module_segments a w n = Some ((a + 128, 0), segs) \<and> pgrest_shm_mem_size segs = a + 128 + (w * n + 128)"
proof -
  have "w * n < WORD_MOD" using assms(2) by simp
  with assms show ?thesis
    by (simp add: module_segments_def pgrest_acceptor_shm_init_def pgrest_worker_stat_init_def add_segment_def pgrest_shm_init_def pgrest_shm_mem_size_def
        pgrest_shm_lock_count_def Let_def uadd_exact umul_exact)
qed

theorem shm_request_too_small_witness:
  "\<exists>segs. module_segments 8 64 4 = Some ((136, 0), segs) \<and> pgrest_shm_mem_size segs = 520"
  using shm_request_too_small [of 8 64 4] by (simp add: WORD_MOD_def)

text \<open>
  A pool in a segment of little more than a page may get a page behind the end of the segment: when the
  first page boundary lies behind the end, the difference of the two pointers wraps.
\<close>

lemma small_segment_overruns: "npages (pgrest_slab_init 12 3 69336 73552) = 1" "sstart (pgrest_slab_init 12 3 69336 73552) = 73728"
  by (simp_all add: pgrest_slab_init_def Let_def usub_def WORD_MOD_def align_def)

end
