(* ===== verification/JsonUtf.thy ===== *)
theory JsonUtf
  imports Prelude
begin

text \<open>
  UTF-8 in the JSON library, \<^verbatim>\<open>jansson/src/utf.c\<close>. A code point is a number; the shifts and masks of the code are
  written as quotients and remainders.
\<close>

section \<open>Operations\<close>

definition utf8_encode :: "int \<Rightarrow> byte list option" where
  "utf8_encode codepoint =
     (let c = nat codepoint in
      if codepoint < 0 then None
      else if codepoint < 0x80 then Some [char_of c]
      else if codepoint < 0x800 then Some [char_of (0xC0 + c div 64 mod 32), char_of (0x80 + c mod 64)]
      else if codepoint < 0x10000 then Some [char_of (0xE0 + c div 4096 mod 16), char_of (0x80 + c div 64 mod 64), char_of (0x80 + c mod 64)]
      else if codepoint \<le> 0x10FFFF then
        Some [char_of (0xF0 + c div 262144 mod 8), char_of (0x80 + c div 4096 mod 64), char_of (0x80 + c div 64 mod 64), char_of (0x80 + c mod 64)]
      else None)"

definition utf8_check_first :: "byte \<Rightarrow> nat" where
  "utf8_check_first b =
     (let u = code b in
      if u < 0x80 then 1
      else if u \<le> 0xBF then 0
      else if u = 0xC0 \<or> u = 0xC1 then 0
      else if u \<le> 0xDF then 2
      else if u \<le> 0xEF then 3
      else if u \<le> 0xF4 then 4
      else 0)"

fun continuation :: "nat \<Rightarrow> byte list \<Rightarrow> nat option" where
  "continuation value [] = Some value"
| "continuation value (b # bs) = (if code b < 0x80 \<or> code b > 0xBF then None else continuation (value * 64 + code b mod 64) bs)"

text \<open>The result has the code point; the buffer has at least \<open>n\<close> bytes.\<close>

definition utf8_check_full :: "byte list \<Rightarrow> nat \<Rightarrow> nat option" where
  "utf8_check_full buffer n =
     (let u = code (hd buffer) in
      case (if n = 2 then Some (u mod 32) else if n = 3 then Some (u mod 16) else if n = 4 then Some (u mod 8) else None) of
        None \<Rightarrow> None
      | Some v \<Rightarrow>
          (case continuation v (take (n - 1) (tl buffer)) of
             None \<Rightarrow> None
           | Some value \<Rightarrow>
               if value > 0x10FFFF then None
               else if 0xD800 \<le> value \<and> value \<le> 0xDFFF then None
               else if n = 2 \<and> value < 0x80 \<or> n = 3 \<and> value < 0x800 \<or> n = 4 \<and> value < 0x10000 then None
               else Some value))"

text \<open>\<^verbatim>\<open>utf8_iterate\<close>: how far the pointer moves and the code point, which an empty buffer leaves alone.\<close>

definition utf8_iterate :: "byte list \<Rightarrow> (nat \<times> nat option) option" where
  "utf8_iterate buffer =
     (if buffer = [] then Some (0, None)
      else
        let count = utf8_check_first (hd buffer) in
        if count = 0 then None
        else if count = 1 then Some (1, Some (code (hd buffer)))
        else if count > length buffer then None
        else map_option (\<lambda>v. (count, Some v)) (utf8_check_full buffer count))"

function utf8_check_string :: "byte list \<Rightarrow> bool" where
  "utf8_check_string [] = True"
| "utf8_check_string (b # bs) =
     (let count = utf8_check_first b in
      if count = 0 then False
      else if count > 1 then
        if count > length (b # bs) then False
        else if utf8_check_full (b # bs) count = None then False
        else utf8_check_string (drop count (b # bs))
      else utf8_check_string bs)"
  by pat_completeness auto
termination by (relation "measure length") auto

section \<open>Encodings\<close>

definition valid_cp :: "nat \<Rightarrow> bool" where
  "valid_cp c \<longleftrightarrow> c \<le> 0x10FFFF \<and> \<not> (0xD800 \<le> c \<and> c \<le> 0xDFFF)"

definition enc :: "nat \<Rightarrow> byte list" where "enc c = the (utf8_encode (int c))"

lemma code_char_of [simp]: "code (char_of n :: char) = n mod 256"
  by (simp add: of_char_of)

lemma enc_cases:
  "c < 0x80 \<Longrightarrow> enc c = [char_of c]"
  "0x80 \<le> c \<Longrightarrow> c < 0x800 \<Longrightarrow> enc c = [char_of (0xC0 + c div 64), char_of (0x80 + c mod 64)]"
  "0x800 \<le> c \<Longrightarrow> c < 0x10000 \<Longrightarrow> enc c = [char_of (0xE0 + c div 4096), char_of (0x80 + c div 64 mod 64), char_of (0x80 + c mod 64)]"
  "0x10000 \<le> c \<Longrightarrow> c \<le> 0x10FFFF \<Longrightarrow> enc c =
     [char_of (0xF0 + c div 262144), char_of (0x80 + c div 4096 mod 64), char_of (0x80 + c div 64 mod 64), char_of (0x80 + c mod 64)]"
  by (simp_all add: enc_def utf8_encode_def mod_less)

lemma enc_first: "valid_cp c \<Longrightarrow> utf8_check_first (hd (enc c)) = length (enc c) \<and> enc c \<noteq> []"
proof -
  assume v: "valid_cp c"
  consider "c < 0x80" | "0x80 \<le> c" "c < 0x800" | "0x800 \<le> c" "c < 0x10000" | "0x10000 \<le> c" "c \<le> 0x10FFFF"
    using v unfolding valid_cp_def by linarith
  then show ?thesis
  proof cases
    case 1 then show ?thesis by (simp add: enc_cases utf8_check_first_def)
  next
    case 2
    then have "2 \<le> c div 64" "c div 64 < 32" by auto
    with 2 show ?thesis by (simp add: enc_cases utf8_check_first_def Let_def)
  next
    case 3
    then have "c div 4096 < 16" by auto
    with 3 show ?thesis by (simp add: enc_cases utf8_check_first_def Let_def)
  next
    case 4
    then have "c div 262144 < 5" by auto
    with 4 show ?thesis by (simp add: enc_cases utf8_check_first_def Let_def)
  qed
qed

lemma low_bits: "q < 32 \<Longrightarrow> (0xC0 + q) mod 32 = q" "q < 16 \<Longrightarrow> (0xE0 + q) mod 16 = q" "q < 8 \<Longrightarrow> (0xF0 + q) mod 8 = q"
  "(0x80 + r mod 64) mod 64 = r mod 64" "\<not> 63 < r mod 64" for q r :: nat
proof -
  show "(0xC0 + q) mod 32 = q" if "q < 32" using mod_mult_self2 [of q 32 6] that by (simp add: add.commute)
  show "(0xE0 + q) mod 16 = q" if "q < 16" using mod_mult_self2 [of q 16 14] that by (simp add: add.commute)
  show "(0xF0 + q) mod 8 = q" if "q < 8" using mod_mult_self2 [of q 8 30] that by (simp add: add.commute)
  show "(0x80 + r mod 64) mod 64 = r mod 64" using mod_mult_self2 [of "r mod 64" 64 2] by (simp add: add.commute)
  show "\<not> 63 < r mod 64" using mod_less_divisor [of 64 r] by simp
qed

lemma high_bits: "0xC0 \<le> u \<Longrightarrow> u \<le> 0xDF \<Longrightarrow> 0xC0 + u mod 32 = u" "0xE0 \<le> u \<Longrightarrow> u \<le> 0xEF \<Longrightarrow> 0xE0 + u mod 16 = u"
  "0xF0 \<le> u \<Longrightarrow> u \<le> 0xF7 \<Longrightarrow> 0xF0 + u mod 8 = u" "0x80 \<le> u \<Longrightarrow> u \<le> 0xBF \<Longrightarrow> 0x80 + u mod 64 = u" for u :: nat
proof -
  show "0xC0 + u mod 32 = u" if "0xC0 \<le> u" "u \<le> 0xDF" using low_bits(1) [of "u - 0xC0"] that by simp
  show "0xE0 + u mod 16 = u" if "0xE0 \<le> u" "u \<le> 0xEF" using low_bits(2) [of "u - 0xE0"] that by simp
  show "0xF0 + u mod 8 = u" if "0xF0 \<le> u" "u \<le> 0xF7" using low_bits(3) [of "u - 0xF0"] that by simp
  show "0x80 + u mod 64 = u" if "0x80 \<le> u" "u \<le> 0xBF" using low_bits(4) [of "u - 0x80"] that by simp
qed

text \<open>Numbers in base 64.\<close>

lemma base64: "c div 64 * 64 + c mod 64 = c" "(c div 4096 * 64 + c div 64 mod 64) * 64 + c mod 64 = c"
  "((c div 262144 * 64 + c div 4096 mod 64) * 64 + c div 64 mod 64) * 64 + c mod 64 = c" for c :: nat
proof -
  have d: "c div 4096 = c div 64 div 64" "c div 262144 = c div 64 div 64 div 64" by (simp_all flip: div_mult2_eq)
  show "c div 64 * 64 + c mod 64 = c" by simp
  show "(c div 4096 * 64 + c div 64 mod 64) * 64 + c mod 64 = c" unfolding d by simp
  show "((c div 262144 * 64 + c div 4096 mod 64) * 64 + c div 64 mod 64) * 64 + c mod 64 = c" unfolding d by simp
qed

lemma base64_digits:
  fixes a x y z :: nat
  assumes "x < 64" "y < 64" "z < 64"
  shows "(a * 64 + x) div 64 = a" "(a * 64 + x) mod 64 = x"
    "((a * 64 + x) * 64 + y) div 4096 = a" "((a * 64 + x) * 64 + y) div 64 mod 64 = x" "((a * 64 + x) * 64 + y) mod 64 = y"
    "(((a * 64 + x) * 64 + y) * 64 + z) div 262144 = a" "(((a * 64 + x) * 64 + y) * 64 + z) div 4096 mod 64 = x"
    "(((a * 64 + x) * 64 + y) * 64 + z) div 64 mod 64 = y" "(((a * 64 + x) * 64 + y) * 64 + z) mod 64 = z"
proof -
  have d: "c div 4096 = c div 64 div 64" "c div 262144 = c div 64 div 64 div 64" for c :: nat by (simp_all flip: div_mult2_eq)
  have s: "(q * 64 + r) div 64 = q" "(q * 64 + r) mod 64 = r" if "r < 64" for q r :: nat using that by simp_all
  show "(a * 64 + x) div 64 = a" "(a * 64 + x) mod 64 = x"
    "((a * 64 + x) * 64 + y) div 4096 = a" "((a * 64 + x) * 64 + y) div 64 mod 64 = x" "((a * 64 + x) * 64 + y) mod 64 = y"
    "(((a * 64 + x) * 64 + y) * 64 + z) div 262144 = a" "(((a * 64 + x) * 64 + y) * 64 + z) div 4096 mod 64 = x"
    "(((a * 64 + x) * 64 + y) * 64 + z) div 64 mod 64 = y" "(((a * 64 + x) * 64 + y) * 64 + z) mod 64 = z"
    unfolding d by (simp_all only: s assms)
qed

lemma enc_full: "valid_cp c \<Longrightarrow> 0x80 \<le> c \<Longrightarrow> utf8_check_full (enc c @ s) (length (enc c)) = Some c"
proof -
  assume v: "valid_cp c" "0x80 \<le> c"
  then consider "0x80 \<le> c" "c < 0x800" | "0x800 \<le> c" "c < 0x10000" | "0x10000 \<le> c" "c \<le> 0x10FFFF"
    unfolding valid_cp_def by linarith
  then show ?thesis
  proof cases
    case 1
    then have "c div 64 < 32" by auto
    note this base64(1) [of c]
    with 1 v show ?thesis by (simp add: enc_cases utf8_check_full_def Let_def valid_cp_def low_bits)
  next
    case 2
    then have "c div 4096 < 16" by auto
    note this base64(2) [of c]
    with 2 v show ?thesis by (simp add: enc_cases utf8_check_full_def Let_def valid_cp_def low_bits)
  next
    case 3
    then have "c div 262144 < 5" by auto
    note this base64(3) [of c]
    with 3 v show ?thesis by (simp add: enc_cases utf8_check_full_def Let_def valid_cp_def low_bits)
  qed
qed

lemma three_digits_bound: "a \<le> 15 \<Longrightarrow> x \<le> 63 \<Longrightarrow> y \<le> 63 \<Longrightarrow> (a * 64 + x) * 64 + y < 0x10000" for a x y :: nat
  by simp

lemma char_of_code: "char_of (code b) = b" "k = code b \<Longrightarrow> char_of k = b"
  by simp_all

lemma full_enc:
  assumes "utf8_check_first (hd b) = n" "1 < n" "n \<le> length b" "utf8_check_full b n = Some v"
  shows "valid_cp v \<and> 0x80 \<le> v \<and> take n b = enc v"
proof -
  from assms(2,3) obtain b0 bs where b: "b = b0 # bs" by (cases b) auto
  define u where "u = code b0"
  have n: "n = 2 \<and> 0xC2 \<le> u \<and> u \<le> 0xDF \<or> n = 3 \<and> 0xE0 \<le> u \<and> u \<le> 0xEF \<or> n = 4 \<and> 0xF0 \<le> u \<and> u \<le> 0xF4"
    using assms(1,2) by (auto simp: b utf8_check_first_def u_def Let_def split: if_splits)
  then consider "n = 2" "0xC2 \<le> u" "u \<le> 0xDF" | "n = 3" "0xE0 \<le> u" "u \<le> 0xEF" | "n = 4" "0xF0 \<le> u" "u \<le> 0xF4" by blast
  then show ?thesis
  proof cases
    case 1
    with assms(3) b obtain b1 r where bs: "bs = b1 # r" by (cases bs) auto
    define x where "x = code b1"
    have v: "0x80 \<le> x" "x \<le> 0xBF" "v = u mod 32 * 64 + x mod 64" "0x80 \<le> v" "\<not> (0xD800 \<le> v \<and> v \<le> 0xDFFF)"
      using assms(4) 1(1) by (auto simp: b bs utf8_check_full_def Let_def u_def [symmetric] x_def [symmetric] split: if_splits)
    have l: "x mod 64 < 64" "u mod 32 < 32" by simp_all
    have "v div 64 = u mod 32" "v mod 64 = x mod 64" unfolding v(3) using base64_digits(1,2) l(1) by blast+
    moreover have "0xC0 + u mod 32 = u" "0x80 + x mod 64 = x" using high_bits 1 v by simp_all
    moreover have "v < 0x800" using v(3) l by linarith
    ultimately show ?thesis using v(4,5) 1(1) by (simp add: b bs enc_cases valid_cp_def u_def x_def)
  next
    case 2
    with assms(3) b obtain b1 b2 r where bs: "bs = b1 # b2 # r" by (cases bs; cases "tl bs") auto
    define x y where "x = code b1" and "y = code b2"
    have v: "0x80 \<le> x" "x \<le> 0xBF" "0x80 \<le> y" "y \<le> 0xBF" "v = (u mod 16 * 64 + x mod 64) * 64 + y mod 64" "0x800 \<le> v" "\<not> (0xD800 \<le> v \<and> v \<le> 0xDFFF)"
      using assms(4) 2(1) by (auto simp: b bs utf8_check_full_def Let_def u_def [symmetric] x_def [symmetric] y_def [symmetric] split: if_splits)
    have l: "x mod 64 < 64" "y mod 64 < 64" "u mod 16 < 16" by simp_all
    have "v div 4096 = u mod 16" "v div 64 mod 64 = x mod 64" "v mod 64 = y mod 64" unfolding v(5) using base64_digits(3-5) l by blast+
    moreover have "u mod 16 \<le> 15" "x mod 64 \<le> 63" "y mod 64 \<le> 63" using l by simp_all
    then have "v < 0x10000" unfolding v(5) by (rule three_digits_bound)
    moreover have "0xE0 + u mod 16 = u" "0x80 + x mod 64 = x" "0x80 + y mod 64 = y" using high_bits 2 v by simp_all
    ultimately show ?thesis using v(6,7) 2(1) by (simp add: b bs enc_cases valid_cp_def u_def x_def y_def)
  next
    case 3
    with assms(3) b obtain b1 b2 b3 r where bs: "bs = b1 # b2 # b3 # r" by (cases bs; cases "tl bs"; cases "tl (tl bs)") auto
    define x y z where "x = code b1" and "y = code b2" and "z = code b3"
    have v: "0x80 \<le> x" "x \<le> 0xBF" "0x80 \<le> y" "y \<le> 0xBF" "0x80 \<le> z" "z \<le> 0xBF" "v = ((u mod 8 * 64 + x mod 64) * 64 + y mod 64) * 64 + z mod 64"
      "0x10000 \<le> v" "v \<le> 0x10FFFF"
      using assms(4) 3(1) by (auto simp: b bs utf8_check_full_def Let_def u_def [symmetric] x_def [symmetric] y_def [symmetric] z_def [symmetric] split: if_splits)
    have l: "x mod 64 < 64" "y mod 64 < 64" "z mod 64 < 64" by simp_all
    have "v div 262144 = u mod 8" "v div 4096 mod 64 = x mod 64" "v div 64 mod 64 = y mod 64" "v mod 64 = z mod 64"
      unfolding v(7) using base64_digits(6-9) l by blast+
    moreover have "0xF0 + u mod 8 = u" "0x80 + x mod 64 = x" "0x80 + y mod 64 = y" "0x80 + z mod 64 = z" using high_bits 3 v by simp_all
    ultimately show ?thesis using v(8,9) 3(1) by (simp add: b bs enc_cases valid_cp_def u_def x_def y_def z_def)
  qed
qed

lemma first_one: "utf8_check_first b = 1 \<longleftrightarrow> code b < 0x80"
  by (simp add: utf8_check_first_def Let_def)

text \<open>A string of valid encodings.\<close>

definition utf8 :: "byte list \<Rightarrow> bool" where
  "utf8 s \<longleftrightarrow> (\<exists>cs. (\<forall>c \<in> set cs. valid_cp c) \<and> s = concat (map enc cs))"

lemma utf8_Nil [simp]: "utf8 []"
  by (auto simp: utf8_def intro: exI [of _ "[]"])

lemma utf8_append: "utf8 s \<Longrightarrow> utf8 t \<Longrightarrow> utf8 (s @ t)"
  by (fastforce simp: utf8_def intro: exI [of _ "_ @ _"])

lemma utf8_enc: "valid_cp c \<Longrightarrow> utf8 (enc c)"
  by (auto simp: utf8_def intro: exI [of _ "[c]"])

lemma utf8_check_string_enc:
  "valid_cp c \<Longrightarrow> utf8_check_string (enc c @ s) = utf8_check_string s"
proof (cases "c < 0x80")
  case True
  then show ?thesis by (simp add: enc_cases utf8_check_first_def Let_def)
next
  case False
  assume v: "valid_cp c"
  from enc_first [OF v] obtain b bs where e: "enc c = b # bs" by (cases "enc c") auto
  have f: "utf8_check_first b = length (enc c)" using enc_first [OF v] e by simp
  have "length (enc c) \<noteq> 1"
    using False v unfolding valid_cp_def by (cases "c < 0x800"; cases "c < 0x10000") (simp_all add: enc_cases)
  then have "1 < length (enc c)" using e by simp
  moreover have "utf8_check_full (b # (bs @ s)) (length (enc c)) = Some c" using enc_full [OF v, of s] False e by simp
  ultimately show ?thesis using f by (simp add: e Let_def)
qed

lemma utf8_check_string_sound: "utf8_check_string s \<Longrightarrow> utf8 s"
proof (induction s rule: utf8_check_string.induct)
  case (2 b bs)
  define n where "n = utf8_check_first b"
  have "n \<noteq> 0" using 2(3) by (auto simp: n_def Let_def split: if_splits)
  then consider "n = 1" | "1 < n" by linarith
  then show ?case
  proof cases
    case 1
    then have c: "code b < 0x80" using first_one [of b] by (simp only: n_def)
    then have "valid_cp (code b)" "enc (code b) = [b]" by (simp_all add: valid_cp_def enc_cases)
    moreover have "utf8 bs" using 2 1 by (simp add: n_def Let_def)
    ultimately show ?thesis using utf8_append [OF utf8_enc, of "code b" bs] by simp
  next
    case more: 2
    from 2(3) more obtain v where v: "n \<le> length (b # bs)" "utf8_check_full (b # bs) n = Some v" "utf8_check_string (drop n (b # bs))"
      by (auto simp: n_def Let_def split: if_splits)
    from full_enc [of "b # bs" n v] more v(1,2) have e: "valid_cp v" "take n (b # bs) = enc v" by (simp_all add: n_def)
    have "utf8 (drop n (b # bs))" using 2(1) more v by (simp add: n_def)
    with utf8_append [OF utf8_enc [OF e(1)] this] e(2) show ?thesis by (metis append_take_drop_id)
  qed
qed simp

text \<open>
  C16. The UTF-8 check of the JSON library accepts exactly the strings that are sequences of encodings of Unicode code points: no overlong form, no half of a
  surrogate pair, nothing above 10FFFF, nothing cut off.
\<close>

theorem utf8_check_exact: "utf8_check_string s \<longleftrightarrow> (\<exists>cs. list_all valid_cp cs \<and> s = concat (map enc cs))"
proof
  assume "utf8_check_string s"
  then show "\<exists>cs. list_all valid_cp cs \<and> s = concat (map enc cs)" using utf8_check_string_sound by (simp add: utf8_def list_all_iff)
next
  assume "\<exists>cs. list_all valid_cp cs \<and> s = concat (map enc cs)"
  then obtain cs where "list_all valid_cp cs" "s = concat (map enc cs)" by blast
  then show "utf8_check_string s" by (induction cs arbitrary: s) (simp_all add: utf8_check_string_enc)
qed

end
