(* ===== verification/JsonLoad.thy ===== *)
theory JsonLoad
  imports JsonUtf
begin

text \<open>
  The JSON reader of the configuration file, \<^verbatim>\<open>jansson/src/load.c\<close>: a stream of bytes that checks UTF-8,
  a lexer that keeps the text of the current token, and a recursive parser. The source of the bytes is a list; allocations
  succeed. \<open>real_of\<close> stands for \<^verbatim>\<open>strtod\<close> of the C library with the test for overflow, so that real numbers are an abstract type.
\<close>

section \<open>Documents and errors\<close>

datatype 'r json_t =
    J_String "byte list"
  | J_Integer int
  | J_Real 'r
  | J_True
  | J_False
  | J_Null
  | J_Array "'r json_t list"
  | J_Object "(byte list \<times> 'r json_t) list"

record json_flags =
  JSON_REJECT_DUPLICATES :: bool
  JSON_DISABLE_EOF_CHECK :: bool
  JSON_DECODE_ANY :: bool
  JSON_DECODE_INT_AS_REAL :: bool
  JSON_ALLOW_NUL :: bool

definition flags0 :: json_flags where
  "flags0 = \<lparr>JSON_REJECT_DUPLICATES = False, JSON_DISABLE_EOF_CHECK = False, JSON_DECODE_ANY = False, JSON_DECODE_INT_AS_REAL = False, JSON_ALLOW_NUL = False\<rparr>"

definition JSON_PARSER_MAX_DEPTH :: nat where "JSON_PARSER_MAX_DEPTH = 2048"

record json_error =
  e_line :: int
  e_column :: int
  e_position :: int
  e_text :: string

definition jsonp_error_init :: json_error where
  "jsonp_error_init = \<lparr>e_line = -1, e_column = -1, e_position = 0, e_text = []\<rparr>"

definition jsonp_error_set :: "int \<Rightarrow> int \<Rightarrow> int \<Rightarrow> string \<Rightarrow> json_error \<Rightarrow> json_error" where
  "jsonp_error_set line col pos msg e = (if e_text e \<noteq> [] then e else \<lparr>e_line = line, e_column = col, e_position = pos, e_text = msg\<rparr>)"

section \<open>The stream\<close>

text \<open>
  \<^verbatim>\<open>stream_get\<close> returns a byte as an \<open>int\<close>, or one of two negative states; no byte of valid UTF-8 has one of their values
  as a \<open>char\<close>. The value of a token is an argument of its constructor.
\<close>

datatype stream_state = STREAM_STATE_OK | STREAM_STATE_EOF | STREAM_STATE_ERROR

datatype got = Byte byte | Eof | Err

datatype 'r token =
    TOKEN_INVALID
  | TOKEN_EOF
  | TOKEN_STRING "byte list"
  | TOKEN_INTEGER int
  | TOKEN_REAL 'r
  | TOKEN_TRUE
  | TOKEN_FALSE
  | TOKEN_NULL
  | TOKEN_CHAR byte

record 'r lex =
  get_rest :: "byte list"             \<comment> \<open>what \<open>get\<close> has not delivered\<close>
  sbuffer :: "byte list"
  buffer_pos :: nat
  sstate :: stream_state
  line :: int
  column :: int
  last_column :: int
  position :: int
  saved_text :: "byte list"
  depth :: nat
  token :: "'r token"
  jerror :: json_error

definition NULB :: byte where "NULB = CHR 0x00"

text \<open>The byte of the buffer, which ends with a null byte, and the text before the first null byte.\<close>

definition buf_at :: "byte list \<Rightarrow> nat \<Rightarrow> byte" where
  "buf_at b i = (if i < length b then b ! i else NULB)"

definition cstr :: "byte list \<Rightarrow> byte list" where "cstr s = takeWhile (\<lambda>c. c \<noteq> NULB) s"

definition error_set :: "string \<Rightarrow> 'r lex \<Rightarrow> 'r lex" where
  "error_set msg lx =
     (let saved = cstr (saved_text lx);
          result =
            (if saved \<noteq> [] then if length (saved_text lx) \<le> 20 then msg @ '' near '' @ [CHR 0x27] @ saved @ [CHR 0x27] else msg
             else if sstate lx = STREAM_STATE_ERROR then msg else msg @ '' near end of file'')
      in lx\<lparr>jerror := jsonp_error_set (line lx) (column lx) (position lx) result (jerror lx)\<rparr>)"

definition deliver :: "'r lex \<Rightarrow> got \<times> 'r lex" where
  "deliver lx =
     (let c = buf_at (sbuffer lx) (buffer_pos lx);
          lx1 = lx\<lparr>buffer_pos := buffer_pos lx + 1, position := position lx + 1\<rparr> in
      (Byte c,
       if c = CHR 0x0A then lx1\<lparr>line := line lx + 1, last_column := column lx, column := 0\<rparr>
       else if utf8_check_first c \<noteq> 0 then lx1\<lparr>column := column lx + 1\<rparr> else lx1))"

definition stream_fail :: "byte \<Rightarrow> 'r lex \<Rightarrow> got \<times> 'r lex" where
  "stream_fail c lx = (Err, error_set (''unable to decode byte 0x'' @ hex_of (code c)) (lx\<lparr>sstate := STREAM_STATE_ERROR\<rparr>))"

text \<open>Missing continuation bytes are the end of file, which is stored as \<open>(char) -1\<close>.\<close>

definition take_or_eof :: "nat \<Rightarrow> byte list \<Rightarrow> byte list" where
  "take_or_eof n s = take n s @ replicate (n - length s) (CHR 0xFF)"

definition stream_get :: "'r lex \<Rightarrow> got \<times> 'r lex" where
  "stream_get lx =
     (case sstate lx of
        STREAM_STATE_EOF \<Rightarrow> (Eof, lx)
      | STREAM_STATE_ERROR \<Rightarrow> (Err, lx)
      | STREAM_STATE_OK \<Rightarrow>
          if buf_at (sbuffer lx) (buffer_pos lx) = NULB then
            (case get_rest lx of
               [] \<Rightarrow> (Eof, lx\<lparr>sstate := STREAM_STATE_EOF\<rparr>)
             | c # rest \<Rightarrow>
                 let lx1 = lx\<lparr>get_rest := rest, sbuffer := [c], buffer_pos := 0\<rparr> in
                 if code c \<ge> 0x80 then
                   let count = utf8_check_first c in
                   if count = 0 then stream_fail c lx1
                   else
                     let seq = c # take_or_eof (count - 1) rest;
                         lx2 = lx1\<lparr>get_rest := drop (count - 1) rest, sbuffer := seq\<rparr> in
                     if utf8_check_full seq count = None then stream_fail c lx2 else deliver lx2
                 else deliver lx1)
          else deliver lx)"

definition stream_unget :: "got \<Rightarrow> 'r lex \<Rightarrow> 'r lex" where
  "stream_unget c lx =
     (case c of
        Byte b \<Rightarrow>
          let lx1 = lx\<lparr>position := position lx - 1, buffer_pos := buffer_pos lx - 1\<rparr> in
          if b = CHR 0x0A then lx1\<lparr>line := line lx - 1, column := last_column lx\<rparr>
          else if utf8_check_first b \<noteq> 0 then lx1\<lparr>column := column lx - 1\<rparr> else lx1
      | _ \<Rightarrow> lx)"

section \<open>The lexer\<close>

definition lex_save :: "byte \<Rightarrow> 'r lex \<Rightarrow> 'r lex" where "lex_save c lx = lx\<lparr>saved_text := saved_text lx @ [c]\<rparr>"

definition lex_get_save :: "'r lex \<Rightarrow> got \<times> 'r lex" where
  "lex_get_save lx = (case stream_get lx of (Byte c, lx1) \<Rightarrow> (Byte c, lex_save c lx1) | (g, lx1) \<Rightarrow> (g, lx1))"

definition lex_unget_unsave :: "got \<Rightarrow> 'r lex \<Rightarrow> 'r lex" where
  "lex_unget_unsave c lx =
     (case c of Byte b \<Rightarrow> let lx1 = stream_unget c lx in lx1\<lparr>saved_text := butlast (saved_text lx1)\<rparr> | _ \<Rightarrow> lx)"

definition lex_save_cached :: "'r lex \<Rightarrow> 'r lex" where
  "lex_save_cached lx =
     (let s = cstr (drop (buffer_pos lx) (sbuffer lx)) in
      lx\<lparr>saved_text := saved_text lx @ s, buffer_pos := buffer_pos lx + length s, position := position lx + int (length s)\<rparr>)"

definition l_isdigit :: "byte \<Rightarrow> bool" where "l_isdigit c \<longleftrightarrow> 48 \<le> code c \<and> code c \<le> 57"
definition l_isupper :: "byte \<Rightarrow> bool" where "l_isupper c \<longleftrightarrow> 65 \<le> code c \<and> code c \<le> 90"
definition l_islower :: "byte \<Rightarrow> bool" where "l_islower c \<longleftrightarrow> 97 \<le> code c \<and> code c \<le> 122"
definition l_isalpha :: "byte \<Rightarrow> bool" where "l_isalpha c \<longleftrightarrow> l_isupper c \<or> l_islower c"
definition l_isxdigit :: "byte \<Rightarrow> bool" where
  "l_isxdigit c \<longleftrightarrow> l_isdigit c \<or> 65 \<le> code c \<and> code c \<le> 70 \<or> 97 \<le> code c \<and> code c \<le> 102"

definition is_byte :: "(byte \<Rightarrow> bool) \<Rightarrow> got \<Rightarrow> bool" where
  "is_byte Q c = (case c of Byte b \<Rightarrow> Q b | _ \<Rightarrow> False)"

text \<open>How many bytes are left to be delivered.\<close>

definition left :: "'r lex \<Rightarrow> nat" where
  "left lx = (if sstate lx = STREAM_STATE_OK then length (get_rest lx) + (length (sbuffer lx) - buffer_pos lx) else 0)"

definition ahead :: "got \<Rightarrow> 'r lex \<Rightarrow> nat" where "ahead c lx = left lx + (case c of Byte _ \<Rightarrow> 1 | _ \<Rightarrow> 0)"

lemma left_update [simp]: "left (lx\<lparr>saved_text := s\<rparr>) = left lx" "left (lx\<lparr>token := t\<rparr>) = left lx" "left (lx\<lparr>depth := d\<rparr>) = left lx"
  "left (error_set m lx) = left lx" "left (lex_save c lx) = left lx"
  by (simp_all add: left_def error_set_def lex_save_def Let_def)

lemma deliver_left: "deliver lx = (c, lx') \<Longrightarrow> ahead c lx' = (if sstate lx = STREAM_STATE_OK then length (get_rest lx) + (length (sbuffer lx) - buffer_pos lx - 1) + 1 else 1)"
  by (auto simp: deliver_def ahead_def left_def Let_def split: if_splits)

lemma fail_left: "stream_fail b lx = (c, lx') \<Longrightarrow> ahead c lx' = 0"
  by (auto simp: stream_fail_def ahead_def) (simp add: left_def)

lemma continuation_eof: "continuation v (s @ CHR 0xFF # t) = None"
  by (induction s arbitrary: v) auto

lemma full_length: "utf8_check_full (b # take_or_eof (n - 1) rest) n \<noteq> None \<Longrightarrow> n \<noteq> 0 \<Longrightarrow> n \<le> Suc (length rest)"
proof (rule ccontr)
  assume f: "utf8_check_full (b # take_or_eof (n - 1) rest) n \<noteq> None" and n: "n \<noteq> 0" "\<not> n \<le> Suc (length rest)"
  then have "n - 1 - length rest = Suc (n - 2 - length rest)" by simp
  then have "take_or_eof (n - 1) rest = rest @ CHR 0xFF # replicate (n - 2 - length rest) (CHR 0xFF)" using n by (simp add: take_or_eof_def)
  then have "continuation v (take (n - 1) (take_or_eof (n - 1) rest)) = None" for v
    using n continuation_eof [of v rest] by simp
  with f show False by (auto simp: utf8_check_full_def Let_def split: option.splits if_splits)
qed

lemma stream_get_left: "stream_get lx = (c, lx') \<Longrightarrow> ahead c lx' \<le> left lx"
proof -
  assume g: "stream_get lx = (c, lx')"
  show ?thesis
  proof (cases "sstate lx")
    case ok: STREAM_STATE_OK
    show ?thesis
    proof (cases "buf_at (sbuffer lx) (buffer_pos lx) = NULB")
      case nul: True
      show ?thesis
      proof (cases "get_rest lx")
        case Nil
        with g ok nul show ?thesis by (auto simp: stream_get_def ahead_def left_def)
      next
        case (Cons b rest)
        define n where "n = utf8_check_first b"
        show ?thesis
        proof (cases "0x80 \<le> code b \<and> (n = 0 \<or> utf8_check_full (b # take_or_eof (n - 1) rest) n = None)")
          case True
          with g ok nul Cons have "\<exists>lx0. stream_fail b lx0 = (c, lx')" by (auto simp: stream_get_def n_def Let_def split: if_splits)
          then show ?thesis by (auto dest: fail_left)
        next
          case deliver': False
          have "ahead c lx' = Suc (length rest)"
          proof (cases "0x80 \<le> code b")
            case True
            with deliver' have n: "n \<noteq> 0" "utf8_check_full (b # take_or_eof (n - 1) rest) n \<noteq> None" by auto
            with g ok nul Cons True have "deliver (lx\<lparr>get_rest := rest, sbuffer := [b], buffer_pos := 0, get_rest := drop (n - 1) rest, sbuffer := b # take_or_eof (n - 1) rest\<rparr>) = (c, lx')"
              by (auto simp: stream_get_def n_def Let_def)
            from deliver_left [OF this] full_length [OF n(2,1)] n(1) ok show ?thesis by (simp add: take_or_eof_def)
          next
            case False
            with g ok nul Cons have "deliver (lx\<lparr>get_rest := rest, sbuffer := [b], buffer_pos := 0\<rparr>) = (c, lx')" by (auto simp: stream_get_def Let_def)
            from deliver_left [OF this] ok show ?thesis by simp
          qed
          then show ?thesis using ok Cons by (simp add: left_def)
        qed
      qed
    next
      case False
      then have "buffer_pos lx < length (sbuffer lx)" by (auto simp: buf_at_def split: if_splits)
      moreover have "deliver lx = (c, lx')" using g ok False by (simp add: stream_get_def)
      ultimately show ?thesis using ok deliver_left [of lx c lx'] by (simp add: left_def)
    qed
  qed (use g in \<open>auto simp: stream_get_def ahead_def left_def\<close>)
qed

lemma get_save_left: "lex_get_save lx = (c, lx') \<Longrightarrow> ahead c lx' \<le> left lx"
  using stream_get_left [of lx] by (auto simp: lex_get_save_def ahead_def split: prod.splits got.splits)

lemma unget_left: "left (stream_unget c lx) \<le> ahead c lx"
  by (auto simp: stream_unget_def ahead_def left_def Let_def split: got.split)

lemma unget_unsave_left: "left (lex_unget_unsave c lx) \<le> ahead c lx"
proof (cases c)
  case (Byte b)
  then have "left (lex_unget_unsave c lx) = left (stream_unget c lx)" by (simp add: lex_unget_unsave_def Let_def)
  with unget_left [of c lx] show ?thesis by simp
qed (simp_all add: lex_unget_unsave_def ahead_def)

text \<open>\<open>do c = lex_get_save(...); while(...)\<close> and the loop that skips white space.\<close>

function save_while :: "(byte \<Rightarrow> bool) \<Rightarrow> 'r lex \<Rightarrow> got \<times> 'r lex" where
  "save_while Q lx = (case lex_get_save lx of (c, lx1) \<Rightarrow> if is_byte Q c then save_while Q lx1 else (c, lx1))"
  by pat_completeness auto
termination
proof (relation "measure (\<lambda>(Q, lx). left lx)")
  fix Q and lx :: "'r lex" and c lx1
  assume "(c, lx1) = lex_get_save lx" "is_byte Q c"
  with get_save_left [of lx c lx1] show "((Q, lx1), Q, lx) \<in> measure (\<lambda>(Q, lx). left lx)" by (cases c) (auto simp: is_byte_def ahead_def)
qed simp

function lex_skip_space :: "'r lex \<Rightarrow> got \<times> 'r lex" where
  "lex_skip_space lx = (case stream_get lx of (c, lx1) \<Rightarrow>
     if is_byte (\<lambda>b. b = CHR '' '' \<or> b = CHR 0x09 \<or> b = CHR 0x0A \<or> b = CHR 0x0D) c then lex_skip_space lx1 else (c, lx1))"
  by pat_completeness auto
termination
proof (relation "measure left")
  fix lx :: "'r lex" and c lx1
  assume "(c, lx1) = stream_get lx" "is_byte (\<lambda>b. b = CHR '' '' \<or> b = CHR 0x09 \<or> b = CHR 0x0A \<or> b = CHR 0x0D) c"
  with stream_get_left [of lx c lx1] show "(lx1, lx) \<in> measure left" by (cases c) (auto simp: is_byte_def ahead_def)
qed simp

declare save_while.simps [simp del] lex_skip_space.simps [simp del]

subsection \<open>Strings\<close>

text \<open>The four digits of \<open>\\u\<close>; None is an error.\<close>

fun scan_hex :: "nat \<Rightarrow> got \<Rightarrow> 'r lex \<Rightarrow> got option \<times> 'r lex" where
  "scan_hex 0 c lx = (Some c, lx)"
| "scan_hex (Suc n) c lx =
     (if \<not> is_byte l_isxdigit c then (None, error_set ''invalid escape'' lx)
      else case lex_get_save lx of (c1, lx1) \<Rightarrow> scan_hex n c1 lx1)"

lemma scan_hex_left: "scan_hex n c lx = (Some c', lx') \<Longrightarrow> ahead c' lx' \<le> ahead c lx"
proof (induction n c lx rule: scan_hex.induct)
  case (2 n c lx)
  obtain c1 lx1 where g: "lex_get_save lx = (c1, lx1)" by fastforce
  with 2 have "ahead c' lx' \<le> ahead c1 lx1" by (auto split: if_splits)
  moreover have "left lx \<le> ahead c lx" by (simp add: ahead_def)
  ultimately show ?case using get_save_left [OF g] by linarith
qed simp

definition short_escape :: "byte \<Rightarrow> bool" where
  "short_escape b \<longleftrightarrow> b = CHR 0x22 \<or> b = CHR 0x5C \<or> b = CHR ''/'' \<or> b = CHR ''b'' \<or> b = CHR ''f'' \<or> b = CHR ''n'' \<or> b = CHR ''r'' \<or> b = CHR ''t''"

text \<open>The first loop of \<^verbatim>\<open>lex_scan_string\<close>, which looks for the end of the string; \<open>c\<close> is the byte just read.\<close>

function string_loop :: "got \<Rightarrow> 'r lex \<Rightarrow> bool \<times> 'r lex" where
  "string_loop c lx =
     (case c of
        Err \<Rightarrow> (False, lx)
      | Eof \<Rightarrow> (False, error_set ''premature end of input'' lx)
      | Byte b \<Rightarrow>
          if b = CHR 0x22 then (True, lx)
          else if code b \<le> 0x1F then
            let lx1 = lex_unget_unsave c lx in
            (False, error_set (if b = CHR 0x0A then ''unexpected newline'' else ''control character 0x'' @ hex_of (code b)) lx1)
          else if b = CHR 0x5C then
            (case lex_get_save lx of (c1, lx1) \<Rightarrow>
               if is_byte (\<lambda>b. b = CHR ''u'') c1 then
                 (case lex_get_save lx1 of (c2, lx2) \<Rightarrow>
                    (case scan_hex 4 c2 lx2 of
                       (None, lx3) \<Rightarrow> (False, lx3)
                     | (Some c3, lx3) \<Rightarrow> string_loop c3 lx3))
               else if is_byte short_escape c1 then (case lex_get_save lx1 of (c2, lx2) \<Rightarrow> string_loop c2 lx2)
               else (False, error_set ''invalid escape'' lx1))
          else (case lex_get_save lx of (c1, lx1) \<Rightarrow> string_loop c1 lx1))"
  by pat_completeness auto
termination
proof (relation "measure (\<lambda>(c, lx). ahead c lx)")
  fix c :: got and lx :: "'r lex" and b c1 lx1 c2 lx2 c3' lx3 c3
  assume g: "c = Byte b" "(c1, lx1) = lex_get_save lx" "(c2, lx2) = lex_get_save lx1" "(c3', lx3) = scan_hex 4 c2 lx2" "c3' = Some c3"
  have "ahead c3 lx3 \<le> ahead c2 lx2" "ahead c2 lx2 \<le> left lx1" "ahead c1 lx1 \<le> left lx" "left lx1 \<le> ahead c1 lx1"
    using scan_hex_left [of 4 c2 lx2 c3 lx3] get_save_left [of lx1 c2 lx2] get_save_left [of lx c1 lx1] g by (auto simp: ahead_def)
  moreover have "ahead c lx = left lx + 1" using g(1) by (simp add: ahead_def)
  ultimately show "((c3, lx3), c, lx) \<in> measure (\<lambda>(c, lx). ahead c lx)" by simp
next
  fix c :: got and lx :: "'r lex" and b c1 lx1 c2 lx2
  assume g: "c = Byte b" "(c1, lx1) = lex_get_save lx" "(c2, lx2) = lex_get_save lx1"
  have "ahead c2 lx2 \<le> left lx1" "ahead c1 lx1 \<le> left lx" "left lx1 \<le> ahead c1 lx1"
    using get_save_left [of lx1 c2 lx2] get_save_left [of lx c1 lx1] g by (auto simp: ahead_def)
  moreover have "ahead c lx = left lx + 1" using g(1) by (simp add: ahead_def)
  ultimately show "((c2, lx2), c, lx) \<in> measure (\<lambda>(c, lx). ahead c lx)" by simp
next
  fix c :: got and lx :: "'r lex" and b c1 lx1
  assume g: "c = Byte b" "(c1, lx1) = lex_get_save lx"
  have "ahead c1 lx1 \<le> left lx" using get_save_left [of lx c1 lx1] g by simp
  moreover have "ahead c lx = left lx + 1" using g(1) by (simp add: ahead_def)
  ultimately show "((c1, lx1), c, lx) \<in> measure (\<lambda>(c, lx). ahead c lx)" by simp
qed simp

declare string_loop.simps [simp del]

definition hex_val :: "byte \<Rightarrow> nat option" where
  "hex_val c =
     (if l_isdigit c then Some (code c - 48) else if l_islower c then Some (code c - 97 + 10)
      else if l_isupper c then Some (code c - 65 + 10) else None)"

text \<open>The argument begins behind the \<open>u\<close>.\<close>

definition decode_unicode_escape :: "byte list \<Rightarrow> nat option" where
  "decode_unicode_escape s =
     (case (hex_val (buf_at s 0), hex_val (buf_at s 1), hex_val (buf_at s 2), hex_val (buf_at s 3)) of
        (Some a, Some b, Some c, Some d) \<Rightarrow> Some (((a * 16 + b) * 16 + c) * 16 + d)
      | _ \<Rightarrow> None)"

definition simple_escape :: "byte \<Rightarrow> byte option" where
  "simple_escape e =
     (if e = CHR 0x22 \<or> e = CHR 0x5C \<or> e = CHR ''/'' then Some e
      else if e = CHR ''b'' then Some (CHR 0x08) else if e = CHR ''f'' then Some (CHR 0x0C) else if e = CHR ''n'' then Some (CHR 0x0A)
      else if e = CHR ''r'' then Some (CHR 0x0D) else if e = CHR ''t'' then Some (CHR 0x09) else None)"

definition hex_upper :: "nat \<Rightarrow> byte" where "hex_upper v = (if v < 10 then char_of (48 + v) else char_of (55 + v))"

text \<open>\<open>%04X\<close> of a number of four digits.\<close>

definition hex4 :: "nat \<Rightarrow> byte list" where
  "hex4 v = [hex_upper (v div 4096 mod 16), hex_upper (v div 256 mod 16), hex_upper (v div 16 mod 16), hex_upper (v mod 16)]"

definition quoted :: "string \<Rightarrow> string" where "quoted s = [CHR 0x27] @ s @ [CHR 0x27]"

text \<open>
  The second loop, which decodes the escapes; \<open>p\<close> is the text that is left. A failed assertion and the end of the
  text are \<open>OutOfBounds\<close>. The inner result is a message or the value.
\<close>

definition push :: "byte list \<Rightarrow> (string + byte list) run \<Rightarrow> (string + byte list) run" where
  "push s r = map_sum id (map_sum id (\<lambda>t. s @ t)) r"

function unescape :: "byte list \<Rightarrow> (string + byte list) run" where
  "unescape [] = Inl OutOfBounds"
| "unescape (c # p) =
     (if c = CHR 0x22 then Inr (Inr [])
      else if c = CHR 0x5C then
        (case p of
           [] \<Rightarrow> Inl OutOfBounds
         | e # q \<Rightarrow>
             if e = CHR ''u'' then
               (case decode_unicode_escape q of
                  None \<Rightarrow> Inr (Inl (''invalid Unicode escape '' @ quoted (take 6 (c # p))))
                | Some v \<Rightarrow>
                    if 0xD800 \<le> v \<and> v \<le> 0xDBFF then
                      if buf_at q 4 = CHR 0x5C \<and> buf_at q 5 = CHR ''u'' then
                        (case decode_unicode_escape (drop 6 q) of
                           None \<Rightarrow> Inr (Inl (''invalid Unicode escape '' @ quoted (take 6 (drop 4 q))))
                         | Some v2 \<Rightarrow>
                             if 0xDC00 \<le> v2 \<and> v2 \<le> 0xDFFF then
                               (case utf8_encode (int ((v - 0xD800) * 1024 + (v2 - 0xDC00) + 0x10000)) of
                                  None \<Rightarrow> Inl OutOfBounds
                                | Some s \<Rightarrow> push s (unescape (drop 10 q)))
                             else Inr (Inl (''invalid Unicode '' @ quoted ([CHR 0x5C, CHR ''u''] @ hex4 v @ [CHR 0x5C, CHR ''u''] @ hex4 v2))))
                      else Inr (Inl (''invalid Unicode '' @ quoted ([CHR 0x5C, CHR ''u''] @ hex4 v)))
                    else if 0xDC00 \<le> v \<and> v \<le> 0xDFFF then Inr (Inl (''invalid Unicode '' @ quoted ([CHR 0x5C, CHR ''u''] @ hex4 v)))
                    else
                      (case utf8_encode (int v) of None \<Rightarrow> Inl OutOfBounds | Some s \<Rightarrow> push s (unescape (drop 4 q))))
             else
               (case simple_escape e of None \<Rightarrow> Inl OutOfBounds | Some b \<Rightarrow> push [b] (unescape q)))
      else push [c] (unescape p))"
  by pat_completeness auto
termination by (relation "measure length") auto

declare unescape.simps [simp del]

definition lex_scan_string :: "'r lex \<Rightarrow> 'r lex run" where
  "lex_scan_string lx =
     (case lex_get_save (lx\<lparr>token := TOKEN_INVALID\<rparr>) of (c, lx1) \<Rightarrow>
        (case string_loop c lx1 of
           (False, lx2) \<Rightarrow> Inr lx2
         | (True, lx2) \<Rightarrow>
             bind_ub (unescape (tl (saved_text lx2))) (\<lambda>r.
               case r of
                 Inl msg \<Rightarrow> Inr (error_set msg lx2)
               | Inr s \<Rightarrow> Inr (lx2\<lparr>token := TOKEN_STRING s\<rparr>))))"

subsection \<open>Numbers\<close>

definition dec_val :: "byte list \<Rightarrow> int" where "dec_val ds = foldl (\<lambda>n c. n * 10 + (int (code c) - 48)) 0 ds"

definition json_strtoint :: "byte list \<Rightarrow> int" where
  "json_strtoint s = (case s of [] \<Rightarrow> 0 | c # ds \<Rightarrow> if c = CHR ''-'' then - dec_val ds else dec_val s)"

definition scan_integer :: "'r lex \<Rightarrow> 'r lex" where
  "scan_integer lx =
     (let v = json_strtoint (saved_text lx) in
      if v < - (2 ^ 63) then error_set ''too big negative integer'' lx
      else if v \<ge> 2 ^ 63 then error_set ''too big integer'' lx
      else lx\<lparr>token := TOKEN_INTEGER v\<rparr>)"

definition scan_real :: "(byte list \<Rightarrow> 'r option) \<Rightarrow> 'r lex \<Rightarrow> 'r lex" where
  "scan_real real_of lx =
     (case real_of (saved_text lx) of None \<Rightarrow> error_set ''real number overflow'' lx | Some r \<Rightarrow> lx\<lparr>token := TOKEN_REAL r\<rparr>)"

text \<open>The exponent, with \<open>c\<close> the byte behind the fraction.\<close>

definition scan_exponent :: "(byte list \<Rightarrow> 'r option) \<Rightarrow> got \<Rightarrow> 'r lex \<Rightarrow> 'r lex" where
  "scan_exponent real_of c lx =
     (if is_byte (\<lambda>b. b = CHR ''E'' \<or> b = CHR ''e'') c then
        (case lex_get_save lx of (c1, lx1) \<Rightarrow>
           (case (if is_byte (\<lambda>b. b = CHR ''+'' \<or> b = CHR ''-'') c1 then lex_get_save lx1 else (c1, lx1)) of (c2, lx2) \<Rightarrow>
              if \<not> is_byte l_isdigit c2 then lex_unget_unsave c2 lx2
              else (case save_while l_isdigit lx2 of (c3, lx3) \<Rightarrow> scan_real real_of (lex_unget_unsave c3 lx3))))
      else scan_real real_of (lex_unget_unsave c lx))"

text \<open>What follows the integer part, with \<open>c\<close> the byte behind it.\<close>

definition scan_fraction :: "bool \<Rightarrow> (byte list \<Rightarrow> 'r option) \<Rightarrow> got \<Rightarrow> 'r lex \<Rightarrow> 'r lex" where
  "scan_fraction as_real real_of c lx =
     (if \<not> as_real \<and> \<not> is_byte (\<lambda>b. b = CHR ''.'' \<or> b = CHR ''E'' \<or> b = CHR ''e'') c then scan_integer (lex_unget_unsave c lx)
      else if is_byte (\<lambda>b. b = CHR ''.'') c then
        (case stream_get lx of
           (Byte b, lx1) \<Rightarrow>
             if \<not> l_isdigit b then stream_unget (Byte b) lx1
             else (case save_while l_isdigit (lex_save b lx1) of (c2, lx2) \<Rightarrow> scan_exponent real_of c2 lx2)
         | (_, lx1) \<Rightarrow> lx1)
      else scan_exponent real_of c lx)"

definition lex_scan_number :: "bool \<Rightarrow> (byte list \<Rightarrow> 'r option) \<Rightarrow> byte \<Rightarrow> 'r lex \<Rightarrow> 'r lex" where
  "lex_scan_number as_real real_of b lx =
     (case (if b = CHR ''-'' then lex_get_save (lx\<lparr>token := TOKEN_INVALID\<rparr>) else (Byte b, lx\<lparr>token := TOKEN_INVALID\<rparr>)) of (c, lx1) \<Rightarrow>
        if is_byte (\<lambda>b. b = CHR ''0'') c then
          (case lex_get_save lx1 of (c2, lx2) \<Rightarrow>
             if is_byte l_isdigit c2 then lex_unget_unsave c2 lx2 else scan_fraction as_real real_of c2 lx2)
        else if is_byte l_isdigit c then (case save_while l_isdigit lx1 of (c2, lx2) \<Rightarrow> scan_fraction as_real real_of c2 lx2)
        else lex_unget_unsave c lx1)"

subsection \<open>Tokens\<close>

definition word_token :: "byte list \<Rightarrow> 'r token" where
  "word_token s = (if s = ''true'' then TOKEN_TRUE else if s = ''false'' then TOKEN_FALSE else if s = ''null'' then TOKEN_NULL else TOKEN_INVALID)"

definition is_punct :: "byte \<Rightarrow> bool" where
  "is_punct b \<longleftrightarrow> b = CHR ''{'' \<or> b = CHR ''}'' \<or> b = CHR ''['' \<or> b = CHR '']'' \<or> b = CHR '':'' \<or> b = CHR '',''"

definition lex_scan :: "bool \<Rightarrow> (byte list \<Rightarrow> 'r option) \<Rightarrow> 'r lex \<Rightarrow> 'r lex run" where
  "lex_scan as_real real_of lx =
     (case lex_skip_space (lx\<lparr>saved_text := []\<rparr>) of
        (Eof, lx1) \<Rightarrow> Inr (lx1\<lparr>token := TOKEN_EOF\<rparr>)
      | (Err, lx1) \<Rightarrow> Inr (lx1\<lparr>token := TOKEN_INVALID\<rparr>)
      | (Byte b, lx1) \<Rightarrow>
          let lx2 = lex_save b lx1 in
          if is_punct b then Inr (lx2\<lparr>token := TOKEN_CHAR b\<rparr>)
          else if b = CHR 0x22 then lex_scan_string lx2
          else if l_isdigit b \<or> b = CHR ''-'' then Inr (lex_scan_number as_real real_of b lx2)
          else if l_isalpha b then
            (case save_while l_isalpha lx2 of (c, lx3) \<Rightarrow>
               let lx4 = lex_unget_unsave c lx3 in Inr (lx4\<lparr>token := word_token (saved_text lx4)\<rparr>))
          else Inr ((lex_save_cached lx2)\<lparr>token := TOKEN_INVALID\<rparr>))"

end
