(* ===== verification/JsonParse.thy ===== *)
theory JsonParse
  imports JsonLoad
begin

text \<open>
  The recursive parser of \<^verbatim>\<open>jansson/src/load.c\<close> and its entry points. A function of the parser gets fuel, which bounds the
  members of a container and the nesting; \<open>NoReturn\<close> stands for running out of it, and \<open>loader_returns\<close> shows that as much fuel as
  the text has bytes, and one more, is enough.
\<close>

section \<open>The parser\<close>

text \<open>\<^verbatim>\<open>json_object_set_nocheck\<close>: the value of a key is replaced in its place, a new key goes to the end.\<close>

fun obj_set :: "byte list \<Rightarrow> 'a \<Rightarrow> (byte list \<times> 'a) list \<Rightarrow> (byte list \<times> 'a) list" where
  "obj_set k v [] = [(k, v)]"
| "obj_set k v ((k', v') # m) = (if k' = k then (k, v) # m else (k', v') # obj_set k v m)"

definition fail :: "string \<Rightarrow> 'r lex \<Rightarrow> ('r json_t option \<times> 'r lex) run" where
  "fail msg lx = Inr (None, error_set msg lx)"

function parse_value :: "nat \<Rightarrow> json_flags \<Rightarrow> (byte list \<Rightarrow> 'r option) \<Rightarrow> 'r lex \<Rightarrow> ('r json_t option \<times> 'r lex) run"
  and parse_object :: "nat \<Rightarrow> json_flags \<Rightarrow> (byte list \<Rightarrow> 'r option) \<Rightarrow> 'r lex \<Rightarrow> ('r json_t option \<times> 'r lex) run"
  and object_loop :: "nat \<Rightarrow> json_flags \<Rightarrow> (byte list \<Rightarrow> 'r option) \<Rightarrow> (byte list \<times> 'r json_t) list \<Rightarrow> 'r lex \<Rightarrow> ('r json_t option \<times> 'r lex) run"
  and parse_array :: "nat \<Rightarrow> json_flags \<Rightarrow> (byte list \<Rightarrow> 'r option) \<Rightarrow> 'r lex \<Rightarrow> ('r json_t option \<times> 'r lex) run"
  and array_loop :: "nat \<Rightarrow> json_flags \<Rightarrow> (byte list \<Rightarrow> 'r option) \<Rightarrow> 'r json_t list \<Rightarrow> 'r lex \<Rightarrow> ('r json_t option \<times> 'r lex) run" where
  "parse_value 0 flags real_of lx = Inl NoReturn"
| "parse_value (Suc fuel) flags real_of lx =
     (let lx1 = lx\<lparr>depth := depth lx + 1\<rparr>;
          ret = (\<lambda>j. Inr (Some j, lx1\<lparr>depth := depth lx1 - 1\<rparr>)) in
      if depth lx1 > JSON_PARSER_MAX_DEPTH then fail ''maximum parsing depth reached'' lx1
      else
        case token lx1 of
          TOKEN_STRING s \<Rightarrow>
            if \<not> JSON_ALLOW_NUL flags \<and> NULB \<in> set s then fail (CHR 0x5C # ''u0000 is not allowed without JSON_ALLOW_NUL'') lx1
            else ret (J_String s)
        | TOKEN_INTEGER i \<Rightarrow> ret (J_Integer i)
        | TOKEN_REAL r \<Rightarrow> ret (J_Real r)
        | TOKEN_TRUE \<Rightarrow> ret J_True
        | TOKEN_FALSE \<Rightarrow> ret J_False
        | TOKEN_NULL \<Rightarrow> ret J_Null
        | TOKEN_CHAR b \<Rightarrow>
            if b = CHR ''{'' \<or> b = CHR ''['' then
              bind_ub (if b = CHR ''{'' then parse_object fuel flags real_of lx1 else parse_array fuel flags real_of lx1)
                (\<lambda>(r, lx2). case r of None \<Rightarrow> Inr (None, lx2) | Some j \<Rightarrow> Inr (Some j, lx2\<lparr>depth := depth lx2 - 1\<rparr>))
            else fail ''unexpected token'' lx1
        | TOKEN_INVALID \<Rightarrow> fail ''invalid token'' lx1
        | TOKEN_EOF \<Rightarrow> fail ''unexpected token'' lx1)"
| "parse_object fuel flags real_of lx =
     bind_ub (lex_scan (JSON_DECODE_INT_AS_REAL flags) real_of lx) (\<lambda>lx1.
       if token lx1 = TOKEN_CHAR (CHR ''}'') then Inr (Some (J_Object []), lx1) else object_loop fuel flags real_of [] lx1)"
| "object_loop 0 flags real_of obj lx = Inl NoReturn"
| "object_loop (Suc fuel) flags real_of obj lx =
     (case token lx of
        TOKEN_STRING key \<Rightarrow>
          if NULB \<in> set key then fail ''NUL byte in object key not supported'' lx
          else if JSON_REJECT_DUPLICATES flags \<and> map_of obj key \<noteq> None then fail ''duplicate object key'' lx
          else
            bind_ub (lex_scan (JSON_DECODE_INT_AS_REAL flags) real_of lx) (\<lambda>lx1.
            if token lx1 \<noteq> TOKEN_CHAR (CHR '':'') then fail (quoted '':'' @ '' expected'') lx1
            else
              bind_ub (lex_scan (JSON_DECODE_INT_AS_REAL flags) real_of lx1) (\<lambda>lx2.
              bind_ub (parse_value fuel flags real_of lx2) (\<lambda>(r, lx3).
                case r of
                  None \<Rightarrow> Inr (None, lx3)
                | Some v \<Rightarrow>
                    bind_ub (lex_scan (JSON_DECODE_INT_AS_REAL flags) real_of lx3) (\<lambda>lx4.
                    if token lx4 = TOKEN_CHAR (CHR '','') then
                      bind_ub (lex_scan (JSON_DECODE_INT_AS_REAL flags) real_of lx4) (\<lambda>lx5.
                        object_loop fuel flags real_of (obj_set key v obj) lx5)
                    else if token lx4 = TOKEN_CHAR (CHR ''}'') then Inr (Some (J_Object (obj_set key v obj)), lx4)
                    else fail (quoted ''}'' @ '' expected'') lx4))))
      | _ \<Rightarrow> fail (''string or '' @ quoted ''}'' @ '' expected'') lx)"
| "parse_array fuel flags real_of lx =
     bind_ub (lex_scan (JSON_DECODE_INT_AS_REAL flags) real_of lx) (\<lambda>lx1.
       if token lx1 = TOKEN_CHAR (CHR '']'') then Inr (Some (J_Array []), lx1) else array_loop fuel flags real_of [] lx1)"
| "array_loop 0 flags real_of arr lx = Inl NoReturn"
| "array_loop (Suc fuel) flags real_of arr lx =
     (if token lx = TOKEN_EOF then fail (quoted '']'' @ '' expected'') lx
      else
        bind_ub (parse_value (Suc fuel) flags real_of lx) (\<lambda>(r, lx1).
          case r of
            None \<Rightarrow> Inr (None, lx1)
          | Some v \<Rightarrow>
              bind_ub (lex_scan (JSON_DECODE_INT_AS_REAL flags) real_of lx1) (\<lambda>lx2.
              if token lx2 = TOKEN_CHAR (CHR '','') then
                bind_ub (lex_scan (JSON_DECODE_INT_AS_REAL flags) real_of lx2) (\<lambda>lx3. array_loop fuel flags real_of (arr @ [v]) lx3)
              else if token lx2 = TOKEN_CHAR (CHR '']'') then Inr (Some (J_Array (arr @ [v])), lx2)
              else fail (quoted '']'' @ '' expected'') lx2)))"
  by pat_completeness auto
termination
  by (relation "measure (\<lambda>x. case x of
      Inl (Inl (f, _)) \<Rightarrow> 3 * f | Inl (Inr (f, _)) \<Rightarrow> 3 * f + 2
    | Inr (Inl (f, _)) \<Rightarrow> 3 * f + 1 | Inr (Inr (Inl (f, _))) \<Rightarrow> 3 * f + 2 | Inr (Inr (Inr (f, _))) \<Rightarrow> 3 * f + 1)") auto

declare parse_value.simps [simp del] parse_object.simps [simp del] object_loop.simps [simp del]
  parse_array.simps [simp del] array_loop.simps [simp del]

definition parse_json :: "nat \<Rightarrow> json_flags \<Rightarrow> (byte list \<Rightarrow> 'r option) \<Rightarrow> 'r lex \<Rightarrow> ('r json_t option \<times> 'r lex) run" where
  "parse_json fuel flags real_of lx =
     bind_ub (lex_scan (JSON_DECODE_INT_AS_REAL flags) real_of (lx\<lparr>depth := 0\<rparr>)) (\<lambda>lx1.
       if \<not> JSON_DECODE_ANY flags \<and> token lx1 \<noteq> TOKEN_CHAR (CHR ''['') \<and> token lx1 \<noteq> TOKEN_CHAR (CHR ''{'')
       then fail (quoted ''['' @ '' or '' @ quoted ''{'' @ '' expected'') lx1
       else
         bind_ub (parse_value fuel flags real_of lx1) (\<lambda>(r, lx2).
           case r of
             None \<Rightarrow> Inr (None, lx2)
           | Some j \<Rightarrow>
               let saved = (\<lambda>l. Inr (Some j, l\<lparr>jerror := (jerror l)\<lparr>e_position := position l\<rparr>\<rparr>)) in
               if JSON_DISABLE_EOF_CHECK flags then saved lx2
               else
                 bind_ub (lex_scan (JSON_DECODE_INT_AS_REAL flags) real_of lx2) (\<lambda>lx3.
                   if token lx3 \<noteq> TOKEN_EOF then fail ''end of file expected'' lx3 else saved lx3)))"

section \<open>Entry points\<close>

definition lex_init :: "byte list \<Rightarrow> 'r lex" where
  "lex_init s =
     \<lparr>get_rest = s, sbuffer = [], buffer_pos = 0, sstate = STREAM_STATE_OK, line = 1, column = 0, last_column = 0, position = 0,
      saved_text = [], depth = 0, token = TOKEN_INVALID, jerror = jsonp_error_init\<rparr>"

definition load_bytes :: "json_flags \<Rightarrow> (byte list \<Rightarrow> 'r option) \<Rightarrow> byte list \<Rightarrow> ('r json_t option \<times> json_error) run" where
  "load_bytes flags real_of s =
     map_sum id (\<lambda>(r, lx). (r, jerror lx)) (parse_json (length s + 1) flags real_of (lex_init s))"

definition wrong_arguments :: "string \<Rightarrow> json_error" where
  "wrong_arguments msg = jsonp_error_set (-1) (-1) 0 msg jsonp_error_init"

text \<open>\<^verbatim>\<open>json_loads\<close> reads up to the first null byte, \<^verbatim>\<open>json_loadb\<close> the whole_chars buffer; None is a null pointer.\<close>

definition json_loads :: "json_flags \<Rightarrow> (byte list \<Rightarrow> 'r option) \<Rightarrow> byte list option \<Rightarrow> ('r json_t option \<times> json_error) run" where
  "json_loads flags real_of string =
     (case string of None \<Rightarrow> Inr (None, wrong_arguments ''wrong arguments'') | Some s \<Rightarrow> load_bytes flags real_of (cstr s))"

definition json_loadb :: "json_flags \<Rightarrow> (byte list \<Rightarrow> 'r option) \<Rightarrow> byte list option \<Rightarrow> ('r json_t option \<times> json_error) run" where
  "json_loadb flags real_of buffer =
     (case buffer of None \<Rightarrow> Inr (None, wrong_arguments ''wrong arguments'') | Some s \<Rightarrow> load_bytes flags real_of s)"

text \<open>A file is what \<open>fgetc\<close> delivers before the end or an error of reading.\<close>

definition json_loadf :: "json_flags \<Rightarrow> (byte list \<Rightarrow> 'r option) \<Rightarrow> byte list option \<Rightarrow> ('r json_t option \<times> json_error) run" where
  "json_loadf flags real_of input = json_loadb flags real_of input"

text \<open>\<open>files\<close> stands for \<open>fopen\<close>: the contents, or the text of the error.\<close>

definition json_load_file ::
  "json_flags \<Rightarrow> (byte list \<Rightarrow> 'r option) \<Rightarrow> (string \<Rightarrow> string + byte list) \<Rightarrow> string option \<Rightarrow> ('r json_t option \<times> json_error) run" where
  "json_load_file flags real_of files path =
     (case path of
        None \<Rightarrow> Inr (None, wrong_arguments ''wrong arguments'')
      | Some p \<Rightarrow>
          (case files p of
             Inl msg \<Rightarrow> Inr (None, wrong_arguments (''unable to open '' @ p @ '': '' @ msg))
           | Inr contents \<Rightarrow> json_loadf flags real_of (Some contents)))"

end
