(* ===== verification/JsonSafe.thy ===== *)
theory JsonSafe
  imports JsonParse
begin

text \<open>
  The reader of JSON returns and stays in its buffers on every input: the lexer consumes a byte for each token, the decoder of
  strings finds the escapes that the scanner has checked, and what is built is a well-formed document.
\<close>

section \<open>The lexer consumes its input\<close>

lemma lex_skip_space_left: "lex_skip_space lx = (c, lx') \<Longrightarrow> ahead c lx' \<le> left lx"
proof (induction lx rule: lex_skip_space.induct)
  case (1 lx)
  obtain c1 lx1 where g: "stream_get lx = (c1, lx1)" by fastforce
  have "left lx1 \<le> ahead c1 lx1" by (simp add: ahead_def)
  with 1 g stream_get_left [OF g] show ?case by (auto simp: lex_skip_space.simps [of lx] split: if_splits)
qed

lemma save_while_left: "save_while Q lx = (c, lx') \<Longrightarrow> ahead c lx' \<le> left lx"
proof (induction Q lx rule: save_while.induct)
  case (1 Q lx)
  obtain c1 lx1 where g: "lex_get_save lx = (c1, lx1)" by fastforce
  have "left lx1 \<le> ahead c1 lx1" by (simp add: ahead_def)
  with 1 g get_save_left [OF g] show ?case by (auto simp: save_while.simps [of Q lx] split: if_splits)
qed

lemma ahead_le: "left lx \<le> ahead c lx" by (simp add: ahead_def)

lemma scan_hex_stops: "scan_hex n c lx = (None, lx') \<Longrightarrow> left lx' \<le> ahead c lx"
proof (induction n c lx rule: scan_hex.induct)
  case (2 n c lx)
  show ?case
  proof (cases "is_byte l_isxdigit c")
    case False
    with 2(2) ahead_le [of lx c] show ?thesis by auto
  next
    case True
    obtain c1 lx1 where g: "lex_get_save lx = (c1, lx1)" by fastforce
    with 2 True have "left lx' \<le> ahead c1 lx1" by auto
    with get_save_left [OF g] ahead_le [of lx c] show ?thesis by linarith
  qed
qed simp

lemmas string_loop_got = string_loop.simps [of "Byte b" for b] string_loop.simps [of Eof] string_loop.simps [of Err]

lemma string_loop_left: "string_loop c lx = (r, lx') \<Longrightarrow> left lx' \<le> ahead c lx"
proof (induction c lx arbitrary: r lx' rule: string_loop.induct)
  case (1 c lx)
  show ?case
  proof (cases c)
    case (Byte b)
    obtain c1 lx1 where g: "lex_get_save lx = (c1, lx1)" by fastforce
    obtain c2 lx2 where g2: "lex_get_save lx1 = (c2, lx2)" by fastforce
    have l: "ahead c1 lx1 \<le> ahead c lx" "ahead c2 lx2 \<le> ahead c lx" "left lx1 \<le> ahead c lx" "left lx \<le> ahead c lx"
      using get_save_left [OF g] get_save_left [OF g2] ahead_le [of lx1 c1] ahead_le [of lx c] by linarith+
    consider "b = CHR 0x22" | "b \<noteq> CHR 0x22" "code b \<le> 0x1F" | "b = CHR 0x5C" "is_byte (\<lambda>b. b = CHR ''u'') c1"
      | "b = CHR 0x5C" "\<not> is_byte (\<lambda>b. b = CHR ''u'') c1" "is_byte short_escape c1" | "b = CHR 0x5C" "\<not> is_byte (\<lambda>b. b = CHR ''u'') c1" "\<not> is_byte short_escape c1"
      | "b \<noteq> CHR 0x22" "\<not> code b \<le> 0x1F" "b \<noteq> CHR 0x5C" by blast
    then show ?thesis
    proof cases
      case 1
      then show ?thesis using "1.prems" Byte l(4) by (simp add: string_loop_got)
    next
      case 2
      then show ?thesis using "1.prems" Byte unget_unsave_left [of c lx] by (auto simp: string_loop_got Let_def)
    next
      case 3
      obtain o3 lx3 where h: "scan_hex 4 c2 lx2 = (o3, lx3)" by fastforce
      show ?thesis
      proof (cases o3)
        case None
        with scan_hex_stops [of 4 c2 lx2 lx3] h have "left lx3 \<le> ahead c2 lx2" by simp
        then show ?thesis using "1.prems" Byte 3 g g2 h None l by (simp add: string_loop_got)
      next
        case (Some c3)
        with h scan_hex_left [of 4 c2 lx2 c3 lx3] have "ahead c3 lx3 \<le> ahead c2 lx2" by simp
        moreover have "string_loop c3 lx3 = (r, lx')" using "1.prems" Byte 3 g g2 h Some by (simp add: string_loop_got)
        with "1.IH"(1) [of b c1 lx1 c2 lx2 o3 lx3 c3] Byte 3 g g2 h Some have "left lx' \<le> ahead c3 lx3" by simp
        ultimately show ?thesis using l by linarith
      qed
    next
      case 4
      then have "string_loop c2 lx2 = (r, lx')" using "1.prems" Byte g g2 by (simp add: string_loop_got)
      with "1.IH"(2) [of b c1 lx1 c2 lx2] Byte 4 g g2 l show ?thesis by fastforce
    next
      case 5
      then show ?thesis using "1.prems" Byte g l by (auto simp: string_loop_got)
    next
      case 6
      then have "string_loop c1 lx1 = (r, lx')" using "1.prems" Byte g by (simp add: string_loop_got)
      with "1.IH"(3) [of b c1 lx1] Byte 6 g l show ?thesis by fastforce
    qed
  qed (use "1.prems" ahead_le [of lx c] in \<open>auto simp: string_loop_got\<close>)
qed

lemma scan_string_left: "lex_scan_string lx = Inr lx' \<Longrightarrow> left lx' \<le> left lx"
proof -
  assume r: "lex_scan_string lx = Inr lx'"
  obtain c lx1 where g: "lex_get_save (lx\<lparr>token := TOKEN_INVALID\<rparr>) = (c, lx1)" by fastforce
  obtain ok lx2 where l: "string_loop c lx1 = (ok, lx2)" by fastforce
  have "left lx' = left lx2" 
    using r g l by (cases ok; cases "unescape (tl (saved_text lx2))") (auto simp: lex_scan_string_def split: sum.splits)
  with string_loop_left [OF l] get_save_left [OF g] show ?thesis by simp
qed

lemma scan_integer_left [simp]: "left (scan_integer lx) = left lx"
  by (simp add: scan_integer_def Let_def)

lemma scan_real_left [simp]: "left (scan_real f lx) = left lx"
  by (simp add: scan_real_def split: option.split)

lemma scan_exponent_left: "left (scan_exponent f c lx) \<le> ahead c lx"
proof (cases "is_byte (\<lambda>b. b = CHR ''E'' \<or> b = CHR ''e'') c")
  case True
  obtain c1 lx1 where g: "lex_get_save lx = (c1, lx1)" by fastforce
  obtain c2 lx2 where s: "(if is_byte (\<lambda>b. b = CHR ''+'' \<or> b = CHR ''-'') c1 then lex_get_save lx1 else (c1, lx1)) = (c2, lx2)" by fastforce
  obtain c3 lx3 where w: "save_while l_isdigit lx2 = (c3, lx3)" by fastforce
  have "ahead c2 lx2 \<le> ahead c1 lx1" using s get_save_left [of lx1 c2 lx2] ahead_le [of lx1 c1] by (auto split: if_splits)
  moreover have "left (scan_exponent f c lx) \<le> ahead c2 lx2"
    using True g s w unget_unsave_left [of c2 lx2] unget_unsave_left [of c3 lx3] save_while_left [OF w] ahead_le [of lx2 c2]
    by (simp add: scan_exponent_def split del: if_split) (simp split: if_split)
  ultimately show ?thesis using get_save_left [OF g] ahead_le [of lx c] by linarith
next
  case False
  with unget_unsave_left [of c lx] show ?thesis by (simp add: scan_exponent_def)
qed

lemma scan_fraction_left: "left (scan_fraction a f c lx) \<le> ahead c lx"
proof (cases "is_byte (\<lambda>b. b = CHR ''.'') c")
  case True
  then have "\<not> (\<not> a \<and> \<not> is_byte (\<lambda>b. b = CHR ''.'' \<or> b = CHR ''E'' \<or> b = CHR ''e'') c)" by (auto simp: is_byte_def split: got.splits)
  moreover obtain g lx1 where g: "stream_get lx = (g, lx1)" by fastforce
  moreover have "left (case g of Byte b \<Rightarrow> if \<not> l_isdigit b then stream_unget (Byte b) lx1
         else (case save_while l_isdigit (lex_save b lx1) of (c2, lx2) \<Rightarrow> scan_exponent f c2 lx2) | _ \<Rightarrow> lx1) \<le> ahead g lx1"
  proof (cases g)
    case (Byte b)
    obtain c2 lx2 where w: "save_while l_isdigit (lex_save b lx1) = (c2, lx2)" by fastforce
    from save_while_left [OF w] scan_exponent_left [of f c2 lx2] unget_left [of g lx1] ahead_le [of lx1 g] w Byte show ?thesis by simp
  qed (use ahead_le [of lx1 g] in auto)
  ultimately show ?thesis using True stream_get_left [OF g] ahead_le [of lx c] unget_unsave_left [of c lx] by (cases g) (simp_all add: scan_fraction_def)
next
  case False
  with unget_unsave_left [of c lx] scan_exponent_left [of f c lx] show ?thesis by (simp add: scan_fraction_def)
qed

lemma scan_number_left: "l_isdigit b \<or> b = CHR ''-'' \<Longrightarrow> left (lex_scan_number a f b lx) \<le> left lx"
proof -
  assume b: "l_isdigit b \<or> b = CHR ''-''"
  define lx0 where "lx0 = lx\<lparr>token := TOKEN_INVALID\<rparr>"
  obtain c lx1 where s: "(if b = CHR ''-'' then lex_get_save lx0 else (Byte b, lx0)) = (c, lx1)" by fastforce
  obtain c2 lx2 where g: "lex_get_save lx1 = (c2, lx2)" by fastforce
  obtain c3 lx3 where w: "save_while l_isdigit lx1 = (c3, lx3)" by fastforce
  have l0: "left lx0 = left lx" by (simp add: lx0_def)
  have l1: "left lx1 \<le> left lx" "b = CHR ''-'' \<Longrightarrow> ahead c lx1 \<le> left lx" "b \<noteq> CHR ''-'' \<Longrightarrow> c = Byte b"
    using s get_save_left [of lx0 c lx1] ahead_le [of lx1 c] l0 by (auto split: if_splits)
  have d: "\<not> is_byte l_isdigit c \<Longrightarrow> b = CHR ''-''" using l1(3) b by (cases "b = CHR ''-''") (auto simp: is_byte_def)
  have "lex_scan_number a f b lx =
     (if is_byte (\<lambda>b. b = CHR ''0'') c then if is_byte l_isdigit c2 then lex_unget_unsave c2 lx2 else scan_fraction a f c2 lx2
      else if is_byte l_isdigit c then scan_fraction a f c3 lx3 else lex_unget_unsave c lx1)"
    by (simp only: lex_scan_number_def lx0_def [symmetric] s prod.case g w)
  moreover have "left (lex_unget_unsave c2 lx2) \<le> left lx" "left (scan_fraction a f c2 lx2) \<le> left lx"
    using unget_unsave_left [of c2 lx2] scan_fraction_left [of a f c2 lx2] get_save_left [OF g] l1(1) by linarith+
  moreover have "left (scan_fraction a f c3 lx3) \<le> left lx"
    using scan_fraction_left [of a f c3 lx3] save_while_left [OF w] l1(1) by linarith
  moreover have "\<not> is_byte l_isdigit c \<Longrightarrow> left (lex_unget_unsave c lx1) \<le> left lx"
    using unget_unsave_left [of c lx1] l1(2) d by fastforce
  ultimately show ?thesis by simp
qed

text \<open>What the parser needs: fuel for the bytes that are left, and nothing for a token that ends it.\<close>

definition need :: "'r lex \<Rightarrow> nat" where
  "need lx = (if token lx = TOKEN_INVALID \<or> token lx = TOKEN_EOF then 1 else left lx + 2)"

lemma lex_scan_left: "lex_scan a f lx = Inr lx' \<Longrightarrow> left lx' \<le> left lx \<and> need lx' \<le> left lx + 1"
proof -
  assume r: "lex_scan a f lx = Inr lx'"
  obtain c lx1 where g: "lex_skip_space (lx\<lparr>saved_text := []\<rparr>) = (c, lx1)" by fastforce
  have l: "ahead c lx1 \<le> left lx" using lex_skip_space_left [OF g] by simp
  show ?thesis
  proof (cases c)
    case (Byte b)
    define lx2 where "lx2 = lex_save b lx1"
    have l2: "Suc (left lx2) \<le> left lx" using l Byte by (simp add: lx2_def ahead_def)
    obtain c3 lx3 where w: "save_while l_isalpha lx2 = (c3, lx3)" by fastforce
    have w3: "left (lex_unget_unsave c3 lx3) \<le> left lx2" using save_while_left [OF w] unget_unsave_left [of c3 lx3] by linarith
    consider "is_punct b" | "\<not> is_punct b" "b = CHR 0x22" | "\<not> is_punct b" "b \<noteq> CHR 0x22" "l_isdigit b \<or> b = CHR ''-''"
      | "\<not> is_punct b" "b \<noteq> CHR 0x22" "\<not> (l_isdigit b \<or> b = CHR ''-'')" "l_isalpha b"
      | "\<not> is_punct b" "b \<noteq> CHR 0x22" "\<not> (l_isdigit b \<or> b = CHR ''-'')" "\<not> l_isalpha b" by blast
    then have "left lx' \<le> left lx2 \<or> token lx' = TOKEN_INVALID \<and> left lx' \<le> left lx"
    proof cases
      case 1 with r g Byte lx2_def show ?thesis by (auto simp: lex_scan_def Let_def)
    next
      case 2 with r g Byte lx2_def scan_string_left [of lx2 lx'] show ?thesis by (simp add: lex_scan_def Let_def)
    next
      case 3 with r g Byte lx2_def scan_number_left [of b a f lx2] show ?thesis by (auto simp: lex_scan_def Let_def)
    next
      case 4 with r g Byte lx2_def w w3 show ?thesis by (auto simp: lex_scan_def Let_def)
    next
      case 5
      then have "lx' = (lex_save_cached lx2)\<lparr>token := TOKEN_INVALID\<rparr>" using r g Byte lx2_def by (simp add: lex_scan_def Let_def)
      moreover have "left (lex_save_cached lx2) \<le> left lx2" by (auto simp: lex_save_cached_def left_def Let_def)
      ultimately show ?thesis by simp
    qed
    with l2 show ?thesis by (auto simp: need_def)
  qed (use r g l ahead_le [of lx1 c] in \<open>auto simp: lex_scan_def need_def\<close>)
qed

section \<open>Strings stay in the text\<close>

text \<open>What stands between the quotes of a string that the scanner accepts.\<close>

function escaped :: "byte list \<Rightarrow> bool" where
  "escaped [] = True"
| "escaped (c # p) =
     (if c = CHR 0x5C then
        (case p of
           [] \<Rightarrow> False
         | e # q \<Rightarrow> if e = CHR ''u'' then 4 \<le> length q \<and> list_all l_isxdigit (take 4 q) \<and> escaped (drop 4 q) else short_escape e \<and> escaped q)
      else c \<noteq> CHR 0x22 \<and> 0x1F < code c \<and> escaped p)"
  by pat_completeness auto
termination by (relation "measure length") auto

declare escaped.simps(2) [simp del]

definition ends :: "got \<Rightarrow> 'r lex \<Rightarrow> byte list \<Rightarrow> bool" where
  "ends c lx pre \<longleftrightarrow> saved_text lx = pre @ (case c of Byte b \<Rightarrow> [b] | _ \<Rightarrow> [])"

lemma stream_get_same: "stream_get lx = (c, lx') \<Longrightarrow> saved_text lx' = saved_text lx \<and> depth lx' = depth lx \<and> token lx' = token lx"
  by (auto simp: stream_get_def deliver_def stream_fail_def error_set_def Let_def split: stream_state.splits list.splits if_splits)

lemma get_save_ends: "lex_get_save lx = (c, lx') \<Longrightarrow> ends c lx' (saved_text lx)"
  using stream_get_same [of lx] by (fastforce simp: lex_get_save_def ends_def lex_save_def split: prod.splits got.splits)

lemma is_byte_iff: "is_byte Q c \<longleftrightarrow> (\<exists>b. c = Byte b \<and> Q b)"
  by (cases c) (auto simp: is_byte_def)

lemma scan_hex_ends:
  "ends c lx pre \<Longrightarrow> scan_hex n c lx = (Some c', lx') \<Longrightarrow> \<exists>hs. length hs = n \<and> list_all l_isxdigit hs \<and> ends c' lx' (pre @ hs)"
proof (induction n c lx arbitrary: pre rule: scan_hex.induct)
  case (2 n c lx)
  obtain c1 lx1 where g: "lex_get_save lx = (c1, lx1)" by fastforce
  from 2(3) obtain b where b: "c = Byte b" "l_isxdigit b" by (auto simp: is_byte_iff split: if_splits)
  with 2(2) get_save_ends [OF g] have "ends c1 lx1 (pre @ [b])" by (simp add: ends_def)
  moreover have "scan_hex n c1 lx1 = (Some c', lx')" using 2(3) b g by (simp add: is_byte_iff)
  ultimately obtain hs where "length hs = n" "list_all l_isxdigit hs" "ends c' lx' ((pre @ [b]) @ hs)"
    using 2(1) [of c1 lx1 "pre @ [b]"] b g by (auto simp: is_byte_iff)
  with b show ?case by (intro exI [of _ "b # hs"]) simp
qed (simp add: ends_def)

lemma escaped_append4: "length hs = 4 \<Longrightarrow> list_all l_isxdigit hs \<Longrightarrow> escaped (CHR 0x5C # CHR ''u'' # hs @ p) = escaped p"
  by (simp add: escaped.simps)

lemma string_loop_text:
  "ends c lx pre \<Longrightarrow> string_loop c lx = (True, lx') \<Longrightarrow> \<exists>body. saved_text lx' = pre @ body @ [CHR 0x22] \<and> escaped body"
proof (induction c lx arbitrary: pre rule: string_loop.induct)
  case (1 c lx)
  from "1.prems"(2) obtain b where b: "c = Byte b" by (cases c) (auto simp: string_loop_got)
  then have sv: "saved_text lx = pre @ [b]" using "1.prems"(1) by (simp add: ends_def)
  obtain c1 lx1 where g: "lex_get_save lx = (c1, lx1)" by fastforce
  obtain c2 lx2 where g2: "lex_get_save lx1 = (c2, lx2)" by fastforce
  have e1: "ends c1 lx1 (pre @ [b])" using get_save_ends [OF g] sv by simp
  have e2: "ends c2 lx2 (saved_text lx1)" using get_save_ends [OF g2] .
  consider "b = CHR 0x22" | "b \<noteq> CHR 0x22" "code b \<le> 0x1F" | "b = CHR 0x5C" "is_byte (\<lambda>b. b = CHR ''u'') c1"
    | "b = CHR 0x5C" "\<not> is_byte (\<lambda>b. b = CHR ''u'') c1" "is_byte short_escape c1" | "b = CHR 0x5C" "\<not> is_byte (\<lambda>b. b = CHR ''u'') c1" "\<not> is_byte short_escape c1"
    | "b \<noteq> CHR 0x22" "\<not> code b \<le> 0x1F" "b \<noteq> CHR 0x5C" by blast
  then show ?case
  proof cases
    case 1
    then have "lx' = lx" using "1.prems"(2) b by (simp add: string_loop_got)
    with 1 sv show ?thesis by (intro exI [of _ "[]"]) simp
  next
    case 2
    then show ?thesis using "1.prems"(2) b by (auto simp: string_loop_got Let_def)
  next
    case 3
    then have s1: "saved_text lx1 = pre @ [CHR 0x5C, CHR ''u'']" using e1 by (auto simp: is_byte_iff ends_def)
    obtain o3 lx3 where h: "scan_hex 4 c2 lx2 = (o3, lx3)" by fastforce
    then obtain c3 where c3: "o3 = Some c3" "string_loop c3 lx3 = (True, lx')" using "1.prems"(2) b 3 g g2 by (cases o3) (auto simp: string_loop_got)
    from scan_hex_ends [OF e2, of 4 c3 lx3] h c3(1) s1 obtain hs where hs: "length hs = 4" "list_all l_isxdigit hs" "ends c3 lx3 (pre @ [CHR 0x5C, CHR ''u''] @ hs)"
      by auto
    from "1.IH"(1) [of b c1 lx1 c2 lx2 o3 lx3 c3, OF b _ _ _ _ _ _ _ _ hs(3) c3(2)] b 3 g g2 h c3(1)
    obtain body where "saved_text lx' = (pre @ [CHR 0x5C, CHR ''u''] @ hs) @ body @ [CHR 0x22]" "escaped body" by auto
    with escaped_append4 [OF hs(1,2), of body] show ?thesis by (intro exI [of _ "CHR 0x5C # CHR ''u'' # hs @ body"]) simp
  next
    case 4
    then obtain e where e: "c1 = Byte e" "short_escape e" "e \<noteq> CHR ''u''" by (auto simp: is_byte_iff)
    then have "ends c2 lx2 (pre @ [b, e])" using e1 e2 by (simp add: ends_def)
    moreover have "string_loop c2 lx2 = (True, lx')" using "1.prems"(2) b 4 g g2 by (simp add: string_loop_got)
    ultimately obtain body where "saved_text lx' = (pre @ [b, e]) @ body @ [CHR 0x22]" "escaped body"
      using "1.IH"(2) [of b c1 lx1 c2 lx2 "pre @ [b, e]"] b 4 g g2 by auto
    with 4 e show ?thesis by (intro exI [of _ "b # e # body"]) (simp add: escaped.simps)
  next
    case 5
    then show ?thesis using "1.prems"(2) b g by (auto simp: string_loop_got)
  next
    case 6
    then have "string_loop c1 lx1 = (True, lx')" using "1.prems"(2) b g by (simp add: string_loop_got)
    then obtain body where "saved_text lx' = (pre @ [b]) @ body @ [CHR 0x22]" "escaped body"
      using "1.IH"(3) [of b c1 lx1 "pre @ [b]"] e1 b 6 g by auto
    with 6 show ?thesis by (intro exI [of _ "b # body"]) (simp add: escaped.simps)
  qed
qed

end
