(* ===== verification/JsonStr.thy ===== *)
theory JsonStr
  imports JsonSafe
begin

text \<open>
  The decoder of strings, the second loop of \<^verbatim>\<open>lex_scan_string\<close>: on a text that the first loop accepts it has a value or one of its own
  messages, and the value is valid UTF-8 if the text is.
\<close>

lemma hex_val_digit: "l_isxdigit b \<Longrightarrow> \<exists>v. hex_val b = Some v \<and> v < 16"
  by (auto simp: l_isxdigit_def hex_val_def l_isdigit_def l_islower_def l_isupper_def)

lemma decode_digits:
  assumes "list_all l_isxdigit hs" "length hs = 4"
  shows "\<exists>v. decode_unicode_escape (hs @ r) = Some v \<and> v < 0x10000"
proof -
  from assms(2) obtain h0 h1 h2 h3 where hs: "hs = [h0, h1, h2, h3]"
    by (auto simp: eval_nat_numeral length_Suc_conv)
  with assms(1) obtain a b c d where v: "hex_val h0 = Some a" "hex_val h1 = Some b" "hex_val h2 = Some c" "hex_val h3 = Some d"
    and l: "a < 16" "b < 16" "c < 16" "d < 16" by (auto simp: hs dest!: hex_val_digit)
  have "((a * 16 + b) * 16 + c) * 16 + d < 0x10000" using l by simp
  with v show ?thesis by (simp add: hs decode_unicode_escape_def buf_at_def)
qed

lemma utf8_encode_valid: "valid_cp v \<Longrightarrow> utf8_encode (int v) = Some (enc v)"
  by (simp add: enc_def utf8_encode_def valid_cp_def)

definition ascii :: "byte list \<Rightarrow> bool" where "ascii s \<longleftrightarrow> list_all (\<lambda>b. code b < 0x80) s"

lemma ascii_simps [simp]: "ascii []" "ascii (b # s) \<longleftrightarrow> code b < 0x80 \<and> ascii s" "ascii (s @ t) \<longleftrightarrow> ascii s \<and> ascii t"
  by (simp_all add: ascii_def)

lemma ascii_hex: "list_all l_isxdigit hs \<Longrightarrow> ascii hs"
  by (auto simp: ascii_def l_isxdigit_def l_isdigit_def elim!: list.pred_mono_strong)

lemma escaped_u: "escaped (CHR 0x5C # CHR ''u'' # q) \<longleftrightarrow> 4 \<le> length q \<and> list_all l_isxdigit (take 4 q) \<and> escaped (drop 4 q)"
  by (simp add: escaped.simps)

lemma unescape_pair:
  assumes "decode_unicode_escape x = Some v" "0xD800 \<le> v" "v \<le> 0xDBFF" "buf_at x 4 = CHR 0x5C" "buf_at x 5 = CHR ''u''"
    "decode_unicode_escape (drop 6 x) = Some w" "0xDC00 \<le> w" "w \<le> 0xDFFF"
  shows "unescape (CHR 0x5C # CHR ''u'' # x) = push (enc ((v - 0xD800) * 1024 + (w - 0xDC00) + 0x10000)) (unescape (drop 10 x))"
proof -
  have "valid_cp ((v - 0xD800) * 1024 + (w - 0xDC00) + 0x10000)" using assms(2,3,7,8) unfolding valid_cp_def by linarith
  from utf8_encode_valid [OF this] assms show ?thesis by (simp add: unescape.simps(2) del: of_nat_add of_nat_mult of_nat_diff)
qed

lemma unescape_lone:
  assumes "decode_unicode_escape x = Some v" "0xD800 \<le> v" "v \<le> 0xDFFF"
    "\<not> (v \<le> 0xDBFF \<and> buf_at x 4 = CHR 0x5C \<and> buf_at x 5 = CHR ''u'') \<or>
     (\<exists>w. decode_unicode_escape (drop 6 x) = Some w \<and> \<not> (0xDC00 \<le> w \<and> w \<le> 0xDFFF))"
  shows "\<exists>m. unescape (CHR 0x5C # CHR ''u'' # x) = Inr (Inl m)"
  using assms by (cases "v \<le> 0xDBFF") (auto simp: unescape.simps(2) simp del: of_nat_add of_nat_mult of_nat_diff)

text \<open>One escape \<open>\u\<close>, or a pair of them.\<close>

lemma unescape_u:
  assumes "escaped (CHR 0x5C # CHR ''u'' # q)"
  shows "(\<exists>m. unescape (CHR 0x5C # CHR ''u'' # q @ CHR 0x22 # t) = Inr (Inl m)) \<or>
     (\<exists>cp pre q'. valid_cp cp \<and> unescape (CHR 0x5C # CHR ''u'' # q @ CHR 0x22 # t) = push (enc cp) (unescape (q' @ CHR 0x22 # t)) \<and>
        escaped q' \<and> ascii pre \<and> q = pre @ q')"
proof -
  obtain hs q1 where q: "q = hs @ q1" and hs: "length hs = 4" "list_all l_isxdigit hs" and e1: "escaped q1"
    using assms unfolding escaped_u by (metis append_take_drop_id length_take min_absorb2)
  from decode_digits [OF hs(2,1)] obtain v where v: "decode_unicode_escape (hs @ q1 @ CHR 0x22 # t) = Some v" "v < 0x10000" by blast
  have at: "buf_at (hs @ q1 @ CHR 0x22 # t) 4 = hd (q1 @ [CHR 0x22])" "drop 4 (hs @ q1 @ CHR 0x22 # t) = q1 @ CHR 0x22 # t"
    using hs(1) by (cases q1; simp add: buf_at_def nth_append)+
  consider "0xD800 \<le> v" "v \<le> 0xDBFF" "hd (q1 @ [CHR 0x22]) = CHR 0x5C \<and> buf_at (hs @ q1 @ CHR 0x22 # t) 5 = CHR ''u''"
    | "0xD800 \<le> v" "v \<le> 0xDBFF" "\<not> (hd (q1 @ [CHR 0x22]) = CHR 0x5C \<and> buf_at (hs @ q1 @ CHR 0x22 # t) 5 = CHR ''u'')"
    | "0xDC00 \<le> v" "v \<le> 0xDFFF" | "valid_cp v" using v(2) by (fastforce simp: valid_cp_def)
  then show ?thesis
  proof cases
    case 1
    then obtain e q2 where q1: "q1 = CHR 0x5C # e # q2" using e1 by (cases q1; cases "tl q1") (auto simp: escaped.simps)
    with 1(3) hs(1) have e: "e = CHR ''u''" by (simp add: buf_at_def nth_append)
    obtain hs2 q3 where q2: "q2 = hs2 @ q3" and hs2: "length hs2 = 4" "list_all l_isxdigit hs2" and e3: "escaped q3"
      using e1 unfolding q1 e escaped_u by (metis append_take_drop_id length_take min_absorb2)
    from decode_digits [OF hs2(2,1)] obtain w where w: "decode_unicode_escape (hs2 @ q3 @ CHR 0x22 # t) = Some w" "w < 0x10000" by blast
    have d: "drop 6 (hs @ q1 @ CHR 0x22 # t) = hs2 @ q3 @ CHR 0x22 # t" "drop 10 (hs @ q1 @ CHR 0x22 # t) = q3 @ CHR 0x22 # t"
      using hs(1) hs2(1) by (simp_all add: q1 q2)
    show ?thesis
    proof (cases "0xDC00 \<le> w \<and> w \<le> 0xDFFF")
      case True
      define cp where "cp = (v - 0xD800) * 1024 + (w - 0xDC00) + 0x10000"
      have "valid_cp cp" using 1 True unfolding valid_cp_def cp_def by linarith
      then have "unescape (CHR 0x5C # CHR ''u'' # q @ CHR 0x22 # t) = push (enc cp) (unescape (q3 @ CHR 0x22 # t))"
        using unescape_pair [of "hs @ q1 @ CHR 0x22 # t" v w] 1 v(1) at(1) w(1) True unfolding d q cp_def by simp
      moreover have "q = (hs @ [CHR 0x5C, e] @ hs2) @ q3" by (simp add: q q1 q2)
      ultimately show ?thesis using \<open>valid_cp cp\<close> e3 ascii_hex [OF hs(2)] ascii_hex [OF hs2(2)] e
        by (intro disjI2 exI [of _ cp] exI [of _ "hs @ [CHR 0x5C, e] @ hs2"] exI [of _ q3]) simp
    next
      case False
      then show ?thesis using unescape_lone [of "hs @ q1 @ CHR 0x22 # t" v] 1(1,2) v(1) w(1) unfolding d q by simp
    qed
  next
    case 2
    then show ?thesis using unescape_lone [of "hs @ q1 @ CHR 0x22 # t" v] v(1) unfolding at(1) [symmetric] q by simp
  next
    case 3
    then show ?thesis using unescape_lone [of "hs @ q1 @ CHR 0x22 # t" v] v(1) unfolding q by simp
  next
    case 4
    then have "unescape (CHR 0x5C # CHR ''u'' # q @ CHR 0x22 # t) = push (enc v) (unescape (q1 @ CHR 0x22 # t))"
      using v at utf8_encode_valid [of v] by (auto simp: unescape.simps(2) q valid_cp_def)
    with 4 e1 ascii_hex [OF hs(2)] q show ?thesis by blast
  qed
qed

lemma simple_short: "short_escape e \<Longrightarrow> \<exists>b. simple_escape e = Some b \<and> code b < 0x80 \<and> code e < 0x80 \<and> e \<noteq> CHR ''u''"
  by (auto simp: short_escape_def simple_escape_def)

lemma push_Inr [simp]: "push s (Inr (Inl m)) = Inr (Inl m)" "push s (Inr (Inr r)) = Inr (Inr (s @ r))"
  by (simp_all add: push_def)

lemma unescape_defined: "escaped body \<Longrightarrow> \<exists>r. unescape (body @ CHR 0x22 # t) = Inr r"
proof (induction body rule: length_induct)
  case (1 body)
  have p: "\<exists>r. push s (unescape (q @ CHR 0x22 # t)) = Inr r" if "escaped q" "length q < length body" for q s
    using 1(1) that by (auto simp: push_def)
  show ?case
  proof (cases body)
    case Nil
    then show ?thesis by (simp add: unescape.simps)
  next
    case (Cons c p)
    note p' = p
    consider q where "c = CHR 0x5C" "p = CHR ''u'' # q" | e q where "c = CHR 0x5C" "p = e # q" "short_escape e" "escaped q"
      | "c \<noteq> CHR 0x5C" "c \<noteq> CHR 0x22" "escaped p"
      using 1(2) Cons by (cases p) (auto simp: escaped.simps split: if_splits)
    then show ?thesis
    proof cases
      case 1
      with unescape_u [of q t] "1.prems" Cons p show ?thesis by fastforce
    next
      case 2
      with simple_short [of e] p [of q] Cons show ?thesis by (auto simp: unescape.simps(2))
    next
      case 3
      with p [of p] Cons show ?thesis by (auto simp: unescape.simps(2))
    qed
  qed
qed

section \<open>The value is valid UTF-8\<close>

lemma valid_ascii: "code b < 0x80 \<Longrightarrow> valid_cp (code b) \<and> enc (code b) = [b]"
  by (simp add: valid_cp_def enc_cases)

lemma enc_high: "valid_cp c \<Longrightarrow> \<not> c < 0x80 \<Longrightarrow> list_all (\<lambda>b. 0x80 \<le> code b) (enc c)"
proof -
  assume v: "valid_cp c" "\<not> c < 0x80"
  then consider "0x80 \<le> c" "c < 0x800" | "0x800 \<le> c" "c < 0x10000" | "0x10000 \<le> c" "c \<le> 0x10FFFF"
    unfolding valid_cp_def by linarith
  then show ?thesis
  proof cases
    case 1
    then have "c div 64 < 32" by auto
    with 1 low_bits(5) [of c] show ?thesis by (simp add: enc_cases)
  next
    case 2
    then have "c div 4096 < 16" by auto
    with 2 show ?thesis by (simp add: enc_cases)
  next
    case 3
    then have "c div 262144 < 5" by auto
    with 3 show ?thesis by (simp add: enc_cases)
  qed
qed

lemma utf8_Cons_cases:
  assumes "utf8 (b # s)"
  obtains (low) "code b < 0x80" "utf8 s" | (high) c r where "valid_cp c" "\<not> c < 0x80" "b # s = enc c @ r" "utf8 r" "0x80 \<le> code b"
proof -
  from assms obtain cs where cs: "\<forall>c \<in> set cs. valid_cp c" "b # s = concat (map enc cs)" by (auto simp: utf8_def)
  then obtain c ds where c: "cs = c # ds" by (cases cs) auto
  then have v: "valid_cp c" "utf8 (concat (map enc ds))" "b # s = enc c @ concat (map enc ds)" using cs by (auto simp: utf8_def)
  show thesis
  proof (cases "c < 0x80")
    case True
    with v(3) show thesis by (intro low) (use v(2) in \<open>auto simp: enc_cases\<close>)
  next
    case False
    obtain d ds' where "enc c = d # ds'" using enc_first [OF v(1)] by (cases "enc c") auto
    with v(3) enc_high [OF v(1) False] have "0x80 \<le> code b" by simp
    with high [OF v(1) False v(3,2)] show thesis .
  qed
qed

lemma utf8_low [simp]: "code b < 0x80 \<Longrightarrow> utf8 (b # s) \<longleftrightarrow> utf8 s"
proof
  assume b: "code b < 0x80"
  show "utf8 s \<Longrightarrow> utf8 (b # s)" using utf8_append [OF utf8_enc, of "code b" s] valid_ascii [OF b] by simp
  assume "utf8 (b # s)"
  then show "utf8 s" by (rule utf8_Cons_cases) (use b in auto)
qed

lemma utf8_ascii: "ascii pre \<Longrightarrow> utf8 (pre @ s) \<longleftrightarrow> utf8 s"
  by (induction pre) auto

lemma escaped_high: "list_all (\<lambda>b. 0x80 \<le> code b) e \<Longrightarrow> escaped (e @ p) \<longleftrightarrow> escaped p"
  by (induction e) (auto simp: escaped.simps)

lemma push_push [simp]: "push s (push t r) = push (s @ t) r" "push [] r = r"
  by (cases r; auto simp: push_def sum.map_comp o_def map_sum.simps; cases "projr r"; auto)+

lemma unescape_high: "list_all (\<lambda>b. 0x80 \<le> code b) e \<Longrightarrow> unescape (e @ p) = push e (unescape p)"
  by (induction e) (auto simp: unescape.simps(2))

lemma unescape_utf8: "escaped body \<Longrightarrow> utf8 body \<Longrightarrow> unescape (body @ CHR 0x22 # t) = Inr (Inr s) \<Longrightarrow> utf8 s"
proof (induction body arbitrary: s rule: length_induct)
  case (1 body)
  have p: "utf8 s" if "push e (unescape (q @ CHR 0x22 # t)) = Inr (Inr s)" "utf8 e" "utf8 q" "escaped q" "length q < length body" for e q s
  proof -
    from that(1) obtain s' where "unescape (q @ CHR 0x22 # t) = Inr (Inr s')" "s = e @ s'"
      by (cases "unescape (q @ CHR 0x22 # t)"; cases "projr (unescape (q @ CHR 0x22 # t))") (auto simp: push_def)
    with "1.IH" that utf8_append show ?thesis by blast
  qed
  show ?case
  proof (cases body)
    case Nil
    with "1.prems" show ?thesis by (simp add: unescape.simps)
  next
    case (Cons c p)
    note u = "1.prems"(3)
    from "1.prems"(2) show ?thesis unfolding Cons
    proof (cases rule: utf8_Cons_cases)
      case (high cp r)
      note h = enc_high [OF high(1,2)]
      have "escaped r" using "1.prems"(1) Cons high(3) escaped_high [OF h, of r] by simp
      moreover have "push (enc cp) (unescape (r @ CHR 0x22 # t)) = Inr (Inr s)"
        using u unfolding Cons high(3) using unescape_high [OF h, of "r @ CHR 0x22 # t"] by simp
      moreover have "length r < length body" using high(3) Cons enc_first [OF high(1)] by (metis append_Nil length_append less_add_same_cancel2 length_greater_0_conv)
      ultimately show ?thesis using p utf8_enc [OF high(1)] high(4) by blast
    next
      case low
      consider q where "c = CHR 0x5C" "p = CHR ''u'' # q" | e q where "c = CHR 0x5C" "p = e # q" "short_escape e" "escaped q"
        | "c \<noteq> CHR 0x5C" "c \<noteq> CHR 0x22" "escaped p"
        using "1.prems"(1) Cons by (cases p) (auto simp: escaped.simps split: if_splits)
      then show ?thesis
      proof cases
        case 1
        from unescape_u [of q t] "1.prems"(1) u Cons 1 obtain cp pre q' where
          q: "valid_cp cp" "push (enc cp) (unescape (q' @ CHR 0x22 # t)) = Inr (Inr s)" "escaped q'" "ascii pre" "q = pre @ q'" by auto
        have "utf8 q'" using low(2) 1(2) q(4,5) utf8_ascii [of pre q'] by simp
        with p [OF q(2) utf8_enc [OF q(1)] this q(3)] q(5) 1 Cons show ?thesis by simp
      next
        case 2
        from simple_short [OF 2(3)] obtain b where b: "simple_escape e = Some b" "code b < 0x80" "code e < 0x80" "e \<noteq> CHR ''u''" by blast
        have "push [b] (unescape (q @ CHR 0x22 # t)) = Inr (Inr s)" using u Cons 2 b by (simp add: unescape.simps(2))
        with p [OF this _ _ 2(4)] low(2) 2 b Cons show ?thesis by simp
      next
        case 3
        have "push [c] (unescape (p @ CHR 0x22 # t)) = Inr (Inr s)" using u Cons 3 by (simp add: unescape.simps(2))
        with p [OF this _ low(2) 3(3)] low(1) Cons show ?thesis by simp
      qed
    qed
  qed
qed

end
