(* ===== verification/JsonRet.thy ===== *)
theory JsonRet
  imports JsonStr
begin

text \<open>The reader returns on every input: no loop runs for ever, no read leaves the text, no assertion fails.\<close>

section \<open>The lexer\<close>

lemma scan_string_shape:
  assumes "saved_text lx = [CHR 0x22]" "lex_get_save (lx\<lparr>token := TOKEN_INVALID\<rparr>) = (c, lx1)" "string_loop c lx1 = (True, lx2)"
  shows "\<exists>body. saved_text lx2 = CHR 0x22 # body @ [CHR 0x22] \<and> escaped body"
proof -
  have "ends c lx1 [CHR 0x22]" using get_save_ends [OF assms(2)] assms(1) by simp
  from string_loop_text [OF this assms(3)] show ?thesis by auto
qed

lemma scan_string_total: "saved_text lx = [CHR 0x22] \<Longrightarrow> \<exists>lx'. lex_scan_string lx = Inr lx'"
proof -
  assume s: "saved_text lx = [CHR 0x22]"
  obtain c lx1 where g: "lex_get_save (lx\<lparr>token := TOKEN_INVALID\<rparr>) = (c, lx1)" by fastforce
  obtain ok lx2 where l: "string_loop c lx1 = (ok, lx2)" by fastforce
  show ?thesis
  proof (cases ok)
    case True
    with scan_string_shape [OF s g] l obtain body where b: "saved_text lx2 = CHR 0x22 # body @ [CHR 0x22]" "escaped body" by auto
    with unescape_defined [of body "[]"] obtain r where "unescape (tl (saved_text lx2)) = Inr r" by auto
    with g l True show ?thesis by (cases r) (simp_all add: lex_scan_string_def)
  qed (use g l in \<open>simp add: lex_scan_string_def\<close>)
qed

lemma lex_skip_space_same: "lex_skip_space lx = (c, lx') \<Longrightarrow> saved_text lx' = saved_text lx \<and> depth lx' = depth lx"
proof (induction lx rule: lex_skip_space.induct)
  case (1 lx)
  obtain c1 lx1 where g: "stream_get lx = (c1, lx1)" by fastforce
  with 1 stream_get_same [OF g] show ?case by (auto simp: lex_skip_space.simps [of lx] split: if_splits)
qed

lemma lex_scan_total: "\<exists>lx'. lex_scan a f lx = Inr lx'"
proof -
  obtain c lx1 where g: "lex_skip_space (lx\<lparr>saved_text := []\<rparr>) = (c, lx1)" by fastforce
  then have "saved_text lx1 = []" using lex_skip_space_same by fastforce
  then have "saved_text (lex_save b lx1) = [b]" for b by (simp add: lex_save_def)
  with g scan_string_total [of "lex_save (CHR 0x22) lx1"] show ?thesis by (cases c) (auto simp: lex_scan_def Let_def split: prod.split)
qed

section \<open>The parser\<close>

definition returns :: "nat \<Rightarrow> ('r json_t option \<times> 'r lex) run \<Rightarrow> bool" where
  "returns n x \<longleftrightarrow> (\<exists>r lx'. x = Inr (r, lx') \<and> left lx' \<le> n \<and> (r = None \<longrightarrow> e_text (jerror lx') \<noteq> []))"

lemma returns_scan:
  "(\<And>lx'. lex_scan a f lx = Inr lx' \<Longrightarrow> left lx' \<le> left lx \<Longrightarrow> need lx' \<le> left lx + 1 \<Longrightarrow> returns n (k lx')) \<Longrightarrow> returns n (bind_ub (lex_scan a f lx) k)"
  using lex_scan_total [of a f lx] lex_scan_left [of a f lx] by auto

lemma returns_bind:
  "returns m x \<Longrightarrow> (\<And>r lx'. x = Inr (r, lx') \<Longrightarrow> left lx' \<le> m \<Longrightarrow> (r = None \<Longrightarrow> e_text (jerror lx') \<noteq> []) \<Longrightarrow> returns n (k (r, lx'))) \<Longrightarrow> returns n (bind_ub x k)"
  by (auto simp: returns_def)

lemma error_set_text: "m \<noteq> [] \<Longrightarrow> e_text (jerror (error_set m lx)) \<noteq> []"
  by (simp add: error_set_def jsonp_error_set_def Let_def)

lemma quoted_Cons [simp]: "quoted s = CHR 0x27 # s @ [CHR 0x27]"
  by (simp add: quoted_def)

lemma returns_simps [simp]: "returns n (Inr (Some j, lx)) \<longleftrightarrow> left lx \<le> n"
  "returns n (Inr (None, lx)) \<longleftrightarrow> left lx \<le> n \<and> e_text (jerror lx) \<noteq> []" "m \<noteq> [] \<Longrightarrow> returns n (fail m lx) \<longleftrightarrow> left lx \<le> n"
  by (simp_all add: returns_def fail_def error_set_text)

lemma returns_mono: "returns m x \<Longrightarrow> m \<le> n \<Longrightarrow> returns n x"
  by (auto simp: returns_def)

lemma parse_value_token: "parse_value f flags rf lx = Inr (Some v, lx') \<Longrightarrow> need lx = left lx + 2"
  by (cases f; cases "token lx") (auto simp: parse_value.simps fail_def need_def Let_def split: if_splits)

lemma need_char: "token lx = TOKEN_CHAR b \<Longrightarrow> need lx = left lx + 2" "token lx = TOKEN_STRING s \<Longrightarrow> need lx = left lx + 2"
  by (simp_all add: need_def)

lemma parser_returns:
  fixes rf :: "byte list \<Rightarrow> 'r option"
  shows "need lx \<le> fv \<Longrightarrow> returns (left lx) (parse_value fv flags rf lx)"
    and "left lo + 1 \<le> fo \<Longrightarrow> returns (left lo) (parse_object fo flags rf lo)"
    and "need ll \<le> fl \<Longrightarrow> returns (left ll) (object_loop fl flags rf obj ll)"
    and "left la + 1 \<le> fa \<Longrightarrow> returns (left la) (parse_array fa flags rf la)"
    and "need lk \<le> fk \<Longrightarrow> returns (left lk) (array_loop fk flags rf arr lk)"
proof (induction fv flags rf lx and fo flags rf lo and fl flags rf obj ll and fa flags rf la and fk flags rf arr lk
    rule: parse_value_parse_object_object_loop_parse_array_array_loop.induct)
  case (1 flags real_of lx)
  then show ?case by (simp add: need_def split: if_splits)
next
  case (2 fuel flags real_of lx)
  define lx1 where "lx1 = lx\<lparr>depth := depth lx + 1\<rparr>"
  have l: "left lx1 = left lx" "token lx1 = token lx" by (simp_all add: lx1_def)
  show ?case
  proof (cases "token lx = TOKEN_CHAR (CHR ''{'') \<or> token lx = TOKEN_CHAR (CHR ''['')")
    case True
    then have "left lx1 + 1 \<le> fuel" using 2(3) need_char(1) [of lx] l by auto
    with 2(1,2) True show ?thesis
      by (auto simp: parse_value.simps(2) lx1_def Let_def l intro!: returns_bind [where m = "left lx1"] split: option.split)
  next
    case False
    then show ?thesis by (auto simp: parse_value.simps(2) Let_def split: token.split)
  qed
next
  case (3 fuel flags real_of lx)
  show ?case unfolding parse_object.simps by (rule returns_scan) (use 3 in \<open>force simp: returns_def\<close>)
next
  case (4 flags real_of obj lx)
  then show ?case by (simp add: need_def split: if_splits)
next
  case (5 fuel flags real_of obj lx)
  show ?case
  proof (cases "\<exists>key. token lx = TOKEN_STRING key \<and> NULB \<notin> set key \<and> \<not> (JSON_REJECT_DUPLICATES flags \<and> map_of obj key \<noteq> None)")
    case True
    then obtain key where key: "token lx = TOKEN_STRING key" "NULB \<notin> set key" "\<not> (JSON_REJECT_DUPLICATES flags \<and> map_of obj key \<noteq> None)" by blast
    then have f: "left lx + 1 \<le> fuel" using 5(3) need_char(2) by fastforce
    have v: "returns (left l2) (parse_value fuel flags real_of l2)" if "lex_scan (JSON_DECODE_INT_AS_REAL flags) real_of lx = Inr l1"
      "token l1 = TOKEN_CHAR (CHR '':'')" "lex_scan (JSON_DECODE_INT_AS_REAL flags) real_of l1 = Inr l2" "need l2 \<le> fuel" for l1 l2
      using 5(1) [OF key(1), of l1 l2] key that by auto
    have o: "returns (left l5) (object_loop fuel flags real_of (obj_set key v obj) l5)"
      if "lex_scan (JSON_DECODE_INT_AS_REAL flags) real_of lx = Inr l1"
      "token l1 = TOKEN_CHAR (CHR '':'')" "lex_scan (JSON_DECODE_INT_AS_REAL flags) real_of l1 = Inr l2"
      "parse_value fuel flags real_of l2 = Inr (Some v, l3)" "lex_scan (JSON_DECODE_INT_AS_REAL flags) real_of l3 = Inr l4"
      "token l4 = TOKEN_CHAR (CHR '','')" "lex_scan (JSON_DECODE_INT_AS_REAL flags) real_of l4 = Inr l5" "need l5 \<le> fuel" for l1 l2 l3 l4 l5 v
      using 5(2) [OF key(1), of l1 l2 "(Some v, l3)" "Some v" l3 v l4 l5] key that by auto
    let ?scan = "lex_scan (JSON_DECODE_INT_AS_REAL flags) real_of"
    obtain l1 where s1: "?scan lx = Inr l1" using lex_scan_total by blast
    note n1 = lex_scan_left [OF s1]
    show ?thesis
    proof (cases "token l1 = TOKEN_CHAR (CHR '':'')")
      case colon: True
      obtain l2 where s2: "?scan l1 = Inr l2" using lex_scan_total by blast
      note n2 = lex_scan_left [OF s2]
      have f2: "need l2 \<le> fuel" using n1 n2 need_char(1) [OF colon] f by linarith
      from v [OF s1 colon s2 f2] obtain r l3 where p: "parse_value fuel flags real_of l2 = Inr (r, l3)" "left l3 \<le> left l2"
        "r = None \<longrightarrow> e_text (jerror l3) \<noteq> []" by (auto simp: returns_def)
      show ?thesis
      proof (cases r)
        case None
        then show ?thesis using n1 n2 p(2,3) by (simp add: object_loop.simps(2) key s1 colon s2 p(1))
      next
        case (Some j)
        obtain l4 where s4: "?scan l3 = Inr l4" using lex_scan_total by blast
        note n4 = lex_scan_left [OF s4]
        show ?thesis
        proof (cases "token l4 = TOKEN_CHAR (CHR '','')")
          case comma: True
          obtain l5 where s5: "?scan l4 = Inr l5" using lex_scan_total by blast
          note n5 = lex_scan_left [OF s5]
          have "need l5 \<le> fuel" "left l5 \<le> left lx" using n1 n2 n4 n5 p need_char(1) [OF comma] need_char(1) [OF colon] f by linarith+
          from o [OF s1 colon s2 p(1) [unfolded Some] s4 comma s5 this(1)] this(2)
          show ?thesis by (simp add: object_loop.simps(2) key s1 colon s2 p(1) Some s4 comma s5 returns_mono)
        next
          case False
          then show ?thesis using n1 n2 n4 p(2) by (simp add: object_loop.simps(2) key s1 colon s2 p(1) Some s4)
        qed
      qed
    qed (use n1 in \<open>simp add: object_loop.simps(2) key s1\<close>)
  next
    case False
    then show ?thesis by (auto simp: object_loop.simps(2) split: token.split)
  qed
next
  case (6 fuel flags real_of lx)
  show ?case unfolding parse_array.simps by (rule returns_scan) (use 6 in \<open>force simp: returns_def\<close>)
next
  case (7 flags real_of arr lx)
  then show ?case by (simp add: need_def split: if_splits)
next
  case (8 fuel flags real_of arr lx)
  let ?scan = "lex_scan (JSON_DECODE_INT_AS_REAL flags) real_of"
  show ?case
  proof (cases "token lx = TOKEN_EOF")
    case False
    from 8(1) [OF False 8(3)] obtain r l1 where p: "parse_value (Suc fuel) flags real_of lx = Inr (r, l1)" "left l1 \<le> left lx"
      "r = None \<longrightarrow> e_text (jerror l1) \<noteq> []" by (auto simp: returns_def)
    show ?thesis
    proof (cases r)
      case (Some j)
      have f: "left lx + 1 \<le> fuel" using parse_value_token [OF p(1) [unfolded Some]] 8(3) by simp
      obtain l2 where s2: "?scan l1 = Inr l2" using lex_scan_total by blast
      note n2 = lex_scan_left [OF s2]
      show ?thesis
      proof (cases "token l2 = TOKEN_CHAR (CHR '','')")
        case comma: True
        obtain l3 where s3: "?scan l2 = Inr l3" using lex_scan_total by blast
        note n3 = lex_scan_left [OF s3]
        have "need l3 \<le> fuel" "left l3 \<le> left lx" using n2 n3 p need_char(1) [OF comma] f by linarith+
        with 8(2) [OF False p(1) refl Some s2 comma s3] show ?thesis
          by (simp add: array_loop.simps(2) False p Some s2 comma s3 returns_mono)
      qed (use n2 p(2) in \<open>simp add: array_loop.simps(2) False Some s2 p(1)\<close>)
    qed (use p(2,3) in \<open>simp add: array_loop.simps(2) False p(1)\<close>)
  qed (simp add: array_loop.simps(2))
qed

text \<open>Fuel for the whole text.\<close>

lemma parse_json_returns: "left lx < fuel \<Longrightarrow> \<exists>r lx'. parse_json fuel flags rf lx = Inr (r, lx') \<and> (r = None \<longrightarrow> e_text (jerror lx') \<noteq> [])"
proof -
  assume l: "left lx < fuel"
  let ?scan = "lex_scan (JSON_DECODE_INT_AS_REAL flags) rf"
  obtain l1 where s1: "?scan (lx\<lparr>depth := 0\<rparr>) = Inr l1" using lex_scan_total by blast
  have "need l1 \<le> fuel" using lex_scan_left [OF s1] l by simp
  from parser_returns(1) [OF this, of flags rf] obtain r l2 where p: "parse_value fuel flags rf l1 = Inr (r, l2)" "r = None \<longrightarrow> e_text (jerror l2) \<noteq> []"
    by (auto simp: returns_def)
  obtain l3 where s3: "?scan l2 = Inr l3" using lex_scan_total by blast
  show ?thesis using p(2) by (cases r) (auto simp: parse_json_def fail_def Let_def s1 p(1) s3 error_set_text)
qed

lemma load_bytes_returns: "\<exists>r err. load_bytes flags rf s = Inr (r, err) \<and> (r = None \<longrightarrow> e_text err \<noteq> [])"
proof -
  have "left (lex_init s :: 'a lex) < length s + 1" by (simp add: left_def lex_init_def)
  from parse_json_returns [OF this, of flags rf] show ?thesis by (auto simp: load_bytes_def)
qed


end
