(* ===== verification/JsonType.thy ===== *)
theory JsonType
  imports JsonRet
begin

text \<open>
  What the reader builds: strings of valid UTF-8, integers of 64 bits, objects whose keys differ, no more levels than the parser allows.
  The lexer keeps one encoded character in its buffer; a string begins where a character begins.
\<close>

section \<open>The buffer of the stream\<close>

definition chunked :: "'r lex \<Rightarrow> bool" where
  "chunked lx \<longleftrightarrow> (sstate lx = STREAM_STATE_OK \<longrightarrow>
     buffer_pos lx \<le> length (sbuffer lx) \<and> (sbuffer lx = [] \<or> (\<exists>c. valid_cp c \<and> sbuffer lx = enc c)))"

definition same :: "'r lex \<Rightarrow> 'r lex \<Rightarrow> bool" where
  "same lx lx' \<longleftrightarrow> (chunked lx \<longrightarrow> chunked lx') \<and> depth lx' = depth lx"

lemma chunked_update [simp]: "chunked (lx\<lparr>saved_text := s\<rparr>) = chunked lx" "chunked (lx\<lparr>token := t\<rparr>) = chunked lx" "chunked (lx\<lparr>depth := d\<rparr>) = chunked lx"
  "chunked (lx\<lparr>jerror := e\<rparr>) = chunked lx" "chunked (lex_save c lx) = chunked lx" "chunked (error_set m lx) = chunked lx"
  by (simp_all add: chunked_def lex_save_def error_set_def Let_def)

lemma depth_update [simp]: "depth (lex_save c lx) = depth lx" "depth (error_set m lx) = depth lx"
  by (simp_all add: lex_save_def error_set_def Let_def)

lemma same_refl [simp]: "same lx lx" by (simp add: same_def)

lemma same_trans [trans]: "same a b \<Longrightarrow> same b c \<Longrightarrow> same a c" by (simp add: same_def)

lemma same_update [simp]: "same l (lx\<lparr>saved_text := s\<rparr>) = same l lx" "same l (lx\<lparr>token := t\<rparr>) = same l lx" "same l (lex_save c lx) = same l lx"
  "same l (error_set m lx) = same l lx" "same (lx\<lparr>saved_text := s\<rparr>) l = same lx l" "same (lx\<lparr>token := t\<rparr>) l = same lx l" "same (lex_save c lx) l = same lx l"
  by (simp_all add: same_def)

lemma deliver_chunked:
  assumes "deliver lx = (c, lx')" "chunked lx" "sstate lx = STREAM_STATE_OK" "buffer_pos lx < length (sbuffer lx)"
  shows "chunked lx'"
  using assms by (auto simp: deliver_def chunked_def Let_def split: if_splits)

lemma chunked_ascii: "code b < 0x80 \<Longrightarrow> chunked (lx\<lparr>get_rest := rest, sbuffer := [b], buffer_pos := 0\<rparr>)"
proof -
  assume "code b < 0x80"
  then have "valid_cp (code b)" "enc (code b) = [b]" using valid_ascii by blast+
  then have "\<exists>c. valid_cp c \<and> [b] = enc c" by metis
  then show ?thesis by (simp only: chunked_def) simp
qed

lemma stream_get_chunked: "stream_get lx = (c, lx') \<Longrightarrow> chunked lx \<Longrightarrow> chunked lx'"
proof -
  assume g: "stream_get lx = (c, lx')" and ch: "chunked lx"
  show ?thesis
  proof (cases "sstate lx")
    case ok: STREAM_STATE_OK
    show ?thesis
    proof (cases "buf_at (sbuffer lx) (buffer_pos lx) = NULB")
      case nul: True
      show ?thesis
      proof (cases "get_rest lx")
        case Nil
        with g ok nul show ?thesis by (auto simp: stream_get_def chunked_def)
      next
        case (Cons b rest)
        define n where "n = utf8_check_first b"
        define lx1 where "lx1 = lx\<lparr>get_rest := rest, sbuffer := [b], buffer_pos := 0\<rparr>"
        consider "code b < 0x80" | "0x80 \<le> code b" "n = 0 \<or> utf8_check_full (b # take_or_eof (n - 1) rest) n = None"
          | v where "0x80 \<le> code b" "n \<noteq> 0" "utf8_check_full (b # take_or_eof (n - 1) rest) n = Some v" by fastforce
        then show ?thesis
        proof cases
          case 1
          then have ch1: "chunked lx1" unfolding lx1_def by (rule chunked_ascii)
          have "\<not> 0x80 \<le> code b" using 1 by simp
          then have "deliver lx1 = (c, lx')" using g ok nul Cons by (simp only: stream_get_def lx1_def Let_def stream_state.case list.case if_True if_False simp_thms)
          from deliver_chunked [OF this ch1] ok show ?thesis by (simp add: lx1_def)
        next
          case 2
          then have "sstate lx' = STREAM_STATE_ERROR" using g ok nul Cons by (auto simp: stream_get_def stream_fail_def n_def error_set_def Let_def split: if_splits)
          then show ?thesis by (simp add: chunked_def)
        next
          case 3
          define seq where "seq = b # take_or_eof (n - 1) rest"
          define lx2 where "lx2 = lx1\<lparr>get_rest := drop (n - 1) rest, sbuffer := seq\<rparr>"
          have len: "length seq = n" using 3(2) by (simp add: seq_def take_or_eof_def)
          have "n \<noteq> 1" using 3(1) first_one [of b] by (simp add: n_def)
          then have "valid_cp v \<and> 0x80 \<le> v \<and> take n seq = enc v" using 3(2,3) len by (intro full_enc) (simp_all add: seq_def n_def [symmetric])
          then have ch2: "chunked lx2" using len by (auto simp: chunked_def lx2_def lx1_def)
          have "deliver lx2 = (c, lx')" using g ok nul Cons 3 by (auto simp: stream_get_def lx1_def lx2_def seq_def n_def Let_def)
          from deliver_chunked [OF this ch2] ok show ?thesis by (simp add: lx2_def lx1_def seq_def)
        qed
      qed
    next
      case False
      then have "buffer_pos lx < length (sbuffer lx)" by (auto simp: buf_at_def split: if_splits)
      moreover have "deliver lx = (c, lx')" using g ok False by (simp add: stream_get_def)
      ultimately show ?thesis using ok ch deliver_chunked [of lx c lx'] by simp
    qed
  qed (use g ch in \<open>auto simp: stream_get_def\<close>)
qed

lemma get_same: "stream_get lx = (c, lx') \<Longrightarrow> same lx lx'"
  using stream_get_chunked [of lx c lx'] stream_get_same [of lx c lx'] by (simp add: same_def)

lemma get_save_same: "lex_get_save lx = (c, lx') \<Longrightarrow> same lx lx'"
  using get_same [of lx] by (fastforce simp: lex_get_save_def split: prod.splits got.splits)

lemma unget_same [simp]: "same lx (stream_unget c lx)"
  by (cases c) (auto simp: stream_unget_def same_def chunked_def Let_def)

lemma unget_unsave_same [simp]: "same lx (lex_unget_unsave c lx)"
  using unget_same [of lx c] by (cases c) (simp_all add: lex_unget_unsave_def Let_def)

lemma save_cached_same [simp]: "same lx (lex_save_cached lx)"
proof -
  have "length (cstr s) \<le> length s" for s by (simp add: cstr_def length_takeWhile_le)
  then have "buffer_pos lx \<le> length (sbuffer lx) \<Longrightarrow> buffer_pos lx + length (cstr (drop (buffer_pos lx) (sbuffer lx))) \<le> length (sbuffer lx)"
    by (metis add_le_cancel_left le_add_diff_inverse length_drop)
  then show ?thesis by (simp add: lex_save_cached_def same_def chunked_def Let_def)
qed

lemma lex_skip_space_chunk: "lex_skip_space lx = (c, lx') \<Longrightarrow> same lx lx'"
proof (induction lx rule: lex_skip_space.induct)
  case (1 lx)
  obtain c1 lx1 where g: "stream_get lx = (c1, lx1)" by fastforce
  with 1 get_same [OF g] same_trans show ?case by (auto simp: lex_skip_space.simps [of lx] split: if_splits)
qed

lemma save_while_same: "save_while Q lx = (c, lx') \<Longrightarrow> same lx lx'"
proof (induction Q lx rule: save_while.induct)
  case (1 Q lx)
  obtain c1 lx1 where g: "lex_get_save lx = (c1, lx1)" by fastforce
  with 1 get_save_same [OF g] same_trans show ?case by (auto simp: save_while.simps [of Q lx] split: if_splits)
qed

lemma scan_hex_same: "scan_hex n c lx = (r, lx') \<Longrightarrow> same lx lx'"
proof (induction n c lx rule: scan_hex.induct)
  case (2 n c lx)
  obtain c1 lx1 where g: "lex_get_save lx = (c1, lx1)" by fastforce
  with 2 get_save_same [OF g] same_trans show ?case by (auto split: if_splits)
qed simp

lemma scan_number_parts [simp]: "same l (scan_integer lx) = same l lx" "same l (scan_real f lx) = same l lx"
  by (simp_all add: scan_integer_def scan_real_def Let_def split: option.split)

text \<open>The same along a chain of operations.\<close>

lemma same_chain:
  "lex_get_save lx = (c, lx') \<Longrightarrow> same l lx \<Longrightarrow> same l lx'" "stream_get lx = (c, lx') \<Longrightarrow> same l lx \<Longrightarrow> same l lx'"
  "save_while Q lx = (c, lx') \<Longrightarrow> same l lx \<Longrightarrow> same l lx'" "scan_hex n c lx = (r, lx') \<Longrightarrow> same l lx \<Longrightarrow> same l lx'"
  "lex_skip_space lx = (c, lx') \<Longrightarrow> same l lx \<Longrightarrow> same l lx'" "same l lx \<Longrightarrow> same l (stream_unget c lx)"
  "same l lx \<Longrightarrow> same l (lex_unget_unsave c lx)" "same l lx \<Longrightarrow> same l (lex_save_cached lx)"
  by (rule same_trans, assumption, (erule get_save_same | erule get_same | erule save_while_same | erule scan_hex_same | erule lex_skip_space_chunk | simp))+

lemma scan_exponent_same: "same l lx \<Longrightarrow> same l (scan_exponent f c lx)"
  by (auto simp: scan_exponent_def split: prod.split) (assumption | erule same_chain(1-5) | rule same_chain(6-8))+

lemma scan_fraction_same: "same l lx \<Longrightarrow> same l (scan_fraction a f c lx)"
  by (auto simp: scan_fraction_def split: prod.split got.split)
    (simp | erule same_chain(1-5) | rule same_chain(6-8) scan_exponent_same)+

lemma scan_number_same: "same l lx \<Longrightarrow> same l (lex_scan_number a f b lx)"
  by (auto simp: lex_scan_number_def split: prod.split)
    (simp | erule same_chain(1-5) | rule same_chain(6-8) scan_fraction_same)+

lemma string_loop_same: "string_loop c lx = (r, lx') \<Longrightarrow> same l lx \<Longrightarrow> same l lx'"
proof (induction c lx arbitrary: r lx' rule: string_loop.induct)
  case (1 c lx)
  show ?case
  proof (cases c)
    case (Byte b)
    obtain c1 lx1 where g: "lex_get_save lx = (c1, lx1)" by fastforce
    obtain c2 lx2 where g2: "lex_get_save lx1 = (c2, lx2)" by fastforce
    obtain o3 lx3 where h: "scan_hex 4 c2 lx2 = (o3, lx3)" by fastforce
    have l: "same l lx1" "same l lx2" "same l lx3" "same l (lex_unget_unsave (Byte b) lx)"
      using "1.prems"(2) g g2 h by (blast intro: same_chain)+
    note IH = "1.IH"(1) [OF Byte, of c1 lx1 c2 lx2 o3 lx3] "1.IH"(2) [OF Byte, of c1 lx1 c2 lx2] "1.IH"(3) [OF Byte, of c1 lx1]
    show ?thesis using "1.prems" l IH
      by (cases o3) (auto simp add: Byte string_loop_got Let_def g g2 h split: if_splits)
  qed (use "1.prems" in \<open>auto simp: string_loop_got\<close>)
qed

end
