(* ===== verification/JsonOk.thy ===== *)
theory JsonOk
  imports JsonType
begin

text \<open>Every document that the reader accepts is well formed.\<close>

section \<open>Well-formed documents\<close>

text \<open>With at most \<open>d\<close> levels; \<open>nul\<close> says whether a string may contain a null byte.\<close>

fun json_ok :: "bool \<Rightarrow> nat \<Rightarrow> 'r json_t \<Rightarrow> bool" where
  "json_ok nul d (J_String s) \<longleftrightarrow> 0 < d \<and> utf8_check_string s \<and> (nul \<or> NULB \<notin> set s)"
| "json_ok nul d (J_Integer i) \<longleftrightarrow> 0 < d \<and> - (2 ^ 63) \<le> i \<and> i < 2 ^ 63"
| "json_ok nul d (J_Array js) \<longleftrightarrow> 0 < d \<and> (\<forall>j \<in> set js. json_ok nul (d - 1) j)"
| "json_ok nul d (J_Object m) \<longleftrightarrow> 0 < d \<and> distinct (map fst m) \<and>
     (\<forall>x \<in> set m. utf8_check_string (fst x) \<and> NULB \<notin> set (fst x) \<and> json_ok nul (d - 1) (snd x))"
| "json_ok nul d _ \<longleftrightarrow> 0 < d"

definition members_ok :: "bool \<Rightarrow> nat \<Rightarrow> (byte list \<times> 'r json_t) list \<Rightarrow> bool" where
  "members_ok nul d m \<longleftrightarrow> distinct (map fst m) \<and> (\<forall>x \<in> set m. utf8 (fst x) \<and> NULB \<notin> set (fst x) \<and> json_ok nul d (snd x))"

lemma utf8_check_iff: "utf8_check_string s \<longleftrightarrow> utf8 s"
proof
  assume "utf8 s"
  then obtain cs where "\<forall>c \<in> set cs. valid_cp c" "s = concat (map enc cs)" by (auto simp: utf8_def)
  then show "utf8_check_string s" by (induction cs arbitrary: s) (simp_all add: utf8_check_string_enc)
qed (rule utf8_check_string_sound)

lemma json_ok_object: "json_ok nul d (J_Object m) \<longleftrightarrow> 0 < d \<and> members_ok nul (d - 1) m"
  by (auto simp: members_ok_def utf8_check_iff)

lemma obj_set_keys: "set (map fst (obj_set k v m)) = insert k (set (map fst m))"
  by (induction k v m rule: obj_set.induct) auto

lemma obj_set_elems: "x \<in> set (obj_set k v m) \<Longrightarrow> x = (k, v) \<or> x \<in> set m"
  by (induction k v m rule: obj_set.induct) (auto split: if_splits)

lemma obj_set_distinct: "distinct (map fst m) \<Longrightarrow> distinct (map fst (obj_set k v m))"
proof (induction k v m rule: obj_set.induct)
  case (2 k v k' v' m)
  then show ?case using obj_set_keys [of k v m] by auto
qed simp

lemma members_ok_set: "members_ok nul d m \<Longrightarrow> utf8 k \<Longrightarrow> NULB \<notin> set k \<Longrightarrow> json_ok nul d v \<Longrightarrow> members_ok nul d (obj_set k v m)"
  by (auto simp: members_ok_def obj_set_distinct dest!: obj_set_elems)

section \<open>Tokens\<close>

fun tok_ok :: "'r token \<Rightarrow> bool" where
  "tok_ok (TOKEN_STRING s) \<longleftrightarrow> utf8 s"
| "tok_ok (TOKEN_INTEGER i) \<longleftrightarrow> - (2 ^ 63) \<le> i \<and> i < 2 ^ 63"
| "tok_ok _ \<longleftrightarrow> True"

text \<open>A number leaves its own token or none.\<close>

lemma token_unget [simp]: "token (stream_unget c lx) = token lx" "token (lex_unget_unsave c lx) = token lx" "token (lex_save b lx) = token lx"
  "token (error_set m lx) = token lx"
  by (cases c; simp add: lex_unget_unsave_def stream_unget_def lex_save_def error_set_def Let_def)+

lemma get_save_token: "lex_get_save lx = (c, lx') \<Longrightarrow> token lx' = token lx"
  using stream_get_same [of lx] by (fastforce simp: lex_get_save_def split: prod.splits got.splits)

lemma save_while_token: "save_while Q lx = (c, lx') \<Longrightarrow> token lx' = token lx"
proof (induction Q lx rule: save_while.induct)
  case (1 Q lx)
  obtain c1 lx1 where g: "lex_get_save lx = (c1, lx1)" by fastforce
  with 1 get_save_token [OF g] show ?case by (auto simp: save_while.simps [of Q lx] split: if_splits)
qed

lemma scan_token: "tok_ok (token lx) \<Longrightarrow> tok_ok (token (scan_integer lx))" "tok_ok (token lx) \<Longrightarrow> tok_ok (token (scan_real f lx))"
  by (simp_all add: scan_integer_def scan_real_def Let_def split: option.split)

lemma token_chain:
  "lex_get_save lx = (c, lx') \<Longrightarrow> tok_ok (token lx) \<Longrightarrow> tok_ok (token lx')" "stream_get lx = (c, lx') \<Longrightarrow> tok_ok (token lx) \<Longrightarrow> tok_ok (token lx')"
  "save_while Q lx = (c, lx') \<Longrightarrow> tok_ok (token lx) \<Longrightarrow> tok_ok (token lx')"
  by (simp_all add: get_save_token stream_get_same save_while_token)

lemma scan_exponent_token: "tok_ok (token lx) \<Longrightarrow> tok_ok (token (scan_exponent f c lx))"
  by (auto simp: scan_exponent_def split: prod.split) (simp | erule token_chain | rule scan_token)+

lemma scan_fraction_token: "tok_ok (token lx) \<Longrightarrow> tok_ok (token (scan_fraction a f c lx))"
  by (auto simp: scan_fraction_def split: prod.split got.split) (simp | erule token_chain | rule scan_token scan_exponent_token)+

lemma scan_number_token: "tok_ok (token (lex_scan_number a f b lx))"
proof -
  have "tok_ok (token (lx\<lparr>token := TOKEN_INVALID\<rparr>))" by simp
  then show ?thesis by (auto simp: lex_scan_number_def split: prod.split) (simp | erule token_chain | rule scan_fraction_token)+
qed

text \<open>A string: what has been delivered of the text so far is a prefix of characters and a part of the character in the buffer.\<close>

definition whole_chars :: "'r lex \<Rightarrow> bool" where
  "whole_chars lx \<longleftrightarrow> chunked lx \<and> (sstate lx = STREAM_STATE_OK \<longrightarrow> (\<exists>s. utf8 s \<and> saved_text lx = s @ take (buffer_pos lx) (sbuffer lx)))"

end
