(* ===== verification/JsonDoc.thy ===== *)
theory JsonDoc
  imports JsonOk
begin

text \<open>The strings of the lexer are valid UTF-8, and what the parser builds from the tokens is well formed.\<close>

section \<open>Characters in the buffer\<close>

lemma stream_get_byte:
  assumes "stream_get lx = (Byte b, lx')"
  shows "sstate lx = STREAM_STATE_OK \<and> sstate lx' = STREAM_STATE_OK \<and>
     (buf_at (sbuffer lx) (buffer_pos lx) \<noteq> NULB \<and> buffer_pos lx < length (sbuffer lx) \<and> sbuffer lx' = sbuffer lx \<and>
        buffer_pos lx' = Suc (buffer_pos lx) \<and> b = sbuffer lx ! buffer_pos lx \<or>
      buf_at (sbuffer lx) (buffer_pos lx) = NULB \<and> buffer_pos lx' = 1 \<and> sbuffer lx' \<noteq> [] \<and> b = hd (sbuffer lx'))"
proof -
  have d: "(deliver l = (Byte b, lx')) \<Longrightarrow> sstate lx' = sstate l \<and> sbuffer lx' = sbuffer l \<and> buffer_pos lx' = Suc (buffer_pos l) \<and>
     b = buf_at (sbuffer l) (buffer_pos l)" for l by (auto simp: deliver_def Let_def split: if_splits)
  have ok: "sstate lx = STREAM_STATE_OK" using assms by (auto simp: stream_get_def split: stream_state.splits)
  show ?thesis
  proof (cases "buf_at (sbuffer lx) (buffer_pos lx) = NULB")
    case True
    with ok assms obtain c rest where r: "get_rest lx = c # rest" by (cases "get_rest lx") (auto simp: stream_get_def)
    define l1 where "l1 = lx\<lparr>get_rest := rest, sbuffer := [c], buffer_pos := 0\<rparr>"
    define l2 where "l2 = l1\<lparr>get_rest := drop (utf8_check_first c - 1) rest, sbuffer := c # take_or_eof (utf8_check_first c - 1) rest\<rparr>"
    have f: "stream_fail c l \<noteq> (Byte b, lx')" for l by (simp add: stream_fail_def)
    have "deliver l1 = (Byte b, lx') \<or> deliver l2 = (Byte b, lx')"
      using assms ok True r f by (simp add: stream_get_def Let_def l1_def l2_def split: if_splits)
    then obtain l where l: "deliver l = (Byte b, lx')" "sstate l = STREAM_STATE_OK" "buffer_pos l = 0" "sbuffer l \<noteq> []"
      using ok by (auto simp: l1_def l2_def)
    from d [OF l(1)] l show ?thesis using ok True by (cases "sbuffer l") (auto simp: buf_at_def)
  next
    case False
    then have "buffer_pos lx < length (sbuffer lx)" by (auto simp: buf_at_def split: if_splits)
    moreover from False ok assms have "deliver lx = (Byte b, lx')" by (simp add: stream_get_def)
    from d [OF this] have "sstate lx' = sstate lx \<and> sbuffer lx' = sbuffer lx \<and> buffer_pos lx' = Suc (buffer_pos lx) \<and> b = buf_at (sbuffer lx) (buffer_pos lx)" .
    ultimately show ?thesis using ok False by (simp add: buf_at_def)
  qed
qed

lemma low_in_enc: "valid_cp c \<Longrightarrow> b \<in> set (enc c) \<Longrightarrow> code b < 0x80 \<Longrightarrow> enc c = [b]"
proof -
  assume a: "valid_cp c" "b \<in> set (enc c)" "code b < 0x80"
  then have "c < 0x80" using enc_high [of c] by (fastforce simp: list_all_iff)
  with a(2) show ?thesis by (simp add: enc_cases)
qed

definition ready :: "got \<Rightarrow> 'r lex \<Rightarrow> bool" where
  "ready c lx \<longleftrightarrow> whole_chars lx \<and> (\<forall>b. c = Byte b \<longrightarrow> sstate lx = STREAM_STATE_OK)"

lemma get_save_whole: "lex_get_save lx = (c, lx') \<Longrightarrow> whole_chars lx \<Longrightarrow> ready c lx'"
proof -
  assume g: "lex_get_save lx = (c, lx')" and w: "whole_chars lx"
  have ch: "chunked lx'" using get_save_same [OF g] w by (simp add: whole_chars_def same_def)
  show ?thesis
  proof (cases c)
    case (Byte b)
    then obtain lx1 where s: "stream_get lx = (Byte b, lx1)" and l: "lx' = lex_save b lx1" using g by (auto simp: lex_get_save_def split: prod.splits got.splits)
    have sv: "saved_text lx' = saved_text lx @ [b]" using stream_get_same [OF s] l by (simp add: lex_save_def)
    have f: "sstate lx' = sstate lx1" "buffer_pos lx' = buffer_pos lx1" "sbuffer lx' = sbuffer lx1" by (simp_all add: l lex_save_def)
    note b = stream_get_byte [OF s]
    from w b obtain u where u: "utf8 u" "saved_text lx = u @ take (buffer_pos lx) (sbuffer lx)" by (auto simp: whole_chars_def)
    have c: "buffer_pos lx \<le> length (sbuffer lx)" "sbuffer lx = [] \<or> (\<exists>c. valid_cp c \<and> sbuffer lx = enc c)" using w b by (auto simp: whole_chars_def chunked_def)
    have "\<exists>s. utf8 s \<and> saved_text lx' = s @ take (buffer_pos lx') (sbuffer lx')"
    proof (cases "buf_at (sbuffer lx) (buffer_pos lx) = NULB")
      case False
      with b f have "take (buffer_pos lx') (sbuffer lx') = take (buffer_pos lx) (sbuffer lx) @ [b]" by (auto simp: take_Suc_conv_app_nth)
      with u sv show ?thesis by auto
    next
      case True
      with b f have t: "take (buffer_pos lx') (sbuffer lx') = [b]" by (cases "sbuffer lx1") auto
      have "utf8 (saved_text lx)"
      proof (cases "buffer_pos lx < length (sbuffer lx)")
        case less: True
        then have n: "NULB \<in> set (sbuffer lx)" using True by (auto simp: buf_at_def) (metis nth_mem)
        with c(2) obtain cp where cp: "valid_cp cp" "sbuffer lx = enc cp" by auto
        have "code NULB < 0x80" by (simp add: NULB_def)
        from low_in_enc [OF cp(1) _ this] n cp(2) have "sbuffer lx = [NULB]" by simp
        with less u show ?thesis by simp
      next
        case False
        with c(1) u have "saved_text lx = u @ sbuffer lx" by simp
        with c(2) u(1) utf8_append utf8_enc show ?thesis by auto
      qed
      with sv t show ?thesis by auto
    qed
    with ch b f Byte show ?thesis by (simp add: ready_def whole_chars_def)
  next
    case Eof
    then have "sstate lx' \<noteq> STREAM_STATE_OK" using g
      by (auto simp: lex_get_save_def stream_get_def deliver_def stream_fail_def Let_def split: prod.splits got.splits stream_state.splits list.splits if_splits)
    with ch Eof show ?thesis by (simp add: ready_def whole_chars_def)
  next
    case Err
    then have "sstate lx' \<noteq> STREAM_STATE_OK" using g
      by (auto simp: lex_get_save_def stream_get_def deliver_def stream_fail_def error_set_def Let_def
          split: prod.splits got.splits stream_state.splits list.splits if_splits)
    with ch Err show ?thesis by (simp add: ready_def whole_chars_def)
  qed
qed

lemma ready_whole: "ready c lx \<Longrightarrow> whole_chars lx" by (simp add: ready_def)

lemma scan_hex_whole: "scan_hex n c lx = (Some c', lx') \<Longrightarrow> ready c lx \<Longrightarrow> ready c' lx'"
proof (induction n c lx rule: scan_hex.induct)
  case (2 n c lx)
  obtain c1 lx1 where g: "lex_get_save lx = (c1, lx1)" by fastforce
  with 2 get_save_whole [OF g] ready_whole show ?case by (auto split: if_splits)
qed simp

lemma string_loop_whole: "string_loop c lx = (True, lx') \<Longrightarrow> ready c lx \<Longrightarrow> whole_chars lx' \<and> sstate lx' = STREAM_STATE_OK"
proof (induction c lx arbitrary: lx' rule: string_loop.induct)
  case (1 c lx)
  show ?case
  proof (cases c)
    case (Byte b)
    obtain c1 lx1 where g: "lex_get_save lx = (c1, lx1)" by fastforce
    obtain c2 lx2 where g2: "lex_get_save lx1 = (c2, lx2)" by fastforce
    obtain o3 lx3 where h: "scan_hex 4 c2 lx2 = (o3, lx3)" by fastforce
    have w: "whole_chars lx" "sstate lx = STREAM_STATE_OK" using "1.prems"(2) Byte by (simp_all add: ready_def)
    have l: "ready c1 lx1" using get_save_whole [OF g w(1)] .
    have l2: "ready c2 lx2" using get_save_whole [OF g2 ready_whole [OF l]] .
    have l3: "o3 = Some c3 \<Longrightarrow> ready c3 lx3" for c3 using scan_hex_whole [of 4 c2 lx2 c3 lx3] h l2 by simp
    note IH = "1.IH"(1) [OF Byte, of c1 lx1 c2 lx2 o3 lx3] "1.IH"(2) [OF Byte, of c1 lx1 c2 lx2] "1.IH"(3) [OF Byte, of c1 lx1]
    show ?thesis using "1.prems"(1) w l l2 l3 IH
      by (cases o3) (auto simp add: Byte string_loop_got Let_def g g2 h split: if_splits)
  qed (use "1.prems" in \<open>auto simp: string_loop_got\<close>)
qed

lemma utf8_snoc: "utf8 (s @ [b]) \<Longrightarrow> code b < 0x80 \<Longrightarrow> utf8 s"
proof (induction s rule: length_induct)
  case (1 s)
  show ?case
  proof (cases s)
    case (Cons c p)
    from 1(2) have "utf8 (c # p @ [b])" by (simp add: Cons)
    then show ?thesis
    proof (cases rule: utf8_Cons_cases)
      case low
      with 1(1,3) Cons show ?thesis by simp
    next
      case (high cp r)
      have "r \<noteq> []"
      proof
        assume "r = []"
        then have "b \<in> set (enc cp)" using high(3) by (metis append_Nil2 in_set_conv_decomp append_Cons)
        with enc_high [OF high(1,2)] 1(3) show False by (fastforce simp: list_all_iff)
      qed
      then obtain r' where r: "r = r' @ [b]" "c # p = enc cp @ r'" using high(3) by (metis append_Cons append_assoc append_same_eq last_append last_snoc rev_exhaust)
      moreover have "length r' < length s" using r(2) Cons enc_first [OF high(1)] by (metis length_append less_add_same_cancel2 length_greater_0_conv)
      ultimately have "utf8 r'" using 1 high(4) by blast
      with utf8_append [OF utf8_enc [OF high(1)]] r(2) Cons show ?thesis by simp
    qed
  qed simp
qed

lemma whole_utf8: "whole_chars lx \<Longrightarrow> sstate lx = STREAM_STATE_OK \<Longrightarrow> saved_text lx = s @ [b] \<Longrightarrow> code b < 0x80 \<Longrightarrow> utf8 (saved_text lx)"
proof -
  assume a: "whole_chars lx" "sstate lx = STREAM_STATE_OK" "saved_text lx = s @ [b]" "code b < 0x80"
  then obtain u where u: "utf8 u" "saved_text lx = u @ take (buffer_pos lx) (sbuffer lx)" by (auto simp: whole_chars_def)
  show ?thesis
  proof (cases "take (buffer_pos lx) (sbuffer lx) = []")
    case False
    then have "b \<in> set (take (buffer_pos lx) (sbuffer lx))" using u(2) a(3) by (metis last_append last_in_set last_snoc)
    moreover from False a(1,2) obtain c where "valid_cp c" "sbuffer lx = enc c" by (auto simp: whole_chars_def chunked_def)
    ultimately have "sbuffer lx = [b]" using low_in_enc [of c b] a(4) by (metis in_set_takeD)
    with u False a(4) utf8_append [OF u(1), of "[b]"] show ?thesis by (cases "buffer_pos lx") auto
  next
    case True
    with u show ?thesis by simp
  qed
qed

lemma lex_skip_space_last: "lex_skip_space lx = (Byte b, lx') \<Longrightarrow> \<exists>lx0. stream_get lx0 = (Byte b, lx') \<and> same lx lx0"
proof (induction lx rule: lex_skip_space.induct)
  case (1 lx)
  obtain c1 lx1 where g: "stream_get lx = (c1, lx1)" by fastforce
  with 1 same_trans [OF get_same [OF g]] show ?case by (fastforce simp: lex_skip_space.simps [of lx] split: if_splits)
qed

lemma string_start: "lex_skip_space lx = (Byte b, lx') \<Longrightarrow> code b < 0x80 \<Longrightarrow> chunked lx \<Longrightarrow> saved_text lx' = [] \<Longrightarrow> whole_chars (lex_save b lx')"
proof -
  assume a: "lex_skip_space lx = (Byte b, lx')" "code b < 0x80" "chunked lx" "saved_text lx' = []"
  from lex_skip_space_last [OF a(1)] obtain lx0 where s: "stream_get lx0 = (Byte b, lx')" by blast
  have ch: "chunked lx'" using lex_skip_space_chunk [OF a(1)] a(3) by (simp add: same_def)
  have m: "b \<in> set (sbuffer lx')" "0 < buffer_pos lx'" using stream_get_byte [OF s] by (auto simp: nth_mem)
  from m(1) ch stream_get_byte [OF s] obtain c where "valid_cp c" "sbuffer lx' = enc c" by (auto simp: chunked_def)
  then have "sbuffer lx' = [b]" using low_in_enc [of c b] m(1) a(2) by simp
  with m(2) ch a(4) show ?thesis by (auto simp: whole_chars_def lex_save_def chunked_def intro!: exI [of _ "[]"])
qed

section \<open>Tokens of the lexer\<close>

lemma scan_hex_token: "scan_hex n c lx = (r, lx') \<Longrightarrow> token lx' = token lx"
proof (induction n c lx rule: scan_hex.induct)
  case (2 n c lx)
  obtain c1 lx1 where g: "lex_get_save lx = (c1, lx1)" by fastforce
  with 2 get_save_token [OF g] show ?case by (auto split: if_splits)
qed simp

lemma string_loop_token: "string_loop c lx = (r, lx') \<Longrightarrow> token lx' = token lx"
proof (induction c lx arbitrary: r lx' rule: string_loop.induct)
  case (1 c lx)
  show ?case
  proof (cases c)
    case (Byte b)
    obtain c1 lx1 where g: "lex_get_save lx = (c1, lx1)" by fastforce
    obtain c2 lx2 where g2: "lex_get_save lx1 = (c2, lx2)" by fastforce
    obtain o3 lx3 where h: "scan_hex 4 c2 lx2 = (o3, lx3)" by fastforce
    have l: "token lx1 = token lx" "token lx2 = token lx" "token lx3 = token lx"
      using get_save_token [OF g] get_save_token [OF g2] scan_hex_token [OF h] by simp_all
    note IH = "1.IH"(1) [OF Byte, of c1 lx1 c2 lx2 o3 lx3] "1.IH"(2) [OF Byte, of c1 lx1 c2 lx2] "1.IH"(3) [OF Byte, of c1 lx1]
    show ?thesis using "1.prems" l IH
      by (cases o3) (auto simp add: Byte string_loop_got Let_def g g2 h split: if_splits)
  qed (use "1.prems" in \<open>auto simp: string_loop_got\<close>)
qed

lemma scan_string_ok:
  assumes "lex_scan_string lx = Inr lx'" "saved_text lx = [CHR 0x22]" "whole_chars lx"
  shows "same lx lx' \<and> tok_ok (token lx')"
proof -
  obtain c lx1 where g: "lex_get_save (lx\<lparr>token := TOKEN_INVALID\<rparr>) = (c, lx1)" by fastforce
  obtain ok lx2 where l: "string_loop c lx1 = (ok, lx2)" by fastforce
  have s: "same lx lx2" using get_save_same [OF g] string_loop_same [OF l] by simp
  have "token lx2 = TOKEN_INVALID" using string_loop_token [OF l] get_save_token [OF g] by simp
  then have i: "tok_ok (token lx2)" by simp
  show ?thesis
  proof (cases ok)
    case False
    with assms(1) g l s i show ?thesis by (simp add: lex_scan_string_def)
  next
    case True
    have "whole_chars (lx\<lparr>token := TOKEN_INVALID\<rparr>)" using assms(3) by (simp add: whole_chars_def)
    from string_loop_whole [of c lx1 lx2] l True get_save_whole [OF g this] have w: "whole_chars lx2" "sstate lx2 = STREAM_STATE_OK" by auto
    from scan_string_shape [OF assms(2) g] l True obtain body where b: "saved_text lx2 = CHR 0x22 # body @ [CHR 0x22]" "escaped body" by auto
    from whole_utf8 [OF w, of "CHR 0x22 # body" "CHR 0x22"] b(1) have "utf8 (body @ [CHR 0x22])" by simp
    from utf8_snoc [OF this] have u: "utf8 body" by simp
    from unescape_defined [OF b(2), of "[]"] obtain r where r: "unescape (tl (saved_text lx2)) = Inr r" using b(1) by auto
    show ?thesis
    proof (cases r)
      case (Inl m)
      with assms(1) g l True r s i show ?thesis by (auto simp: lex_scan_string_def)
    next
      case (Inr t)
      with unescape_utf8 [OF b(2) u, of "[]" t] r b(1) have "utf8 t" by simp
      with assms(1) g l True r Inr s show ?thesis by (auto simp: lex_scan_string_def)
    qed
  qed
qed

lemma lex_scan_ok: "lex_scan a f lx = Inr lx' \<Longrightarrow> chunked lx \<Longrightarrow> same lx lx' \<and> tok_ok (token lx')"
proof -
  assume r: "lex_scan a f lx = Inr lx'" and ch: "chunked lx"
  obtain c lx1 where g: "lex_skip_space (lx\<lparr>saved_text := []\<rparr>) = (c, lx1)" by fastforce
  have s: "same lx lx1" using lex_skip_space_chunk [OF g] by simp
  have sv: "saved_text lx1 = []" using lex_skip_space_same [OF g] by simp
  show ?thesis
  proof (cases c)
    case (Byte b)
    define lx2 where "lx2 = lex_save b lx1"
    have s2: "same lx lx2" using s by (simp add: lx2_def)
    obtain c3 lx3 where w: "save_while l_isalpha lx2 = (c3, lx3)" by fastforce
    have s3: "same lx (lex_unget_unsave c3 lx3)" using s2 w by (blast intro: same_chain)
    have wt: "tok_ok (word_token t)" for t by (simp add: word_token_def)
    consider "is_punct b" | "\<not> is_punct b" "b = CHR 0x22" | "\<not> is_punct b" "b \<noteq> CHR 0x22" "l_isdigit b \<or> b = CHR ''-''"
      | "\<not> is_punct b" "b \<noteq> CHR 0x22" "\<not> (l_isdigit b \<or> b = CHR ''-'')" "l_isalpha b"
      | "\<not> is_punct b" "b \<noteq> CHR 0x22" "\<not> (l_isdigit b \<or> b = CHR ''-'')" "\<not> l_isalpha b" by blast
    then show ?thesis
    proof cases
      case 1 with r g Byte lx2_def s2 show ?thesis by (auto simp: lex_scan_def Let_def)
    next
      case 2
      with r g Byte lx2_def have e: "lex_scan_string lx2 = Inr lx'" by (simp add: lex_scan_def Let_def)
      have "whole_chars lx2" using string_start [of "lx\<lparr>saved_text := []\<rparr>" b lx1] g Byte sv ch 2 by (simp add: lx2_def)
      with scan_string_ok [OF e] sv 2 have "same lx2 lx' \<and> tok_ok (token lx')" by (simp add: lx2_def lex_save_def)
      with same_trans [OF s2] show ?thesis by blast
    next
      case 3
      then have "lx' = lex_scan_number a f b lx2" using r g Byte lx2_def by (simp add: lex_scan_def Let_def)
      with scan_number_same [OF s2] scan_number_token show ?thesis by simp
    next
      case 4 with r g Byte lx2_def w s3 wt show ?thesis by (auto simp: lex_scan_def Let_def)
    next
      case 5
      then have "lx' = (lex_save_cached lx2)\<lparr>token := TOKEN_INVALID\<rparr>" using r g Byte lx2_def by (simp add: lex_scan_def Let_def)
      with same_chain(8) [OF s2] show ?thesis by simp
    qed
  qed (use r g s in \<open>auto simp: lex_scan_def\<close>)
qed

section \<open>Documents of the parser\<close>

definition built :: "('r json_t \<Rightarrow> bool) \<Rightarrow> nat \<Rightarrow> ('r json_t option \<times> 'r lex) run \<Rightarrow> bool" where
  "built Q d x \<longleftrightarrow> (\<forall>v lx'. x = Inr (Some v, lx') \<longrightarrow> chunked lx' \<and> depth lx' = d \<and> Q v)"

definition levels :: "'r lex \<Rightarrow> nat" where "levels lx = JSON_PARSER_MAX_DEPTH - depth lx"

lemma built_scan:
  "chunked lx \<Longrightarrow> (\<And>lx'. lex_scan a f lx = Inr lx' \<Longrightarrow> chunked lx' \<Longrightarrow> depth lx' = depth lx \<Longrightarrow> tok_ok (token lx') \<Longrightarrow> built Q d (k lx')) \<Longrightarrow>
    built Q d (bind_ub (lex_scan a f lx) k)"
  using lex_scan_total [of a f lx] lex_scan_ok [of a f lx] by (auto simp: same_def)

lemma built_bind:
  "built Q' d' x \<Longrightarrow> (\<And>lx'. built Q d (Inr (None, lx')) \<Longrightarrow> built Q d (k (None, lx'))) \<Longrightarrow>
    (\<And>v lx'. x = Inr (Some v, lx') \<Longrightarrow> chunked lx' \<Longrightarrow> depth lx' = d' \<Longrightarrow> Q' v \<Longrightarrow> built Q d (k (Some v, lx'))) \<Longrightarrow> built Q d (bind_ub x k)"
proof (cases x)
  case (Inr y)
  assume a: "built Q' d' x" "\<And>lx'. built Q d (Inr (None, lx')) \<Longrightarrow> built Q d (k (None, lx'))"
    "\<And>v lx'. x = Inr (Some v, lx') \<Longrightarrow> chunked lx' \<Longrightarrow> depth lx' = d' \<Longrightarrow> Q' v \<Longrightarrow> built Q d (k (Some v, lx'))"
  show ?thesis
  proof (cases "fst y")
    case None
    with a(2) [of "snd y"] Inr show ?thesis by (cases y) (simp add: built_def)
  next
    case (Some v)
    with a(1) a(3) [of v "snd y"] Inr show ?thesis by (cases y) (simp add: built_def)
  qed
qed (simp add: built_def)

lemma built_mono: "built Q d x \<Longrightarrow> (\<And>v. Q v \<Longrightarrow> Q' v) \<Longrightarrow> built Q' d x"
  by (simp add: built_def)

lemma built_simps [simp]: "built Q d (Inr (Some v, lx)) \<longleftrightarrow> chunked lx \<and> depth lx = d \<and> Q v" "built Q d (Inr (None, lx))" "built Q d (fail m lx)"
  "built Q d (Inl e)"
  by (auto simp: built_def fail_def)

lemma parser_ok:
  fixes rf :: "byte list \<Rightarrow> 'r option"
  shows "chunked lx \<Longrightarrow> tok_ok (token lx) \<Longrightarrow> built (json_ok (JSON_ALLOW_NUL flags) (levels lx)) (depth lx) (parse_value fv flags rf lx)"
    and "chunked lo \<Longrightarrow> built (\<lambda>v. \<exists>m. v = J_Object m \<and> members_ok (JSON_ALLOW_NUL flags) (levels lo) m) (depth lo) (parse_object fo flags rf lo)"
    and "chunked ll \<Longrightarrow> tok_ok (token ll) \<Longrightarrow> members_ok (JSON_ALLOW_NUL flags) (levels ll) obj \<Longrightarrow>
      built (\<lambda>v. \<exists>m. v = J_Object m \<and> members_ok (JSON_ALLOW_NUL flags) (levels ll) m) (depth ll) (object_loop fl flags rf obj ll)"
    and "chunked la \<Longrightarrow> built (\<lambda>v. \<exists>js. v = J_Array js \<and> (\<forall>j \<in> set js. json_ok (JSON_ALLOW_NUL flags) (levels la) j)) (depth la) (parse_array fa flags rf la)"
    and "chunked lk \<Longrightarrow> tok_ok (token lk) \<Longrightarrow> \<forall>j \<in> set arr. json_ok (JSON_ALLOW_NUL flags) (levels lk) j \<Longrightarrow>
      built (\<lambda>v. \<exists>js. v = J_Array js \<and> (\<forall>j \<in> set js. json_ok (JSON_ALLOW_NUL flags) (levels lk) j)) (depth lk) (array_loop fk flags rf arr lk)"
proof (induction fv flags rf lx and fo flags rf lo and fl flags rf obj ll and fa flags rf la and fk flags rf arr lk
    rule: parse_value_parse_object_object_loop_parse_array_array_loop.induct)
  case (1 flags real_of lx)
  show ?case by (simp add: parse_value.simps)
next
  case (2 fuel flags real_of lx)
  define lx1 where "lx1 = lx\<lparr>depth := depth lx + 1\<rparr>"
  have l: "token lx1 = token lx" "chunked lx1" "depth lx1 = depth lx + 1" using 2(3) by (simp_all add: lx1_def)
  show ?case
  proof (cases "depth lx1 > JSON_PARSER_MAX_DEPTH")
    case True
    then show ?thesis by (simp add: parse_value.simps(2) lx1_def)
  next
    case False
    then have lv: "0 < levels lx" "levels lx1 = levels lx - 1" by (simp_all add: levels_def lx1_def)
    show ?thesis
    proof (cases "token lx = TOKEN_CHAR (CHR ''{'') \<or> token lx = TOKEN_CHAR (CHR ''['')")
      case True
      define x where "x = (if token lx = TOKEN_CHAR (CHR ''{'') then parse_object fuel flags real_of lx1 else parse_array fuel flags real_of lx1)"
      have o: "token lx = TOKEN_CHAR (CHR ''{'') \<Longrightarrow>
          built (\<lambda>v. \<exists>m. v = J_Object m \<and> members_ok (JSON_ALLOW_NUL flags) (levels lx1) m) (depth lx1) (parse_object fuel flags real_of lx1)"
        using 2(1) [OF lx1_def refl \<open>\<not> depth lx1 > JSON_PARSER_MAX_DEPTH\<close>] l by simp
      have a: "token lx = TOKEN_CHAR (CHR ''['') \<Longrightarrow>
          built (\<lambda>v. \<exists>js. v = J_Array js \<and> (\<forall>j \<in> set js. json_ok (JSON_ALLOW_NUL flags) (levels lx1) j)) (depth lx1) (parse_array fuel flags real_of lx1)"
        using 2(2) [OF lx1_def refl \<open>\<not> depth lx1 > JSON_PARSER_MAX_DEPTH\<close>] l by simp
      have "built (json_ok (JSON_ALLOW_NUL flags) (levels lx)) (depth lx1) x"
      proof (cases "token lx = TOKEN_CHAR (CHR ''{'')")
        case True
        have "built (json_ok (JSON_ALLOW_NUL flags) (levels lx)) (depth lx1) (parse_object fuel flags real_of lx1)"
          by (rule built_mono [OF o [OF True]]) (use lv in \<open>auto simp: json_ok_object simp del: json_ok.simps(4)\<close>)
        with True show ?thesis by (simp add: x_def)
      next
        case False
        with True have t: "token lx = TOKEN_CHAR (CHR ''['')" by simp
        have "built (json_ok (JSON_ALLOW_NUL flags) (levels lx)) (depth lx1) (parse_array fuel flags real_of lx1)"
          by (rule built_mono [OF a [OF t]]) (use lv in auto)
        with False show ?thesis by (simp add: x_def)
      qed
      then have "built (json_ok (JSON_ALLOW_NUL flags) (levels lx)) (depth lx)
          (bind_ub x (\<lambda>(r, lx2). case r of None \<Rightarrow> Inr (None, lx2) | Some j \<Rightarrow> Inr (Some j, lx2\<lparr>depth := depth lx2 - 1\<rparr>)))"
        by (rule built_bind) (simp_all add: l)
      moreover have "parse_value (Suc fuel) flags real_of lx = bind_ub x (\<lambda>(r, lx2). case r of None \<Rightarrow> Inr (None, lx2) | Some j \<Rightarrow> Inr (Some j, lx2\<lparr>depth := depth lx2 - 1\<rparr>))"
        using True \<open>\<not> depth lx1 > JSON_PARSER_MAX_DEPTH\<close> by (auto simp: parse_value.simps(2) Let_def lx1_def x_def)
      ultimately show ?thesis by simp
    next
      case False
      then show ?thesis using 2(3,4) lv by (auto simp: parse_value.simps(2) Let_def utf8_check_iff split: token.split)
    qed
  qed
next
  case (3 fuel flags real_of lx)
  show ?case unfolding parse_object.simps by (rule built_scan [OF 3(2)]) (use 3 in \<open>auto simp: members_ok_def levels_def\<close>)
next
  case (4 flags real_of obj lx)
  show ?case by (simp add: object_loop.simps)
next
  case (5 fuel flags real_of obj lx)
  let ?scan = "lex_scan (JSON_DECODE_INT_AS_REAL flags) real_of"
  let ?Q = "\<lambda>v. \<exists>m. v = J_Object m \<and> members_ok (JSON_ALLOW_NUL flags) (levels lx) m"
  show ?case
  proof (cases "\<exists>key. token lx = TOKEN_STRING key \<and> NULB \<notin> set key \<and> \<not> (JSON_REJECT_DUPLICATES flags \<and> map_of obj key \<noteq> None)")
    case True
    then obtain key where key: "token lx = TOKEN_STRING key" "NULB \<notin> set key" "\<not> (JSON_REJECT_DUPLICATES flags \<and> map_of obj key \<noteq> None)" by blast
    have utf: "utf8 key" using 5(4) key(1) by simp
    obtain l1 where s1: "?scan lx = Inr l1" using lex_scan_total by blast
    note n1 = lex_scan_ok [OF s1 5(3)]
    obtain l2 where s2: "?scan l1 = Inr l2" using lex_scan_total by blast
    have n2: "chunked l2" "tok_ok (token l2)" "depth l2 = depth lx" "levels l2 = levels lx"
      using lex_scan_ok [OF s2] n1 5(3) by (auto simp: same_def levels_def)
    show ?thesis
    proof (cases "token l1 = TOKEN_CHAR (CHR '':'') \<and> (\<exists>v l3. parse_value fuel flags real_of l2 = Inr (Some v, l3))")
      case True
      then obtain v l3 where c: "token l1 = TOKEN_CHAR (CHR '':'')" and p: "parse_value fuel flags real_of l2 = Inr (Some v, l3)" by blast
      have "built (json_ok (JSON_ALLOW_NUL flags) (levels l2)) (depth l2) (parse_value fuel flags real_of l2)"
        using 5(1) [OF key(1), of l1 l2] key s1 c s2 n2 by auto
      then have n3: "chunked l3" "depth l3 = depth lx" "json_ok (JSON_ALLOW_NUL flags) (levels lx) v" using p n2 by (simp_all add: built_def)
      then have m: "members_ok (JSON_ALLOW_NUL flags) (levels lx) (obj_set key v obj)" using members_ok_set 5(5) utf key(2) by blast
      obtain l4 where s4: "?scan l3 = Inr l4" using lex_scan_total by blast
      have n4: "chunked l4" "depth l4 = depth lx" using lex_scan_ok [OF s4] n3 by (auto simp: same_def)
      obtain l5 where s5: "?scan l4 = Inr l5" using lex_scan_total by blast
      have n5: "chunked l5" "tok_ok (token l5)" "depth l5 = depth lx" "levels l5 = levels lx"
        using lex_scan_ok [OF s5] n4 by (auto simp: same_def levels_def)
      have "token l4 = TOKEN_CHAR (CHR '','') \<Longrightarrow> built ?Q (depth lx) (object_loop fuel flags real_of (obj_set key v obj) l5)"
        using 5(2) [OF key(1), of l1 l2 "(Some v, l3)" "Some v" l3 v l4 l5] key s1 c s2 p s4 s5 n5 m by auto
      with m n4 show ?thesis by (simp add: object_loop.simps(2) key s1 c s2 p s4 s5)
    next
      case False
      then show ?thesis using key s1 s2
        by (cases "parse_value fuel flags real_of l2") (auto simp: object_loop.simps(2) split: option.split)
    qed
  next
    case False
    then show ?thesis by (auto simp: object_loop.simps(2) split: token.split)
  qed
next
  case (6 fuel flags real_of lx)
  show ?case unfolding parse_array.simps by (rule built_scan [OF 6(2)]) (use 6 in \<open>auto simp: levels_def\<close>)
next
  case (7 flags real_of arr lx)
  show ?case by (simp add: array_loop.simps)
next
  case (8 fuel flags real_of arr lx)
  let ?scan = "lex_scan (JSON_DECODE_INT_AS_REAL flags) real_of"
  let ?Q = "\<lambda>v. \<exists>js. v = J_Array js \<and> (\<forall>j \<in> set js. json_ok (JSON_ALLOW_NUL flags) (levels lx) j)"
  show ?case
  proof (cases "token lx \<noteq> TOKEN_EOF \<and> (\<exists>v l1. parse_value (Suc fuel) flags real_of lx = Inr (Some v, l1))")
    case True
    then obtain v l1 where t: "token lx \<noteq> TOKEN_EOF" and p: "parse_value (Suc fuel) flags real_of lx = Inr (Some v, l1)" by blast
    from 8(1) [OF t 8(3,4)] p have n1: "chunked l1" "depth l1 = depth lx" "json_ok (JSON_ALLOW_NUL flags) (levels lx) v" by (simp_all add: built_def)
    then have m: "\<forall>j \<in> set (arr @ [v]). json_ok (JSON_ALLOW_NUL flags) (levels lx) j" using 8(5) by auto
    obtain l2 where s2: "?scan l1 = Inr l2" using lex_scan_total by blast
    have n2: "chunked l2" "depth l2 = depth lx" using lex_scan_ok [OF s2] n1 by (auto simp: same_def)
    obtain l3 where s3: "?scan l2 = Inr l3" using lex_scan_total by blast
    have n3: "chunked l3" "tok_ok (token l3)" "depth l3 = depth lx" "levels l3 = levels lx"
      using lex_scan_ok [OF s3] n2 by (auto simp: same_def levels_def)
    have "token l2 = TOKEN_CHAR (CHR '','') \<Longrightarrow> built ?Q (depth lx) (array_loop fuel flags real_of (arr @ [v]) l3)"
      using 8(2) [OF t p refl refl s2 _ s3 n3(1,2)] n3(3,4) m by simp
    with m n2 show ?thesis by (simp add: array_loop.simps(2) t s2 p s3)
  next
    case False
    then show ?thesis
      by (cases "parse_value (Suc fuel) flags real_of lx") (auto simp: array_loop.simps(2) split: option.split)
  qed
qed

lemma load_bytes_ok: "load_bytes flags rf s = Inr (Some v, err) \<Longrightarrow> json_ok (JSON_ALLOW_NUL flags) JSON_PARSER_MAX_DEPTH v"
proof -
  assume r: "load_bytes flags rf s = Inr (Some v, err)"
  define lx where "lx = (lex_init s :: 'a lex)\<lparr>depth := 0\<rparr>"
  let ?scan = "lex_scan (JSON_DECODE_INT_AS_REAL flags) rf"
  have ch: "chunked lx" "depth lx = 0" by (simp_all add: lx_def lex_init_def chunked_def)
  obtain l1 where s1: "?scan lx = Inr l1" using lex_scan_total by blast
  have n1: "chunked l1" "tok_ok (token l1)" "depth l1 = 0" using lex_scan_ok [OF s1 ch(1)] ch by (simp_all add: same_def)
  from r obtain l2 where "parse_value (length s + 1) flags rf l1 = Inr (Some v, l2)"
    using s1 unfolding lx_def
    by (cases "parse_value (length s + 1) flags rf l1")
      (auto simp: load_bytes_def parse_json_def fail_def bind_ub_Inr Let_def map_sum_Inr split: option.splits if_splits)
  with parser_ok(1) [OF n1(1,2), of flags "length s + 1" rf] show ?thesis by (simp add: built_def levels_def n1)
qed

text \<open>
  C8. A document that has been loaded is well formed: its strings and keys are valid UTF-8, without a null byte unless the flags allow it (never in a key), its
  integers fit in 64 bits, the keys of an object differ, and it has at most 2048 levels.
\<close>

theorem json_load_well_formed:
  "json_loadb flags real_of buffer = Inr (Some v, err) \<Longrightarrow> json_ok (JSON_ALLOW_NUL flags) JSON_PARSER_MAX_DEPTH v"
  by (cases buffer) (simp_all add: json_loadb_def load_bytes_ok)

text \<open>The text \<open>{"a":[1],"b":"x"}\<close>.\<close>

definition sample :: "byte list" where
  "sample = (let q = [CHR 0x22] in ''{'' @ q @ ''a'' @ q @ '':[1],'' @ q @ ''b'' @ q @ '':'' @ q @ ''x'' @ q @ ''}'')"

definition sample_doc :: "unit json_t" where
  "sample_doc = J_Object [(''a'', J_Array [J_Integer 1]), (''b'', J_String ''x'')]"

lemma sample_loads: "\<exists>err. json_loadb flags0 (\<lambda>_. None) (Some sample) = Inr (Some sample_doc, err)"
proof -
  have "map_sum id fst (json_loadb flags0 (\<lambda>_. None) (Some sample)) = Inr (Some sample_doc)" by code_simp
  then show ?thesis by (cases "json_loadb flags0 (\<lambda>_. None :: unit option) (Some sample)") auto
qed

theorem json_load_well_formed_witness: "json_ok False 2048 sample_doc"
proof -
  from sample_loads obtain err where "json_loadb flags0 (\<lambda>_. None) (Some sample) = Inr (Some sample_doc, err)" by blast
  from json_load_well_formed [OF this] show ?thesis by (simp add: flags0_def JSON_PARSER_MAX_DEPTH_def)
qed

end
