(* ===== verification/Spec2Isabelle.thy ===== *)
theory Spec2Isabelle
  imports Prelude Strings Arrays Cqueue HeaderTokens Memory Chunked Inet Router HttpPorts Acceptor HttpLife Ipc Shm JsonDoc
begin

text \<open>
  A verification development for pg\_rest, a PostgreSQL extension that runs an HTTP server in
  background workers. The C sources are below \<^verbatim>\<open>src/\<close>; file names here are relative to it.

  \<^bold>\<open>The program.\<close> At start-up (\<^verbatim>\<open>src/pg_rest.c\<close>) the JSON configuration (a text, \<^verbatim>\<open>jansson/\<close>) is read into settings, servers, paths and
  listeners (\<^verbatim>\<open>src/pg_rest_conf.c\<close>); the paths of a server form a radix tree (\<^verbatim>\<open>src/pg_rest_rtree.c\<close>); the
  servers are grouped by port and address and get their listening sockets (\<^verbatim>\<open>src/pg_rest_http.c\<close>,
  \<^verbatim>\<open>src/pg_rest_listener.c\<close>). Each worker takes connections from a pool (\<^verbatim>\<open>src/pg_rest_conn.c\<close>), shares the
  listening sockets with the other workers under an accept mutex (\<^verbatim>\<open>src/pg_rest_acceptor.c\<close>,
  \<^verbatim>\<open>src/pg_rest_worker.c\<close>), and reads, parses and finishes requests in event handlers
  (\<^verbatim>\<open>src/pg_rest_http_v1.c\<close>, \<^verbatim>\<open>src/pg_rest_http_request.c\<close>) with the parser of \<^verbatim>\<open>picohttpparser/\<close>. The processes share
  segments of memory (\<^verbatim>\<open>src/pg_rest_shm.c\<close>, \<^verbatim>\<open>src/pg_rest_slab.c\<close>) and send each other one-byte messages (\<^verbatim>\<open>src/pg_rest_ipc.c\<close>).

  \<^bold>\<open>Conventions.\<close> An operation that may run into undefined behaviour of C returns \<open>'a run\<close>, a sum of the
  undefined behaviours of \<open>Prelude\<close> and the result, so that a null dereference, an access out of
  bounds, an overflow, a loop that does not end or an access to freed memory is a value that
  theorems can exclude or exhibit. State is passed explicitly as records; 64-bit unsigned arithmetic
  wraps where the code relies on it (\<open>uadd\<close>, \<open>usub\<close>, \<open>umul\<close>, or machine words). PostgreSQL, libevent, the
  resolver and the system calls are parameters: functions or lists of answers.

  \<^bold>\<open>The theories.\<close>
  \<^item> \<open>Prelude\<close>: return codes, runs, bytes, unsigned arithmetic, generic lemmas.
  \<^item> \<open>Strings\<close> (\<^verbatim>\<open>pg_rest_string.c\<close>), \<open>Alloc\<close> (\<^verbatim>\<open>pg_rest_util.c\<close>), \<open>Arrays\<close> (\<^verbatim>\<open>pg_rest_array.c\<close>), \<open>Cqueue\<close>
    (\<^verbatim>\<open>pg_rest_cqueue.c\<close>): the number parsers accept exactly the numbers that fit; the array
    is a list under every growth; the ring refines a bounded list (locale with an interpretation).
  \<^item> \<open>Memory\<close> (\<^verbatim>\<open>pg_rest_memory.c\<close>): buffers and chains; reserving room keeps data and well-formedness.
    The doubling loop has fuel 65: after 64 doublings a 64-bit capacity is 0 and stays 0, so 65
    rounds decide whether the loop ends, and it does for a non-empty buffer below \<open>2 ^ 62\<close> bytes.
  \<^item> \<open>HeaderTokens\<close> (\<^verbatim>\<open>pg_rest_http_header.c\<close>): the decision tree equals the search in the table.
  \<^item> \<open>Chunked\<close>, \<open>HttpParser\<close>, \<open>HttpHead\<close> (\<^verbatim>\<open>picohttpparser.c\<close>): decoding undoes encoding, also in pieces; a printed
    request head is parsed back; the parser stays inside its buffer; its two builds agree; its
    guard against slow clients changes nothing. The contract of a parser is \<open>good_at\<close>.
  \<^item> \<open>Inet\<close> (\<^verbatim>\<open>pg_rest_inet.c\<close>): text of IPv4 and IPv6 addresses and URLs.
  \<^item> \<open>Rtree\<close>, \<open>RoutingAdd\<close>, \<open>Routing\<close>, \<open>Router\<close> (\<^verbatim>\<open>pg_rest_rtree.c\<close>): the tree refines a list of patterns: a lookup
    returns exactly the handler and parameters of the accepted pattern that matches.
  \<^item> \<open>ConfTypes\<close>, \<open>Conf\<close>, \<open>ConfInv\<close> (\<^verbatim>\<open>pg_rest_conf.c\<close>), \<open>Upstream\<close> (\<^verbatim>\<open>pg_rest_http_upstream.c\<close>), \<open>HttpHandlers\<close> (\<^verbatim>\<open>handler/\<close>):
    the directives, and that an accepted document gives settings in their ranges.
  \<^item> \<open>Listener\<close>, \<open>HttpInit\<close>, \<open>HttpPorts\<close> (\<^verbatim>\<open>pg_rest_listener.c\<close>, \<^verbatim>\<open>pg_rest_http.c\<close>): ports and addresses refine the
    configured pairs, every address gets a listener, no descriptor is lost.
  \<^item> \<open>Conn\<close> (\<^verbatim>\<open>pg_rest_conn.c\<close>, \<^verbatim>\<open>pg_rest_event.c\<close>): the pool of connections accounts for all of them.
  \<^item> \<open>Acceptor\<close> (\<^verbatim>\<open>pg_rest_acceptor.c\<close>, \<^verbatim>\<open>pg_rest_worker.c\<close>): workers as interleaved step sequences; the accept
    mutex has one owner in regular runs (locale of a lock protocol, interpreted on the
    workers), and two after a worker ran out of descriptors.
  \<^item> \<open>HttpV1\<close>, \<open>HttpServe\<close>, \<open>HttpLife\<close> (\<^verbatim>\<open>pg_rest_http_v1.c\<close>, \<^verbatim>\<open>pg_rest_http_request.c\<close>): the life of a request. The
    loops of the handlers are total, measured by the input that is left; the loop of the
    lingering close has fuel for one round per answer and byte left. Every handler of a
    connection returns and stays inside its buffer, for any input and any answers.
  \<^item> \<open>Slab\<close>, \<open>SlabPages\<close>, \<open>SlabFree\<close>, \<open>SlabClient\<close> (\<^verbatim>\<open>pg_rest_slab.c\<close>): the allocator of shared memory on machine words. The page structures
    and the free list describe a division of the pool into runs (\<open>pool_inv\<close>), which taking and giving back keep, so that blocks of more
    than half a page never overlap and everything is joined again when it is back. The lists have at most
    one entry per page, so the bound on their loops is never reached. For chunks of less than half a page the operations are modelled, and
    only the part of their work on whole pages is covered by the lemmas.
  \<^item> \<open>Shm\<close> (\<^verbatim>\<open>pg_rest_shm.c\<close>, the order of \<^verbatim>\<open>pg_rest.c\<close>): named segments, what is requested and what is placed.
  \<^item> \<open>Ipc\<close> (\<^verbatim>\<open>pg_rest_ipc.c\<close>): messages between workers leave in order, if the event loop called the write handler, which it
    never does.

  \<^item> \<open>JsonUtf\<close>, \<open>JsonLoad\<close>, \<open>JsonParse\<close> (\<^verbatim>\<open>jansson/src/utf.c\<close>, \<^verbatim>\<open>load.c\<close>, \<^verbatim>\<open>error.c\<close>): how the text of the configuration file becomes the document
    that \<open>Conf\<close> reads: the check of UTF-8, the stream of bytes, the lexer and the recursive parser, with their messages. \<open>JsonSafe\<close>, \<open>JsonStr\<close> and
    \<open>JsonRet\<close> show that the reader returns on every input (every token consumes a byte, so a parser with fuel for the length of the text and one more
    never runs out) and that its decoder of strings stays in the text; \<open>JsonType\<close>, \<open>JsonOk\<close> and \<open>JsonDoc\<close> that what it builds is well formed.
    \<^verbatim>\<open>strtod\<close> is a parameter; positions are unbounded numbers, and no message of the lexer is long enough to be cut.

  \<^bold>\<open>Not modelled.\<close> Of the JSON library in \<^verbatim>\<open>jansson/\<close> the writer, the builders from formats, reference counts and the buckets of the
  hash table (an object is a list in the order of insertion), HTTP/2, TLS and the
  functions that serve requests (empty in the sources), memory contexts of PostgreSQL, libevent,
  registration of workers, signals, statistics, logging and the printing of settings (interfaces
  without logic of their own).
\<close>

end
